(* ===== verification/Prelude.thy ===== *)
theory Prelude
  imports Main "HOL-Library.Word"
begin

text \<open>
  Shared vocabulary of the development: names for the machine integer types of the C++ code,
  byte strings, and the generic facts about bytes and lists that several component theories use.
\<close>

unbundle bit_operations_syntax

section \<open>Machine integers and byte strings\<close>

text \<open>\<^verbatim>\<open>uint8_t\<close>, \<^verbatim>\<open>uint16_t\<close>, \<^verbatim>\<open>uint32_t\<close> and \<^verbatim>\<open>uint64_t\<close> (also \<^verbatim>\<open>size_t\<close>, the code targets LP64).\<close>

type_synonym u8 = "8 word"
type_synonym u16 = "16 word"
type_synonym u32 = "32 word"
type_synonym u64 = "64 word"

text \<open>A read or a write outside the memory an operation was given.\<close>

datatype fault = OutOfBounds

text \<open>The bytes of an ASCII string literal.\<close>

definition ascii :: "string \<Rightarrow> u8 list" where
  "ascii s = map of_char s"

lemma length_ascii [simp]: "length (ascii s) = length s"
  by (simp add: ascii_def)

section \<open>Generic lemmas\<close>

named_theorems byte_simps \<open>facts that evaluate or normalise byte-level expressions\<close>

text \<open>Two bytes are equal when their eight bits are.\<close>

lemma word8_eqI:
  fixes x y :: u8
  assumes "bit x 0 = bit y 0" "bit x 1 = bit y 1" "bit x 2 = bit y 2" "bit x 3 = bit y 3"
    "bit x 4 = bit y 4" "bit x 5 = bit y 5" "bit x 6 = bit y 6" "bit x 7 = bit y 7"
  shows "x = y"
proof (rule bit_word_eqI)
  fix n assume "n < LENGTH(8)"
  then have "n \<in> {0,1,2,3,4,5,6,7}" by auto
  then show "bit x n = bit y n" using assms by auto
qed

lemma word16_eqI:
  fixes x y :: u16
  assumes "bit x 0 = bit y 0" "bit x 1 = bit y 1" "bit x 2 = bit y 2" "bit x 3 = bit y 3"
    "bit x 4 = bit y 4" "bit x 5 = bit y 5" "bit x 6 = bit y 6" "bit x 7 = bit y 7"
    "bit x 8 = bit y 8" "bit x 9 = bit y 9" "bit x 10 = bit y 10" "bit x 11 = bit y 11"
    "bit x 12 = bit y 12" "bit x 13 = bit y 13" "bit x 14 = bit y 14" "bit x 15 = bit y 15"
  shows "x = y"
proof (rule bit_word_eqI)
  fix n assume "n < LENGTH(16)"
  then have "n < 16" by simp
  then have "n \<in> {0,1,2,3,4,5,6,7,8,9,10,11,12,13,14,15}" unfolding insert_iff empty_iff by arith
  then show "bit x n = bit y n" using assms by auto
qed

text \<open>The bits of a small word.\<close>

lemma word_bit_less: "(c :: 'a::len word) < 2 ^ k \<Longrightarrow> bit c n \<Longrightarrow> n < k"
  by (metis bit_take_bit_iff less_mask_eq take_bit_eq_mask and_mask_lt_2p leI nat_less_le)

lemma unat_drop_bit_div: "unat (drop_bit n w) = unat (w :: 'a::len word) div 2 ^ n"
  by (simp only: unsigned_drop_bit_eq) (simp add: drop_bit_eq_div take_bit_nat_eq_self)

lemma u8_bit_beyond [simp]: "8 \<le> n \<Longrightarrow> \<not> bit (w :: u8) n"
  using bit_imp_le_length [of w n] by auto

text \<open>A check over all table indices below a bound, applied to a word.\<close>

lemma table_check: "\<forall>k<n. P k \<Longrightarrow> unat w < n \<Longrightarrow> P (unat w)"
  by blast

lemma unat_u8_less [simp]: "unat (w :: u8) < 256"
  using unsigned_less [of w, where ?'a = nat] by simp

lemma unat_and_mask: "unat ((w :: 'a::len word) AND mask n) = unat w mod 2 ^ n"
  by (metis take_bit_eq_mask unsigned_take_bit_eq take_bit_eq_mod)

lemma unat_mask_less: "unat m < n \<Longrightarrow> unat ((w :: 'a::len word) AND m) < n"
  by (meson le_less_trans word_and_le1 word_le_nat_alt)

text \<open>Quantification over an initial segment, by evaluation.\<close>

lemma all_less_list_all [code_unfold]: "(\<forall>k<n. P k) \<longleftrightarrow> list_all P [0..<n]"
  by (auto simp: list_all_iff)

text \<open>Indexing the table of all pairs, row by row.\<close>

lemma nth_pair_table:
  "k < length xs * n \<Longrightarrow> length ys = n \<Longrightarrow>
   concat (map (\<lambda>x. map (\<lambda>y. [x, y]) ys) xs) ! k = [xs ! (k div n), ys ! (k mod n)]"
proof (induction xs arbitrary: k)
  case Nil
  then show ?case by simp
next
  case (Cons x xs)
  show ?case
  proof (cases "k < n")
    case True
    with Cons.prems show ?thesis by (simp add: nth_append)
  next
    case False
    with Cons.prems have n: "0 < n" by (cases n) auto
    from False Cons.prems have "k - n < length xs * n" by simp
    with Cons.IH Cons.prems have
      "concat (map (\<lambda>x. map (\<lambda>y. [x, y]) ys) xs) ! (k - n) = [xs ! ((k - n) div n), ys ! ((k - n) mod n)]"
      by blast
    moreover have "k div n = Suc ((k - n) div n)" "k mod n = (k - n) mod n"
      using False n by (simp_all add: le_div_geq le_mod_geq)
    ultimately show ?thesis
      using False Cons.prems by (simp add: nth_append)
  qed
qed

text \<open>The two nibbles of a byte, as numbers and as bits.\<close>

lemma nibbles_join:
  "push_bit 4 (of_nat (unat x div 16)) OR of_nat (unat x mod 16) = (x :: u8)"
proof -
  have "unat (drop_bit 4 x) = unat x div 16" "unat (take_bit 4 x) = unat x mod 16"
    by (simp_all only: unsigned_drop_bit_eq unsigned_take_bit_eq) (simp_all add: drop_bit_eq_div take_bit_eq_mod)
  moreover have "of_nat (unat (drop_bit 4 x)) = drop_bit 4 x" "of_nat (unat (take_bit 4 x)) = take_bit 4 x"
    by (simp_all only: of_nat_unat ucast_id)
  ultimately have hi: "(of_nat (unat x div 16) :: u8) = drop_bit 4 x"
    and lo: "(of_nat (unat x mod 16) :: u8) = take_bit 4 x"
    by simp_all
  show ?thesis
    unfolding hi lo by (rule word8_eqI) (simp_all add: bit_simps)
qed

lemma map_nth_upt: "length xs = n \<Longrightarrow> map (\<lambda>i. f (xs ! i)) [0..<n] = map f xs"
  by (auto intro: nth_equalityI)

section \<open>Cutting a list into blocks\<close>

text \<open>The full blocks of \<open>n\<close> elements at the front of a list; a shorter rest is dropped.\<close>

function full_blocks :: "nat \<Rightarrow> 'a list \<Rightarrow> 'a list list" where
  "full_blocks n xs = (if n = 0 \<or> length xs < n then [] else take n xs # full_blocks n (drop n xs))"
  by pat_completeness auto
termination
  by (relation "measure (\<lambda>(n, xs). length xs)") auto

declare full_blocks.simps [simp del]

lemma full_blocks_short: "length xs < n \<Longrightarrow> full_blocks n xs = []"
  by (simp add: full_blocks.simps)

lemma full_blocks_one: "length xs = n \<Longrightarrow> 0 < n \<Longrightarrow> full_blocks n xs = [xs]"
  by (simp add: full_blocks.simps [of n xs] full_blocks_short)

lemma full_blocks_append:
  assumes "n dvd length xs"
  shows "full_blocks n (xs @ ys) = full_blocks n xs @ full_blocks n ys"
  using assms
proof (induction n xs rule: full_blocks.induct)
  case (1 n xs)
  show ?case
  proof (cases "n = 0 \<or> length xs < n")
    case True
    with "1.prems" have "n = 0 \<or> xs = []" by (auto dest: dvd_imp_le)
    then show ?thesis
    proof
      assume "n = 0"
      then show ?thesis by (simp add: full_blocks.simps [of 0])
    next
      assume "xs = []"
      then show ?thesis by (cases "n = 0") (simp_all add: full_blocks.simps [of 0] full_blocks_short)
    qed
  next
    case False
    with "1.prems" have "n dvd length (drop n xs)" by (simp add: dvd_diff_nat)
    with False "1.IH" show ?thesis
      by (simp add: full_blocks.simps [of n xs] full_blocks.simps [of n "xs @ ys"])
  qed
qed

end
