(* ===== verification/Base64.thy ===== *)
theory Base64
  imports Prelude
begin

text \<open>
  Models \<^verbatim>\<open>common/string/SPBase64.cc\<close>: the base64 and base64url encoders, the shared base64
  decoder and the base16 coder. A \<^verbatim>\<open>CoderSource\<close> is the list of its bytes; the callback that
  receives the output is the returned list of bytes.
\<close>

section \<open>Base64\<close>

definition base64EncodeLookup :: "u8 list" where
  "base64EncodeLookup = ascii ''ABCDEFGHIJKLMNOPQRSTUVWXYZabcdefghijklmnopqrstuvwxyz0123456789+/''"

definition base64urlEncodeLookup :: "u8 list" where
  "base64urlEncodeLookup = ascii ''ABCDEFGHIJKLMNOPQRSTUVWXYZabcdefghijklmnopqrstuvwxyz0123456789-_''"

text \<open>The value \<^verbatim>\<open>xx\<close> of the decode table: a character that is not part of the alphabet.\<close>

definition b64_xx :: u8 where "b64_xx = 65"

definition base64DecodeLookup :: "u8 list" where
  "base64DecodeLookup = (let xx = b64_xx in [
    xx, xx, xx, xx, xx, xx, xx, xx, xx, xx, xx, xx, xx, xx, xx, xx,
    xx, xx, xx, xx, xx, xx, xx, xx, xx, xx, xx, xx, xx, xx, xx, xx,
    xx, xx, xx, xx, xx, xx, xx, xx, xx, xx, xx, 62, xx, 62, xx, 63,
    52, 53, 54, 55, 56, 57, 58, 59, 60, 61, xx, xx, xx, xx, xx, xx,
    xx,  0,  1,  2,  3,  4,  5,  6,  7,  8,  9, 10, 11, 12, 13, 14,
    15, 16, 17, 18, 19, 20, 21, 22, 23, 24, 25, xx, xx, xx, xx, 63,
    xx, 26, 27, 28, 29, 30, 31, 32, 33, 34, 35, 36, 37, 38, 39, 40,
    41, 42, 43, 44, 45, 46, 47, 48, 49, 50, 51, xx, xx, xx, xx, xx,
    xx, xx, xx, xx, xx, xx, xx, xx, xx, xx, xx, xx, xx, xx, xx, xx,
    xx, xx, xx, xx, xx, xx, xx, xx, xx, xx, xx, xx, xx, xx, xx, xx,
    xx, xx, xx, xx, xx, xx, xx, xx, xx, xx, xx, xx, xx, xx, xx, xx,
    xx, xx, xx, xx, xx, xx, xx, xx, xx, xx, xx, xx, xx, xx, xx, xx,
    xx, xx, xx, xx, xx, xx, xx, xx, xx, xx, xx, xx, xx, xx, xx, xx,
    xx, xx, xx, xx, xx, xx, xx, xx, xx, xx, xx, xx, xx, xx, xx, xx,
    xx, xx, xx, xx, xx, xx, xx, xx, xx, xx, xx, xx, xx, xx, xx, xx,
    xx, xx, xx, xx, xx, xx, xx, xx, xx, xx, xx, xx, xx, xx, xx, xx])"

definition b64_encodeSize :: "nat \<Rightarrow> nat" where
  "b64_encodeSize l = ((l div 3) + (if l mod 3 \<noteq> 0 then 1 else 0)) * 4"

definition b64_decodeSize :: "nat \<Rightarrow> nat" where
  "b64_decodeSize l = ((l + 4 - 1) div 4) * 3"

text \<open>The four 6-bit groups of the encoder, as indices into the lookup string.\<close>

definition b64_char :: "u8 list \<Rightarrow> u8 \<Rightarrow> u8" where
  "b64_char tbl i = tbl ! unat i"

fun b64_make_encode :: "u8 list \<Rightarrow> u8 list" where
  "b64_make_encode (a # b # c # rest) =
     [b64_char base64EncodeLookup (drop_bit 2 (a AND 0xFC)),
      b64_char base64EncodeLookup (push_bit 4 (a AND 0x03) OR drop_bit 4 (b AND 0xF0)),
      b64_char base64EncodeLookup (push_bit 2 (b AND 0x0F) OR drop_bit 6 (c AND 0xC0)),
      b64_char base64EncodeLookup (c AND 0x3F)] @ b64_make_encode rest"
| "b64_make_encode [a, b] =
     [b64_char base64EncodeLookup (drop_bit 2 (a AND 0xFC)),
      b64_char base64EncodeLookup (push_bit 4 (a AND 0x03) OR drop_bit 4 (b AND 0xF0)),
      b64_char base64EncodeLookup (push_bit 2 (b AND 0x0F)),
      of_char CHR ''='']"
| "b64_make_encode [a] =
     [b64_char base64EncodeLookup (drop_bit 2 (a AND 0xFC)),
      b64_char base64EncodeLookup (push_bit 4 (a AND 0x03)),
      of_char CHR ''='', of_char CHR ''='']"
| "b64_make_encode [] = []"

fun b64url_make_encode :: "u8 list \<Rightarrow> u8 list" where
  "b64url_make_encode (a # b # c # rest) =
     [b64_char base64urlEncodeLookup (drop_bit 2 (a AND 0xFC)),
      b64_char base64urlEncodeLookup (push_bit 4 (a AND 0x03) OR drop_bit 4 (b AND 0xF0)),
      b64_char base64urlEncodeLookup (push_bit 2 (b AND 0x0F) OR drop_bit 6 (c AND 0xC0)),
      b64_char base64urlEncodeLookup (c AND 0x3F)] @ b64url_make_encode rest"
| "b64url_make_encode [a, b] =
     [b64_char base64urlEncodeLookup (drop_bit 2 (a AND 0xFC)),
      b64_char base64urlEncodeLookup (push_bit 4 (a AND 0x03) OR drop_bit 4 (b AND 0xF0)),
      b64_char base64urlEncodeLookup (push_bit 2 (b AND 0x0F))]"
| "b64url_make_encode [a] =
     [b64_char base64urlEncodeLookup (drop_bit 2 (a AND 0xFC)),
      b64_char base64urlEncodeLookup (push_bit 4 (a AND 0x03))]"
| "b64url_make_encode [] = []"

text \<open>
  The decoder: the inner loop collects up to four valid characters and skips everything else,
  the outer loop emits the bytes of each group.
\<close>

fun b64_accumulate :: "u8 list \<Rightarrow> u8 list \<Rightarrow> u8 list \<times> u8 list" where
  "b64_accumulate acc [] = (acc, [])"
| "b64_accumulate acc (x # xs) =
     (let decode = base64DecodeLookup ! unat x in
      if decode \<noteq> b64_xx
      then (let acc' = acc @ [decode] in
            if length acc' = 4 then (acc', xs) else b64_accumulate acc' xs)
      else b64_accumulate acc xs)"

definition b64_emit :: "u8 list \<Rightarrow> u8 list" where
  "b64_emit acc =
     (if length acc \<ge> 2 then [push_bit 2 (acc ! 0) OR drop_bit 4 (acc ! 1)] else [])
   @ (if length acc \<ge> 3 then [push_bit 4 (acc ! 1) OR drop_bit 2 (acc ! 2)] else [])
   @ (if length acc \<ge> 4 then [push_bit 6 (acc ! 2) OR acc ! 3] else [])"

lemma b64_accumulate_shorter: "length (snd (b64_accumulate acc xs)) \<le> length xs"
  by (induction acc xs rule: b64_accumulate.induct) (auto simp: Let_def intro: le_SucI)

lemma b64_accumulate_progress: "xs \<noteq> [] \<Longrightarrow> length (snd (b64_accumulate acc xs)) < length xs"
  using b64_accumulate_shorter by (cases xs) (auto simp: Let_def le_imp_less_Suc)

function b64_make_decode :: "u8 list \<Rightarrow> u8 list" where
  "b64_make_decode xs =
     (if xs = [] then []
      else (let r = b64_accumulate [] xs in b64_emit (fst r) @ b64_make_decode (snd r)))"
  by pat_completeness auto
termination
  by (relation "measure length") (auto simp: b64_accumulate_progress)

declare b64_make_decode.simps [simp del]

subsection \<open>The tables invert each other\<close>

lemma b64_tables: "\<forall>k<64. base64DecodeLookup ! unat (base64EncodeLookup ! k) = of_nat k"
  by code_simp

lemma b64url_tables: "\<forall>k<64. base64DecodeLookup ! unat (base64urlEncodeLookup ! k) = of_nat k"
  by code_simp

lemma b64_xx_tables: "\<forall>k<64. (of_nat k :: u8) \<noteq> b64_xx"
  by code_simp


text \<open>Both alphabets share the decoder: the law a lookup string must satisfy, and what follows.\<close>

locale b64_alphabet =
  fixes tbl :: "u8 list"
  assumes decodes: "unat w < 64 \<Longrightarrow> base64DecodeLookup ! unat (b64_char tbl w) = w"
begin

lemma valid: "unat w < 64 \<Longrightarrow> base64DecodeLookup ! unat (b64_char tbl w) \<noteq> b64_xx"
  using decodes [of w] by (auto simp: b64_xx_def)

lemma code_neq_xx: "unat w < 64 \<Longrightarrow> w \<noteq> b64_xx"
  by (auto simp: b64_xx_def)

lemma decode_quad:
  assumes "unat p < 64" "unat q < 64" "unat r < 64" "unat s < 64"
  shows "b64_make_decode (b64_char tbl p # b64_char tbl q # b64_char tbl r # b64_char tbl s # rest)
       = b64_emit [p, q, r, s] @ b64_make_decode rest"
  using assms by (subst b64_make_decode.simps) (simp add: Let_def code_neq_xx decodes)

lemma decode_pad:
  assumes "\<forall>x\<in>set pad. base64DecodeLookup ! unat x = b64_xx"
  shows "b64_accumulate acc pad = (acc, [])"
  using assms by (induction pad) simp_all

lemma decode_three:
  assumes "unat p < 64" "unat q < 64" "unat r < 64"
    and "\<forall>x\<in>set pad. base64DecodeLookup ! unat x = b64_xx"
  shows "b64_make_decode (b64_char tbl p # b64_char tbl q # b64_char tbl r # pad) = b64_emit [p, q, r]"
  using assms
  by (subst b64_make_decode.simps) (simp add: Let_def code_neq_xx decodes decode_pad b64_make_decode.simps)

lemma decode_two:
  assumes "unat p < 64" "unat q < 64"
    and "\<forall>x\<in>set pad. base64DecodeLookup ! unat x = b64_xx"
  shows "b64_make_decode (b64_char tbl p # b64_char tbl q # pad) = b64_emit [p, q]"
  using assms
  by (subst b64_make_decode.simps) (simp add: Let_def code_neq_xx decodes decode_pad b64_make_decode.simps)

end

lemma b64_decodes:
  assumes "\<forall>k<64. base64DecodeLookup ! unat (tbl ! k) = of_nat k" and "unat (w :: u8) < 64"
  shows "base64DecodeLookup ! unat (b64_char tbl w) = w"
  using assms by (simp add: b64_char_def)

interpretation b64: b64_alphabet base64EncodeLookup
  by unfold_locales (rule b64_decodes [OF b64_tables])

interpretation b64url: b64_alphabet base64urlEncodeLookup
  by unfold_locales (rule b64_decodes [OF b64url_tables])

lemma b64_pad_invalid: "base64DecodeLookup ! 61 = b64_xx"
  by code_simp

lemma b64_group0: "unat (drop_bit 2 ((a :: u8) AND 0xFC)) < 64"
proof -
  have "drop_bit 2 (a AND 0xFC) = drop_bit 2 a AND 0x3F"
    by (rule word8_eqI) (simp_all add: bit_simps)
  then show ?thesis by (simp add: unat_mask_less)
qed

lemma b64_group1: "unat (push_bit 4 ((a :: u8) AND 0x03) OR drop_bit 4 (b AND 0xF0)) < 64"
proof -
  have "push_bit 4 (a AND 0x03) OR drop_bit 4 (b AND 0xF0)
      = (push_bit 4 a OR drop_bit 4 b) AND 0x3F"
    by (rule word8_eqI) (simp_all add: bit_simps)
  then show ?thesis by (simp add: unat_mask_less)
qed

lemma b64_group1': "unat (push_bit 4 ((a :: u8) AND 0x03)) < 64"
  using b64_group1 [of a 0] by simp

lemma b64_group2: "unat (push_bit 2 ((b :: u8) AND 0x0F) OR drop_bit 6 (c AND 0xC0)) < 64"
proof -
  have "push_bit 2 (b AND 0x0F) OR drop_bit 6 (c AND 0xC0)
      = (push_bit 2 b OR drop_bit 6 c) AND 0x3F"
    by (rule word8_eqI) (simp_all add: bit_simps)
  then show ?thesis by (simp add: unat_mask_less)
qed

lemma b64_group2': "unat (push_bit 2 ((b :: u8) AND 0x0F)) < 64"
  using b64_group2 [of b 0] by simp

lemma b64_group3: "unat ((c :: u8) AND 0x3F) < 64"
  by (simp add: unat_mask_less)

lemmas b64_groups = b64_group0 b64_group1 b64_group1' b64_group2 b64_group2' b64_group3

text \<open>Emitting the groups of one, two and three bytes gives the bytes back.\<close>

lemma b64_emit_three:
  "b64_emit [drop_bit 2 (a AND 0xFC), push_bit 4 (a AND 0x03) OR drop_bit 4 (b AND 0xF0),
     push_bit 2 (b AND 0x0F) OR drop_bit 6 (c AND 0xC0), c AND 0x3F] = [a, b, c]"
  by (simp add: b64_emit_def) (intro conjI; rule word8_eqI; simp add: bit_simps)

lemma b64_emit_two:
  "b64_emit [drop_bit 2 (a AND 0xFC), push_bit 4 (a AND 0x03) OR drop_bit 4 (b AND 0xF0),
     push_bit 2 (b AND 0x0F)] = [a, b]"
  by (simp add: b64_emit_def) (intro conjI; rule word8_eqI; simp add: bit_simps)

lemma b64_emit_one:
  "b64_emit [drop_bit 2 (a AND 0xFC), push_bit 4 (a AND 0x03)] = [a]"
  by (simp add: b64_emit_def) (rule word8_eqI; simp add: bit_simps)

lemmas b64_emits = b64_emit_three b64_emit_two b64_emit_one

section \<open>Properties of base64\<close>

lemma b64_roundtrip: "b64_make_decode (b64_make_encode xs) = xs"
  by (induction xs rule: b64_make_encode.induct)
    (simp_all add: b64.decode_quad b64.decode_three b64.decode_two b64_groups b64_emits
      b64_pad_invalid b64_make_decode.simps [of "[]"] del: drop_bit_and push_bit_and)

lemma b64url_roundtrip: "b64_make_decode (b64url_make_encode xs) = xs"
  by (induction xs rule: b64url_make_encode.induct)
    (simp_all add: b64url.decode_quad b64url.decode_three [where pad = "[]", simplified] b64url.decode_two [where pad = "[]", simplified]
      b64_groups b64_emits b64_make_decode.simps [of "[]"] del: drop_bit_and push_bit_and)

lemma b64_length: "length (b64_make_encode xs) = b64_encodeSize (length xs)"
  by (induction xs rule: b64_make_encode.induct) (auto simp: b64_encodeSize_def div_add_self1 mod_Suc)

lemma b64url_length:
  "length (b64url_make_encode xs) = (4 * length xs + 2) div 3"
  by (induction xs rule: b64url_make_encode.induct) simp_all

text \<open>The decoder skips every character outside the alphabet (line breaks, padding, spaces).\<close>

definition b64_valid_char :: "u8 \<Rightarrow> bool" where
  "b64_valid_char x \<longleftrightarrow> base64DecodeLookup ! unat x \<noteq> b64_xx"

lemma b64_accumulate_filter:
  "b64_accumulate acc (filter b64_valid_char xs)
   = (fst (b64_accumulate acc xs), filter b64_valid_char (snd (b64_accumulate acc xs)))"
  by (induction acc xs rule: b64_accumulate.induct) (simp_all add: Let_def b64_valid_char_def)

lemma b64_accumulate_none:
  "filter b64_valid_char xs = [] \<Longrightarrow> b64_accumulate [] xs = ([], [])"
  using b64_accumulate_filter [of "[]" xs]
  by (induction xs) (auto simp: Let_def b64_valid_char_def split: if_splits)

lemma b64_decode_skips: "b64_make_decode (filter b64_valid_char xs) = b64_make_decode xs"
proof (induction xs rule: b64_make_decode.induct)
  case (1 xs)
  show ?case
  proof (cases "filter b64_valid_char xs = []")
    case True
    then show ?thesis
      by (simp add: b64_make_decode.simps [of xs] b64_make_decode.simps [of "[]"]
          b64_accumulate_none b64_emit_def)
  next
    case False
    then have "xs \<noteq> []" by auto
    with "1" False show ?thesis
      by (simp add: b64_make_decode.simps [of xs] Let_def
          b64_make_decode.simps [of "filter b64_valid_char xs"] b64_accumulate_filter)
  qed
qed

text \<open>
  The public coders differ only in where the callback puts its character (\<^verbatim>\<open>push_back\<close> on a pool
  or standard string, a stream, the caller's callback): the output grows at its end.
\<close>

definition b64_encode :: "u8 list \<Rightarrow> u8 list" where
  "b64_encode source = fold (\<lambda>c output. output @ [c]) (b64_make_encode source) []"

definition b64url_encode :: "u8 list \<Rightarrow> u8 list" where
  "b64url_encode source = fold (\<lambda>c output. output @ [c]) (b64url_make_encode source) []"

definition b64_decode :: "u8 list \<Rightarrow> u8 list" where
  "b64_decode source = fold (\<lambda>c output. output @ [c]) (b64_make_decode source) []"

lemma fold_push_back: "fold (\<lambda>c output. output @ [c]) xs out = out @ xs"
  by (induction xs arbitrary: out) simp_all

lemmas b64_public = b64_encode_def b64url_encode_def b64_decode_def fold_push_back append_Nil

section \<open>Base16\<close>

definition s_hexTable_lower :: "string list" where
  "s_hexTable_lower = [
    ''00'', ''01'', ''02'', ''03'', ''04'', ''05'', ''06'', ''07'', ''08'', ''09'', ''0a'', ''0b'', ''0c'', ''0d'', ''0e'', ''0f'', ''10'', ''11'',
    ''12'', ''13'', ''14'', ''15'', ''16'', ''17'', ''18'', ''19'', ''1a'', ''1b'', ''1c'', ''1d'', ''1e'', ''1f'', ''20'', ''21'', ''22'', ''23'',
    ''24'', ''25'', ''26'', ''27'', ''28'', ''29'', ''2a'', ''2b'', ''2c'', ''2d'', ''2e'', ''2f'', ''30'', ''31'', ''32'', ''33'', ''34'', ''35'',
    ''36'', ''37'', ''38'', ''39'', ''3a'', ''3b'', ''3c'', ''3d'', ''3e'', ''3f'', ''40'', ''41'', ''42'', ''43'', ''44'', ''45'', ''46'', ''47'',
    ''48'', ''49'', ''4a'', ''4b'', ''4c'', ''4d'', ''4e'', ''4f'', ''50'', ''51'', ''52'', ''53'', ''54'', ''55'', ''56'', ''57'', ''58'', ''59'',
    ''5a'', ''5b'', ''5c'', ''5d'', ''5e'', ''5f'', ''60'', ''61'', ''62'', ''63'', ''64'', ''65'', ''66'', ''67'', ''68'', ''69'', ''6a'', ''6b'',
    ''6c'', ''6d'', ''6e'', ''6f'', ''70'', ''71'', ''72'', ''73'', ''74'', ''75'', ''76'', ''77'', ''78'', ''79'', ''7a'', ''7b'', ''7c'', ''7d'',
    ''7e'', ''7f'', ''80'', ''81'', ''82'', ''83'', ''84'', ''85'', ''86'', ''87'', ''88'', ''89'', ''8a'', ''8b'', ''8c'', ''8d'', ''8e'', ''8f'',
    ''90'', ''91'', ''92'', ''93'', ''94'', ''95'', ''96'', ''97'', ''98'', ''99'', ''9a'', ''9b'', ''9c'', ''9d'', ''9e'', ''9f'', ''a0'', ''a1'',
    ''a2'', ''a3'', ''a4'', ''a5'', ''a6'', ''a7'', ''a8'', ''a9'', ''aa'', ''ab'', ''ac'', ''ad'', ''ae'', ''af'', ''b0'', ''b1'', ''b2'', ''b3'',
    ''b4'', ''b5'', ''b6'', ''b7'', ''b8'', ''b9'', ''ba'', ''bb'', ''bc'', ''bd'', ''be'', ''bf'', ''c0'', ''c1'', ''c2'', ''c3'', ''c4'', ''c5'',
    ''c6'', ''c7'', ''c8'', ''c9'', ''ca'', ''cb'', ''cc'', ''cd'', ''ce'', ''cf'', ''d0'', ''d1'', ''d2'', ''d3'', ''d4'', ''d5'', ''d6'', ''d7'',
    ''d8'', ''d9'', ''da'', ''db'', ''dc'', ''dd'', ''de'', ''df'', ''e0'', ''e1'', ''e2'', ''e3'', ''e4'', ''e5'', ''e6'', ''e7'', ''e8'', ''e9'',
    ''ea'', ''eb'', ''ec'', ''ed'', ''ee'', ''ef'', ''f0'', ''f1'', ''f2'', ''f3'', ''f4'', ''f5'', ''f6'', ''f7'', ''f8'', ''f9'', ''fa'', ''fb'',
    ''fc'', ''fd'', ''fe'', ''ff'']"

definition s_hexTable_upper :: "string list" where
  "s_hexTable_upper = [
    ''00'', ''01'', ''02'', ''03'', ''04'', ''05'', ''06'', ''07'', ''08'', ''09'', ''0A'', ''0B'', ''0C'', ''0D'', ''0E'', ''0F'', ''10'', ''11'',
    ''12'', ''13'', ''14'', ''15'', ''16'', ''17'', ''18'', ''19'', ''1A'', ''1B'', ''1C'', ''1D'', ''1E'', ''1F'', ''20'', ''21'', ''22'', ''23'',
    ''24'', ''25'', ''26'', ''27'', ''28'', ''29'', ''2A'', ''2B'', ''2C'', ''2D'', ''2E'', ''2F'', ''30'', ''31'', ''32'', ''33'', ''34'', ''35'',
    ''36'', ''37'', ''38'', ''39'', ''3A'', ''3B'', ''3C'', ''3D'', ''3E'', ''3F'', ''40'', ''41'', ''42'', ''43'', ''44'', ''45'', ''46'', ''47'',
    ''48'', ''49'', ''4A'', ''4B'', ''4C'', ''4D'', ''4E'', ''4F'', ''50'', ''51'', ''52'', ''53'', ''54'', ''55'', ''56'', ''57'', ''58'', ''59'',
    ''5A'', ''5B'', ''5C'', ''5D'', ''5E'', ''5F'', ''60'', ''61'', ''62'', ''63'', ''64'', ''65'', ''66'', ''67'', ''68'', ''69'', ''6A'', ''6B'',
    ''6C'', ''6D'', ''6E'', ''6F'', ''70'', ''71'', ''72'', ''73'', ''74'', ''75'', ''76'', ''77'', ''78'', ''79'', ''7A'', ''7B'', ''7C'', ''7D'',
    ''7E'', ''7F'', ''80'', ''81'', ''82'', ''83'', ''84'', ''85'', ''86'', ''87'', ''88'', ''89'', ''8A'', ''8B'', ''8C'', ''8D'', ''8E'', ''8F'',
    ''90'', ''91'', ''92'', ''93'', ''94'', ''95'', ''96'', ''97'', ''98'', ''99'', ''9A'', ''9B'', ''9C'', ''9D'', ''9E'', ''9F'', ''A0'', ''A1'',
    ''A2'', ''A3'', ''A4'', ''A5'', ''A6'', ''A7'', ''A8'', ''A9'', ''AA'', ''AB'', ''AC'', ''AD'', ''AE'', ''AF'', ''B0'', ''B1'', ''B2'', ''B3'',
    ''B4'', ''B5'', ''B6'', ''B7'', ''B8'', ''B9'', ''BA'', ''BB'', ''BC'', ''BD'', ''BE'', ''BF'', ''C0'', ''C1'', ''C2'', ''C3'', ''C4'', ''C5'',
    ''C6'', ''C7'', ''C8'', ''C9'', ''CA'', ''CB'', ''CC'', ''CD'', ''CE'', ''CF'', ''D0'', ''D1'', ''D2'', ''D3'', ''D4'', ''D5'', ''D6'', ''D7'',
    ''D8'', ''D9'', ''DA'', ''DB'', ''DC'', ''DD'', ''DE'', ''DF'', ''E0'', ''E1'', ''E2'', ''E3'', ''E4'', ''E5'', ''E6'', ''E7'', ''E8'', ''E9'',
    ''EA'', ''EB'', ''EC'', ''ED'', ''EE'', ''EF'', ''F0'', ''F1'', ''F2'', ''F3'', ''F4'', ''F5'', ''F6'', ''F7'', ''F8'', ''F9'', ''FA'', ''FB'',
    ''FC'', ''FD'', ''FE'', ''FF'']"

definition s_decTable :: "u8 list" where
  "s_decTable = [
    0, 0, 0, 0, 0, 0, 0, 0, 0, 0, 0, 0, 0, 0, 0, 0, 0, 0, 0, 0, 0, 0, 0, 0, 0, 0, 0, 0, 0, 0, 0, 0,
    0, 0, 0, 0, 0, 0, 0, 0, 0, 0, 0, 0, 0, 0, 0, 0, 0, 1, 2, 3, 4, 5, 6, 7, 8, 9, 0, 0, 0, 0, 0, 0,
    0, 10, 11, 12, 13, 14, 15, 0, 0, 0, 0, 0, 0, 0, 0, 0, 0, 0, 0, 0, 0, 0, 0, 0, 0, 0, 0, 0, 0, 0, 0, 0,
    0, 10, 11, 12, 13, 14, 15, 0, 0, 0, 0, 0, 0, 0, 0, 0, 0, 0, 0, 0, 0, 0, 0, 0, 0, 0, 0, 0, 0, 0, 0, 0,
    0, 0, 0, 0, 0, 0, 0, 0, 0, 0, 0, 0, 0, 0, 0, 0, 0, 0, 0, 0, 0, 0, 0, 0, 0, 0, 0, 0, 0, 0, 0, 0,
    0, 0, 0, 0, 0, 0, 0, 0, 0, 0, 0, 0, 0, 0, 0, 0, 0, 0, 0, 0, 0, 0, 0, 0, 0, 0, 0, 0, 0, 0, 0, 0,
    0, 0, 0, 0, 0, 0, 0, 0, 0, 0, 0, 0, 0, 0, 0, 0, 0, 0, 0, 0, 0, 0, 0, 0, 0, 0, 0, 0, 0, 0, 0, 0,
    0, 0, 0, 0, 0, 0, 0, 0, 0, 0, 0, 0, 0, 0, 0, 0, 0, 0, 0, 0, 0, 0, 0, 0, 0, 0, 0, 0, 0, 0, 0, 0]"

definition b16_encodeSize :: "nat \<Rightarrow> nat" where
  "b16_encodeSize l = l * 2"

definition b16_decodeSize :: "nat \<Rightarrow> nat" where
  "b16_decodeSize l = l div 2"

definition charToHex :: "u8 \<Rightarrow> bool \<Rightarrow> string" where
  "charToHex c upper = (if upper then s_hexTable_upper ! unat c else s_hexTable_lower ! unat c)"

definition hexToChar1 :: "u8 \<Rightarrow> u8" where
  "hexToChar1 c = s_decTable ! unat c"

definition hexToChar :: "u8 \<Rightarrow> u8 \<Rightarrow> u8" where
  "hexToChar c d = push_bit 4 (hexToChar1 c) OR hexToChar1 d"

fun b16_encode :: "u8 list \<Rightarrow> u8 list" where
  "b16_encode [] = []"
| "b16_encode (x # xs) = ascii (s_hexTable_lower ! unat x) @ b16_encode xs"

text \<open>
  \<^verbatim>\<open>encode(char *buf, size_t bsize, ...)\<close>: writes pairs while both characters fit; the result
  is the list of bytes written from the start of the buffer, its length the returned count.
\<close>

fun b16_encode_buf :: "nat \<Rightarrow> nat \<Rightarrow> u8 list \<Rightarrow> u8 list" where
  "b16_encode_buf bsize bytes [] = []"
| "b16_encode_buf bsize bytes (x # xs) =
     (if bytes + 2 \<le> bsize
      then ascii (s_hexTable_lower ! unat x) @ b16_encode_buf bsize (bytes + 2) xs
      else [])"

text \<open>
  The decoders step by two and read \<^verbatim>\<open>source[i + 1]\<close> without a bound check: with an odd
  number of characters the last read is past the end of the source, which is \<open>None\<close> here.
\<close>

fun b16_decode :: "u8 list \<Rightarrow> u8 list option" where
  "b16_decode [] = Some []"
| "b16_decode [c] = None"
| "b16_decode (c # d # rest) =
     (case b16_decode rest of None \<Rightarrow> None
      | Some out \<Rightarrow> Some ((push_bit 4 (s_decTable ! unat c) OR s_decTable ! unat d) # out))"

fun b16_decode_buf :: "nat \<Rightarrow> nat \<Rightarrow> u8 list \<Rightarrow> u8 list option" where
  "b16_decode_buf bsize bytes [] = Some []"
| "b16_decode_buf bsize bytes [c] = (if bytes + 1 \<le> bsize then None else Some [])"
| "b16_decode_buf bsize bytes (c # d # rest) =
     (if bytes + 1 \<le> bsize
      then (case b16_decode_buf bsize (bytes + 1) rest of None \<Rightarrow> None
            | Some out \<Rightarrow> Some ((push_bit 4 (s_decTable ! unat c) OR s_decTable ! unat d) # out))
      else Some [])"

section \<open>Properties of base16\<close>

lemma hexTable_lower_rows:
  "s_hexTable_lower = concat (map (\<lambda>h. map (\<lambda>l. [h, l]) ''0123456789abcdef'') ''0123456789abcdef'')"
  by (simp add: s_hexTable_lower_def)

lemma hexTable_upper_rows:
  "s_hexTable_upper = concat (map (\<lambda>h. map (\<lambda>l. [h, l]) ''0123456789ABCDEF'') ''0123456789ABCDEF'')"
  by (simp add: s_hexTable_upper_def)

lemma hexTable_lower_nth:
  "s_hexTable_lower ! unat (x :: u8)
   = [''0123456789abcdef'' ! (unat x div 16), ''0123456789abcdef'' ! (unat x mod 16)]"
  unfolding hexTable_lower_rows by (rule nth_pair_table) simp_all

lemma hexTable_upper_nth:
  "s_hexTable_upper ! unat (x :: u8)
   = [''0123456789ABCDEF'' ! (unat x div 16), ''0123456789ABCDEF'' ! (unat x mod 16)]"
  unfolding hexTable_upper_rows by (rule nth_pair_table) simp_all

lemma decTable_digits:
  "\<forall>k<16. s_decTable ! unat (of_char (''0123456789abcdef'' ! k) :: u8) = of_nat k"
  "\<forall>k<16. s_decTable ! unat (of_char (''0123456789ABCDEF'' ! k) :: u8) = of_nat k"
  by code_simp+

lemma b16_digit_pair:
  "push_bit 4 (s_decTable ! unat (of_char (''0123456789abcdef'' ! (unat x div 16)) :: u8))
   OR s_decTable ! unat (of_char (''0123456789abcdef'' ! (unat x mod 16)) :: u8) = (x :: u8)"
proof -
  have "unat x div 16 < 16" by (simp add: less_mult_imp_div_less)
  then show ?thesis using decTable_digits(1) nibbles_join [of x] by simp
qed

lemma b16_roundtrip: "b16_decode (b16_encode xs) = Some xs"
  by (induction xs) (simp_all add: hexTable_lower_nth ascii_def b16_digit_pair)

lemma b16_roundtrip_chars: "hexToChar (of_char (charToHex c u ! 0)) (of_char (charToHex c u ! 1)) = c"
proof -
  have "unat c div 16 < 16" by (simp add: less_mult_imp_div_less)
  then show ?thesis
    using decTable_digits nibbles_join [of c]
    by (simp add: charToHex_def hexToChar_def hexToChar1_def hexTable_lower_nth hexTable_upper_nth)
qed

lemma b16_length: "length (b16_encode xs) = b16_encodeSize (length xs)"
  by (induction xs) (simp_all add: b16_encodeSize_def hexTable_lower_nth)

lemma b16_decode_defined: "b16_decode xs = None \<longleftrightarrow> odd (length xs)"
  by (induction xs rule: b16_decode.induct) (auto split: option.splits)

lemma b16_decode_length:
  "b16_decode xs = Some out \<Longrightarrow> length out = b16_decodeSize (length xs)"
  by (induction xs arbitrary: out rule: b16_decode.induct)
    (auto simp: b16_decodeSize_def split: option.splits)

lemma b16_encode_buf_prefix:
  "b16_encode_buf bsize bytes xs = take (2 * ((bsize - bytes) div 2)) (b16_encode xs)"
proof (induction bsize bytes xs rule: b16_encode_buf.induct)
  case (2 bsize bytes x xs)
  show ?case
  proof (cases "bytes + 2 \<le> bsize")
    case True
    then obtain d where "bsize = bytes + 2 + d" using le_Suc_ex by blast
    then show ?thesis using "2" by (simp add: hexTable_lower_nth ascii_def)
  next
    case False
    then have "(bsize - bytes) div 2 = 0" by auto
    with False show ?thesis by simp
  qed
qed simp

section \<open>Properties\<close>

text \<open>
  C36: base64 decoding inverts both encoders, the padded one and the unpadded base64url one, on
  every byte string, and the padded encoder writes exactly \<^verbatim>\<open>encodeSize\<close> characters.
\<close>

theorem base64_decode_encode:
  "b64_decode (b64_encode xs) = xs \<and> b64_decode (b64url_encode xs) = xs
   \<and> length (b64_encode xs) = b64_encodeSize (length xs)"
  by (simp add: b64_public b64_roundtrip b64url_roundtrip b64_length)

text \<open>
  The base64 decoder ignores every character outside its alphabets, wherever it stands: two
  texts with the same alphabet characters decode to the same bytes.
\<close>

theorem base64_decode_lenient:
  assumes "filter b64_valid_char xs = filter b64_valid_char ys"
  shows "b64_decode xs = b64_decode ys"
  using assms b64_decode_skips [of xs] b64_decode_skips [of ys] by (simp add: b64_public)

theorem base64_decode_lenient_witness:
  "b64_decode (ascii ''TW\<newline>Fu'') = b64_decode (ascii ''TWFu'')"
  by (rule base64_decode_lenient) code_simp

text \<open>
  C37: base16 decodes what it encodes; a decode is defined (reads no byte past its source) exactly
  when the number of characters is even, and then yields \<^verbatim>\<open>decodeSize\<close> bytes; the upper-case and
  lower-case digit tables read back as the same byte.
\<close>

theorem base16_decode_encode:
  "b16_decode (b16_encode xs) = Some xs
   \<and> (b16_decode ys = None \<longleftrightarrow> odd (length ys))
   \<and> hexToChar (of_char (charToHex c u ! 0)) (of_char (charToHex c u ! 1)) = c"
  using b16_roundtrip b16_decode_defined b16_roundtrip_chars by blast

end
