(* ===== verification/Sha2.thy ===== *)
theory Sha2
  imports Prelude
begin

text \<open>
  Models \<^verbatim>\<open>common/string/SPSha2.cc\<close>: the streaming SHA-256 and SHA-512 contexts
  (\<^verbatim>\<open>sha_init\<close>, \<^verbatim>\<open>sha_process\<close>, \<^verbatim>\<open>sha_done\<close>), their compression functions and the HMAC built on
  them. The context record is the C++ struct; \<^verbatim>\<open>buf\<close> is a list of the block size, of which
  only the first \<^verbatim>\<open>curlen\<close> bytes are meaningful.
\<close>

record 'w sha_ctx =
  ctx_length :: u64
  ctx_state :: "'w list"
  ctx_curlen :: nat
  ctx_buf :: "u8 list"

section \<open>Byte order helpers\<close>

definition sha_load32 :: "u8 list \<Rightarrow> u32" where
  "sha_load32 y = push_bit 24 (ucast (y ! 0)) OR push_bit 16 (ucast (y ! 1))
     OR push_bit 8 (ucast (y ! 2)) OR push_bit 0 (ucast (y ! 3))"

definition sha_load64 :: "u8 list \<Rightarrow> u64" where
  "sha_load64 y = foldl (\<lambda>res i. res OR push_bit ((7 - i) * 8) (ucast (y ! i))) 0 [0..<8]"

definition sha_store64 :: "u64 \<Rightarrow> u8 list" where
  "sha_store64 x = map (\<lambda>i. ucast (drop_bit ((7 - i) * 8) x AND 255)) [0..<8]"

definition sha_store32 :: "u32 \<Rightarrow> u8 list" where
  "sha_store32 x = map (\<lambda>i. ucast (drop_bit ((3 - i) * 8) x AND 255)) [0..<4]"

lemma length_sha_store [simp]: "length (sha_store64 x) = 8" "length (sha_store32 y) = 4"
  by (simp_all add: sha_store64_def sha_store32_def)

section \<open>SHA-256 compression\<close>

definition sha256_K :: "u32 list" where
  "sha256_K = concat [
    [0x428a2f98, 0x71374491, 0xb5c0fbcf, 0xe9b5dba5, 0x3956c25b],
    [0x59f111f1, 0x923f82a4, 0xab1c5ed5, 0xd807aa98, 0x12835b01],
    [0x243185be, 0x550c7dc3, 0x72be5d74, 0x80deb1fe, 0x9bdc06a7],
    [0xc19bf174, 0xe49b69c1, 0xefbe4786, 0x0fc19dc6, 0x240ca1cc],
    [0x2de92c6f, 0x4a7484aa, 0x5cb0a9dc, 0x76f988da, 0x983e5152],
    [0xa831c66d, 0xb00327c8, 0xbf597fc7, 0xc6e00bf3, 0xd5a79147],
    [0x06ca6351, 0x14292967, 0x27b70a85, 0x2e1b2138, 0x4d2c6dfc],
    [0x53380d13, 0x650a7354, 0x766a0abb, 0x81c2c92e, 0x92722c85],
    [0xa2bfe8a1, 0xa81a664b, 0xc24b8b70, 0xc76c51a3, 0xd192e819],
    [0xd6990624, 0xf40e3585, 0x106aa070, 0x19a4c116, 0x1e376c08],
    [0x2748774c, 0x34b0bcb5, 0x391c0cb3, 0x4ed8aa4a, 0x5b9cca4f],
    [0x682e6ff3, 0x748f82ee, 0x78a5636f, 0x84c87814, 0x8cc70208],
    [0x90befffa, 0xa4506ceb, 0xbef9a3f7, 0xc67178f2]]"

definition sha256_Ch :: "u32 \<Rightarrow> u32 \<Rightarrow> u32 \<Rightarrow> u32" where
  "sha256_Ch x y z = z XOR (x AND (y XOR z))"

definition sha256_Maj :: "u32 \<Rightarrow> u32 \<Rightarrow> u32 \<Rightarrow> u32" where
  "sha256_Maj x y z = ((x OR y) AND z) OR (x AND y)"

definition sha256_Rot :: "u32 \<Rightarrow> nat \<Rightarrow> u32" where
  "sha256_Rot x n = drop_bit (n mod 32) x OR push_bit (32 - n mod 32) x"

definition sha256_Sh :: "u32 \<Rightarrow> nat \<Rightarrow> u32" where
  "sha256_Sh x n = drop_bit n x"

definition sha256_Sigma0 :: "u32 \<Rightarrow> u32" where
  "sha256_Sigma0 x = sha256_Rot x 2 XOR sha256_Rot x 13 XOR sha256_Rot x 22"

definition sha256_Sigma1 :: "u32 \<Rightarrow> u32" where
  "sha256_Sigma1 x = sha256_Rot x 6 XOR sha256_Rot x 11 XOR sha256_Rot x 25"

definition sha256_Gamma0 :: "u32 \<Rightarrow> u32" where
  "sha256_Gamma0 x = sha256_Rot x 7 XOR sha256_Rot x 18 XOR sha256_Sh x 3"

definition sha256_Gamma1 :: "u32 \<Rightarrow> u32" where
  "sha256_Gamma1 x = sha256_Rot x 17 XOR sha256_Rot x 19 XOR sha256_Sh x 10"

text \<open>The message schedule \<^verbatim>\<open>W[0..63]\<close>.\<close>

definition sha256_schedule :: "u8 list \<Rightarrow> u32 list" where
  "sha256_schedule buf =
     foldl (\<lambda>W i. W @ [sha256_Gamma1 (W ! (i - 2)) + W ! (i - 7) + sha256_Gamma0 (W ! (i - 15)) + W ! (i - 16)])
       (map (\<lambda>i. sha_load32 (drop (4 * i) buf)) [0..<16]) [16..<64]"

text \<open>One step of the loop: \<^verbatim>\<open>RND\<close> on the eight registers, then the shift of the registers.\<close>

definition sha256_round :: "u32 list \<Rightarrow> u32 list \<Rightarrow> nat \<Rightarrow> u32 list" where
  "sha256_round W S i =
     (let t0 = S ! 7 + sha256_Sigma1 (S ! 4) + sha256_Ch (S ! 4) (S ! 5) (S ! 6) + sha256_K ! i + W ! i;
          t1 = sha256_Sigma0 (S ! 0) + sha256_Maj (S ! 0) (S ! 1) (S ! 2);
          d = S ! 3 + t0;
          h = t0 + t1
      in [h, S ! 0, S ! 1, S ! 2, d, S ! 4, S ! 5, S ! 6])"

definition sha256_compress :: "u32 list \<Rightarrow> u8 list \<Rightarrow> u32 list" where
  "sha256_compress st buf =
     (let W = sha256_schedule buf;
          S = foldl (sha256_round W) st [0..<64]
      in map (\<lambda>i. st ! i + S ! i) [0..<8])"

definition sha256_iv :: "u32 list" where
  "sha256_iv = [0x6A09E667, 0xBB67AE85, 0x3C6EF372, 0xA54FF53A,
     0x510E527F, 0x9B05688C, 0x1F83D9AB, 0x5BE0CD19]"

section \<open>SHA-512 compression\<close>

definition sha512_K :: "u64 list" where
  "sha512_K = concat [
    [0x428a2f98d728ae22, 0x7137449123ef65cd, 0xb5c0fbcfec4d3b2f, 0xe9b5dba58189dbbc, 0x3956c25bf348b538],
    [0x59f111f1b605d019, 0x923f82a4af194f9b, 0xab1c5ed5da6d8118, 0xd807aa98a3030242, 0x12835b0145706fbe],
    [0x243185be4ee4b28c, 0x550c7dc3d5ffb4e2, 0x72be5d74f27b896f, 0x80deb1fe3b1696b1, 0x9bdc06a725c71235],
    [0xc19bf174cf692694, 0xe49b69c19ef14ad2, 0xefbe4786384f25e3, 0x0fc19dc68b8cd5b5, 0x240ca1cc77ac9c65],
    [0x2de92c6f592b0275, 0x4a7484aa6ea6e483, 0x5cb0a9dcbd41fbd4, 0x76f988da831153b5, 0x983e5152ee66dfab],
    [0xa831c66d2db43210, 0xb00327c898fb213f, 0xbf597fc7beef0ee4, 0xc6e00bf33da88fc2, 0xd5a79147930aa725],
    [0x06ca6351e003826f, 0x142929670a0e6e70, 0x27b70a8546d22ffc, 0x2e1b21385c26c926, 0x4d2c6dfc5ac42aed],
    [0x53380d139d95b3df, 0x650a73548baf63de, 0x766a0abb3c77b2a8, 0x81c2c92e47edaee6, 0x92722c851482353b],
    [0xa2bfe8a14cf10364, 0xa81a664bbc423001, 0xc24b8b70d0f89791, 0xc76c51a30654be30, 0xd192e819d6ef5218],
    [0xd69906245565a910, 0xf40e35855771202a, 0x106aa07032bbd1b8, 0x19a4c116b8d2d0c8, 0x1e376c085141ab53],
    [0x2748774cdf8eeb99, 0x34b0bcb5e19b48a8, 0x391c0cb3c5c95a63, 0x4ed8aa4ae3418acb, 0x5b9cca4f7763e373],
    [0x682e6ff3d6b2b8a3, 0x748f82ee5defb2fc, 0x78a5636f43172f60, 0x84c87814a1f0ab72, 0x8cc702081a6439ec],
    [0x90befffa23631e28, 0xa4506cebde82bde9, 0xbef9a3f7b2c67915, 0xc67178f2e372532b, 0xca273eceea26619c],
    [0xd186b8c721c0c207, 0xeada7dd6cde0eb1e, 0xf57d4f7fee6ed178, 0x06f067aa72176fba, 0x0a637dc5a2c898a6],
    [0x113f9804bef90dae, 0x1b710b35131c471b, 0x28db77f523047d84, 0x32caab7b40c72493, 0x3c9ebe0a15c9bebc],
    [0x431d67c49c100d4c, 0x4cc5d4becb3e42b6, 0x597f299cfc657e2a, 0x5fcb6fab3ad6faec, 0x6c44198c4a475817]]"

definition sha512_Ch :: "u64 \<Rightarrow> u64 \<Rightarrow> u64 \<Rightarrow> u64" where
  "sha512_Ch x y z = z XOR (x AND (y XOR z))"

definition sha512_Maj :: "u64 \<Rightarrow> u64 \<Rightarrow> u64 \<Rightarrow> u64" where
  "sha512_Maj x y z = ((x OR y) AND z) OR (x AND y)"

definition sha512_Rot :: "u64 \<Rightarrow> nat \<Rightarrow> u64" where
  "sha512_Rot x n = drop_bit (n mod 64) x OR push_bit (64 - n mod 64) x"

definition sha512_Sh :: "u64 \<Rightarrow> nat \<Rightarrow> u64" where
  "sha512_Sh x n = drop_bit n x"

definition sha512_Sigma0 :: "u64 \<Rightarrow> u64" where
  "sha512_Sigma0 x = sha512_Rot x 28 XOR sha512_Rot x 34 XOR sha512_Rot x 39"

definition sha512_Sigma1 :: "u64 \<Rightarrow> u64" where
  "sha512_Sigma1 x = sha512_Rot x 14 XOR sha512_Rot x 18 XOR sha512_Rot x 41"

definition sha512_Gamma0 :: "u64 \<Rightarrow> u64" where
  "sha512_Gamma0 x = sha512_Rot x 1 XOR sha512_Rot x 8 XOR sha512_Sh x 7"

definition sha512_Gamma1 :: "u64 \<Rightarrow> u64" where
  "sha512_Gamma1 x = sha512_Rot x 19 XOR sha512_Rot x 61 XOR sha512_Sh x 6"

definition sha512_schedule :: "u8 list \<Rightarrow> u64 list" where
  "sha512_schedule buf =
     foldl (\<lambda>W i. W @ [sha512_Gamma1 (W ! (i - 2)) + W ! (i - 7) + sha512_Gamma0 (W ! (i - 15)) + W ! (i - 16)])
       (map (\<lambda>i. sha_load64 (drop (8 * i) buf)) [0..<16]) [16..<80]"

text \<open>
  The SHA-512 loop does not move the registers: \<^verbatim>\<open>RND(S[a], ..., S[h], i)\<close> updates \<^verbatim>\<open>S[d]\<close> and
  \<^verbatim>\<open>S[h]\<close> in place and the caller renames the registers, eight calls per iteration.
\<close>

definition sha512_RND ::
  "u64 list \<Rightarrow> nat \<Rightarrow> nat \<Rightarrow> nat \<Rightarrow> nat \<Rightarrow> nat \<Rightarrow> nat \<Rightarrow> nat \<Rightarrow> nat \<Rightarrow> nat \<Rightarrow> u64 list \<Rightarrow> u64 list" where
  "sha512_RND W a b c d e f g h i S =
     (let t0 = S ! h + sha512_Sigma1 (S ! e) + sha512_Ch (S ! e) (S ! f) (S ! g) + sha512_K ! i + W ! i;
          t1 = sha512_Sigma0 (S ! a) + sha512_Maj (S ! a) (S ! b) (S ! c)
      in S[d := S ! d + t0, h := t0 + t1])"

definition sha512_eight :: "u64 list \<Rightarrow> u64 list \<Rightarrow> nat \<Rightarrow> u64 list" where
  "sha512_eight W S i =
     (let S = sha512_RND W 0 1 2 3 4 5 6 7 (i + 0) S;
          S = sha512_RND W 7 0 1 2 3 4 5 6 (i + 1) S;
          S = sha512_RND W 6 7 0 1 2 3 4 5 (i + 2) S;
          S = sha512_RND W 5 6 7 0 1 2 3 4 (i + 3) S;
          S = sha512_RND W 4 5 6 7 0 1 2 3 (i + 4) S;
          S = sha512_RND W 3 4 5 6 7 0 1 2 (i + 5) S;
          S = sha512_RND W 2 3 4 5 6 7 0 1 (i + 6) S;
          S = sha512_RND W 1 2 3 4 5 6 7 0 (i + 7) S
      in S)"

definition sha512_compress :: "u64 list \<Rightarrow> u8 list \<Rightarrow> u64 list" where
  "sha512_compress st buf =
     (let W = sha512_schedule buf;
          S = foldl (\<lambda>S j. sha512_eight W S (8 * j)) st [0..<10]
      in map (\<lambda>i. st ! i + S ! i) [0..<8])"

definition sha512_iv :: "u64 list" where
  "sha512_iv = [0x6a09e667f3bcc908, 0xbb67ae8584caa73b, 0x3c6ef372fe94f82b, 0xa54ff53a5f1d36f1,
     0x510e527fade682d1, 0x9b05688c2b3e6c1f, 0x1f83d9abfb41bd6b, 0x5be0cd19137e2179]"

section \<open>The streaming contexts\<close>

definition sha256_init :: "u32 sha_ctx \<Rightarrow> u32 sha_ctx" where
  "sha256_init md = md\<lparr>ctx_curlen := 0, ctx_length := 0, ctx_state := sha256_iv\<rparr>"

definition sha512_init :: "u64 sha_ctx \<Rightarrow> u64 sha_ctx" where
  "sha512_init md = md\<lparr>ctx_curlen := 0, ctx_length := 0, ctx_state := sha512_iv\<rparr>"

text \<open>\<^verbatim>\<open>memcpy(buf + pos, in, n)\<close> into a buffer that is long enough.\<close>

definition buf_write :: "u8 list \<Rightarrow> nat \<Rightarrow> u8 list \<Rightarrow> u8 list" where
  "buf_write buf pos xs = take pos buf @ xs @ drop (pos + length xs) buf"

text \<open>
  \<^verbatim>\<open>sha_process\<close>: a loop over the input. \<open>None\<close> means that the loop does not end (it would copy
  zero bytes forever with \<^verbatim>\<open>curlen\<close> at or past the block size); the contract below shows that
  this does not happen from a well-formed context.
\<close>

partial_function (option) sha256_process :: "u32 sha_ctx \<Rightarrow> u8 list \<Rightarrow> u32 sha_ctx option" where
  "sha256_process md xs =
     (if xs = [] then Some md
      else if ctx_curlen md = 0 \<and> 64 \<le> length xs
      then sha256_process
             (md\<lparr>ctx_state := sha256_compress (ctx_state md) (take 64 xs), ctx_length := ctx_length md + 64 * 8\<rparr>)
             (drop 64 xs)
      else (let n = min (length xs) (64 - ctx_curlen md);
                md1 = md\<lparr>ctx_buf := buf_write (ctx_buf md) (ctx_curlen md) (take n xs),
                         ctx_curlen := ctx_curlen md + n\<rparr>;
                md2 = (if ctx_curlen md1 = 64
                       then md1\<lparr>ctx_state := sha256_compress (ctx_state md1) (ctx_buf md1),
                                ctx_length := ctx_length md1 + 8 * 64, ctx_curlen := 0\<rparr>
                       else md1)
            in sha256_process md2 (drop n xs)))"

partial_function (option) sha512_process :: "u64 sha_ctx \<Rightarrow> u8 list \<Rightarrow> u64 sha_ctx option" where
  "sha512_process md xs =
     (if xs = [] then Some md
      else if ctx_curlen md = 0 \<and> 128 \<le> length xs
      then sha512_process
             (md\<lparr>ctx_state := sha512_compress (ctx_state md) (take 128 xs), ctx_length := ctx_length md + 128 * 8\<rparr>)
             (drop 128 xs)
      else (let n = min (length xs) (128 - ctx_curlen md);
                md1 = md\<lparr>ctx_buf := buf_write (ctx_buf md) (ctx_curlen md) (take n xs),
                         ctx_curlen := ctx_curlen md + n\<rparr>;
                md2 = (if ctx_curlen md1 = 128
                       then md1\<lparr>ctx_state := sha512_compress (ctx_state md1) (ctx_buf md1),
                                ctx_length := ctx_length md1 + 8 * 128, ctx_curlen := 0\<rparr>
                       else md1)
            in sha512_process md2 (drop n xs)))"

declare sha256_process.simps [code] sha512_process.simps [code]

text \<open>The loops \<^verbatim>\<open>while (curlen < limit) buf[curlen++] = 0\<close> of \<^verbatim>\<open>sha_done\<close>.\<close>

function sha_zero_to :: "nat \<Rightarrow> 'w sha_ctx \<Rightarrow> 'w sha_ctx" where
  "sha_zero_to limit md =
     (if ctx_curlen md < limit
      then sha_zero_to limit (md\<lparr>ctx_buf := (ctx_buf md)[ctx_curlen md := 0], ctx_curlen := ctx_curlen md + 1\<rparr>)
      else md)"
  by pat_completeness auto
termination
  by (relation "measure (\<lambda>(limit, md). limit - ctx_curlen md)") auto

declare sha_zero_to.simps [simp del]

definition sha256_done :: "u32 sha_ctx \<Rightarrow> u32 sha_ctx \<times> u8 list" where
  "sha256_done md =
     (let md = md\<lparr>ctx_length := ctx_length md + of_nat (ctx_curlen md * 8)\<rparr>;
          md = md\<lparr>ctx_buf := (ctx_buf md)[ctx_curlen md := 0x80], ctx_curlen := ctx_curlen md + 1\<rparr>;
          md = (if ctx_curlen md > 56
                then (let md = sha_zero_to 64 md
                      in md\<lparr>ctx_state := sha256_compress (ctx_state md) (ctx_buf md), ctx_curlen := 0\<rparr>)
                else md);
          md = sha_zero_to 56 md;
          md = md\<lparr>ctx_buf := buf_write (ctx_buf md) 56 (sha_store64 (ctx_length md))\<rparr>;
          md = md\<lparr>ctx_state := sha256_compress (ctx_state md) (ctx_buf md)\<rparr>
      in (md, concat (map (\<lambda>i. sha_store32 (ctx_state md ! i)) [0..<8])))"

definition sha512_done :: "u64 sha_ctx \<Rightarrow> u64 sha_ctx \<times> u8 list" where
  "sha512_done md =
     (let md = md\<lparr>ctx_length := ctx_length md + of_nat (ctx_curlen md * 8)\<rparr>;
          md = md\<lparr>ctx_buf := (ctx_buf md)[ctx_curlen md := 0x80], ctx_curlen := ctx_curlen md + 1\<rparr>;
          md = (if ctx_curlen md > 112
                then (let md = sha_zero_to 128 md
                      in md\<lparr>ctx_state := sha512_compress (ctx_state md) (ctx_buf md), ctx_curlen := 0\<rparr>)
                else md);
          md = sha_zero_to 120 md;
          md = md\<lparr>ctx_buf := buf_write (ctx_buf md) 120 (sha_store64 (ctx_length md))\<rparr>;
          md = md\<lparr>ctx_state := sha512_compress (ctx_state md) (ctx_buf md)\<rparr>
      in (md, concat (map (\<lambda>i. sha_store64 (ctx_state md ! i)) [0..<8])))"

section \<open>The public interface\<close>

text \<open>\<^verbatim>\<open>update\<close> passes its length on as \<^verbatim>\<open>uint32_t\<close>: what is past the low 32 bits is not hashed.\<close>

definition HMAC_I_PAD :: u8 where "HMAC_I_PAD = 0x36"

definition HMAC_O_PAD :: u8 where "HMAC_O_PAD = 0x5C"

definition SP_SECURE_KEY :: "u8 list" where
  "SP_SECURE_KEY = ascii ''Nev3rseenany0nesoequalinth1sscale''"

definition Sha256_update :: "u32 sha_ctx \<Rightarrow> u8 list \<Rightarrow> u32 sha_ctx option" where
  "Sha256_update md xs =
     (if length xs > 0 then sha256_process md (take (length xs mod 2 ^ 32) xs) else Some md)"

fun Sha256_updates :: "u32 sha_ctx \<Rightarrow> u8 list list \<Rightarrow> u32 sha_ctx option" where
  "Sha256_updates md [] = Some md"
| "Sha256_updates md (x # xs) =
     (case Sha256_update md x of None \<Rightarrow> None | Some md' \<Rightarrow> Sha256_updates md' xs)"

text \<open>
  \<^verbatim>\<open>Sha256::perform(args...)\<close>: a new context, an update per argument, \<^verbatim>\<open>final()\<close>. The context
  \<open>md\<close> is the uninitialised storage of the object; the result comes with the used context.
\<close>

definition Sha256_perform :: "u32 sha_ctx \<Rightarrow> u8 list list \<Rightarrow> (u32 sha_ctx \<times> u8 list) option" where
  "Sha256_perform md args =
     (case Sha256_updates (sha256_init md) args of None \<Rightarrow> None | Some md' \<Rightarrow> Some (sha256_done md'))"

definition Sha256_make :: "u32 sha_ctx \<Rightarrow> u8 list \<Rightarrow> u8 list \<Rightarrow> (u32 sha_ctx \<times> u8 list) option" where
  "Sha256_make md source salt =
     (case Sha256_update (sha256_init md) (if salt = [] then SP_SECURE_KEY else salt) of
        None \<Rightarrow> None
      | Some md' \<Rightarrow> (case Sha256_update md' source of
          None \<Rightarrow> None | Some md'' \<Rightarrow> Some (sha256_done md'')))"

definition Sha256_hmac :: "u32 sha_ctx \<Rightarrow> u8 list \<Rightarrow> u8 list \<Rightarrow> u8 list option" where
  "Sha256_hmac ctx data key =
     (let keyData = replicate 64 0 in
      case (if length key > 64
            then (case Sha256_perform ctx [key] of
                    None \<Rightarrow> None
                  | Some (ctx, d) \<Rightarrow> Some (ctx, buf_write keyData 0 d))
            else Some (ctx, buf_write keyData 0 key)) of
        None \<Rightarrow> None
      | Some (ctx, keyData) \<Rightarrow>
          (let ipad = map (\<lambda>b. b XOR HMAC_I_PAD) keyData in
           case Sha256_perform ctx [ipad, data] of
             None \<Rightarrow> None
           | Some (ctx, ret) \<Rightarrow>
               (let opad = map (\<lambda>b. b XOR (HMAC_I_PAD XOR HMAC_O_PAD)) ipad in
                map_option snd (Sha256_perform ctx [opad, ret]))))"

definition Sha512_update :: "u64 sha_ctx \<Rightarrow> u8 list \<Rightarrow> u64 sha_ctx option" where
  "Sha512_update md xs =
     (if length xs > 0 then sha512_process md (take (length xs mod 2 ^ 32) xs) else Some md)"

fun Sha512_updates :: "u64 sha_ctx \<Rightarrow> u8 list list \<Rightarrow> u64 sha_ctx option" where
  "Sha512_updates md [] = Some md"
| "Sha512_updates md (x # xs) =
     (case Sha512_update md x of None \<Rightarrow> None | Some md' \<Rightarrow> Sha512_updates md' xs)"

text \<open>
  \<^verbatim>\<open>Sha512::perform(args...)\<close>: a new context, an update per argument, \<^verbatim>\<open>final()\<close>. The context
  \<open>md\<close> is the uninitialised storage of the object; the result comes with the used context.
\<close>

definition Sha512_perform :: "u64 sha_ctx \<Rightarrow> u8 list list \<Rightarrow> (u64 sha_ctx \<times> u8 list) option" where
  "Sha512_perform md args =
     (case Sha512_updates (sha512_init md) args of None \<Rightarrow> None | Some md' \<Rightarrow> Some (sha512_done md'))"

definition Sha512_make :: "u64 sha_ctx \<Rightarrow> u8 list \<Rightarrow> u8 list \<Rightarrow> (u64 sha_ctx \<times> u8 list) option" where
  "Sha512_make md source salt =
     (case Sha512_update (sha512_init md) (if salt = [] then SP_SECURE_KEY else salt) of
        None \<Rightarrow> None
      | Some md' \<Rightarrow> (case Sha512_update md' source of
          None \<Rightarrow> None | Some md'' \<Rightarrow> Some (sha512_done md'')))"

definition Sha512_hmac :: "u64 sha_ctx \<Rightarrow> u8 list \<Rightarrow> u8 list \<Rightarrow> u8 list option" where
  "Sha512_hmac ctx data key =
     (let keyData = replicate 128 0 in
      case (if length key > 128
            then (case Sha512_perform ctx [key] of
                    None \<Rightarrow> None
                  | Some (ctx, d) \<Rightarrow> Some (ctx, buf_write keyData 0 d))
            else Some (ctx, buf_write keyData 0 key)) of
        None \<Rightarrow> None
      | Some (ctx, keyData) \<Rightarrow>
          (let ipad = map (\<lambda>b. b XOR HMAC_I_PAD) keyData in
           case Sha512_perform ctx [ipad, data] of
             None \<Rightarrow> None
           | Some (ctx, ret) \<Rightarrow>
               (let opad = map (\<lambda>b. b XOR (HMAC_I_PAD XOR HMAC_O_PAD)) ipad in
                map_option snd (Sha512_perform ctx [opad, ret]))))"

section \<open>The specification: FIPS 180-4\<close>

text \<open>
  The padded message: a \<^verbatim>\<open>0x80\<close> byte, zeros up to the length field, and the length in bits, big
  endian; \<open>lb\<close> is the width of the length field (8 or 16 bytes), of which the code writes the
  low 64 bits.
\<close>

definition sha2_pad :: "nat \<Rightarrow> nat \<Rightarrow> u8 list \<Rightarrow> u8 list" where
  "sha2_pad bsz lb msg =
     msg @ [0x80] @ replicate ((bsz - (length msg + 1 + lb) mod bsz) mod bsz) 0
     @ replicate (lb - 8) 0 @ sha_store64 (of_nat (8 * length msg))"

definition sha256_spec :: "u8 list \<Rightarrow> u8 list" where
  "sha256_spec msg =
     concat (map sha_store32 (foldl sha256_compress sha256_iv (full_blocks 64 (sha2_pad 64 8 msg))))"

definition sha512_spec :: "u8 list \<Rightarrow> u8 list" where
  "sha512_spec msg =
     concat (map sha_store64 (foldl sha512_compress sha512_iv (full_blocks 128 (sha2_pad 128 16 msg))))"

section \<open>Streaming over blocks, once for both hash sizes\<close>

lemma length_buf_write [simp]: "pos + length xs \<le> length buf \<Longrightarrow> length (buf_write buf pos xs) = length buf"
  by (simp add: buf_write_def)

lemma take_buf_write: "pos \<le> length buf \<Longrightarrow> take (pos + length xs) (buf_write buf pos xs) = take pos buf @ xs"
  by (simp add: buf_write_def)

lemma sha_zero_to_eq:
  "ctx_curlen md \<le> limit \<Longrightarrow> limit \<le> length (ctx_buf md) \<Longrightarrow>
   sha_zero_to limit md = md\<lparr>ctx_buf := take (ctx_curlen md) (ctx_buf md)
       @ replicate (limit - ctx_curlen md) 0 @ drop limit (ctx_buf md), ctx_curlen := limit\<rparr>"
proof (induction limit md rule: sha_zero_to.induct)
  case (1 limit md)
  show ?case
  proof (cases "ctx_curlen md < limit")
    case True
    then obtain d where d: "limit = Suc (ctx_curlen md + d)"
      using less_imp_Suc_add by blast
    with True "1" show ?thesis
      by (subst sha_zero_to.simps) (simp add: take_Suc_conv_app_nth)
  next
    case False
    with "1.prems" have "ctx_curlen md = limit" by simp
    with False show ?thesis by (simp add: sha_zero_to.simps)
  qed
qed

locale block_stream =
  fixes bsz :: nat
    and compress :: "'w list \<Rightarrow> u8 list \<Rightarrow> 'w list"
    and process :: "'w sha_ctx \<Rightarrow> u8 list \<Rightarrow> 'w sha_ctx option"
  assumes bsz_pos: "0 < bsz"
    and process_nil: "process md [] = Some md"
    and process_block: "xs \<noteq> [] \<Longrightarrow> ctx_curlen md = 0 \<Longrightarrow> bsz \<le> length xs \<Longrightarrow>
      process md xs = process (md\<lparr>ctx_state := compress (ctx_state md) (take bsz xs),
                                  ctx_length := ctx_length md + of_nat (8 * bsz)\<rparr>) (drop bsz xs)"
    and process_fill: "xs \<noteq> [] \<Longrightarrow> \<not> (ctx_curlen md = 0 \<and> bsz \<le> length xs) \<Longrightarrow>
      n = min (length xs) (bsz - ctx_curlen md) \<Longrightarrow>
      md1 = md\<lparr>ctx_buf := buf_write (ctx_buf md) (ctx_curlen md) (take n xs), ctx_curlen := ctx_curlen md + n\<rparr> \<Longrightarrow>
      process md xs = process (if ctx_curlen md1 = bsz
                               then md1\<lparr>ctx_state := compress (ctx_state md1) (ctx_buf md1),
                                        ctx_length := ctx_length md1 + of_nat (8 * bsz), ctx_curlen := 0\<rparr>
                               else md1) (drop n xs)"
begin

text \<open>The context has absorbed \<open>msg\<close>: whole blocks are compressed, the rest is in the buffer.\<close>

definition absorbed :: "'w list \<Rightarrow> 'w sha_ctx \<Rightarrow> u8 list \<Rightarrow> bool" where
  "absorbed iv md msg \<longleftrightarrow> ctx_curlen md < bsz \<and> length (ctx_buf md) = bsz \<and>
     (\<exists>base. msg = base @ take (ctx_curlen md) (ctx_buf md) \<and> bsz dvd length base
        \<and> ctx_state md = foldl compress iv (full_blocks bsz base)
        \<and> ctx_length md = of_nat (8 * length base))"

lemma absorbedI:
  "ctx_curlen md < bsz \<Longrightarrow> length (ctx_buf md) = bsz \<Longrightarrow>
   msg = base @ take (ctx_curlen md) (ctx_buf md) \<Longrightarrow> bsz dvd length base \<Longrightarrow>
   ctx_state md = foldl compress iv (full_blocks bsz base) \<Longrightarrow>
   ctx_length md = of_nat (8 * length base) \<Longrightarrow> absorbed iv md msg"
  by (auto simp: absorbed_def)

lemma absorbed_block:
  assumes "absorbed iv md msg" "ctx_curlen md = 0" "length blk = bsz"
  shows "absorbed iv (md\<lparr>ctx_state := compress (ctx_state md) blk,
           ctx_length := ctx_length md + of_nat (8 * bsz)\<rparr>) (msg @ blk)"
  using assms bsz_pos
  by (intro absorbedI [where base = "msg @ blk"])
    (auto simp: absorbed_def full_blocks_append full_blocks_one algebra_simps)

lemma absorbed_fill:
  assumes abs: "absorbed iv md msg" and n: "ctx_curlen md + length ys < bsz"
  shows "absorbed iv (md\<lparr>ctx_buf := buf_write (ctx_buf md) (ctx_curlen md) ys,
           ctx_curlen := ctx_curlen md + length ys\<rparr>) (msg @ ys)"
proof -
  from abs obtain base where "msg = base @ take (ctx_curlen md) (ctx_buf md)" "bsz dvd length base"
    "ctx_state md = foldl compress iv (full_blocks bsz base)" "ctx_length md = of_nat (8 * length base)"
    by (auto simp: absorbed_def)
  with abs n show ?thesis
    by (intro absorbedI [where base = base]) (auto simp: absorbed_def take_buf_write)
qed

lemma absorbed_full:
  assumes abs: "absorbed iv md msg" and n: "ctx_curlen md + length ys = bsz"
  shows "absorbed iv (md\<lparr>ctx_buf := buf_write (ctx_buf md) (ctx_curlen md) ys,
           ctx_state := compress (ctx_state md) (buf_write (ctx_buf md) (ctx_curlen md) ys),
           ctx_length := ctx_length md + of_nat (8 * bsz), ctx_curlen := 0\<rparr>) (msg @ ys)"
proof -
  from abs obtain base where base: "msg = base @ take (ctx_curlen md) (ctx_buf md)" "bsz dvd length base"
    "ctx_state md = foldl compress iv (full_blocks bsz base)" "ctx_length md = of_nat (8 * length base)"
    by (auto simp: absorbed_def)
  have len: "length (ctx_buf md) = bsz" "ctx_curlen md < bsz" using abs by (auto simp: absorbed_def)
  have buf: "buf_write (ctx_buf md) (ctx_curlen md) ys = take (ctx_curlen md) (ctx_buf md) @ ys"
    using n len by (simp add: buf_write_def)
  have blk: "length (take (ctx_curlen md) (ctx_buf md) @ ys) = bsz" using n len by simp
  show ?thesis
    using base len blk bsz_pos n
    by (intro absorbedI [where base = "base @ take (ctx_curlen md) (ctx_buf md) @ ys"])
      (auto simp: buf full_blocks_append full_blocks_one algebra_simps)
qed

lemma process_absorbs:
  "absorbed iv md msg \<Longrightarrow> \<exists>md'. process md xs = Some md' \<and> absorbed iv md' (msg @ xs)"
proof (induction "length xs" arbitrary: xs md msg rule: less_induct)
  case less
  have cur: "ctx_curlen md < bsz" using less.prems by (simp add: absorbed_def)
  consider "xs = []" | (block) "xs \<noteq> []" "ctx_curlen md = 0" "bsz \<le> length xs"
    | (fill) "xs \<noteq> []" "\<not> (ctx_curlen md = 0 \<and> bsz \<le> length xs)" by argo
  then show ?case
  proof cases
    case 1
    with less.prems show ?thesis by (simp add: process_nil)
  next
    case block
    have "absorbed iv (md\<lparr>ctx_state := compress (ctx_state md) (take bsz xs),
           ctx_length := ctx_length md + of_nat (8 * bsz)\<rparr>) (msg @ take bsz xs)"
      using less.prems block by (intro absorbed_block) auto
    from less.hyps [OF _ this, of "drop bsz xs"] block bsz_pos show ?thesis
      by (simp add: process_block)
  next
    case fill
    define n where "n = min (length xs) (bsz - ctx_curlen md)"
    define md1 where "md1 = md\<lparr>ctx_buf := buf_write (ctx_buf md) (ctx_curlen md) (take n xs),
      ctx_curlen := ctx_curlen md + n\<rparr>"
    define md2 where "md2 = (if ctx_curlen md1 = bsz
       then md1\<lparr>ctx_state := compress (ctx_state md1) (ctx_buf md1),
                ctx_length := ctx_length md1 + of_nat (8 * bsz), ctx_curlen := 0\<rparr> else md1)"
    have n: "0 < n" "n \<le> length xs" "length (take n xs) = n" "ctx_curlen md + n \<le> bsz"
      using fill cur by (auto simp: n_def)
    have "absorbed iv md2 (msg @ take n xs)"
      using absorbed_full [OF less.prems, of "take n xs"] absorbed_fill [OF less.prems, of "take n xs"] n
      by (auto simp: md1_def md2_def)
    moreover have "length (drop n xs) < length xs" using n by auto
    ultimately have "\<exists>md'. process md2 (drop n xs) = Some md' \<and> absorbed iv md' ((msg @ take n xs) @ drop n xs)"
      by (intro less.hyps) auto
    then obtain md' where "process md2 (drop n xs) = Some md'" "absorbed iv md' (msg @ xs)"
      by auto
    with process_fill [OF fill n_def md1_def] show ?thesis by (simp add: md2_def)
  qed
qed

end

text \<open>The final padding: \<open>fillto\<close> is where the length goes, \<open>thr\<close> where an extra block is needed.\<close>

locale block_hash = block_stream +
  fixes thr fillto lb :: nat
  assumes thr: "0 < thr" "thr + lb = bsz" and fillto: "fillto + 8 = bsz" and lb: "8 \<le> lb"
begin

definition final_state :: "'a sha_ctx \<Rightarrow> 'a list" where
  "final_state md =
     (let md = md\<lparr>ctx_length := ctx_length md + of_nat (ctx_curlen md * 8)\<rparr>;
          md = md\<lparr>ctx_buf := (ctx_buf md)[ctx_curlen md := 0x80], ctx_curlen := ctx_curlen md + 1\<rparr>;
          md = (if ctx_curlen md > thr
                then (let md = sha_zero_to bsz md
                      in md\<lparr>ctx_state := compress (ctx_state md) (ctx_buf md), ctx_curlen := 0\<rparr>)
                else md);
          md = sha_zero_to fillto md;
          md = md\<lparr>ctx_buf := buf_write (ctx_buf md) fillto (sha_store64 (ctx_length md))\<rparr>
      in compress (ctx_state md) (ctx_buf md))"

text \<open>The tail of the padded message, after the last whole block of input.\<close>

lemma pad_tail:
  assumes "bsz dvd length base" "length rest < bsz"
  shows "sha2_pad bsz lb (base @ rest) =
    base @ (rest @ [0x80] @ replicate (if length rest + 1 > thr then bsz - (length rest + 1) + fillto
                                       else fillto - (length rest + 1)) 0)
         @ sha_store64 (of_nat (8 * length (base @ rest)))"
proof -
  let ?r = "length rest + 1"
  obtain q where q: "length base = bsz * q" using assms(1) by auto
  have "(length base + (?r + lb)) mod bsz = (?r + lb) mod bsz" by (simp add: q)
  then have m: "(length (base @ rest) + 1 + lb) mod bsz = (?r + lb) mod bsz"
    by (simp add: add.assoc)
  have "(bsz - (?r + lb) mod bsz) mod bsz + (lb - 8)
      = (if ?r > thr then bsz - ?r + fillto else fillto - ?r)"
  proof (cases "?r > thr")
    case True
    then have "(?r + lb) mod bsz = ?r + lb - bsz" using assms(2) thr
      by (subst le_mod_geq) auto
    with True assms(2) thr fillto lb show ?thesis by auto
  next
    case False
    then show ?thesis using thr fillto lb by (cases "?r = thr") auto
  qed
  then have "replicate ((bsz - (length (base @ rest) + 1 + lb) mod bsz) mod bsz) (0 :: u8) @ replicate (lb - 8) 0
    = replicate (if ?r > thr then bsz - ?r + fillto else fillto - ?r) 0"
    unfolding m by (simp flip: replicate_add)
  then show ?thesis by (simp add: sha2_pad_def)
qed

lemma final_state_correct:
  assumes "absorbed iv md msg"
  shows "final_state md = foldl compress iv (full_blocks bsz (sha2_pad bsz lb msg))"
proof -
  define rest where "rest = take (ctx_curlen md) (ctx_buf md)"
  obtain base where base: "msg = base @ rest" "bsz dvd length base"
    "ctx_state md = foldl compress iv (full_blocks bsz base)" "ctx_length md = of_nat (8 * length base)"
    using assms by (auto simp: absorbed_def rest_def)
  have len: "ctx_curlen md < bsz" "length (ctx_buf md) = bsz" "length rest = ctx_curlen md"
    using assms by (auto simp: absorbed_def rest_def)
  have one: "take (Suc (ctx_curlen md)) ((ctx_buf md)[ctx_curlen md := 0x80]) = rest @ [0x80]"
    using len by (simp add: rest_def take_Suc_conv_app_nth)
  define tl8 where "tl8 = sha_store64 (of_nat (8 * length msg))"
  have tl8: "length tl8 = 8" by (simp add: tl8_def)
  have lenw: "sha_store64 (ctx_length md + of_nat (ctx_curlen md) * 8) = tl8"
    using base len by (simp add: tl8_def algebra_simps)
  show ?thesis
  proof (cases "ctx_curlen md + 1 > thr")
    case True
    define b1 where "b1 = rest @ [0x80] @ replicate (bsz - (ctx_curlen md + 1)) 0"
    define b2 where "b2 = replicate fillto 0 @ tl8"
    have b: "length b1 = bsz" "length b2 = bsz" using len fillto tl8 by (auto simp: b1_def b2_def)
    have "sha2_pad bsz lb msg = base @ b1 @ b2"
      using pad_tail [OF base(2), of rest] len True
      by (simp add: base(1) b1_def b2_def tl8_def flip: replicate_add)
    then have "foldl compress iv (full_blocks bsz (sha2_pad bsz lb msg)) = compress (compress (ctx_state md) b1) b2"
      using base b bsz_pos by (simp add: full_blocks_append full_blocks_one)
    moreover have "final_state md = compress (compress (ctx_state md) b1) b2"
      using len True fillto thr tl8
      by (simp add: final_state_def Let_def lenw sha_zero_to_eq one buf_write_def b1_def b2_def)
    ultimately show ?thesis by simp
  next
    case False
    define b2 where "b2 = rest @ [0x80] @ replicate (fillto - (ctx_curlen md + 1)) 0 @ tl8"
    have le: "ctx_curlen md + 1 \<le> fillto" using False thr fillto lb by auto
    have b: "length b2 = bsz" using len le fillto tl8 by (auto simp: b2_def)
    have "sha2_pad bsz lb msg = base @ b2"
      using pad_tail [OF base(2), of rest] len False
      by (simp add: base(1) b2_def tl8_def)
    then have "foldl compress iv (full_blocks bsz (sha2_pad bsz lb msg)) = compress (ctx_state md) b2"
      using base b bsz_pos by (simp add: full_blocks_append full_blocks_one)
    moreover have "fillto - ctx_curlen md = Suc (fillto - Suc (ctx_curlen md))"
      using le by simp
    then have "final_state md = compress (ctx_state md) b2"
      using len False le fillto thr tl8
      by (simp add: final_state_def Let_def lenw sha_zero_to_eq one buf_write_def b2_def)
    ultimately show ?thesis by simp
  qed
qed

lemma init_absorbed:
  "length (ctx_buf md) = bsz \<Longrightarrow> absorbed iv (md\<lparr>ctx_curlen := 0, ctx_length := 0, ctx_state := iv\<rparr>) []"
  using bsz_pos by (intro absorbedI [where base = "[]"]) (auto simp: full_blocks_short)

end

section \<open>Both contexts are instances\<close>

interpretation sha256: block_hash 64 sha256_compress sha256_process 56 56 8
proof
  show "sha256_process md [] = Some md" for md
    by (simp add: sha256_process.simps)
  show "sha256_process md xs = sha256_process (md\<lparr>ctx_state := sha256_compress (ctx_state md) (take 64 xs),
      ctx_length := ctx_length md + of_nat (8 * 64)\<rparr>) (drop 64 xs)"
    if "xs \<noteq> []" "ctx_curlen md = 0" "64 \<le> length xs" for md xs
    using that by (subst sha256_process.simps) simp
  show "sha256_process md xs = sha256_process (if ctx_curlen md1 = 64
        then md1\<lparr>ctx_state := sha256_compress (ctx_state md1) (ctx_buf md1),
                 ctx_length := ctx_length md1 + of_nat (8 * 64), ctx_curlen := 0\<rparr>
        else md1) (drop n xs)"
    if "xs \<noteq> []" "\<not> (ctx_curlen md = 0 \<and> 64 \<le> length xs)" "n = min (length xs) (64 - ctx_curlen md)"
      "md1 = md\<lparr>ctx_buf := buf_write (ctx_buf md) (ctx_curlen md) (take n xs), ctx_curlen := ctx_curlen md + n\<rparr>"
    for md md1 xs n
    using that by (subst sha256_process.simps) (auto simp: Let_def)
qed simp_all

interpretation sha512: block_hash 128 sha512_compress sha512_process 112 120 16
proof
  show "sha512_process md [] = Some md" for md
    by (simp add: sha512_process.simps)
  show "sha512_process md xs = sha512_process (md\<lparr>ctx_state := sha512_compress (ctx_state md) (take 128 xs),
      ctx_length := ctx_length md + of_nat (8 * 128)\<rparr>) (drop 128 xs)"
    if "xs \<noteq> []" "ctx_curlen md = 0" "128 \<le> length xs" for md xs
    using that by (subst sha512_process.simps) simp
  show "sha512_process md xs = sha512_process (if ctx_curlen md1 = 128
        then md1\<lparr>ctx_state := sha512_compress (ctx_state md1) (ctx_buf md1),
                 ctx_length := ctx_length md1 + of_nat (8 * 128), ctx_curlen := 0\<rparr>
        else md1) (drop n xs)"
    if "xs \<noteq> []" "\<not> (ctx_curlen md = 0 \<and> 128 \<le> length xs)" "n = min (length xs) (128 - ctx_curlen md)"
      "md1 = md\<lparr>ctx_buf := buf_write (ctx_buf md) (ctx_curlen md) (take n xs), ctx_curlen := ctx_curlen md + n\<rparr>"
    for md md1 xs n
    using that by (subst sha512_process.simps) (auto simp: Let_def)
qed simp_all

lemma length_sha256_compress [simp]: "length (sha256_compress st buf) = 8"
  by (simp add: sha256_compress_def Let_def)

lemma length_sha256_chain: "length (foldl sha256_compress sha256_iv bs) = 8"
  by (induction bs rule: rev_induct) (simp_all add: sha256_iv_def)

lemma sha256_done_digest:
  "snd (sha256_done md) = concat (map (\<lambda>i. sha_store32 (sha256.final_state md ! i)) [0..<8])"
  by (simp add: sha256_done_def sha256.final_state_def Let_def)

lemma sha256_done_buf: "length (ctx_buf md) = 64 \<Longrightarrow> ctx_curlen md < 64 \<Longrightarrow> length (ctx_buf (fst (sha256_done md))) = 64"
  by (simp add: sha256_done_def Let_def sha_zero_to_eq)

lemma sha256_done_correct:
  assumes "sha256.absorbed sha256_iv md msg"
  shows "snd (sha256_done md) = sha256_spec msg" and "length (ctx_buf (fst (sha256_done md))) = 64"
proof -
  have "length (sha256.final_state md) = 8"
    by (simp add: sha256.final_state_correct [OF assms] length_sha256_chain)
  then have "map (\<lambda>i. sha_store32 (sha256.final_state md ! i)) [0..<8]
      = map sha_store32 (sha256.final_state md)"
    by (rule map_nth_upt)
  then show "snd (sha256_done md) = sha256_spec msg"
    by (simp only: sha256_done_digest sha256_spec_def sha256.final_state_correct [OF assms])
  show "length (ctx_buf (fst (sha256_done md))) = 64"
    using assms by (intro sha256_done_buf) (auto simp: sha256.absorbed_def)
qed

lemma sha256_updates_absorb:
  "sha256.absorbed sha256_iv md msg \<Longrightarrow>
   \<exists>md'. Sha256_updates md args = Some md' \<and>
     sha256.absorbed sha256_iv md' (msg @ concat (map (\<lambda>x. take (length x mod 2 ^ 32) x) args))"
proof (induction args arbitrary: md msg)
  case Nil
  then show ?case by simp
next
  case (Cons x args)
  obtain md' where md': "Sha256_update md x = Some md'"
    "sha256.absorbed sha256_iv md' (msg @ take (length x mod 2 ^ 32) x)"
    using sha256.process_absorbs [OF Cons.prems, of "take (length x mod 2 ^ 32) x"] Cons.prems
    by (cases "x = []") (auto simp: Sha256_update_def)
  from Cons.IH [OF md'(2)] md'(1) show ?case by simp
qed

lemma Sha256_perform_general:
  assumes "length (ctx_buf md) = 64"
  shows "\<exists>md'. Sha256_perform md args
      = Some (md', sha256_spec (concat (map (\<lambda>x. take (length x mod 2 ^ 32) x) args)))
    \<and> length (ctx_buf md') = 64"
proof -
  have "sha256.absorbed sha256_iv (sha256_init md) []"
    unfolding sha256_init_def using assms by (rule sha256.init_absorbed)
  from sha256_updates_absorb [OF this, of args] obtain md'
    where "Sha256_updates (sha256_init md) args = Some md'"
      "sha256.absorbed sha256_iv md' (concat (map (\<lambda>x. take (length x mod 2 ^ 32) x) args))"
    by auto
  with sha256_done_correct [OF this(2)] show ?thesis
    by (cases "sha256_done md'") (simp add: Sha256_perform_def)
qed

lemma length_sha512_compress [simp]: "length (sha512_compress st buf) = 8"
  by (simp add: sha512_compress_def Let_def)

lemma length_sha512_chain: "length (foldl sha512_compress sha512_iv bs) = 8"
  by (induction bs rule: rev_induct) (simp_all add: sha512_iv_def)

lemma sha512_done_digest:
  "snd (sha512_done md) = concat (map (\<lambda>i. sha_store64 (sha512.final_state md ! i)) [0..<8])"
  by (simp add: sha512_done_def sha512.final_state_def Let_def)

lemma sha512_done_buf: "length (ctx_buf md) = 128 \<Longrightarrow> ctx_curlen md < 128 \<Longrightarrow> length (ctx_buf (fst (sha512_done md))) = 128"
  by (simp add: sha512_done_def Let_def sha_zero_to_eq)

lemma sha512_done_correct:
  assumes "sha512.absorbed sha512_iv md msg"
  shows "snd (sha512_done md) = sha512_spec msg" and "length (ctx_buf (fst (sha512_done md))) = 128"
proof -
  have "length (sha512.final_state md) = 8"
    by (simp add: sha512.final_state_correct [OF assms] length_sha512_chain)
  then have "map (\<lambda>i. sha_store64 (sha512.final_state md ! i)) [0..<8]
      = map sha_store64 (sha512.final_state md)"
    by (rule map_nth_upt)
  then show "snd (sha512_done md) = sha512_spec msg"
    by (simp only: sha512_done_digest sha512_spec_def sha512.final_state_correct [OF assms])
  show "length (ctx_buf (fst (sha512_done md))) = 128"
    using assms by (intro sha512_done_buf) (auto simp: sha512.absorbed_def)
qed

lemma sha512_updates_absorb:
  "sha512.absorbed sha512_iv md msg \<Longrightarrow>
   \<exists>md'. Sha512_updates md args = Some md' \<and>
     sha512.absorbed sha512_iv md' (msg @ concat (map (\<lambda>x. take (length x mod 2 ^ 32) x) args))"
proof (induction args arbitrary: md msg)
  case Nil
  then show ?case by simp
next
  case (Cons x args)
  obtain md' where md': "Sha512_update md x = Some md'"
    "sha512.absorbed sha512_iv md' (msg @ take (length x mod 2 ^ 32) x)"
    using sha512.process_absorbs [OF Cons.prems, of "take (length x mod 2 ^ 32) x"] Cons.prems
    by (cases "x = []") (auto simp: Sha512_update_def)
  from Cons.IH [OF md'(2)] md'(1) show ?case by simp
qed

lemma Sha512_perform_general:
  assumes "length (ctx_buf md) = 128"
  shows "\<exists>md'. Sha512_perform md args
      = Some (md', sha512_spec (concat (map (\<lambda>x. take (length x mod 2 ^ 32) x) args)))
    \<and> length (ctx_buf md') = 128"
proof -
  have "sha512.absorbed sha512_iv (sha512_init md) []"
    unfolding sha512_init_def using assms by (rule sha512.init_absorbed)
  from sha512_updates_absorb [OF this, of args] obtain md'
    where "Sha512_updates (sha512_init md) args = Some md'"
      "sha512.absorbed sha512_iv md' (concat (map (\<lambda>x. take (length x mod 2 ^ 32) x) args))"
    by auto
  with sha512_done_correct [OF this(2)] show ?thesis
    by (cases "sha512_done md'") (simp add: Sha512_perform_def)
qed

section \<open>The unrolled SHA-512 rounds\<close>

text \<open>The round of FIPS 180-4, with the registers moved as the SHA-256 code does.\<close>

definition sha512_round_spec :: "u64 list \<Rightarrow> u64 list \<Rightarrow> nat \<Rightarrow> u64 list" where
  "sha512_round_spec W S i =
     (let t1 = S ! 7 + sha512_Sigma1 (S ! 4) + sha512_Ch (S ! 4) (S ! 5) (S ! 6) + sha512_K ! i + W ! i;
          t2 = sha512_Sigma0 (S ! 0) + sha512_Maj (S ! 0) (S ! 1) (S ! 2)
      in [t1 + t2, S ! 0, S ! 1, S ! 2, S ! 3 + t1, S ! 4, S ! 5, S ! 6])"

lemma length_sha512_RND [simp]: "length (sha512_RND W a b c d e f g h i S) = length S"
  by (simp add: sha512_RND_def Let_def)

text \<open>One in-place call is one round, once the registers are read in their new order.\<close>

lemma sha512_RND_view:
  assumes "distinct [a, b, c, d, e, f, g, h]" "list_all (\<lambda>r. r < length S) [a, b, c, d, e, f, g, h]"
  shows "map ((!) (sha512_RND W a b c d e f g h i S)) [h, a, b, c, d, e, f, g]
    = sha512_round_spec W (map ((!) S) [a, b, c, d, e, f, g, h]) i"
  using assms by (auto simp: sha512_RND_def sha512_round_spec_def Let_def nth_list_update)

lemma sha512_eight_correct:
  assumes "length S = 8"
  shows "sha512_eight W S i = foldl (sha512_round_spec W) S [i..<i + 8]"
proof -
  have up: "[i..<i + 8] = [i + 0, i + 1, i + 2, i + 3, i + 4, i + 5, i + 6, i + 7]"
    by (simp add: upt_rec)
  have view: "map ((!) T) [0, 1, 2, 3, 4, 5, 6, 7] = T" if "length T = 8" for T :: "u64 list"
  proof -
    have "[0..<8] = [0, 1, 2, 3, 4, 5, 6, 7 :: nat]" by (simp add: upt_rec)
    then show ?thesis using that map_nth [of T] by metis
  qed
  define S1 where "S1 = sha512_RND W 0 1 2 3 4 5 6 7 (i + 0) S"
  define S2 where "S2 = sha512_RND W 7 0 1 2 3 4 5 6 (i + 1) S1"
  define S3 where "S3 = sha512_RND W 6 7 0 1 2 3 4 5 (i + 2) S2"
  define S4 where "S4 = sha512_RND W 5 6 7 0 1 2 3 4 (i + 3) S3"
  define S5 where "S5 = sha512_RND W 4 5 6 7 0 1 2 3 (i + 4) S4"
  define S6 where "S6 = sha512_RND W 3 4 5 6 7 0 1 2 (i + 5) S5"
  define S7 where "S7 = sha512_RND W 2 3 4 5 6 7 0 1 (i + 6) S6"
  define S8 where "S8 = sha512_RND W 1 2 3 4 5 6 7 0 (i + 7) S7"
  note defs = S1_def S2_def S3_def S4_def S5_def S6_def S7_def S8_def
  have len: "length S1 = 8" "length S2 = 8" "length S3 = 8" "length S4 = 8"
    "length S5 = 8" "length S6 = 8" "length S7 = 8" "length S8 = 8"
    using assms by (simp_all add: defs)
  have v1: "map ((!) S1) [7, 0, 1, 2, 3, 4, 5, 6] = sha512_round_spec W (map ((!) S) [0, 1, 2, 3, 4, 5, 6, 7]) (i + 0)"
    unfolding S1_def by (rule sha512_RND_view) (simp_all add: assms len)
  have v2: "map ((!) S2) [6, 7, 0, 1, 2, 3, 4, 5] = sha512_round_spec W (map ((!) S1) [7, 0, 1, 2, 3, 4, 5, 6]) (i + 1)"
    unfolding S2_def by (rule sha512_RND_view) (simp_all add: assms len)
  have v3: "map ((!) S3) [5, 6, 7, 0, 1, 2, 3, 4] = sha512_round_spec W (map ((!) S2) [6, 7, 0, 1, 2, 3, 4, 5]) (i + 2)"
    unfolding S3_def by (rule sha512_RND_view) (simp_all add: assms len)
  have v4: "map ((!) S4) [4, 5, 6, 7, 0, 1, 2, 3] = sha512_round_spec W (map ((!) S3) [5, 6, 7, 0, 1, 2, 3, 4]) (i + 3)"
    unfolding S4_def by (rule sha512_RND_view) (simp_all add: assms len)
  have v5: "map ((!) S5) [3, 4, 5, 6, 7, 0, 1, 2] = sha512_round_spec W (map ((!) S4) [4, 5, 6, 7, 0, 1, 2, 3]) (i + 4)"
    unfolding S5_def by (rule sha512_RND_view) (simp_all add: assms len)
  have v6: "map ((!) S6) [2, 3, 4, 5, 6, 7, 0, 1] = sha512_round_spec W (map ((!) S5) [3, 4, 5, 6, 7, 0, 1, 2]) (i + 5)"
    unfolding S6_def by (rule sha512_RND_view) (simp_all add: assms len)
  have v7: "map ((!) S7) [1, 2, 3, 4, 5, 6, 7, 0] = sha512_round_spec W (map ((!) S6) [2, 3, 4, 5, 6, 7, 0, 1]) (i + 6)"
    unfolding S7_def by (rule sha512_RND_view) (simp_all add: assms len)
  have v8: "map ((!) S8) [0, 1, 2, 3, 4, 5, 6, 7] = sha512_round_spec W (map ((!) S7) [1, 2, 3, 4, 5, 6, 7, 0]) (i + 7)"
    unfolding S8_def by (rule sha512_RND_view) (simp_all add: assms len)
  have "foldl (sha512_round_spec W) S [i..<i + 8] = map ((!) S8) [0, 1, 2, 3, 4, 5, 6, 7]"
    by (simp only: up foldl.simps v8 v7 v6 v5 v4 v3 v2 v1 view [OF assms])
  also have "\<dots> = S8" by (rule view) (rule len)
  finally show ?thesis by (simp add: sha512_eight_def Let_def defs)
qed

lemma length_foldl_sha512_round:
  "length S = 8 \<Longrightarrow> length (foldl (sha512_round_spec W) S is) = 8"
  by (induction "is" arbitrary: S) (simp_all add: sha512_round_spec_def Let_def)

lemma foldl_sha512_eight:
  "length S = 8 \<Longrightarrow>
   foldl (\<lambda>S j. sha512_eight W S (8 * j)) S [0..<n] = foldl (sha512_round_spec W) S [0..<8 * n]"
proof (induction n)
  case 0
  then show ?case by simp
next
  case (Suc n)
  have "[0..<8 * Suc n] = [0..<8 * n] @ [8 * n..<8 * n + 8]"
    by (metis add.commute le_add1 mult_Suc_right upt_add_eq_append zero_le)
  with Suc show ?case
    by (simp add: sha512_eight_correct length_foldl_sha512_round)
qed

section \<open>HMAC\<close>

text \<open>RFC 2104 over a hash with block size \<open>bsz\<close>.\<close>

definition hmac_spec :: "nat \<Rightarrow> (u8 list \<Rightarrow> u8 list) \<Rightarrow> u8 list \<Rightarrow> u8 list \<Rightarrow> u8 list" where
  "hmac_spec bsz H key msg =
     (let k0 = (if length key > bsz then H key else key);
          k = k0 @ replicate (bsz - length k0) 0
      in H (map (\<lambda>b. b XOR 0x5C) k @ H (map (\<lambda>b. b XOR 0x36) k @ msg)))"

lemma hmac_pad_flip: "map (\<lambda>b. b XOR (HMAC_I_PAD XOR HMAC_O_PAD)) (map (\<lambda>b. b XOR HMAC_I_PAD) k)
    = map (\<lambda>b. b XOR 0x5C) k"
  by (simp add: HMAC_I_PAD_def HMAC_O_PAD_def xor.assoc)

lemma length_concat_store [simp]:
  "length (concat (map sha_store32 ws)) = 4 * length ws"
  "length (concat (map sha_store64 ws')) = 8 * length ws'"
  by (induction ws) (simp_all, induction ws', simp_all)

lemma length_sha256_spec [simp]: "length (sha256_spec msg) = 32"
  by (simp add: sha256_spec_def length_sha256_chain)

lemma length_sha512_spec [simp]: "length (sha512_spec msg) = 64"
  by (simp add: sha512_spec_def length_sha512_chain)


lemma hmac_key_write256: "length k \<le> 64 \<Longrightarrow> buf_write (replicate 64 0) 0 k = k @ replicate (64 - length k) 0"
  by (simp add: buf_write_def)

lemma Sha256_perform_small:
  assumes "length (ctx_buf md) = 64" "\<forall>x\<in>set args. length x < 2 ^ 32"
  shows "\<exists>md'. Sha256_perform md args = Some (md', sha256_spec (concat args)) \<and> length (ctx_buf md') = 64"
proof -
  have "map (\<lambda>x. take (length x mod 2 ^ 32) x) args = args"
    using assms(2) by (simp add: map_idI)
  with Sha256_perform_general [OF assms(1), of args] show ?thesis by simp
qed

lemma Sha256_hmac_correct:
  assumes buf: "length (ctx_buf ctx) = 64" and "length key < 2 ^ 32" "length data < 2 ^ 32"
  shows "Sha256_hmac ctx data key = Some (hmac_spec 64 sha256_spec key data)"
proof -
  define k0 where "k0 = (if length key > 64 then sha256_spec key else key)"
  define k where "k = k0 @ replicate (64 - length k0) 0"
  have lk0: "length k0 \<le> 64" and lk: "length k = 64" by (auto simp: k0_def k_def)
  obtain c1 where c1: "length (ctx_buf c1) = 64"
    "(if length key > 64
      then (case Sha256_perform ctx [key] of None \<Rightarrow> None | Some (ctx, d) \<Rightarrow> Some (ctx, buf_write (replicate 64 0) 0 d))
      else Some (ctx, buf_write (replicate 64 0) 0 key)) = Some (c1, k)"
  proof (cases "length key > 64")
    case True
    obtain c1 where "Sha256_perform ctx [key] = Some (c1, sha256_spec key)" "length (ctx_buf c1) = 64"
      using Sha256_perform_small [OF buf, of "[key]"] assms by auto
    with True that [of c1] show ?thesis by (simp add: k_def k0_def hmac_key_write256)
  next
    case False
    with buf that [of ctx] show ?thesis by (simp add: k_def k0_def hmac_key_write256)
  qed
  let ?ipad = "map (\<lambda>b. b XOR HMAC_I_PAD) k"
  let ?ret = "sha256_spec (?ipad @ data)"
  obtain c2 where c2: "Sha256_perform c1 [?ipad, data] = Some (c2, ?ret)" "length (ctx_buf c2) = 64"
    using Sha256_perform_small [OF c1(1), of "[?ipad, data]"] assms lk by auto
  let ?opad = "map (\<lambda>b. b XOR (HMAC_I_PAD XOR HMAC_O_PAD)) ?ipad"
  obtain c3 where c3: "Sha256_perform c2 [?opad, ?ret] = Some (c3, sha256_spec (?opad @ ?ret))"
    using Sha256_perform_small [OF c2(2), of "[?opad, ?ret]"] lk by auto
  have "Sha256_hmac ctx data key = Some (sha256_spec (?opad @ ?ret))"
    unfolding Sha256_hmac_def Let_def c1(2) by (simp only: option.case prod.case c2(1) c3 option.map snd_conv)
  then show ?thesis
    unfolding hmac_pad_flip by (simp add: hmac_spec_def Let_def k_def k0_def HMAC_I_PAD_def)
qed

lemma hmac_key_write512: "length k \<le> 128 \<Longrightarrow> buf_write (replicate 128 0) 0 k = k @ replicate (128 - length k) 0"
  by (simp add: buf_write_def)

lemma Sha512_perform_small:
  assumes "length (ctx_buf md) = 128" "\<forall>x\<in>set args. length x < 2 ^ 32"
  shows "\<exists>md'. Sha512_perform md args = Some (md', sha512_spec (concat args)) \<and> length (ctx_buf md') = 128"
proof -
  have "map (\<lambda>x. take (length x mod 2 ^ 32) x) args = args"
    using assms(2) by (simp add: map_idI)
  with Sha512_perform_general [OF assms(1), of args] show ?thesis by simp
qed

lemma Sha512_hmac_correct:
  assumes buf: "length (ctx_buf ctx) = 128" and "length key < 2 ^ 32" "length data < 2 ^ 32"
  shows "Sha512_hmac ctx data key = Some (hmac_spec 128 sha512_spec key data)"
proof -
  define k0 where "k0 = (if length key > 128 then sha512_spec key else key)"
  define k where "k = k0 @ replicate (128 - length k0) 0"
  have lk0: "length k0 \<le> 128" and lk: "length k = 128" by (auto simp: k0_def k_def)
  obtain c1 where c1: "length (ctx_buf c1) = 128"
    "(if length key > 128
      then (case Sha512_perform ctx [key] of None \<Rightarrow> None | Some (ctx, d) \<Rightarrow> Some (ctx, buf_write (replicate 128 0) 0 d))
      else Some (ctx, buf_write (replicate 128 0) 0 key)) = Some (c1, k)"
  proof (cases "length key > 128")
    case True
    obtain c1 where "Sha512_perform ctx [key] = Some (c1, sha512_spec key)" "length (ctx_buf c1) = 128"
      using Sha512_perform_small [OF buf, of "[key]"] assms by auto
    with True that [of c1] show ?thesis by (simp add: k_def k0_def hmac_key_write512)
  next
    case False
    with buf that [of ctx] show ?thesis by (simp add: k_def k0_def hmac_key_write512)
  qed
  let ?ipad = "map (\<lambda>b. b XOR HMAC_I_PAD) k"
  let ?ret = "sha512_spec (?ipad @ data)"
  obtain c2 where c2: "Sha512_perform c1 [?ipad, data] = Some (c2, ?ret)" "length (ctx_buf c2) = 128"
    using Sha512_perform_small [OF c1(1), of "[?ipad, data]"] assms lk by auto
  let ?opad = "map (\<lambda>b. b XOR (HMAC_I_PAD XOR HMAC_O_PAD)) ?ipad"
  obtain c3 where c3: "Sha512_perform c2 [?opad, ?ret] = Some (c3, sha512_spec (?opad @ ?ret))"
    using Sha512_perform_small [OF c2(2), of "[?opad, ?ret]"] lk by auto
  have "Sha512_hmac ctx data key = Some (sha512_spec (?opad @ ?ret))"
    unfolding Sha512_hmac_def Let_def c1(2) by (simp only: option.case prod.case c2(1) c3 option.map snd_conv)
  then show ?thesis
    unfolding hmac_pad_flip by (simp add: hmac_spec_def Let_def k_def k0_def HMAC_I_PAD_def)
qed

section \<open>Properties\<close>





text \<open>
  The SHA-512 loop that renames its registers and unrolls eight rounds computes the eighty
  rounds of the standard, in which the registers are shifted after every round.
\<close>

theorem sha512_compress_unrolled:
  assumes "length st = 8"
  shows "sha512_compress st buf
    = map2 (+) st (foldl (sha512_round_spec (sha512_schedule buf)) st [0..<80])"
proof -
  have "length (foldl (sha512_round_spec (sha512_schedule buf)) st [0..<80]) = 8"
    using assms by (rule length_foldl_sha512_round)
  then show ?thesis
    using assms foldl_sha512_eight [OF assms, of "sha512_schedule buf" 10]
    by (auto simp: sha512_compress_def Let_def intro: nth_equalityI)
qed

theorem sha512_compress_unrolled_witness:
  "sha512_compress sha512_iv (replicate 128 0)
    = map2 (+) sha512_iv (foldl (sha512_round_spec (sha512_schedule (replicate 128 0))) sha512_iv [0..<80])"
  by (rule sha512_compress_unrolled) (simp add: sha512_iv_def)

text \<open>
  C29: \<^verbatim>\<open>Sha256::hmac\<close>, which reuses one context for its three digests and turns the inner pad
  into the outer one in place, is the HMAC of RFC 2104 over SHA-256, for short and long keys.
\<close>

theorem Sha256_hmac_is_hmac:
  assumes "length (ctx_buf ctx) = 64" "length key < 2 ^ 32" "length data < 2 ^ 32"
  shows "Sha256_hmac ctx data key = Some (hmac_spec 64 sha256_spec key data)"
  using assms by (rule Sha256_hmac_correct)

theorem Sha256_hmac_is_hmac_witness:
  "Sha256_hmac \<lparr>ctx_length = 0, ctx_state = [], ctx_curlen = 3, ctx_buf = replicate 64 1\<rparr>
     (ascii ''data'') (ascii ''key'') = Some (hmac_spec 64 sha256_spec (ascii ''key'') (ascii ''data''))"
  by (rule Sha256_hmac_is_hmac) simp_all

text \<open>C7: \<^verbatim>\<open>Sha512::hmac\<close> is the HMAC of RFC 2104 over SHA-512.\<close>

theorem Sha512_hmac_is_hmac:
  assumes "length (ctx_buf ctx) = 128" "length key < 2 ^ 32" "length data < 2 ^ 32"
  shows "Sha512_hmac ctx data key = Some (hmac_spec 128 sha512_spec key data)"
  using assms by (rule Sha512_hmac_correct)

theorem Sha512_hmac_is_hmac_witness:
  "Sha512_hmac \<lparr>ctx_length = 0, ctx_state = [], ctx_curlen = 3, ctx_buf = replicate 128 1\<rparr>
     (ascii ''data'') (ascii ''key'') = Some (hmac_spec 128 sha512_spec (ascii ''key'') (ascii ''data''))"
  by (rule Sha512_hmac_is_hmac) simp_all

end
