(* ===== verification/PoolAllocator.thy ===== *)
theory PoolAllocator
  imports Prelude "HOL-Library.Multiset"
begin

text \<open>
  Models \<^verbatim>\<open>common/memory/pool/SPMemPoolAllocator.cc\<close>: the page allocator under the memory pools.

  A \<^verbatim>\<open>MemNode\<close> is a record; the lists linked through \<^verbatim>\<open>next\<close> are Isabelle lists. The twenty free
  lists of \<^verbatim>\<open>buf\<close> hold the nodes by \<^verbatim>\<open>index\<close> (their pages less one), list 0 is the sink for the
  larger ones. \<^verbatim>\<open>malloc\<close> and the system calls that grow the mapped file are outside the program:
  their answers are the argument \<open>os\<close>. An operation runs under the allocator's lock, so it is one
  step. Indices are natural numbers, the budget counters keep their 32 bits.
\<close>

section \<open>Configuration and data\<close>

definition BOUNDARY_INDEX :: nat where "BOUNDARY_INDEX = 12"

definition BOUNDARY_SIZE :: nat where "BOUNDARY_SIZE = 4096"

definition MIN_ALLOC :: u32 where "MIN_ALLOC = 2 * of_nat BOUNDARY_SIZE"

definition MAX_INDEX :: nat where "MAX_INDEX = 20"

definition ALLOCATOR_MAX_FREE_UNLIMITED :: u32 where "ALLOCATOR_MAX_FREE_UNLIMITED = 0"

definition ALLOCATOR_MMAP_RESERVED :: u64 where "ALLOCATOR_MMAP_RESERVED = 64 * 1024 * 1024 * 1024"

definition SPALIGN :: "u64 \<Rightarrow> u64 \<Rightarrow> u64" where
  "SPALIGN sz boundary = (sz + (boundary - 1)) AND NOT (boundary - 1)"

text \<open>Two pointers, two 32-bit indices and two pointers are 40 bytes.\<close>

definition SIZEOF_MEMNODE :: u64 where "SIZEOF_MEMNODE = SPALIGN 40 16"

record memnode =
  mn_addr :: u64
  mn_index :: nat
  mn_free_index :: nat
  mn_first_avail :: u64
  mn_endp :: u64

record allocator =
  al_last :: nat
  al_max :: u32
  al_current :: u32
  al_buf :: "memnode list list"
  al_allocated :: u64
  al_mmapPtr :: "u64 option"
  al_mmapCurrent :: u32
  al_mmapMax :: u32

record os =
  os_malloc :: "u64 \<Rightarrow> u64 option"
  os_grow :: bool

section \<open>Operations\<close>

definition Allocator_init :: allocator where
  "Allocator_init = \<lparr> al_last = 0, al_max = ALLOCATOR_MAX_FREE_UNLIMITED, al_current = 0,
     al_buf = replicate MAX_INDEX [], al_allocated = 0, al_mmapPtr = None, al_mmapCurrent = 0,
     al_mmapMax = 0 \<rparr>"

definition Allocator_set_max :: "u32 \<Rightarrow> allocator \<Rightarrow> allocator" where
  "Allocator_set_max limit a =
     (let max_free_index = ucast (drop_bit BOUNDARY_INDEX (SPALIGN (ucast limit) (of_nat BOUNDARY_SIZE)));
          current = al_current a + max_free_index;
          current = current - al_max a
      in a\<lparr> al_max := max_free_index,
            al_current := (if current > max_free_index then max_free_index else current) \<rparr>)"

text \<open>\<^verbatim>\<open>allocator_mmap_realloc\<close>: all sizes are \<^verbatim>\<open>uint32_t\<close>; \<open>grow\<close> says that the system calls succeed.\<close>

definition allocator_mmap_realloc :: "bool \<Rightarrow> u32 \<Rightarrow> u32 \<Rightarrow> u32" where
  "allocator_mmap_realloc grow idx required =
     (let newSize = idx * 2 * of_nat BOUNDARY_SIZE;
          newSize = (if newSize div of_nat BOUNDARY_SIZE < required
                     then required * of_nat BOUNDARY_SIZE else newSize)
      in if ucast newSize > ALLOCATOR_MMAP_RESERVED then 0
         else if grow then newSize div of_nat BOUNDARY_SIZE else 0)"

text \<open>\<^verbatim>\<open>run_mmap\<close> when its system calls succeed and map the file at \<open>p\<close>.\<close>

definition Allocator_run_mmap :: "u64 \<Rightarrow> u32 \<Rightarrow> allocator \<Rightarrow> allocator" where
  "Allocator_run_mmap p idx a =
     (let idx = (if idx = 0 then 1024 else idx) in
      if al_mmapPtr a \<noteq> None then a else a\<lparr> al_mmapPtr := Some p, al_mmapMax := idx \<rparr>)"

text \<open>The walk over the free lists from \<open>index\<close> to the highest used one.\<close>

function find_bucket :: "memnode list list \<Rightarrow> nat \<Rightarrow> nat \<Rightarrow> nat" where
  "find_bucket buf i max_index =
     (if buf ! i = [] \<and> i < max_index then find_bucket buf (i + 1) max_index else i)"
  by pat_completeness auto
termination by (relation "measure (\<lambda>(buf, i, max_index). max_index - i)") auto

declare find_bucket.simps [simp del]

text \<open>The search for the new highest used index.\<close>

fun lower_last :: "memnode list list \<Rightarrow> nat \<Rightarrow> nat" where
  "lower_last buf 0 = 0"
| "lower_last buf (Suc max_index) =
     (if buf ! max_index = [] \<and> max_index > 0 then lower_last buf max_index else max_index)"

fun take_sink :: "nat \<Rightarrow> memnode list \<Rightarrow> (memnode \<times> memnode list) option" where
  "take_sink index [] = None"
| "take_sink index (node # rest) =
     (if index > mn_index node
      then (case take_sink index rest of None \<Rightarrow> None | Some (n, rest') \<Rightarrow> Some (n, node # rest'))
      else Some (node, rest))"

definition reset_node :: "memnode \<Rightarrow> memnode" where
  "reset_node node = node\<lparr> mn_first_avail := mn_addr node + SIZEOF_MEMNODE \<rparr>"

definition recharge :: "memnode \<Rightarrow> allocator \<Rightarrow> allocator" where
  "recharge node a =
     (let current = al_current a + of_nat (mn_index node + 1)
      in a\<lparr> al_current := (if current > al_max a then al_max a else current) \<rparr>)"

text \<open>
  A new node, from the mapped file or from \<^verbatim>\<open>malloc\<close>. Its \<^verbatim>\<open>free_index\<close> is not initialised by the
  code; the pool sets it before it reads it.
\<close>

definition Allocator_new :: "os \<Rightarrow> u32 \<Rightarrow> nat \<Rightarrow> allocator \<Rightarrow> allocator \<times> memnode option" where
  "Allocator_new os sz index a =
     (let mk = \<lambda>p. \<lparr> mn_addr = p, mn_index = index, mn_free_index = 0, mn_first_avail = p + SIZEOF_MEMNODE,
                    mn_endp = p + ucast sz \<rparr> in
      case al_mmapPtr a of
        Some p \<Rightarrow>
          (let newMax = (if unat (al_mmapCurrent a) + (index + 1) > unat (al_mmapMax a)
                         then allocator_mmap_realloc (os_grow os) (al_mmapMax a)
                                (al_mmapCurrent a + of_nat index + 1)
                         else al_mmapMax a)
           in if unat (al_mmapCurrent a) + (index + 1) > unat (al_mmapMax a) \<and> newMax = 0
              then (a, None)
              else (a\<lparr> al_mmapMax := newMax, al_mmapCurrent := al_mmapCurrent a + of_nat (index + 1) \<rparr>,
                    Some (mk (p + ucast (al_mmapCurrent a * of_nat BOUNDARY_SIZE)))))
      | None \<Rightarrow>
          (case os_malloc os (ucast sz) of
             None \<Rightarrow> (a, None)
           | Some p \<Rightarrow> (a\<lparr> al_allocated := al_allocated a + ucast sz \<rparr>, Some (mk p))))"

definition alloc_size :: "u32 \<Rightarrow> u32" where
  "alloc_size in_size = ucast (SPALIGN (ucast in_size + SIZEOF_MEMNODE) (of_nat BOUNDARY_SIZE))"

definition alloc_index :: "u32 \<Rightarrow> nat" where
  "alloc_index sz = unat (drop_bit BOUNDARY_INDEX sz) - 1"

definition Allocator_alloc :: "os \<Rightarrow> u32 \<Rightarrow> allocator \<Rightarrow> allocator \<times> memnode option" where
  "Allocator_alloc os in_size a =
     (let sz = alloc_size in_size in
      if sz < in_size then (a, None)
      else let sz = (if sz < MIN_ALLOC then MIN_ALLOC else sz);
               index = alloc_index sz
      in if index \<le> al_last a then
           (let i = find_bucket (al_buf a) index (al_last a) in
            case al_buf a ! i of
              node # rest \<Rightarrow>
                (let buf = (al_buf a)[i := rest];
                     a = (if rest = [] \<and> i \<ge> al_last a
                          then a\<lparr> al_buf := buf, al_last := lower_last buf (al_last a) \<rparr>
                          else a\<lparr> al_buf := buf \<rparr>)
                 in (recharge node a, Some (reset_node node)))
            | [] \<Rightarrow> Allocator_new os sz index a)
         else if al_buf a ! 0 \<noteq> [] then
           (case take_sink index (al_buf a ! 0) of
              Some (node, rest) \<Rightarrow>
                (recharge node (a\<lparr> al_buf := (al_buf a)[0 := rest] \<rparr>), Some (reset_node node))
            | None \<Rightarrow> Allocator_new os sz index a)
         else Allocator_new os sz index a)"

text \<open>
  \<^verbatim>\<open>free\<close>: one node of the submitted chain goes to the list of nodes to give back, to its free list
  or to the sink; the local copies \<^verbatim>\<open>max_index\<close> and \<^verbatim>\<open>current_free_index\<close> are the fields themselves
  here, the lock is held until they are stored.
\<close>

definition free_step :: "memnode \<Rightarrow> allocator \<times> memnode list \<Rightarrow> allocator \<times> memnode list" where
  "free_step node s =
     (let (a, freelist) = s; index = mn_index node;
          discharge = (if unat (al_current a) \<ge> index + 1
                       then al_current a - of_nat (index + 1) else 0)
      in if al_max a \<noteq> ALLOCATOR_MAX_FREE_UNLIMITED \<and> index + 1 > unat (al_current a)
         then (a, node # freelist)
         else if index < MAX_INDEX
         then (a\<lparr> al_buf := (al_buf a)[index := node # al_buf a ! index],
                  al_last := (if al_buf a ! index = [] \<and> index > al_last a then index else al_last a),
                  al_current := discharge \<rparr>, freelist)
         else (a\<lparr> al_buf := (al_buf a)[0 := node # al_buf a ! 0], al_current := discharge \<rparr>, freelist))"

definition Allocator_free :: "memnode list \<Rightarrow> allocator \<Rightarrow> allocator \<times> memnode list" where
  "Allocator_free nodes a =
     (let (a, freelist) = fold free_step nodes (a, [])
      in if al_mmapPtr a \<noteq> None then (a, [])
         else (a\<lparr> al_allocated := al_allocated a - (\<Sum>n\<leftarrow>freelist. mn_endp n - mn_addr n) \<rparr>, freelist))"

text \<open>The destructor: the nodes given back to \<^verbatim>\<open>free\<close>, bucket by bucket; nothing for a mapped file.\<close>

definition Allocator_destroy :: "allocator \<Rightarrow> memnode list" where
  "Allocator_destroy a = (if al_mmapPtr a \<noteq> None then [] else concat (al_buf a))"


section \<open>Sizes\<close>

lemma SIZEOF_MEMNODE_value: "SIZEOF_MEMNODE = 48"
  by (simp add: SIZEOF_MEMNODE_def SPALIGN_def)

lemma SPALIGN_page:
  assumes "unat x + 4096 \<le> 2 ^ 64"
  shows "unat (SPALIGN x 4096) = (unat x + 4095) div 4096 * 4096"
proof -
  have m: "(4095 :: u64) = mask 12" by (simp add: mask_eq_exp_minus_1)
  have "(x + 4095) AND NOT (mask 12) = push_bit 12 (drop_bit 12 (x + 4095))"
    by (rule bit_word_eqI) (auto simp: bit_simps)
  then have "SPALIGN x 4096 = push_bit 12 (drop_bit 12 (x + 4095))"
    by (simp add: SPALIGN_def flip: m)
  moreover have sum: "unat (x + 4095) = unat x + 4095"
    using assms by (simp add: unat_word_ariths)
  have "unat (drop_bit 12 (x + 4095)) = (unat x + 4095) div 4096"
    by (simp add: unat_drop_bit_div sum)
  ultimately show ?thesis
    using assms by (simp only: unsigned_push_bit_eq) (simp add: push_bit_eq_mult take_bit_eq_mod)
qed

lemma alloc_size_value:
  assumes "\<not> alloc_size x < x"
  shows "unat (alloc_size x) = (unat x + 48 + 4095) div 4096 * 4096"
    and "(unat x + 48 + 4095) div 4096 < 2 ^ 20"
proof -
  have x: "unat x < 2 ^ 32" using unsigned_less [of x, where ?'a = nat] by simp
  have "unat (ucast x + 48 :: u64) = unat x + 48"
    using x by (simp add: unat_word_ariths unsigned_ucast_eq take_bit_nat_eq_self)
  then have a: "unat (SPALIGN (ucast x + 48) 4096) = (unat x + 48 + 4095) div 4096 * 4096"
    using x SPALIGN_page [of "ucast x + 48"] by simp
  have u: "unat (alloc_size x) = (unat x + 48 + 4095) div 4096 * 4096 mod 2 ^ 32"
    by (simp add: alloc_size_def SIZEOF_MEMNODE_value BOUNDARY_SIZE_def unsigned_ucast_eq take_bit_eq_mod a)
  show l: "(unat x + 48 + 4095) div 4096 < 2 ^ 20"
  proof (rule ccontr)
    let ?p = "(unat x + 48 + 4095) div 4096"
    assume "\<not> ?p < 2 ^ 20"
    moreover have "?p \<le> (2 ^ 32 + 48 + 4095) div 4096" using x by (intro div_le_mono) simp
    ultimately have "?p = 2 ^ 20 \<or> ?p = 2 ^ 20 + 1" by simp linarith
    with u have "unat (alloc_size x) \<le> 4096" by auto
    with assms have "unat x \<le> 4096" by (simp add: word_less_nat_alt)
    then have "?p \<le> (4096 + 48 + 4095) div 4096" by (intro div_le_mono) simp
    with \<open>\<not> ?p < 2 ^ 20\<close> show False by simp
  qed
  then have "(unat x + 48 + 4095) div 4096 * 4096 < 2 ^ 32" by simp
  then show "unat (alloc_size x) = (unat x + 48 + 4095) div 4096 * 4096"
    using u by (metis mod_less)
qed

text \<open>What a request turns into: the bytes of the node and its index.\<close>

definition request_size :: "u32 \<Rightarrow> u32" where
  "request_size x = (if alloc_size x < MIN_ALLOC then MIN_ALLOC else alloc_size x)"

lemma request_pages:
  assumes "\<not> alloc_size x < x"
  shows "unat (request_size x) = (alloc_index (request_size x) + 1) * 4096"
    and "1 \<le> alloc_index (request_size x)"
    and "alloc_index (request_size x) + 1 < 2 ^ 20"
    and "unat x + 48 \<le> unat (request_size x)"
proof -
  let ?p = "(unat x + 48 + 4095) div 4096"
  have s: "unat (alloc_size x) = ?p * 4096" "?p < 2 ^ 20" using alloc_size_value [OF assms] by auto
  have m: "unat MIN_ALLOC = 8192" by (simp add: MIN_ALLOC_def BOUNDARY_SIZE_def)
  obtain q where q: "unat (request_size x) = q * 4096" "2 \<le> q" "q < 2 ^ 20" "?p \<le> q"
  proof (cases "alloc_size x < MIN_ALLOC")
    case True
    then have "?p * 4096 < 8192" using s m by (simp add: word_less_nat_alt)
    then show ?thesis using that [of 2] True m by (simp add: request_size_def)
  next
    case False
    then have "8192 \<le> ?p * 4096" using s m by (simp add: word_less_nat_alt)
    then show ?thesis using that [of ?p] False s by (simp add: request_size_def)
  qed
  have "unat (drop_bit 12 (request_size x)) = q"
    using q(1) by (simp add: unat_drop_bit_div)
  then have i: "alloc_index (request_size x) = q - 1" by (simp add: alloc_index_def BOUNDARY_INDEX_def)
  with q show "unat (request_size x) = (alloc_index (request_size x) + 1) * 4096"
    "1 \<le> alloc_index (request_size x)" "alloc_index (request_size x) + 1 < 2 ^ 20"
    by simp_all
  have "unat x + 48 \<le> ?p * 4096" by simp
  also have "\<dots> \<le> q * 4096" using q(4) by simp
  finally show "unat x + 48 \<le> unat (request_size x)" using q(1) by simp
qed


section \<open>Well-formed allocators\<close>

definition node_wf :: "memnode \<Rightarrow> bool" where
  "node_wf n \<longleftrightarrow> 1 \<le> mn_index n \<and> mn_index n + 1 < 2 ^ 20
     \<and> mn_endp n = mn_addr n + of_nat ((mn_index n + 1) * BOUNDARY_SIZE)"

definition bucket_wf :: "nat \<Rightarrow> memnode list \<Rightarrow> bool" where
  "bucket_wf i ns \<longleftrightarrow> (\<forall>n\<in>set ns. node_wf n \<and> (if i = 0 then MAX_INDEX \<le> mn_index n else mn_index n = i))"

definition al_wf :: "allocator \<Rightarrow> bool" where
  "al_wf a \<longleftrightarrow> length (al_buf a) = MAX_INDEX \<and> al_last a < MAX_INDEX
     \<and> (al_last a = 0 \<or> al_buf a ! al_last a \<noteq> [])
     \<and> (\<forall>i. al_last a < i \<and> i < MAX_INDEX \<longrightarrow> al_buf a ! i = [])
     \<and> (\<forall>i<MAX_INDEX. bucket_wf i (al_buf a ! i))
     \<and> al_current a \<le> al_max a"

definition retained :: "allocator \<Rightarrow> memnode multiset" where
  "retained a = mset (concat (al_buf a))"

definition pages :: "memnode multiset \<Rightarrow> nat" where
  "pages M = (\<Sum>n\<in>#M. mn_index n + 1)"

lemma pages_simps [simp]: "pages {#} = 0" "pages (add_mset n M) = mn_index n + 1 + pages M" "pages (M + N) = pages M + pages N"
  by (simp_all add: pages_def)

lemma mset_concat_update:
  assumes "i < length xs"
  shows "mset (concat (xs[i := ys])) + mset (xs ! i) = mset (concat xs) + mset ys"
proof -
  have "concat xs = concat (take i xs) @ xs ! i @ concat (drop (Suc i) xs)"
    by (metis assms concat.simps(2) concat_append id_take_nth_drop)
  then show ?thesis using assms by (simp add: upd_conv_take_nth_drop)
qed

lemma find_bucket_found:
  "i \<le> m \<Longrightarrow> buf ! m \<noteq> [] \<Longrightarrow> i \<le> find_bucket buf i m \<and> find_bucket buf i m \<le> m \<and> buf ! find_bucket buf i m \<noteq> []"
proof (induction buf i m rule: find_bucket.induct)
  case (1 buf i m)
  show ?case
  proof (cases "buf ! i = [] \<and> i < m")
    case True
    with 1 have "Suc i \<le> find_bucket buf (Suc i) m \<and> find_bucket buf (Suc i) m \<le> m \<and> buf ! find_bucket buf (Suc i) m \<noteq> []" by simp
    with True show ?thesis by (simp add: find_bucket.simps [of buf i m])
  next
    case False
    with 1(2,3) show ?thesis by (auto simp: find_bucket.simps [of buf i m])
  qed
qed

lemma lower_last_highest:
  assumes "0 < m"
  shows "lower_last buf m < m"
    and "lower_last buf m = 0 \<or> buf ! lower_last buf m \<noteq> []"
    and "\<And>j. lower_last buf m < j \<Longrightarrow> j < m \<Longrightarrow> buf ! j = []"
  using assms
proof (induction m)
  case (Suc m)
  {
    case 1
    then show ?case using Suc.IH(1) by (cases "0 < m") auto
  next
    case 2
    then show ?case using Suc.IH(2) by (cases "0 < m") auto
  next
    case (3 j)
    then show ?case using Suc.IH(3) [of j] by (cases "buf ! m = [] \<and> 0 < m"; cases "j = m") auto
  }
qed simp_all

lemma take_sink_found:
  "take_sink index ns = Some (n, rest) \<Longrightarrow>
   index \<le> mn_index n \<and> mset ns = add_mset n (mset rest)"
  by (induction ns arbitrary: rest) (auto split: if_splits option.splits)

lemma take_sink_none: "take_sink index ns = None \<longleftrightarrow> (\<forall>n\<in>set ns. mn_index n < index)"
  by (induction ns) (auto split: option.splits)

subsection \<open>Initial state and limit\<close>

lemma al_wf_init: "al_wf Allocator_init"
  by (auto simp: al_wf_def Allocator_init_def MAX_INDEX_def bucket_wf_def ALLOCATOR_MAX_FREE_UNLIMITED_def)

lemma al_wf_set_max: "al_wf a \<Longrightarrow> al_wf (Allocator_set_max s a)"
  by (auto simp: al_wf_def Allocator_set_max_def Let_def not_less)

lemma al_wf_run_mmap: "al_wf a \<Longrightarrow> al_wf (Allocator_run_mmap p idx a)"
  by (simp add: al_wf_def Allocator_run_mmap_def Let_def)

lemma retained_unchanged [simp]:
  "retained (Allocator_set_max s a) = retained a" "retained (Allocator_run_mmap p idx a) = retained a"
  "retained (recharge n a) = retained a"
  by (simp_all add: retained_def Allocator_set_max_def Allocator_run_mmap_def recharge_def Let_def)

lemma recharge_max [simp]: "al_max (recharge n a) = al_max a"
  by (simp add: recharge_def Let_def)

subsection \<open>Allocation\<close>

text \<open>Taking a node out of free list \<open>i\<close>.\<close>

lemma al_wf_take:
  assumes wf: "al_wf a" and i: "0 < i" "i \<le> al_last a" "al_buf a ! i = n # rest"
  defines "a' \<equiv> (if rest = [] \<and> i \<ge> al_last a
                then a\<lparr> al_buf := (al_buf a)[i := rest], al_last := lower_last ((al_buf a)[i := rest]) (al_last a) \<rparr>
                else a\<lparr> al_buf := (al_buf a)[i := rest] \<rparr>)"
  shows "al_wf (recharge n a')" "retained a = add_mset n (retained a')" "node_wf n" "mn_index n = i"
proof -
  let ?buf = "(al_buf a)[i := rest]"
  have len: "length (al_buf a) = 20" and l: "al_last a < 20" using wf by (auto simp: al_wf_def MAX_INDEX_def)
  have b: "bucket_wf i (n # rest)" using wf i l by (metis MAX_INDEX_def al_wf_def le_less_trans)
  then show "node_wf n" "mn_index n = i" using i(1) by (simp_all add: bucket_wf_def)
  have "mset (concat ?buf) + mset (n # rest) = mset (concat (al_buf a)) + mset rest"
    using mset_concat_update [of i "al_buf a" rest] i len l by simp
  then show "retained a = add_mset n (retained a')"
    by (auto simp: retained_def a'_def)
  have bw: "bucket_wf j (?buf ! j)" if "j < 20" for j
  proof (cases "j = i")
    case True
    then show ?thesis using b i l len by (simp add: bucket_wf_def)
  next
    case False
    then show ?thesis using wf that by (simp add: al_wf_def MAX_INDEX_def)
  qed
  have "al_wf a'"
  proof (cases "rest = [] \<and> i \<ge> al_last a")
    case True
    then have m: "0 < al_last a" "i = al_last a" using i by auto
    note ll = lower_last_highest [OF m(1), of ?buf]
    have "?buf ! j = []" if "lower_last ?buf (al_last a) < j" "j < 20" for j
    proof -
      consider "j < al_last a" | "j = al_last a" | "al_last a < j" by linarith
      then show ?thesis
        using ll(3) that True wf m len by cases (auto simp: al_wf_def MAX_INDEX_def)
    qed
    then show ?thesis
      using True ll(1,2) wf l bw by (auto simp: al_wf_def a'_def MAX_INDEX_def)
  next
    case False
    then have "al_buf a ! al_last a \<noteq> []" "rest \<noteq> [] \<or> i < al_last a" using i wf by (auto simp: al_wf_def)
    then have "?buf ! al_last a \<noteq> []" using l len by (cases "i = al_last a") auto
    then show ?thesis
      using False wf i bw by (auto simp: al_wf_def a'_def MAX_INDEX_def)
  qed
  then show "al_wf (recharge n a')" by (auto simp: al_wf_def recharge_def Let_def not_less)
qed


text \<open>Taking a node out of the sink.\<close>

lemma al_wf_take_sink:
  assumes wf: "al_wf a" and t: "take_sink index (al_buf a ! 0) = Some (n, rest)" and l: "al_last a < index"
  defines "a' \<equiv> a\<lparr> al_buf := (al_buf a)[0 := rest] \<rparr>"
  shows "al_wf (recharge n a')" "retained a = add_mset n (retained a')" "node_wf n" "index \<le> mn_index n"
proof -
  have len: "length (al_buf a) = 20" using wf by (auto simp: al_wf_def MAX_INDEX_def)
  have b: "bucket_wf 0 (al_buf a ! 0)" using wf by (auto simp: al_wf_def MAX_INDEX_def)
  note s = take_sink_found [OF t]
  then have set: "set (al_buf a ! 0) = insert n (set rest)" by (metis set_mset_add_mset_insert set_mset_mset)
  then show "node_wf n" "index \<le> mn_index n" using b s by (simp_all add: bucket_wf_def)
  show "retained a = add_mset n (retained a')"
    using mset_concat_update [of 0 "al_buf a" rest] len s by (simp add: retained_def a'_def)
  have bw: "bucket_wf j ((al_buf a)[0 := rest] ! j)" if "j < 20" for j
  proof (cases "j = 0")
    case True
    then show ?thesis using b set len by (simp add: bucket_wf_def)
  next
    case False
    then show ?thesis using wf that by (simp add: al_wf_def MAX_INDEX_def)
  qed
  show "al_wf (recharge n a')"
    using wf bw len by (auto simp: al_wf_def a'_def recharge_def Let_def MAX_INDEX_def)
qed

lemma Allocator_new_result:
  assumes wf: "al_wf a" and r: "Allocator_new os sz index a = (a', r)"
    and sz: "unat sz = (index + 1) * 4096" "1 \<le> index" "index + 1 < 2 ^ 20"
  shows "al_wf a'" "retained a' = retained a" "al_current a' = al_current a" "al_max a' = al_max a"
    and "r = Some n \<Longrightarrow> node_wf n \<and> mn_index n = index \<and> mn_first_avail n = mn_addr n + SIZEOF_MEMNODE"
proof -
  have same: "al_buf a' = al_buf a \<and> al_last a' = al_last a \<and> al_current a' = al_current a \<and> al_max a' = al_max a"
    using r by (auto simp: Allocator_new_def Let_def split: option.splits if_splits)
  then show "al_wf a'" "retained a' = retained a" "al_current a' = al_current a" "al_max a' = al_max a"
    using wf by (simp_all add: al_wf_def retained_def)
  have "(ucast sz :: u64) = of_nat (unat sz)" by (simp add: unsigned_of_nat of_nat_unat)
  then have "(ucast sz :: u64) = of_nat ((index + 1) * 4096)" using sz(1) by simp
  then show "r = Some n \<Longrightarrow> node_wf n \<and> mn_index n = index \<and> mn_first_avail n = mn_addr n + SIZEOF_MEMNODE"
    using r sz by (auto simp: Allocator_new_def Let_def node_wf_def BOUNDARY_SIZE_def split: option.splits if_splits)
qed

text \<open>A request that fits below the highest used index is served from the free lists.\<close>

lemma Allocator_alloc_bucket:
  assumes wf: "al_wf a" and x: "\<not> alloc_size x < x" and l: "alloc_index (request_size x) \<le> al_last a"
  obtains m a0 where "\<And>os. Allocator_alloc os x a = (recharge m a0, Some (reset_node m))"
    "al_wf (recharge m a0)" "retained a = add_mset m (retained a0)" "node_wf m"
    "alloc_index (request_size x) \<le> mn_index m" "al_current a0 = al_current a" "al_max a0 = al_max a"
    "al_allocated a0 = al_allocated a"
proof -
  let ?i = "alloc_index (request_size x)"
  let ?f = "find_bucket (al_buf a) ?i (al_last a)"
  note q = request_pages [OF x]
  have "al_buf a ! al_last a \<noteq> []" using wf l q(2) by (auto simp: al_wf_def)
  note f = find_bucket_found [where i = ?i and buf = "al_buf a", OF l this]
  then obtain m rest where b: "al_buf a ! ?f = m # rest" by (cases "al_buf a ! ?f") auto
  have pos: "0 < ?f" "?f \<le> al_last a" using f q(2) by auto
  define a0 where "a0 = (if rest = [] \<and> ?f \<ge> al_last a
      then a\<lparr> al_buf := (al_buf a)[?f := rest], al_last := lower_last ((al_buf a)[?f := rest]) (al_last a) \<rparr>
      else a\<lparr> al_buf := (al_buf a)[?f := rest] \<rparr>)"
  note t = al_wf_take [OF wf pos b, folded a0_def]
  have "Allocator_alloc os x a = (recharge m a0, Some (reset_node m))" for os
    using b x l unfolding Allocator_alloc_def Let_def request_size_def [symmetric] by (simp add: a0_def)
  moreover have "al_current a0 = al_current a" "al_max a0 = al_max a" "al_allocated a0 = al_allocated a"
    by (simp_all add: a0_def)
  ultimately show ?thesis using that t f by simp
qed

text \<open>The outcomes of an allocation: a retained node, or a new one of exactly the requested index.\<close>

lemma Allocator_alloc_result:
  assumes wf: "al_wf a" and r: "Allocator_alloc os x a = (a', Some n)"
  shows "al_wf a' \<and> al_max a' = al_max a
    \<and> ((\<exists>m a0. retained a = add_mset m (retained a') \<and> n = reset_node m \<and> node_wf m
           \<and> alloc_index (request_size x) \<le> mn_index m
           \<and> a' = recharge m a0 \<and> al_current a0 = al_current a \<and> al_max a0 = al_max a)
       \<or> retained a' = retained a \<and> al_current a' = al_current a \<and> node_wf n
         \<and> mn_index n = alloc_index (request_size x) \<and> mn_first_avail n = mn_addr n + SIZEOF_MEMNODE
         \<and> Allocator_new os (request_size x) (alloc_index (request_size x)) a = (a', Some n))
    \<and> unat x + 48 \<le> (mn_index n + 1) * 4096"
    (is "_ \<and> _ \<and> ?reuse_or_new \<and> ?size")
proof -
  have x: "\<not> alloc_size x < x" using r by (auto simp: Allocator_alloc_def Let_def split: if_splits)
  let ?i = "alloc_index (request_size x)"
  note q = request_pages [OF x]
  have new: ?thesis if "Allocator_new os (request_size x) ?i a = (a', Some n)"
    using Allocator_new_result [OF wf that q(1-3)] that q by simp
  show ?thesis
  proof (cases "?i \<le> al_last a")
    case True
    obtain m a0 where m: "\<And>os. Allocator_alloc os x a = (recharge m a0, Some (reset_node m))"
      "al_wf (recharge m a0)" "retained a = add_mset m (retained a0)" "node_wf m"
      "?i \<le> mn_index m" "al_current a0 = al_current a" "al_max a0 = al_max a"
      using Allocator_alloc_bucket [OF wf x True] by blast
    then have e: "a' = recharge m a0" "n = reset_node m" using r by simp_all
    have "unat x + 48 \<le> (?i + 1) * 4096" using q by simp
    also have "\<dots> \<le> (mn_index n + 1) * 4096" using m(5) e by (simp add: reset_node_def)
    finally have "?size" .
    then show ?thesis
      using m e(2) unfolding e(1) by (intro conjI disjI1 exI [of _ m] exI [of _ a0]) auto
  next
    case False
    show ?thesis
    proof (cases "take_sink ?i (al_buf a ! 0)")
      case None
      then have "Allocator_new os (request_size x) ?i a = (a', Some n)"
        using r x False by (auto simp: Allocator_alloc_def Let_def request_size_def split: if_splits)
      then show ?thesis by (rule new)
    next
      case (Some mr)
      then obtain m rest where t: "take_sink ?i (al_buf a ! 0) = Some (m, rest)" by (cases mr) auto
      note s = al_wf_take_sink [OF wf t] False
      have e: "a' = recharge m (a\<lparr> al_buf := (al_buf a)[0 := rest] \<rparr>)" and n: "n = reset_node m"
        using r x False t by (auto simp: Allocator_alloc_def Let_def request_size_def split: if_splits)
      have "unat x + 48 \<le> (?i + 1) * 4096" using q by simp
      also have "\<dots> \<le> (mn_index n + 1) * 4096" using s n by (simp add: reset_node_def)
      finally have "?size" .
      then show ?thesis
        using s n unfolding e
        by (intro conjI disjI1 exI [of _ m] exI [of _ "a\<lparr> al_buf := (al_buf a)[0 := rest] \<rparr>"]) auto
    qed
  qed
qed


lemma page_count: "node_wf n \<Longrightarrow> unat (of_nat (mn_index n + 1) :: u32) = mn_index n + 1"
  by (simp only: unat_of_nat) (simp add: node_wf_def)

subsection \<open>Release\<close>

lemma free_step_result:
  assumes wf: "al_wf a" and n: "node_wf n" and r: "free_step n (a, fl) = (a', fl')"
  shows "al_wf a'" "al_max a' = al_max a" "al_mmapPtr a' = al_mmapPtr a"
    and "retained a' + mset fl' = add_mset n (retained a + mset fl)"
    and "al_max a \<noteq> 0 \<Longrightarrow> pages (retained a) + unat (al_current a) = unat (al_max a) \<Longrightarrow>
         pages (retained a') + unat (al_current a') = unat (al_max a')"
proof -
  let ?i = "mn_index n"
  have len: "length (al_buf a) = 20" and l: "al_last a < 20" using wf by (auto simp: al_wf_def MAX_INDEX_def)
  let ?d = "if unat (al_current a) \<ge> ?i + 1 then al_current a - of_nat (?i + 1) else 0"
  have i: "unat (of_nat (?i + 1) :: u32) = ?i + 1" using n by (rule page_count)
  have sub: "unat (al_current a - of_nat (?i + 1)) = unat (al_current a) - (?i + 1)"
    if "?i + 1 \<le> unat (al_current a)"
    using that i by (subst unat_sub) (simp_all only: word_le_nat_alt)
  have du: "unat ?d = unat (al_current a) - (?i + 1)"
  proof (cases "?i + 1 \<le> unat (al_current a)")
    case True
    then show ?thesis by (simp only: if_True sub)
  next
    case False
    then show ?thesis by simp
  qed
  have "?d \<le> al_current a" by (simp only: word_le_nat_alt du diff_le_self)
  moreover have "al_current a \<le> al_max a" using wf by (simp add: al_wf_def)
  ultimately have d: "?d \<le> al_max a" by (rule order_trans)
  consider (os) "al_max a \<noteq> 0 \<and> ?i + 1 > unat (al_current a)"
    | (bucket) "\<not> (al_max a \<noteq> 0 \<and> ?i + 1 > unat (al_current a))" "?i < 20"
    | (sink) "\<not> (al_max a \<noteq> 0 \<and> ?i + 1 > unat (al_current a))" "\<not> ?i < 20" by blast
  then have "al_wf a' \<and> al_max a' = al_max a \<and> al_mmapPtr a' = al_mmapPtr a
    \<and> retained a' + mset fl' = add_mset n (retained a + mset fl)
    \<and> (al_max a \<noteq> 0 \<longrightarrow> pages (retained a) + unat (al_current a) = unat (al_max a) \<longrightarrow>
         pages (retained a') + unat (al_current a') = unat (al_max a'))"
  proof cases
    case os
    then have "a' = a" "fl' = n # fl"
      using r by (auto simp: free_step_def Let_def ALLOCATOR_MAX_FREE_UNLIMITED_def)
    then show ?thesis using wf by simp
  next
    case bucket
    let ?last = "if al_buf a ! ?i = [] \<and> ?i > al_last a then ?i else al_last a"
    have e: "a' = a\<lparr> al_buf := (al_buf a)[?i := n # al_buf a ! ?i], al_last := ?last, al_current := ?d \<rparr>" "fl' = fl"
      using r bucket by (auto simp: free_step_def Let_def ALLOCATOR_MAX_FREE_UNLIMITED_def MAX_INDEX_def)
    have ret: "retained a' = add_mset n (retained a)"
      using mset_concat_update [of ?i "al_buf a" "n # al_buf a ! ?i"] bucket len by (simp add: e retained_def)
    have bw: "bucket_wf j ((al_buf a)[?i := n # al_buf a ! ?i] ! j)" if "j < 20" for j
    proof (cases "j = ?i")
      case True
      have "bucket_wf ?i (al_buf a ! ?i)" using wf bucket by (simp add: al_wf_def MAX_INDEX_def)
      then show ?thesis using n True len bucket by (simp add: bucket_wf_def node_wf_def)
    next
      case False
      then show ?thesis using wf that by (simp add: al_wf_def MAX_INDEX_def)
    qed
    have "al_buf a ! ?i = []" if "?i > al_last a" using wf that bucket by (simp add: al_wf_def MAX_INDEX_def)
    then have "al_wf a'"
      using wf bw d bucket len by (auto simp: e al_wf_def MAX_INDEX_def nth_list_update)
    then show ?thesis using ret bucket(1) du by (auto simp: e)
  next
    case sink
    have e: "a' = a\<lparr> al_buf := (al_buf a)[0 := n # al_buf a ! 0], al_current := ?d \<rparr>" "fl' = fl"
      using r sink by (auto simp: free_step_def Let_def ALLOCATOR_MAX_FREE_UNLIMITED_def MAX_INDEX_def)
    have ret: "retained a' = add_mset n (retained a)"
      using mset_concat_update [of 0 "al_buf a" "n # al_buf a ! 0"] len by (simp add: e retained_def)
    have bw: "bucket_wf j ((al_buf a)[0 := n # al_buf a ! 0] ! j)" if "j < 20" for j
    proof (cases "j = 0")
      case True
      have "bucket_wf 0 (al_buf a ! 0)" using wf by (simp add: al_wf_def MAX_INDEX_def)
      then show ?thesis using n True len sink by (simp add: bucket_wf_def MAX_INDEX_def)
    next
      case False
      then show ?thesis using wf that by (simp add: al_wf_def MAX_INDEX_def)
    qed
    have "al_wf a'"
      using wf bw d len by (auto simp: e al_wf_def MAX_INDEX_def nth_list_update)
    then show ?thesis using ret sink(1) du by (auto simp: e)
  qed
  then show "al_wf a'" "al_max a' = al_max a" "al_mmapPtr a' = al_mmapPtr a"
    "retained a' + mset fl' = add_mset n (retained a + mset fl)"
    "al_max a \<noteq> 0 \<Longrightarrow> pages (retained a) + unat (al_current a) = unat (al_max a) \<Longrightarrow>
         pages (retained a') + unat (al_current a') = unat (al_max a')"
    by simp_all
qed

definition budget :: "allocator \<Rightarrow> bool" where
  "budget a \<longleftrightarrow> al_max a \<noteq> 0 \<longrightarrow> pages (retained a) + unat (al_current a) = unat (al_max a)"

lemma free_fold_result:
  assumes "al_wf a" "\<forall>n\<in>set ns. node_wf n" "fold free_step ns (a, fl) = (a', fl')"
  shows "al_wf a' \<and> al_max a' = al_max a \<and> al_mmapPtr a' = al_mmapPtr a
    \<and> retained a' + mset fl' = mset ns + retained a + mset fl \<and> (budget a \<longrightarrow> budget a')"
  using assms
proof (induction ns arbitrary: a fl)
  case (Cons n ns)
  obtain a1 fl1 where s: "free_step n (a, fl) = (a1, fl1)" by fastforce
  note f = free_step_result [OF Cons.prems(1) _ s]
  have n: "node_wf n" using Cons.prems(2) by simp
  have "budget a \<longrightarrow> budget a1" using f [OF n] by (auto simp: budget_def)
  then show ?case using Cons.IH [of a1 fl1] Cons.prems s f [OF n] by (auto simp: ac_simps)
qed simp

lemma Allocator_free_result:
  assumes "al_wf a" "\<forall>n\<in>set ns. node_wf n" "Allocator_free ns a = (a', fl)"
  shows "al_wf a'" "al_max a' = al_max a" "budget a \<Longrightarrow> budget a'"
    and "al_mmapPtr a = None \<Longrightarrow> retained a' + mset fl = mset ns + retained a"
proof -
  obtain a1 fl1 where f: "fold free_step ns (a, []) = (a1, fl1)" by fastforce
  note r = free_fold_result [OF assms(1,2) f]
  have "al_wf (a1\<lparr> al_allocated := x \<rparr>) = al_wf a1" "budget (a1\<lparr> al_allocated := x \<rparr>) = budget a1"
    "retained (a1\<lparr> al_allocated := x \<rparr>) = retained a1" for x
    by (simp_all add: al_wf_def budget_def retained_def)
  then show "al_wf a'" "al_max a' = al_max a" "budget a \<Longrightarrow> budget a'"
    "al_mmapPtr a = None \<Longrightarrow> retained a' + mset fl = mset ns + retained a"
    using assms(3) f r by (auto simp: Allocator_free_def split: if_splits)
qed

lemma Allocator_alloc_none:
  "Allocator_alloc os x a = (a', None) \<Longrightarrow> a' = a"
  by (auto simp: Allocator_alloc_def Allocator_new_def Let_def split: if_splits option.splits list.splits)

lemma budget_alloc:
  assumes wf: "al_wf a" and b: "budget a" and r: "Allocator_alloc os x a = (a', r)"
  shows "al_wf a'" "budget a'"
proof -
  have "al_wf a' \<and> budget a'"
  proof (cases r)
    case None
    then show ?thesis using Allocator_alloc_none r wf b by blast
  next
    case (Some n)
    note res = Allocator_alloc_result [OF wf r [unfolded Some]]
    then consider m a0 where "retained a = add_mset m (retained a')" "node_wf m" "a' = recharge m a0"
        "al_current a0 = al_current a" "al_max a0 = al_max a"
      | "retained a' = retained a" "al_current a' = al_current a" by blast
    then show ?thesis
    proof cases
      case 1
      have "budget a'"
        unfolding budget_def
      proof
        assume "al_max a' \<noteq> 0"
        then have p: "pages (retained a') + (mn_index m + 1) + unat (al_current a) = unat (al_max a)"
          using b 1 res by (simp add: budget_def)
        have i: "unat (of_nat (mn_index m + 1) :: u32) = mn_index m + 1"
          using 1(2) by (rule page_count)
        have "unat (al_max a) < 2 ^ 32" using unsigned_less [of "al_max a", where ?'a = nat] by simp
        with p have s: "unat (al_current a + of_nat (mn_index m + 1)) = unat (al_current a) + (mn_index m + 1)"
          using i by (simp add: unat_word_ariths)
        then have "\<not> al_current a + of_nat (mn_index m + 1) > al_max a"
          using p by (simp add: word_less_nat_alt)
        then show "pages (retained a') + unat (al_current a') = unat (al_max a')"
          using 1 p s by (simp add: recharge_def Let_def)
      qed
      then show ?thesis using res by simp
    next
      case 2
      then show ?thesis using res b by (simp add: budget_def)
    qed
  qed
  then show "al_wf a'" "budget a'" by simp_all
qed


section \<open>Runs of an allocator\<close>

text \<open>
  The steps that clients of an allocator make once its limit is set: allocations with any answer of
  the operating system, releases of chains of nodes, and new limits that are not below what is kept.
\<close>

inductive al_step :: "allocator \<Rightarrow> allocator \<Rightarrow> bool" where
  step_alloc: "Allocator_alloc os x a = (a', r) \<Longrightarrow> al_step a a'"
| step_free: "\<forall>n\<in>set ns. node_wf n \<Longrightarrow> Allocator_free ns a = (a', fl) \<Longrightarrow> al_step a a'"
| step_limit: "al_max a \<noteq> 0 \<Longrightarrow> pages (retained a) \<le> unat (al_max (Allocator_set_max limit a))
    \<Longrightarrow> al_step a (Allocator_set_max limit a)"

inductive_cases al_stepE: "al_step a a'"

lemma budget_set_max:
  assumes b: "budget a" "al_max a \<noteq> 0" and p: "pages (retained a) \<le> unat (al_max (Allocator_set_max limit a))"
  shows "budget (Allocator_set_max limit a)"
proof -
  define m where "m = al_max (Allocator_set_max limit a)"
  define k :: u32 where "k = of_nat (pages (retained a))"
  have k: "unat k = pages (retained a)"
    using p unsigned_less [of m, where ?'a = nat] by (simp add: k_def m_def unat_of_nat)
  have "unat (al_max a) = unat k + unat (al_current a)" using b k by (simp add: budget_def)
  then have "al_max a = k + al_current a"
    using unsigned_less [of "al_max a", where ?'a = nat] by (simp add: word_unat_eq_iff unat_word_ariths)
  then have c: "al_current a + m - al_max a = m - k" by simp
  have "al_current (Allocator_set_max limit a) =
      (let c = al_current a + m - al_max a in if c > m then m else c)"
    by (simp add: Allocator_set_max_def m_def Let_def)
  moreover have km: "k \<le> m" using p k by (simp add: word_le_nat_alt m_def)
  then have "unat (m - k) = unat m - unat k" "\<not> m - k > m"
    by (simp_all add: unat_sub word_less_nat_alt)
  ultimately have "unat (al_current (Allocator_set_max limit a)) = unat m - pages (retained a)"
    using k unfolding c by (simp add: Let_def)
  moreover have "retained (Allocator_set_max limit a) = retained a"
    by (simp add: retained_def Allocator_set_max_def Let_def)
  ultimately show ?thesis using p by (simp add: budget_def m_def)
qed

text \<open>Below what is kept the difference wraps, and the full new limit is granted on top of it.\<close>

lemma limit_below_retained:
  "let a = Allocator_set_max 8192 (Allocator_init\<lparr> al_max := 16, al_current := 4 \<rparr>) in al_max a = 2 \<and> al_current a = 2"
  by code_simp

lemma al_step_invariant:
  assumes "al_step a a'" "al_wf a" "budget a"
  shows "al_wf a' \<and> budget a'"
  using assms(1)
proof (rule al_stepE)
  fix os x r
  assume "Allocator_alloc os x a = (a', r)"
  then show ?thesis using budget_alloc assms by blast
next
  fix ns fl
  assume "\<forall>n\<in>set ns. node_wf n" "Allocator_free ns a = (a', fl)"
  note f = Allocator_free_result [OF assms(2) this]
  show ?thesis using f(1,3) assms(3) by blast
next
  fix limit
  assume "a' = Allocator_set_max limit a" "al_max a \<noteq> 0" "pages (retained a) \<le> unat (al_max (Allocator_set_max limit a))"
  then show ?thesis using al_wf_set_max assms(2,3) budget_set_max by blast
qed

lemma budget_initial: "budget (Allocator_set_max limit Allocator_init)"
  by (auto simp: budget_def Allocator_set_max_def Allocator_init_def Let_def retained_def
      ALLOCATOR_MAX_FREE_UNLIMITED_def MAX_INDEX_def)

lemma al_reachable_invariant:
  "al_step\<^sup>*\<^sup>* (Allocator_set_max limit Allocator_init) a \<Longrightarrow> al_wf a \<and> budget a"
proof (induction rule: rtranclp_induct)
  case base
  then show ?case using al_wf_set_max [OF al_wf_init] budget_initial by blast
next
  case (step b c)
  then show ?case using al_step_invariant by blast
qed

section \<open>Properties\<close>


text \<open>A node of two pages, and an allocator of 16 pages that was given it.\<close>

definition sample_node :: memnode where
  "sample_node = \<lparr> mn_addr = 0, mn_index = 1, mn_free_index = 0, mn_first_avail = 48, mn_endp = 8192 \<rparr>"

definition sample_allocator :: allocator where
  "sample_allocator = fst (Allocator_free [sample_node] (Allocator_set_max 65536 Allocator_init))"

lemma sample_node_wf: "node_wf sample_node"
  by (simp add: node_wf_def sample_node_def BOUNDARY_SIZE_def)

lemma sample_allocator_reachable:
  "al_step\<^sup>*\<^sup>* (Allocator_set_max 65536 Allocator_init) sample_allocator"
  unfolding sample_allocator_def
  by (rule r_into_rtranclp, rule step_free [OF _ prod.collapse [symmetric]]) (simp add: sample_node_wf)

lemma sample_allocator_values: "al_max sample_allocator = 16" "al_last sample_allocator = 1"
  by code_simp+

lemmas sample_allocator_wf = conjunct1 [OF al_reachable_invariant [OF sample_allocator_reachable]]


text \<open>
  C27: an allocation that succeeds in a well-formed allocator returns a well-formed node with room for
  the request behind its header, and the node is either taken out of the kept ones, with the
  others kept, or new, with the kept ones untouched.
\<close>

theorem alloc_returns_room:
  assumes "al_wf a" "Allocator_alloc os x a = (a', Some n)"
  shows "al_wf a' \<and> node_wf n \<and> mn_first_avail n = mn_addr n + SIZEOF_MEMNODE
    \<and> unat x + 48 \<le> (mn_index n + 1) * 4096
    \<and> ((\<exists>m. retained a = add_mset m (retained a') \<and> n = reset_node m) \<or> retained a' = retained a)"
  using Allocator_alloc_result [OF assms] by (auto simp: reset_node_def node_wf_def)

theorem alloc_returns_room_witness:
  "let r = Allocator_alloc \<lparr> os_malloc = \<lambda>s. Some 4096, os_grow = True \<rparr> 100 Allocator_init
   in al_wf (fst r) \<and> 148 \<le> (mn_index (the (snd r)) + 1) * 4096"
proof -
  let ?r = "Allocator_alloc \<lparr> os_malloc = \<lambda>s. Some 4096, os_grow = True \<rparr> 100 Allocator_init"
  have "snd ?r \<noteq> None" by code_simp
  then have "?r = (fst ?r, Some (the (snd ?r)))" by (simp add: prod_eq_iff)
  from alloc_returns_room [OF al_wf_init this] show ?thesis by (simp add: Let_def)
qed

text \<open>
  While a node of at least the requested index is known (\<^verbatim>\<open>index <= last\<close>) an allocation is
  served from the kept nodes: it succeeds whatever the operating system answers, and asks it nothing.
\<close>

theorem alloc_reuses:
  assumes "al_wf a" "\<not> alloc_size x < x" "alloc_index (request_size x) \<le> al_last a"
  shows "\<exists>a' n m. (\<forall>os. Allocator_alloc os x a = (a', Some n)) \<and> n = reset_node m
    \<and> retained a = add_mset m (retained a') \<and> al_allocated a' = al_allocated a"
proof -
  obtain m a0 where "\<And>os. Allocator_alloc os x a = (recharge m a0, Some (reset_node m))"
    "retained a = add_mset m (retained a0)" "al_allocated a0 = al_allocated a"
    using Allocator_alloc_bucket [OF assms] by blast
  then show ?thesis by (intro exI [of _ "recharge m a0"] exI) (auto simp: recharge_def Let_def retained_def)
qed

theorem alloc_reuses_witness:
  "\<exists>a' n m. (\<forall>os. Allocator_alloc os 100 sample_allocator = (a', Some n)) \<and> n = reset_node m
    \<and> retained sample_allocator = add_mset m (retained a') \<and> al_allocated a' = al_allocated sample_allocator"
proof (rule alloc_reuses [OF sample_allocator_wf])
  show "\<not> alloc_size 100 < 100" "alloc_index (request_size 100) \<le> al_last sample_allocator"
    by code_simp+
qed

text \<open>
  Releasing a chain of nodes loses none of them: each is kept for reuse or given back to the
  operating system, and the allocator stays well-formed.
\<close>

theorem free_conserves_nodes:
  assumes "al_wf a" "\<forall>n\<in>set ns. node_wf n" "al_mmapPtr a = None" "Allocator_free ns a = (a', fl)"
  shows "al_wf a' \<and> retained a' + mset fl = mset ns + retained a"
  using Allocator_free_result [OF assms(1,2,4)] assms(3) by simp

theorem free_conserves_nodes_witness:
  "retained (fst (Allocator_free [sample_node] Allocator_init))
     + mset (snd (Allocator_free [sample_node] Allocator_init)) = {#sample_node#}"
proof -
  have "al_mmapPtr Allocator_init = None" "retained Allocator_init = {#}" by code_simp+
  with free_conserves_nodes [OF al_wf_init _ _ prod.collapse [symmetric], of "[sample_node]"]
  show ?thesis by (simp add: sample_node_wf)
qed

text \<open>
  Growing the mapped file returns enough pages below 4 GiB and, because the size is computed in
  32 bits, too few from 4 GiB on, far below the 64 GiB of reserved addresses.
\<close>

theorem mmap_growth_wraps:
  assumes "0 < required" "unat required < 2 ^ 21"
  shows "if unat required < 2 ^ 20 then required \<le> allocator_mmap_realloc True idx required
    else allocator_mmap_realloc True idx required < required"
proof -
  let ?n = "idx * 2 * 4096 :: u32"
  have page: "unat (y div 4096) = unat y div 4096" for y :: u32 by (simp add: unat_div)
  have small: "\<not> ucast y > ALLOCATOR_MMAP_RESERVED" for y :: u32
  proof -
    have "unat y < 2 ^ 32" using unsigned_less [of y, where ?'a = nat] by simp
    then show ?thesis
      by (simp add: ALLOCATOR_MMAP_RESERVED_def word_less_nat_alt unsigned_ucast_eq take_bit_nat_eq_self)
  qed
  have big: "unat (required * 4096) div 4096 = (if unat required < 2 ^ 20 then unat required else unat required - 2 ^ 20)"
  proof (cases "unat required < 2 ^ 20")
    case True
    then show ?thesis by (simp add: unat_word_ariths)
  next
    case False
    then have "unat required * 4096 = (unat required - 2 ^ 20) * 4096 + 2 ^ 32" by simp
    then have "unat (required * 4096) = ((unat required - 2 ^ 20) * 4096 + 2 ^ 32) mod 2 ^ 32"
      by (simp add: unat_word_ariths)
    also have "\<dots> = (unat required - 2 ^ 20) * 4096" using assms(2) by simp
    finally show ?thesis using False by simp
  qed
  have r: "allocator_mmap_realloc True idx required
      = (if ?n div 4096 < required then required * 4096 div 4096 else ?n div 4096)"
    by (simp add: allocator_mmap_realloc_def Let_def BOUNDARY_SIZE_def small)
  have "unat ?n div 4096 < 2 ^ 20"
    using unsigned_less [of ?n, where ?'a = nat] by (simp add: less_mult_imp_div_less)
  then show ?thesis
    using big assms(1) by (auto simp: r word_less_nat_alt word_le_nat_alt page)
qed

theorem mmap_growth_wraps_witness:
  "allocator_mmap_realloc True 524288 1048577 < 1048577"
  using mmap_growth_wraps [of 1048577 524288] by simp

end
