(* ===== verification/AllocManager.thy ===== *)
theory AllocManager
  imports Prelude "HOL-Library.Multiset"
begin

text \<open>
  Models \<^verbatim>\<open>AllocManager\<close> of \<^verbatim>\<open>common/memory/pool/SPMemPoolUtils.cc\<close>: the reuse of freed blocks
  inside a pool. The lists linked through \<^verbatim>\<open>next\<close> are Isabelle lists; the allocation function
  the manager is given is the parameter \<open>allocFn\<close> over the state \<open>'s\<close> of its pool.
\<close>

section \<open>Data and operations\<close>

record memaddr =
  ma_size :: u32
  ma_address :: u64

record manager =
  am_buffered :: "memaddr list"
  am_free_buffered :: "memaddr list"
  am_alloc_buffer :: u64
  am_allocated :: u64
  am_returned :: u64

definition SIZEOF_MEMADDR :: u64 where "SIZEOF_MEMADDR = 24"

definition AllocManager_reset :: manager where
  "AllocManager_reset = \<lparr> am_buffered = [], am_free_buffered = [], am_alloc_buffer = 0,
     am_allocated = 0, am_returned = 0 \<rparr>"

definition increment_alloc :: "u64 \<Rightarrow> manager \<Rightarrow> manager" where
  "increment_alloc s m = m\<lparr> am_allocated := am_allocated m + s, am_alloc_buffer := am_alloc_buffer m + s \<rparr>"

definition increment_return :: "u64 \<Rightarrow> manager \<Rightarrow> manager" where
  "increment_return s m = m\<lparr> am_returned := am_returned m + s \<rparr>"

text \<open>The search of \<^verbatim>\<open>alloc\<close>: the block found and the list without it.\<close>

fun take_buffered :: "u64 \<Rightarrow> memaddr list \<Rightarrow> (memaddr \<times> memaddr list) option" where
  "take_buffered sz [] = None"
| "take_buffered sz (c # cs) =
     (if ucast (ma_size c) > sz * 2 then None
      else if ucast (ma_size c) \<ge> sz then Some (c, cs)
      else case take_buffered sz cs of None \<Rightarrow> None | Some (d, ds) \<Rightarrow> Some (d, c # ds))"

text \<open>The answer is the block and the size it has, which may be more than was asked for.\<close>

definition AllocManager_alloc ::
  "('s \<Rightarrow> u64 \<Rightarrow> 's \<times> u64 option) \<Rightarrow> u64 \<Rightarrow> manager \<Rightarrow> 's \<Rightarrow> manager \<times> 's \<times> u64 option \<times> u64" where
  "AllocManager_alloc allocFn sz m p =
     (case take_buffered sz (am_buffered m) of
        Some (c, rest) \<Rightarrow>
          (increment_return (ucast (ma_size c))
             (m\<lparr> am_buffered := rest, am_free_buffered := c # am_free_buffered m \<rparr>),
           p, Some (ma_address c), ucast (ma_size c))
      | None \<Rightarrow>
          (let (p', r) = allocFn p sz in (increment_alloc sz m, p', r, sz)))"

text \<open>The sorted insertion of \<^verbatim>\<open>free\<close> compares with the full size and stores 32 bits of it.\<close>

fun insert_buffered :: "u64 \<Rightarrow> memaddr \<Rightarrow> memaddr list \<Rightarrow> memaddr list" where
  "insert_buffered sz addr [] = [addr]"
| "insert_buffered sz addr (c # cs) =
     (if ucast (ma_size c) \<ge> sz then addr # c # cs else c # insert_buffered sz addr cs)"

definition AllocManager_free ::
  "('s \<Rightarrow> u64 \<Rightarrow> 's \<times> u64 option) \<Rightarrow> u64 \<Rightarrow> u64 \<Rightarrow> manager \<Rightarrow> 's \<Rightarrow> manager \<times> 's" where
  "AllocManager_free allocFn ptr sz m p =
     (if am_allocated m = 0 then (m, p)
      else
        (let (have_addr, m, p) =
           (case am_free_buffered m of
              a # rest \<Rightarrow> (True, m\<lparr> am_free_buffered := rest \<rparr>, p)
            | [] \<Rightarrow> (let (p', r) = allocFn p SIZEOF_MEMADDR
                     in (r \<noteq> None, increment_alloc SIZEOF_MEMADDR m, p')))
         in if have_addr
            then (m\<lparr> am_buffered := insert_buffered sz \<lparr> ma_size = ucast sz, ma_address = ptr \<rparr> (am_buffered m) \<rparr>, p)
            else (m, p)))"

section \<open>Lemmas\<close>

text \<open>Every buffered block is as large as its record says; \<open>cap\<close> is the true size of the blocks.\<close>

definition blocks_fit :: "(u64 \<Rightarrow> nat) \<Rightarrow> manager \<Rightarrow> bool" where
  "blocks_fit cap m \<longleftrightarrow> list_all (\<lambda>b. unat (ma_size b) \<le> cap (ma_address b)) (am_buffered m)"

lemma take_buffered_found:
  "take_buffered sz cs = Some (c, rest) \<Longrightarrow>
   mset cs = add_mset c (mset rest) \<and> sz \<le> ucast (ma_size c) \<and> ucast (ma_size c) \<le> sz * 2"
  by (induction cs arbitrary: rest) (auto split: if_splits option.splits simp: not_less)

lemma list_all_mset: "mset xs = add_mset x (mset ys) \<Longrightarrow> list_all P xs \<longleftrightarrow> P x \<and> list_all P ys"
  by (metis insert_iff list_all_iff set_mset_add_mset_insert set_mset_mset)

lemma take_buffered_all:
  "take_buffered sz cs = Some (c, rest) \<Longrightarrow> list_all P cs \<Longrightarrow> P c \<and> list_all P rest"
  by (induction cs arbitrary: rest) (auto split: if_splits option.splits)

lemma mset_insert_buffered: "mset (insert_buffered sz a cs) = add_mset a (mset cs)"
  by (induction cs) simp_all

lemma unat_ucast_u64: "unat (ucast (w :: u32) :: u64) = unat w"
proof -
  have "unat w < 2 ^ 32" using unsigned_less [of w, where ?'a = nat] by simp
  then show ?thesis by (simp add: unsigned_ucast_eq take_bit_nat_eq_self)
qed

lemma unat_ucast_u32_le: "unat (ucast (w :: u64) :: u32) \<le> unat w"
  by (simp add: unsigned_ucast_eq take_bit_nat_less_eq_self)

lemma word_double:
  assumes "unat (sz :: u64) < 2 ^ 32"
  shows "(ucast (ucast sz :: u32) :: u64) = sz" "\<not> sz * 2 < sz"
proof -
  have "unat (ucast sz :: u32) = unat sz" using assms by (simp add: unsigned_ucast_eq take_bit_nat_eq_self)
  then show "(ucast (ucast sz :: u32) :: u64) = sz" by (simp add: word_unat_eq_iff unat_ucast_u64)
  have "unat (sz * 2) = unat sz * 2" using assms by (simp add: unat_word_ariths)
  then show "\<not> sz * 2 < sz" by (simp add: word_less_nat_alt)
qed

lemma take_inserted:
  assumes "unat sz < 2 ^ 32"
  shows "take_buffered sz (insert_buffered sz \<lparr> ma_size = ucast sz, ma_address = ptr \<rparr> cs)
       = Some (\<lparr> ma_size = ucast sz, ma_address = ptr \<rparr>, cs)"
proof (induction cs)
  case Nil
  then show ?case by (simp add: word_double [OF assms])
next
  case (Cons c cs)
  have "\<not> ucast (ma_size c) > sz * 2" if "\<not> ucast (ma_size c) \<ge> sz"
    using that word_double(2) [OF assms] by (meson leI le_less_trans less_le_not_le order_less_trans)
  with Cons show ?case by (auto simp: word_double [OF assms])
qed

text \<open>The list stays sorted while the sizes fit in 32 bits, so the first fit is a best fit.\<close>

lemma insert_buffered_sorted:
  assumes "unat sz < 2 ^ 32" "sorted (map (\<lambda>b. unat (ma_size b)) cs)"
  shows "sorted (map (\<lambda>b. unat (ma_size b)) (insert_buffered sz \<lparr> ma_size = ucast sz, ma_address = ptr \<rparr> cs))"
  using assms(2)
proof (induction cs)
  case (Cons c cs)
  have s: "unat (ucast sz :: u32) = unat sz" using assms by (simp add: unsigned_ucast_eq take_bit_nat_eq_self)
  have "set (insert_buffered sz a cs) = insert a (set cs)" for a
    by (metis mset_insert_buffered set_mset_add_mset_insert set_mset_mset)
  with Cons s show ?case by (fastforce simp: word_le_nat_alt unat_ucast_u64)
qed simp

lemma take_buffered_best:
  assumes "take_buffered sz cs = Some (c, rest)" "sorted (map (\<lambda>b. unat (ma_size b)) cs)"
  shows "\<forall>d\<in>set cs. unat sz \<le> unat (ma_size d) \<longrightarrow> unat (ma_size c) \<le> unat (ma_size d)"
  using assms
  by (induction cs arbitrary: rest)
    (auto simp: word_le_nat_alt unat_ucast_u64 split: if_splits option.splits)

section \<open>Properties\<close>

text \<open>
  C14: the manager hands out only memory that is large enough: it keeps the sizes of its blocks within
  their true sizes, and a block it reuses is recorded at least as large as the request and at most
  twice as large, whatever the allocation function of the pool does.
\<close>

theorem manager_blocks_fit:
  assumes "blocks_fit cap m" "AllocManager_alloc allocFn sz m p = (m', p', r, got)"
  shows "blocks_fit cap m'
    \<and> (case take_buffered sz (am_buffered m) of
         Some (b, rest) \<Rightarrow> r = Some (ma_address b) \<and> sz \<le> got \<and> got \<le> sz * 2
           \<and> unat got \<le> cap (ma_address b) \<and> p' = p \<and> am_buffered m' = rest
       | None \<Rightarrow> (p', r) = allocFn p sz \<and> got = sz \<and> am_buffered m' = am_buffered m)
    \<and> (unat f \<le> cap ptr \<longrightarrow> blocks_fit cap (fst (AllocManager_free allocFn ptr f m p)))"
proof (intro conjI impI)
  have free_fit: "blocks_fit cap (m1\<lparr> am_buffered := insert_buffered f \<lparr> ma_size = ucast f, ma_address = ptr \<rparr> (am_buffered m) \<rparr>)"
    if "unat f \<le> cap ptr" for m1
    using assms(1) that list_all_mset [OF mset_insert_buffered] unat_ucast_u32_le [of f]
    by (auto simp: blocks_fit_def)
  show "blocks_fit cap (fst (AllocManager_free allocFn ptr f m p))" if "unat f \<le> cap ptr"
    using assms(1) free_fit [OF that]
    by (auto simp: AllocManager_free_def Let_def increment_alloc_def blocks_fit_def
        split: list.splits prod.splits if_splits)
  show "case take_buffered sz (am_buffered m) of
         Some (b, rest) \<Rightarrow> r = Some (ma_address b) \<and> sz \<le> got \<and> got \<le> sz * 2
           \<and> unat got \<le> cap (ma_address b) \<and> p' = p \<and> am_buffered m' = rest
       | None \<Rightarrow> (p', r) = allocFn p sz \<and> got = sz \<and> am_buffered m' = am_buffered m"
    using assms take_buffered_found [of sz "am_buffered m"]
      take_buffered_all [of sz "am_buffered m" _ _ "\<lambda>b. unat (ma_size b) \<le> cap (ma_address b)"]
    by (auto simp: AllocManager_alloc_def Let_def increment_alloc_def increment_return_def
        blocks_fit_def unat_ucast_u64 split: option.splits prod.splits)
  then show "blocks_fit cap m'"
    using assms take_buffered_found [of sz "am_buffered m"]
      take_buffered_all [of sz "am_buffered m" _ _ "\<lambda>b. unat (ma_size b) \<le> cap (ma_address b)"]
    by (auto simp: blocks_fit_def split: option.splits)
qed

text \<open>
  A block given back is the block the next allocation of its size gets, and the kept blocks are
  then what they were before.
\<close>

theorem manager_reuses_freed:
  assumes "am_allocated m \<noteq> 0" "am_free_buffered m \<noteq> []" "unat sz < 2 ^ 32"
    and "AllocManager_free allocFn ptr sz m p = (m', p')"
  shows "p' = p \<and> (\<exists>m''. AllocManager_alloc allocFn sz m' p = (m'', p, Some ptr, sz)
    \<and> am_buffered m'' = am_buffered m)"
  using assms take_inserted [OF assms(3)] word_double [OF assms(3)]
  by (cases "am_free_buffered m")
    (auto simp: AllocManager_free_def AllocManager_alloc_def increment_return_def)


text \<open>A manager that was given back one block of 512 bytes, with a record to reuse.\<close>

definition sample_manager :: manager where
  "sample_manager = \<lparr> am_buffered = [\<lparr> ma_size = 512, ma_address = 4096 \<rparr>],
     am_free_buffered = [\<lparr> ma_size = 0, ma_address = 0 \<rparr>], am_alloc_buffer = 512,
     am_allocated = 512, am_returned = 0 \<rparr>"

theorem manager_blocks_fit_witness:
  "let r = AllocManager_alloc (\<lambda>p s. (p, None)) 300 sample_manager () in
   fst (snd (snd r)) = Some 4096 \<and> 300 \<le> snd (snd (snd r)) \<and> unat (snd (snd (snd r))) \<le> 512"
proof -
  let ?cap = "\<lambda>a. 512 :: nat" and ?fn = "\<lambda>p s. (p :: unit, None :: u64 option)"
  have "blocks_fit ?cap sample_manager" by code_simp
  moreover obtain m' p' r got where a: "AllocManager_alloc ?fn 300 sample_manager () = (m', p', r, got)"
    using prod_cases4 by blast
  ultimately have "case take_buffered 300 (am_buffered sample_manager) of
         Some (b, rest) \<Rightarrow> r = Some (ma_address b) \<and> 300 \<le> got \<and> got \<le> 300 * 2
           \<and> unat got \<le> 512 \<and> p' = () \<and> am_buffered m' = rest
       | None \<Rightarrow> (p', r) = ?fn () 300 \<and> got = 300 \<and> am_buffered m' = am_buffered sample_manager"
    using manager_blocks_fit [of ?cap sample_manager ?fn 300 "()" m' p' r got] by blast
  then show ?thesis unfolding a by (simp add: sample_manager_def)
qed

theorem manager_reuses_freed_witness:
  "\<exists>m''. AllocManager_alloc (\<lambda>p s. ((), None)) 512 (fst (AllocManager_free (\<lambda>p s. ((), None)) 8192 512 sample_manager ())) ()
     = (m'', (), Some 8192, 512) \<and> am_buffered m'' = am_buffered sample_manager"
proof -
  have "am_allocated sample_manager \<noteq> 0" "am_free_buffered sample_manager \<noteq> []" "unat (512 :: u64) < 2 ^ 32"
    by (simp_all add: sample_manager_def)
  from manager_reuses_freed [OF this prod.collapse [symmetric], of "\<lambda>p s. ((), None)" 8192 "()"]
  show ?thesis by (rule conjunct2)
qed

end
