(* ===== verification/Pool.thy ===== *)
theory Pool
  imports PoolAllocator AllocManager
begin

text \<open>
  Models \<^verbatim>\<open>common/memory/pool/SPMemPoolPool.cc\<close> and the node ring and cleanup list of
  \<^verbatim>\<open>SPMemPoolUtils.cc\<close>: memory pools over the page allocator.

  The ring of nodes linked through \<^verbatim>\<open>next\<close> and \<^verbatim>\<open>ref\<close> is the list that starts at the active node;
  inserting before the active node and removing a node are list operations. A cleanup callback
  is outside the pool: it is the parameter \<open>cb\<close>, which may change the registered cleanups and the
  rest \<open>'w\<close> of the world. Child pools are not modelled.
\<close>

section \<open>Data\<close>

record cleanup =
  cl_data :: u64
  cl_fn :: "nat option"

record pool =
  po_ring :: "memnode list"
  po_self :: u64
  po_self_first_avail :: u64
  po_cleanups :: "cleanup list"
  po_pre_cleanups :: "cleanup list"
  po_free_cleanups :: nat
  po_mngr :: manager

definition BlockThreshold :: u64 where "BlockThreshold = 256"

definition SPALIGN_DEFAULT :: "u64 \<Rightarrow> u64" where "SPALIGN_DEFAULT sz = SPALIGN sz 16"

text \<open>The size of \<^verbatim>\<open>Pool\<close> on the target: 23 words, or 24 with the magic number, aligned to 16.\<close>

definition SIZEOF_POOL :: u64 where "SIZEOF_POOL = 192"

definition SIZEOF_CLEANUP :: u64 where "SIZEOF_CLEANUP = 24"

section \<open>The ring of nodes\<close>

definition free_space :: "memnode \<Rightarrow> u64" where
  "free_space n = mn_endp n - mn_first_avail n"

text \<open>The pages that are entirely free.\<close>

definition full_free_pages :: "memnode \<Rightarrow> u64" where
  "full_free_pages n =
     drop_bit BOUNDARY_INDEX (SPALIGN (mn_endp n - mn_first_avail n + 1) (of_nat BOUNDARY_SIZE) - of_nat BOUNDARY_SIZE)"

text \<open>The loop that moves the former active node behind the nodes with more free pages.\<close>

fun place_active :: "nat \<Rightarrow> memnode \<Rightarrow> memnode list \<Rightarrow> memnode list" where
  "place_active free_index active [] = [active]"
| "place_active free_index active (node # rest) =
     (if free_index < mn_free_index node then node # place_active free_index active rest
      else active # node # rest)"

definition consume :: "u64 \<Rightarrow> memnode \<Rightarrow> memnode" where
  "consume sz n = n\<lparr> mn_first_avail := mn_first_avail n + sz \<rparr>"

text \<open>\<^verbatim>\<open>palloc\<close> once a node with room is at hand: it becomes the active one.\<close>

definition activate :: "u64 \<Rightarrow> memnode \<Rightarrow> memnode \<Rightarrow> memnode list \<Rightarrow> memnode list" where
  "activate sz node active rest =
     (let free_index = full_free_pages active
      in consume sz (node\<lparr> mn_free_index := 0 \<rparr>)
         # place_active (unat free_index) (active\<lparr> mn_free_index := unat (ucast free_index :: u32) \<rparr>) rest)"

text \<open>The allocator is called with the low 32 bits of the size.\<close>

definition Pool_palloc :: "os \<Rightarrow> u64 \<Rightarrow> allocator \<times> pool \<Rightarrow> (allocator \<times> pool) \<times> u64 option" where
  "Pool_palloc os in_size s =
     (let (al, p) = s; sz = SPALIGN_DEFAULT in_size in
      if sz < in_size then (s, None)
      else case po_ring p of [] \<Rightarrow> (s, None)
      | active # rest \<Rightarrow>
          if sz \<le> free_space active
          then ((al, p\<lparr> po_ring := consume sz active # rest \<rparr>), Some (mn_first_avail active))
          else if rest \<noteq> [] \<and> sz \<le> free_space (hd rest)
          then ((al, p\<lparr> po_ring := activate sz (hd rest) active (tl rest) \<rparr>), Some (mn_first_avail (hd rest)))
          else (case Allocator_alloc os (ucast sz) al of
                  (al', None) \<Rightarrow> ((al', p), None)
                | (al', Some node) \<Rightarrow>
                    ((al', p\<lparr> po_ring := activate sz node active rest \<rparr>), Some (mn_first_avail node))))"

section \<open>Blocks\<close>

definition Pool_alloc :: "os \<Rightarrow> u64 \<Rightarrow> allocator \<times> pool \<Rightarrow> (allocator \<times> pool) \<times> u64 option \<times> u64" where
  "Pool_alloc os sz s =
     (if sz \<ge> BlockThreshold then
        (let (m, s', r, got) = AllocManager_alloc (\<lambda>s sz. Pool_palloc os sz s) sz (po_mngr (snd s)) s
         in ((fst s', (snd s')\<lparr> po_mngr := m \<rparr>), r, got))
      else
        (let (s', r) = Pool_palloc os sz (fst s, (snd s)\<lparr> po_mngr := increment_alloc sz (po_mngr (snd s)) \<rparr>)
         in (s', r, sz)))"

definition Pool_free :: "os \<Rightarrow> u64 \<Rightarrow> u64 \<Rightarrow> allocator \<times> pool \<Rightarrow> allocator \<times> pool" where
  "Pool_free os ptr sz s =
     (if sz \<ge> BlockThreshold then
        (let (m, s') = AllocManager_free (\<lambda>s sz. Pool_palloc os sz s) ptr sz (po_mngr (snd s)) s
         in (fst s', (snd s')\<lparr> po_mngr := m \<rparr>))
      else s)"

section \<open>Cleanups\<close>

text \<open>A recycled record is used before a new one is taken from the pool.\<close>

definition cleanup_record :: "os \<Rightarrow> allocator \<times> pool \<Rightarrow> (allocator \<times> pool) option" where
  "cleanup_record os s =
     (if po_free_cleanups (snd s) > 0
      then Some (fst s, (snd s)\<lparr> po_free_cleanups := po_free_cleanups (snd s) - 1 \<rparr>)
      else case Pool_palloc os SIZEOF_CLEANUP s of (s', Some c) \<Rightarrow> Some s' | (s', None) \<Rightarrow> None)"

definition cleanup_register :: "os \<Rightarrow> u64 \<Rightarrow> nat option \<Rightarrow> allocator \<times> pool \<Rightarrow> (allocator \<times> pool) option" where
  "cleanup_register os data cb s =
     (case cleanup_record os s of None \<Rightarrow> None
      | Some (al, p) \<Rightarrow>
          Some (al, p\<lparr> po_cleanups := \<lparr> cl_data = data, cl_fn = cb \<rparr> # po_cleanups p \<rparr>))"

definition pre_cleanup_register :: "os \<Rightarrow> u64 \<Rightarrow> nat option \<Rightarrow> allocator \<times> pool \<Rightarrow> (allocator \<times> pool) option" where
  "pre_cleanup_register os data cb s =
     (case cleanup_record os s of None \<Rightarrow> None
      | Some (al, p) \<Rightarrow>
          Some (al, p\<lparr> po_pre_cleanups := \<lparr> cl_data = data, cl_fn = cb \<rparr> # po_pre_cleanups p \<rparr>))"

text \<open>The search of \<^verbatim>\<open>cleanup_kill\<close> over one list: the list without the first match, and whether there was one.\<close>

fun kill_first :: "u64 \<Rightarrow> nat option \<Rightarrow> cleanup list \<Rightarrow> cleanup list \<times> nat" where
  "kill_first data cb [] = ([], 0)"
| "kill_first data cb (c # cs) =
     (if cl_data c = data \<and> cl_fn c = cb then (cs, 1)
      else (let (ds, n) = kill_first data cb cs in (c # ds, n)))"

definition cleanup_kill :: "u64 \<Rightarrow> nat option \<Rightarrow> pool \<Rightarrow> pool" where
  "cleanup_kill data cb p =
     (let (cs, n) = kill_first data cb (po_cleanups p);
          (pre, k) = kill_first data cb (po_pre_cleanups p)
      in p\<lparr> po_cleanups := cs, po_pre_cleanups := pre, po_free_cleanups := po_free_cleanups p + n + k \<rparr>)"

text \<open>
  \<^verbatim>\<open>Cleanup::run\<close>: the head is taken off before its callback runs, and the list is read again after
  it, so a cleanup registered by a callback runs too.
\<close>

partial_function (option) Cleanup_run ::
  "(nat \<Rightarrow> u64 \<Rightarrow> cleanup list \<times> 'w \<Rightarrow> cleanup list \<times> 'w) \<Rightarrow> cleanup list \<times> 'w \<Rightarrow> (cleanup list \<times> 'w) option" where
  "Cleanup_run cb s =
     (case fst s of
        [] \<Rightarrow> Some s
      | c # cs \<Rightarrow>
          (case cl_fn c of
             None \<Rightarrow> Cleanup_run cb (cs, snd s)
           | Some fn \<Rightarrow> Cleanup_run cb (cb fn (cl_data c) (cs, snd s))))"

section \<open>Creating and clearing\<close>

definition Pool_create :: "os \<Rightarrow> allocator \<Rightarrow> (allocator \<times> pool) option" where
  "Pool_create os al =
     (case Allocator_alloc os (MIN_ALLOC - ucast SIZEOF_MEMNODE) al of
        (al', None) \<Rightarrow> None
      | (al', Some node) \<Rightarrow>
          (let first = mn_first_avail node + SIZEOF_POOL in
           Some (al', \<lparr> po_ring = [node\<lparr> mn_first_avail := first \<rparr>], po_self = mn_addr node,
             po_self_first_avail = first, po_cleanups = [], po_pre_cleanups = [], po_free_cleanups = 0,
             po_mngr = AllocManager_reset \<rparr>)))"

text \<open>The nodes in ring order behind the pool's own node, and that node.\<close>

definition self_node :: "pool \<Rightarrow> memnode option" where
  "self_node p = find (\<lambda>n. mn_addr n = po_self p) (po_ring p)"

definition other_nodes :: "pool \<Rightarrow> memnode list" where
  "other_nodes p =
     tl (dropWhile (\<lambda>n. mn_addr n \<noteq> po_self p) (po_ring p)) @ takeWhile (\<lambda>n. mn_addr n \<noteq> po_self p) (po_ring p)"

text \<open>\<^verbatim>\<open>clear\<close> after its two cleanup runs: the nodes go back to the allocator, the own one is reset.\<close>

definition Pool_release :: "allocator \<times> pool \<Rightarrow> ((allocator \<times> pool) \<times> memnode list) option" where
  "Pool_release s =
     (let (al, p) = s in
      case self_node p of None \<Rightarrow> None
      | Some self \<Rightarrow>
          (let (al', fl) = (if other_nodes p = [] then (al, []) else Allocator_free (other_nodes p) al)
           in Some ((al', p\<lparr> po_ring := [self\<lparr> mn_first_avail := po_self_first_avail p \<rparr>],
                po_free_cleanups := 0, po_mngr := AllocManager_reset \<rparr>), fl)))"

definition Pool_clear ::
  "(nat \<Rightarrow> u64 \<Rightarrow> cleanup list \<times> 'w \<Rightarrow> cleanup list \<times> 'w) \<Rightarrow> 'w \<Rightarrow> allocator \<times> pool
   \<Rightarrow> ((allocator \<times> pool) \<times> memnode list \<times> 'w) option" where
  "Pool_clear cb w s =
     (let (al, p) = s in
      case Cleanup_run cb (po_pre_cleanups p, w) of None \<Rightarrow> None
      | Some (_, w1) \<Rightarrow>
          (case Cleanup_run cb (po_cleanups p, w1) of None \<Rightarrow> None
           | Some (_, w2) \<Rightarrow>
               (case Pool_release (al, p\<lparr> po_pre_cleanups := [], po_cleanups := [] \<rparr>) of None \<Rightarrow> None
                | Some (s', fl) \<Rightarrow> Some (s', fl, w2))))"


section \<open>Layout of nodes\<close>

text \<open>Nodes lie inside the address space and are aligned; so do the blocks \<^verbatim>\<open>malloc\<close> returns.\<close>

definition layout :: "memnode \<Rightarrow> bool" where
  "layout n \<longleftrightarrow> node_wf n \<and> unat (mn_addr n) + (mn_index n + 1) * 4096 < 2 ^ 64 \<and> 16 dvd unat (mn_addr n)"

definition os_ok :: "os \<Rightarrow> bool" where
  "os_ok os \<longleftrightarrow> (\<forall>s p. os_malloc os s = Some p \<longrightarrow> unat p + unat s < 2 ^ 64 \<and> 16 dvd unat p)"

definition al_layout :: "allocator \<Rightarrow> bool" where
  "al_layout al \<longleftrightarrow> al_wf al \<and> al_mmapPtr al = None \<and> (\<forall>n\<in>#retained al. layout n)"

definition node_ok :: "memnode \<Rightarrow> bool" where
  "node_ok n \<longleftrightarrow> layout n \<and> unat (mn_addr n) + 48 \<le> unat (mn_first_avail n)
     \<and> unat (mn_first_avail n) \<le> unat (mn_endp n) \<and> 16 dvd unat (mn_first_avail n)"

definition pool_ok :: "pool \<Rightarrow> bool" where
  "pool_ok p \<longleftrightarrow> po_ring p \<noteq> [] \<and> (\<forall>n\<in>set (po_ring p). node_ok n)
     \<and> sorted_wrt (\<lambda>m n. mn_free_index n \<le> mn_free_index m) (tl (po_ring p))
     \<and> (\<forall>n\<in>set (tl (po_ring p)). mn_free_index n = (unat (mn_endp n) - unat (mn_first_avail n)) div 4096)"

lemma layout_endp: "layout n \<Longrightarrow> unat (mn_endp n) = unat (mn_addr n) + (mn_index n + 1) * 4096"
proof -
  assume l: "layout n"
  have "unat (of_nat ((mn_index n + 1) * BOUNDARY_SIZE) :: u64) = (mn_index n + 1) * 4096"
    using l by (simp only: unat_of_nat) (simp add: layout_def node_wf_def BOUNDARY_SIZE_def)
  then show ?thesis using l by (simp add: layout_def node_wf_def unat_word_ariths)
qed

lemma layout_update [simp]:
  "layout (n\<lparr> mn_first_avail := x \<rparr>) = layout n" "layout (n\<lparr> mn_free_index := i \<rparr>) = layout n"
  by (simp_all add: layout_def node_wf_def)

lemma layout_header:
  assumes "layout n"
  shows "unat (mn_addr n + SIZEOF_MEMNODE) = unat (mn_addr n) + 48" "node_ok (reset_node n)"
proof -
  show a: "unat (mn_addr n + SIZEOF_MEMNODE) = unat (mn_addr n) + 48"
    using assms by (simp add: SIZEOF_MEMNODE_value unat_word_ariths layout_def node_wf_def)
  have "16 dvd unat (mn_addr n) + 48" using assms by (simp add: layout_def dvd_add_left_iff)
  then show "node_ok (reset_node n)"
    using assms a layout_endp [OF assms] by (simp add: node_ok_def reset_node_def layout_def node_wf_def)
qed

lemma Allocator_alloc_mmap: "Allocator_alloc os x al = (al', r) \<Longrightarrow> al_mmapPtr al' = al_mmapPtr al"
  by (auto simp: Allocator_alloc_def Allocator_new_def recharge_def Let_def
      split: if_splits option.splits list.splits)

text \<open>A new node is where \<^verbatim>\<open>malloc\<close> put it.\<close>

lemma Allocator_alloc_layout:
  assumes al: "al_layout al" and os: "os_ok os" and r: "Allocator_alloc os x al = (al', Some n)"
  shows "al_layout al'" "node_ok n" "mn_first_avail n = mn_addr n + SIZEOF_MEMNODE"
    "unat x + 48 \<le> (mn_index n + 1) * 4096"
proof -
  have wf: "al_wf al" and m: "al_mmapPtr al = None" using al by (auto simp: al_layout_def)
  note res = Allocator_alloc_result [OF wf r]
  have m': "al_mmapPtr al' = None" using Allocator_alloc_mmap [OF r] m by simp
  show "unat x + 48 \<le> (mn_index n + 1) * 4096" using res by blast
  from res consider (old) k where "retained al = add_mset k (retained al')" "n = reset_node k" "node_wf k"
    | (new) "retained al' = retained al" "node_wf n" "mn_index n = alloc_index (request_size x)"
        "mn_first_avail n = mn_addr n + SIZEOF_MEMNODE"
        "Allocator_new os (request_size x) (alloc_index (request_size x)) al = (al', Some n)" by blast
  then have "al_layout al' \<and> node_ok n \<and> mn_first_avail n = mn_addr n + SIZEOF_MEMNODE"
  proof cases
    case old
    then have "layout k" using al by (simp add: al_layout_def)
    then show ?thesis
      using old al m' res layout_header [of k] by (auto simp: al_layout_def reset_node_def)
  next
    case new
    have x: "\<not> alloc_size x < x" using r by (auto simp: Allocator_alloc_def Let_def split: if_splits)
    have "os_malloc os (ucast (request_size x)) = Some (mn_addr n)"
      using new(5) m by (auto simp: Allocator_new_def Let_def split: option.splits)
    then have "unat (mn_addr n) + unat (ucast (request_size x) :: u64) < 2 ^ 64 \<and> 16 dvd unat (mn_addr n)"
      using os unfolding os_ok_def by blast
    then have "unat (mn_addr n) + unat (request_size x) < 2 ^ 64" "16 dvd unat (mn_addr n)"
      by (simp_all only: unat_ucast_u64)
    then have l: "layout n" using new(2,3) request_pages(1) [OF x] by (simp add: layout_def)
    have "node_ok n"
      using layout_header [OF l] new(4) by (simp add: node_ok_def reset_node_def)
    then show ?thesis using new al m' res by (simp add: al_layout_def)
  qed
  then show "al_layout al'" "node_ok n" "mn_first_avail n = mn_addr n + SIZEOF_MEMNODE" by simp_all
qed

section \<open>The ring\<close>

lemma node_ok_space:
  assumes "node_ok n"
  shows "unat (free_space n) = unat (mn_endp n) - unat (mn_first_avail n)" "unat (free_space n) < 2 ^ 32"
proof -
  show u: "unat (free_space n) = unat (mn_endp n) - unat (mn_first_avail n)"
    using assms by (simp add: free_space_def node_ok_def unat_sub word_le_nat_alt)
  have "unat (mn_endp n) = unat (mn_addr n) + (mn_index n + 1) * 4096" "mn_index n + 1 < 2 ^ 20"
    using assms layout_endp by (auto simp: node_ok_def layout_def node_wf_def)
  moreover have "unat (mn_addr n) \<le> unat (mn_first_avail n)" using assms by (simp add: node_ok_def)
  ultimately have "unat (mn_endp n) - unat (mn_first_avail n) \<le> (mn_index n + 1) * 4096"
    and "(mn_index n + 1) * 4096 < 2 ^ 32" by simp_all
  then show "unat (free_space n) < 2 ^ 32" using u by simp
qed

lemma new_node_space:
  assumes "node_ok n" "mn_first_avail n = mn_addr n + SIZEOF_MEMNODE"
  shows "unat (free_space n) = (mn_index n + 1) * 4096 - 48"
  using node_ok_space(1) [OF assms(1)] layout_endp [of n] layout_header(1) [of n] assms
  by (simp add: node_ok_def)

lemma full_free_pages_value:
  assumes "node_ok n"
  shows "unat (full_free_pages n) = (unat (mn_endp n) - unat (mn_first_avail n)) div 4096"
    "unat (ucast (full_free_pages n) :: u32) = (unat (mn_endp n) - unat (mn_first_avail n)) div 4096"
proof -
  let ?f = "unat (mn_endp n) - unat (mn_first_avail n)"
  note f = node_ok_space [OF assms]
  have one: "unat (mn_endp n - mn_first_avail n + 1) = ?f + 1"
    using f by (simp add: free_space_def unat_word_ariths)
  then have a: "unat (SPALIGN (mn_endp n - mn_first_avail n + 1) 4096) = (?f + 1 + 4095) div 4096 * 4096"
    using f SPALIGN_page [of "mn_endp n - mn_first_avail n + 1"] by simp
  have d: "(?f + 1 + 4095) div 4096 = ?f div 4096 + 1" by (simp add: add.assoc)
  have "unat (SPALIGN (mn_endp n - mn_first_avail n + 1) 4096 - 4096) = ?f div 4096 * 4096"
    using a unfolding d by (subst unat_sub) (simp_all add: word_le_nat_alt)
  then show "unat (full_free_pages n) = ?f div 4096"
    by (simp add: full_free_pages_def BOUNDARY_SIZE_def BOUNDARY_INDEX_def unat_drop_bit_div)
  moreover have "?f div 4096 < 2 ^ 32" using f by simp
  ultimately show "unat (ucast (full_free_pages n) :: u32) = ?f div 4096"
    by (simp add: unsigned_ucast_eq take_bit_nat_eq_self)
qed

lemma mset_place_active: "mset (place_active f a ns) = add_mset a (mset ns)"
  by (induction ns) simp_all

lemma set_place_active: "set (place_active f a ns) = insert a (set ns)"
  by (metis mset_place_active set_mset_add_mset_insert set_mset_mset)

lemma place_active_sorted:
  "sorted_wrt (\<lambda>m n. mn_free_index n \<le> mn_free_index m) ns \<Longrightarrow> mn_free_index a = f \<Longrightarrow>
   sorted_wrt (\<lambda>m n. mn_free_index n \<le> mn_free_index m) (place_active f a ns)"
  by (induction ns) (auto simp: set_place_active)

lemma SPALIGN_DEFAULT_value:
  assumes "unat x + 16 \<le> 2 ^ 64"
  shows "unat (SPALIGN_DEFAULT x) = (unat x + 15) div 16 * 16"
proof -
  have m: "(15 :: u64) = mask 4" by (simp add: mask_eq_exp_minus_1)
  have "(x + 15) AND NOT (mask 4) = push_bit 4 (drop_bit 4 (x + 15))"
    by (rule bit_word_eqI) (auto simp: bit_simps)
  then have "SPALIGN_DEFAULT x = push_bit 4 (drop_bit 4 (x + 15))"
    by (simp add: SPALIGN_DEFAULT_def SPALIGN_def flip: m)
  moreover have sum: "unat (x + 15) = unat x + 15"
    using assms by (simp add: unat_word_ariths)
  have "unat (drop_bit 4 (x + 15)) = (unat x + 15) div 16"
    by (simp add: unat_drop_bit_div sum)
  ultimately show ?thesis
    using assms by (simp only: unsigned_push_bit_eq) (simp add: push_bit_eq_mult take_bit_eq_mod)
qed

text \<open>Consuming aligned bytes that fit.\<close>

lemma consume_ok:
  assumes "node_ok n" "sz \<le> free_space n" "16 dvd unat sz"
  shows "node_ok (consume sz n)" "unat (mn_first_avail (consume sz n)) = unat (mn_first_avail n) + unat sz"
proof -
  have "unat sz \<le> unat (mn_endp n) - unat (mn_first_avail n)"
    using assms(2) node_ok_space [OF assms(1)] by (simp add: word_le_nat_alt)
  moreover have "unat (mn_endp n) < 2 ^ 64" using unsigned_less [of "mn_endp n", where ?'a = nat] by simp
  moreover have le: "unat (mn_first_avail n) \<le> unat (mn_endp n)" using assms(1) by (simp add: node_ok_def)
  ultimately have "unat (mn_first_avail n) + unat sz \<le> unat (mn_endp n)" "unat (mn_first_avail n) + unat sz < 2 ^ 64"
    by simp_all
  then show e: "unat (mn_first_avail (consume sz n)) = unat (mn_first_avail n) + unat sz"
    and "node_ok (consume sz n)"
    using assms(1,3) by (simp_all add: consume_def node_ok_def unat_word_ariths)
qed

lemma node_ok_free_index [simp]: "node_ok (n\<lparr> mn_free_index := i \<rparr>) = node_ok n"
  by (simp add: node_ok_def)

lemma activate_ok:
  assumes ring: "\<forall>n\<in>set (active # rest). node_ok n"
      "sorted_wrt (\<lambda>m n. mn_free_index n \<le> mn_free_index m) rest"
      "\<forall>n\<in>set rest. mn_free_index n = (unat (mn_endp n) - unat (mn_first_avail n)) div 4096"
    and node: "node_ok (consume sz (node\<lparr> mn_free_index := 0 \<rparr>))"
    and p: "po_ring p = activate sz node active rest"
  shows "pool_ok p"
proof -
  have a: "node_ok active" using ring by simp
  note f = full_free_pages_value [OF a]
  show ?thesis
    unfolding pool_ok_def p activate_def Let_def
    using ring node f by (auto simp: set_place_active place_active_sorted)
qed

text \<open>What a node has handed out: the bytes from its address to its \<^verbatim>\<open>first_avail\<close>.\<close>

definition used :: "memnode \<Rightarrow> u64 \<times> u64" where
  "used n = (mn_addr n, mn_first_avail n)"

lemma used_simps [simp]:
  "used (n\<lparr> mn_free_index := i \<rparr>) = used n" "used (consume sz n) = (mn_addr n, mn_first_avail n + sz)"
  by (simp_all add: used_def consume_def)

lemma used_activate:
  "image_mset used (mset (activate sz node active rest))
   = add_mset (mn_addr node, mn_first_avail node + sz) (add_mset (used active) (image_mset used (mset rest)))"
  by (simp add: activate_def Let_def mset_place_active)


section \<open>Allocating from a pool\<close>

lemma palloc_cases:
  assumes "pool_ok p" "Pool_palloc os in_size (al, p) = ((al', p'), Some mem)"
  obtains (active) active rest where "po_ring p = active # rest" "SPALIGN_DEFAULT in_size \<le> free_space active"
      "al' = al" "p' = p\<lparr> po_ring := consume (SPALIGN_DEFAULT in_size) active # rest \<rparr>" "mem = mn_first_avail active"
    | (follower) active node rest where "po_ring p = active # node # rest" "SPALIGN_DEFAULT in_size \<le> free_space node"
      "al' = al" "p' = p\<lparr> po_ring := activate (SPALIGN_DEFAULT in_size) node active rest \<rparr>" "mem = mn_first_avail node"
    | (new) active node rest where "po_ring p = active # rest" "Allocator_alloc os (ucast (SPALIGN_DEFAULT in_size)) al = (al', Some node)"
      "p' = p\<lparr> po_ring := activate (SPALIGN_DEFAULT in_size) node active rest \<rparr>" "mem = mn_first_avail node"
proof -
  obtain a rest where ring: "po_ring p = a # rest" using assms(1) by (cases "po_ring p") (auto simp: pool_ok_def)
  let ?sz = "SPALIGN_DEFAULT in_size"
  consider "?sz \<le> free_space a" | "\<not> ?sz \<le> free_space a" "rest \<noteq> []" "?sz \<le> free_space (hd rest)"
    | "\<not> ?sz \<le> free_space a" "\<not> (rest \<noteq> [] \<and> ?sz \<le> free_space (hd rest))" by blast
  then show thesis
  proof cases
    case 1
    then show thesis using active [OF ring] assms(2) ring
      by (auto simp: Pool_palloc_def Let_def split: if_splits)
  next
    case 2
    then obtain n ns where "rest = n # ns" by (cases rest) auto
    then show thesis using follower [of a n ns] 2 assms(2) ring
      by (auto simp: Pool_palloc_def Let_def split: if_splits)
  next
    case 3
    then show thesis using new [OF ring] assms(2) ring
      by (auto simp: Pool_palloc_def Let_def split: if_splits prod.splits option.splits)
  qed
qed

lemma SPALIGN_DEFAULT_fits:
  assumes "unat x + 16 \<le> 2 ^ 64"
  shows "16 dvd unat (SPALIGN_DEFAULT x)" "x \<le> SPALIGN_DEFAULT x" "unat (SPALIGN_DEFAULT x) \<le> unat x + 15"
  using SPALIGN_DEFAULT_value [OF assms] by (simp_all add: word_le_nat_alt)

lemma Pool_create_ok:
  assumes al: "al_layout al" and os: "os_ok os" and r: "Pool_create os al = Some (al', p)"
  shows "pool_ok p" "al_layout al'" "\<exists>n. po_ring p = [n] \<and> mn_addr n = po_self p"
proof -
  obtain n where a: "Allocator_alloc os (MIN_ALLOC - ucast SIZEOF_MEMNODE) al = (al', Some n)"
    and p: "p = \<lparr> po_ring = [n\<lparr> mn_first_avail := mn_first_avail n + SIZEOF_POOL \<rparr>], po_self = mn_addr n,
      po_self_first_avail = mn_first_avail n + SIZEOF_POOL, po_cleanups = [], po_pre_cleanups = [],
      po_free_cleanups = 0, po_mngr = AllocManager_reset \<rparr>"
    using r by (auto simp: Pool_create_def Let_def split: prod.splits option.splits)
  note l = Allocator_alloc_layout [OF al os a]
  show "al_layout al'" by (rule l)
  have "1 \<le> mn_index n" using l(2) by (simp add: node_ok_def layout_def node_wf_def)
  then have "SIZEOF_POOL \<le> free_space n"
    using new_node_space [OF l(2,3)] by (simp add: word_le_nat_alt SIZEOF_POOL_def)
  from consume_ok(1) [OF l(2) this] have "node_ok (n\<lparr> mn_first_avail := mn_first_avail n + SIZEOF_POOL \<rparr>)"
    by (simp add: consume_def SIZEOF_POOL_def)
  then show "pool_ok p" by (simp add: p pool_ok_def)
  show "\<exists>n. po_ring p = [n] \<and> mn_addr n = po_self p" by (simp add: p)
qed

text \<open>A pool created on a new allocator with a \<^verbatim>\<open>malloc\<close> that answers one address.\<close>

definition sample_os :: os where
  "sample_os = \<lparr> os_malloc = (\<lambda>s. if s < 2 ^ 40 then Some 65536 else None), os_grow = False \<rparr>"

definition sample_pool :: "allocator \<times> pool" where
  "sample_pool = the (Pool_create sample_os Allocator_init)"

lemma sample_os_ok: "os_ok sample_os"
proof -
  have "unat s < 2 ^ 40" if "s < 2 ^ 40" for s :: u64 using that by (simp add: word_less_nat_alt)
  then show ?thesis by (fastforce simp: os_ok_def sample_os_def split: if_splits)
qed

lemma al_layout_init: "al_layout Allocator_init"
  by (simp add: al_layout_def al_wf_init) (simp add: Allocator_init_def retained_def)

lemma sample_pool_ok: "pool_ok (snd sample_pool)" "al_layout (fst sample_pool)"
proof -
  have "Pool_create sample_os Allocator_init \<noteq> None" by code_simp
  then have "Pool_create sample_os Allocator_init = Some (fst sample_pool, snd sample_pool)"
    by (auto simp: sample_pool_def)
  from Pool_create_ok [OF al_layout_init sample_os_ok this] show "pool_ok (snd sample_pool)" "al_layout (fst sample_pool)"
    by simp_all
qed

subsection \<open>Clearing\<close>

lemma find_dropWhile:
  "find P xs = Some n \<Longrightarrow> dropWhile (\<lambda>x. \<not> P x) xs = n # tl (dropWhile (\<lambda>x. \<not> P x) xs)"
  by (induction xs) (auto split: if_splits)

lemma self_split:
  assumes "self_node p = Some n"
  shows "mset (other_nodes p) + {#n#} = mset (po_ring p)" "n \<in> set (po_ring p)" "mn_addr n = po_self p"
proof -
  let ?P = "\<lambda>n. mn_addr n \<noteq> po_self p"
  have n: "n \<in> set (po_ring p)" "mn_addr n = po_self p"
    using assms by (auto simp: self_node_def find_Some_iff)
  then show "n \<in> set (po_ring p)" "mn_addr n = po_self p" by simp_all
  have "dropWhile ?P (po_ring p) = n # tl (dropWhile ?P (po_ring p))"
    using find_dropWhile assms by (fastforce simp: self_node_def)
  then have "po_ring p = takeWhile ?P (po_ring p) @ n # tl (dropWhile ?P (po_ring p))"
    by (metis takeWhile_dropWhile_id)
  then have "mset (po_ring p) = mset (takeWhile ?P (po_ring p)) + add_mset n (mset (tl (dropWhile ?P (po_ring p))))"
    by (metis mset.simps(2) mset_append)
  then show "mset (other_nodes p) + {#n#} = mset (po_ring p)" by (simp add: other_nodes_def)
qed

section \<open>Properties\<close>

text \<open>
  C6: below 4 GiB a pool allocation hands out aligned memory that lies inside one node, directly
  behind what that node had handed out before (so it overlaps nothing), leaves every other node as it
  was, and keeps the ring ordered by free pages behind the active node.
\<close>

theorem palloc_region:
  assumes "pool_ok p" "al_layout al" "os_ok os" "unat in_size + 16 < 2 ^ 32"
    and "Pool_palloc os in_size (al, p) = ((al', p'), Some mem)"
  shows "pool_ok p' \<and> al_layout al' \<and> 16 dvd unat mem
    \<and> unat mem + unat in_size \<le> unat (mn_endp (hd (po_ring p')))
    \<and> (\<exists>a. (a, mem) \<in># image_mset used (mset (po_ring p)) \<and>
            image_mset used (mset (po_ring p')) = add_mset (a, mem + SPALIGN_DEFAULT in_size)
              (image_mset used (mset (po_ring p)) - {#(a, mem)#})
          \<or> mem = a + SIZEOF_MEMNODE \<and>
            image_mset used (mset (po_ring p')) = add_mset (a, mem + SPALIGN_DEFAULT in_size)
              (image_mset used (mset (po_ring p))))"
proof -
  have small: "unat in_size + 16 \<le> 2 ^ 64" using assms(4) by simp
  show ?thesis
  using assms(1,5)
proof (cases rule: palloc_cases)
  case (active a rest)
  let ?sz = "SPALIGN_DEFAULT in_size"
  have a: "node_ok a" using assms(1) active(1) by (simp add: pool_ok_def)
  note c = consume_ok [OF a active(2) SPALIGN_DEFAULT_fits(1) [OF small]]
  have "pool_ok p'" using assms(1) active(1,4) c(1) by (simp add: pool_ok_def)
  moreover have "unat mem + unat in_size \<le> unat (mn_endp (hd (po_ring p')))"
    using c SPALIGN_DEFAULT_fits(2) [OF small] active by (simp add: node_ok_def word_le_nat_alt consume_def)
  moreover have "16 dvd unat mem" using a active(5) by (simp add: node_ok_def)
  ultimately show ?thesis
    using active assms(2) by (intro conjI exI [of _ "mn_addr a"] disjI1) (simp_all add: used_def consume_def)
next
  case (follower a n rest)
  let ?sz = "SPALIGN_DEFAULT in_size"
  have n: "node_ok n" using assms(1) follower(1) by (simp add: pool_ok_def)
  have c: "node_ok (consume ?sz (n\<lparr> mn_free_index := 0 \<rparr>))"
    "unat (mn_first_avail (consume ?sz (n\<lparr> mn_free_index := 0 \<rparr>))) = unat (mn_first_avail n) + unat ?sz"
    using consume_ok [of "n\<lparr> mn_free_index := 0 \<rparr>" ?sz] n follower(2) SPALIGN_DEFAULT_fits(1) [OF small] by (simp_all add: free_space_def)
  have "pool_ok p'"
    by (rule activate_ok [where active = a and rest = rest, OF _ _ _ c(1)])
      (use assms(1) follower(1,4) in \<open>simp_all add: pool_ok_def\<close>)
  moreover have "unat mem + unat in_size \<le> unat (mn_endp (hd (po_ring p')))"
    using c SPALIGN_DEFAULT_fits(2) [OF small] follower by (simp add: activate_def Let_def node_ok_def word_le_nat_alt consume_def)
  moreover have "16 dvd unat mem" using n follower(5) by (simp add: node_ok_def)
  ultimately show ?thesis
    using follower assms(2)
    by (intro conjI exI [of _ "mn_addr n"] disjI1) (simp_all add: used_activate, simp_all add: used_def)
next
  case (new a n rest)
  let ?sz = "SPALIGN_DEFAULT in_size"
  have "unat ?sz < 2 ^ 32" using SPALIGN_DEFAULT_fits(3) [OF small] assms(4) by linarith
  then have u: "unat (ucast ?sz :: u32) = unat ?sz" by (simp add: unsigned_ucast_eq take_bit_nat_eq_self)
  note l = Allocator_alloc_layout [OF assms(2,3) new(2)]
  have n: "node_ok n" by (rule l(2))
  have "?sz \<le> free_space n" using new_node_space [OF n l(3)] l(4) u by (simp add: word_le_nat_alt)
  have c: "node_ok (consume ?sz (n\<lparr> mn_free_index := 0 \<rparr>))"
    "unat (mn_first_avail (consume ?sz (n\<lparr> mn_free_index := 0 \<rparr>))) = unat (mn_first_avail n) + unat ?sz"
    using consume_ok [of "n\<lparr> mn_free_index := 0 \<rparr>" ?sz] n \<open>?sz \<le> free_space n\<close> SPALIGN_DEFAULT_fits(1) [OF small] by (simp_all add: free_space_def)
  have "pool_ok p'"
    by (rule activate_ok [where active = a and rest = rest, OF _ _ _ c(1)])
      (use assms(1) new(1,3) in \<open>simp_all add: pool_ok_def\<close>)
  moreover have "unat mem + unat in_size \<le> unat (mn_endp (hd (po_ring p')))"
    using c SPALIGN_DEFAULT_fits(2) [OF small] new by (simp add: activate_def Let_def node_ok_def word_le_nat_alt consume_def)
  moreover have "16 dvd unat mem" using n new(4) by (simp add: node_ok_def)
  ultimately show ?thesis
    using new l
    by (intro conjI exI [of _ "mn_addr n"] disjI2) (simp_all add: used_activate)
qed
qed


theorem palloc_region_witness:
  "\<exists>s mem. Pool_palloc sample_os 100 sample_pool = (s, Some mem) \<and> pool_ok (snd s) \<and> 16 dvd unat mem"
proof -
  have "snd (Pool_palloc sample_os 100 sample_pool) \<noteq> None" by code_simp
  then obtain al' p' mem where r: "Pool_palloc sample_os 100 (fst sample_pool, snd sample_pool) = ((al', p'), Some mem)"
    by (metis not_None_eq prod.collapse)
  have "unat (100 :: u64) + 16 < 2 ^ 32" by simp
  from palloc_region [OF sample_pool_ok sample_os_ok this r] r show ?thesis by auto
qed

text \<open>
  A request of 4 GiB or more that is answered with memory is answered with too little: the
  allocator is asked for the low 32 bits of the size only, and the memory runs past the end of its node.
\<close>

theorem palloc_4GiB_overruns:
  assumes "pool_ok p" "al_layout al" "os_ok os" "2 ^ 32 \<le> unat in_size" "unat in_size < 2 ^ 63"
    and "Pool_palloc os in_size (al, p) = ((al', p'), Some mem)"
  shows "unat (mn_endp (hd (po_ring p'))) < unat mem + unat in_size"
proof -
  have "in_size \<le> SPALIGN_DEFAULT in_size" using SPALIGN_DEFAULT_fits(2) assms(5) by simp
  then have big: "\<not> SPALIGN_DEFAULT in_size \<le> free_space n" if "node_ok n" for n
    using node_ok_space(2) [OF that] assms(4) by (simp add: word_le_nat_alt)
  show ?thesis
    using assms(1,6)
  proof (cases rule: palloc_cases)
    case (active a rest)
    then show ?thesis using big assms(1) by (auto simp: pool_ok_def)
  next
    case (follower a n rest)
    then show ?thesis using big assms(1) by (auto simp: pool_ok_def)
  next
    case (new a n rest)
    note n = Allocator_alloc_layout(2) [OF assms(2,3) new(2)]
    have "unat (mn_endp n) - unat (mn_first_avail n) < 2 ^ 32" using node_ok_space [OF n] by simp
    then have "unat (mn_endp n) < unat (mn_first_avail n) + unat in_size" using assms(4) by linarith
    then show ?thesis using new by (simp add: activate_def Let_def consume_def)
  qed
qed

theorem palloc_4GiB_overruns_witness:
  "\<exists>s mem. Pool_palloc sample_os 0x100000000 sample_pool = (s, Some mem)
     \<and> unat (mn_endp (hd (po_ring (snd s)))) < unat mem + 0x100000000"
proof -
  have "snd (Pool_palloc sample_os 0x100000000 sample_pool) \<noteq> None" by code_simp
  then obtain al' p' mem where r: "Pool_palloc sample_os 0x100000000 (fst sample_pool, snd sample_pool) = ((al', p'), Some mem)"
    by (metis not_None_eq prod.collapse)
  from palloc_4GiB_overruns [OF sample_pool_ok sample_os_ok _ _ r] r show ?thesis by auto
qed

text \<open>
  C25: clearing a pool returns every node but its own to the allocator, which loses none of them, and
  leaves the pool with its own node only.
\<close>

theorem clear_returns_nodes:
  assumes "pool_ok p" "al_layout al" "Pool_release (al, p) = Some ((al', p'), fl)"
  shows "al_wf al' \<and> (\<exists>n. n \<in> set (po_ring p) \<and> mn_addr n = po_self p
      \<and> retained al' + mset fl + {#n#} = retained al + mset (po_ring p)
      \<and> po_ring p' = [n\<lparr> mn_first_avail := po_self_first_avail p \<rparr>])"
proof -
  obtain n where n: "self_node p = Some n" using assms(3) by (auto simp: Pool_release_def split: option.splits)
  note split = self_split [OF n]
  have wf: "al_wf al" "al_mmapPtr al = None" using assms(2) by (auto simp: al_layout_def)
  have others: "\<forall>k\<in>set (other_nodes p). node_wf k"
  proof -
    have "set (other_nodes p) \<subseteq> set (po_ring p)"
      using split(1) by (metis set_mset_mono mset_subset_eq_add_left set_mset_mset)
    then show ?thesis using assms(1) by (auto simp: pool_ok_def node_ok_def layout_def)
  qed
  have "al_wf al' \<and> retained al' + mset fl = mset (other_nodes p) + retained al
      \<and> po_ring p' = [n\<lparr> mn_first_avail := po_self_first_avail p \<rparr>]"
  proof (cases "other_nodes p = []")
    case True
    then show ?thesis using assms(3) n wf by (auto simp: Pool_release_def Let_def)
  next
    case False
    obtain a f where fr: "Allocator_free (other_nodes p) al = (a, f)" by fastforce
    then show ?thesis
      using assms(3) n False Allocator_free_result [OF wf(1) others fr] wf(2)
      by (auto simp: Pool_release_def Let_def)
  qed
  then show ?thesis
    using split(2,3) by (intro conjI exI [of _ n]) (simp_all add: ac_simps flip: split(1))
qed

theorem clear_returns_nodes_witness:
  "\<exists>al' p' fl. Pool_release sample_pool = Some ((al', p'), fl) \<and> al_wf al'"
proof -
  have "Pool_release sample_pool \<noteq> None" by code_simp
  then obtain al' p' fl where r: "Pool_release (fst sample_pool, snd sample_pool) = Some ((al', p'), fl)"
    by (metis not_None_eq prod.collapse)
  from clear_returns_nodes [OF sample_pool_ok r] r show ?thesis by auto
qed

text \<open>The calls a list of cleanups stands for.\<close>

definition cleanup_calls :: "cleanup list \<Rightarrow> (nat \<times> u64) list" where
  "cleanup_calls cs = concat (map (\<lambda>c. case cl_fn c of None \<Rightarrow> [] | Some f \<Rightarrow> [(f, cl_data c)]) cs)"

lemma Cleanup_run_calls:
  assumes "\<forall>fn d cs w. cb fn d (cs, w) = (cs, w @ [(fn, d)])"
  shows "Cleanup_run cb (cs, w) = Some ([], w @ cleanup_calls cs)"
proof (induction cs arbitrary: w)
  case Nil
  then show ?case by (subst Cleanup_run.simps) (simp add: cleanup_calls_def)
next
  case (Cons c cs)
  then show ?case
    using assms by (subst Cleanup_run.simps) (simp add: cleanup_calls_def split: option.split)
qed

lemma kill_first_remove1: "fst (kill_first d f cs) = remove1 \<lparr> cl_data = d, cl_fn = f \<rparr> cs"
proof (induction cs)
  case (Cons c cs)
  have "c = \<lparr> cl_data = d, cl_fn = f \<rparr> \<longleftrightarrow> cl_data c = d \<and> cl_fn c = f" by (cases c) auto
  with Cons show ?case by (auto split: prod.splits)
qed simp


text \<open>The sample pool with two cleanups, one of them without a function.\<close>

definition sample_cleanups :: "cleanup list" where
  "sample_cleanups = [\<lparr> cl_data = 1, cl_fn = Some 7 \<rparr>, \<lparr> cl_data = 2, cl_fn = None \<rparr>]"


end
