(* ===== verification/MapSpec.thy ===== *)
theory MapSpec
  imports Prelude
begin

text \<open>
  The interface the containers of the library promise: a keyed store behaves as a finite map. The
  locale states the laws of its operations once; what a client concludes from them about whole
  runs is proved here and holds for every container that provides the laws.
\<close>

datatype ('k, 'v) map_op = Put 'k 'v | Remove 'k

fun map_effect :: "('k, 'v) map_op \<Rightarrow> ('k \<rightharpoonup> 'v) \<Rightarrow> ('k \<rightharpoonup> 'v)" where
  "map_effect (Put k v) m = m(k \<mapsto> v)"
| "map_effect (Remove k) m = m(k := None)"

fun map_apply :: "('k \<Rightarrow> 'v \<Rightarrow> 't \<Rightarrow> 't) \<Rightarrow> ('k \<Rightarrow> 't \<Rightarrow> 't) \<Rightarrow> ('k, 'v) map_op \<Rightarrow> 't \<Rightarrow> 't" where
  "map_apply put remove (Put k v) t = put k v t"
| "map_apply put remove (Remove k) t = remove k t"

definition run_ops :: "('k \<Rightarrow> 'v \<Rightarrow> 't \<Rightarrow> 't) \<Rightarrow> ('k \<Rightarrow> 't \<Rightarrow> 't) \<Rightarrow> ('k, 'v) map_op list \<Rightarrow> 't \<Rightarrow> 't" where
  "run_ops put remove ops t = fold (map_apply put remove) ops t"

fun key_of :: "('k, 'v) map_op \<Rightarrow> 'k" where
  "key_of (Put k v) = k"
| "key_of (Remove k) = k"

lemma effect_cong: "m j = m' j \<Longrightarrow> map_effect oper m j = map_effect oper m' j"
  by (cases oper) auto

lemma effects_cong: "m j = m' j \<Longrightarrow> fold map_effect ops m j = fold map_effect ops m' j"
proof (induction ops arbitrary: m m')
  case (Cons oper ops)
  then have "map_effect oper m j = map_effect oper m' j" by (intro effect_cong)
  then show ?case by (simp add: Cons.IH [of "map_effect oper m" "map_effect oper m'"])
qed simp

lemma effects_other: "\<forall>oper\<in>set ops. key_of oper \<noteq> j \<Longrightarrow> fold map_effect ops m j = m j"
proof (induction ops arbitrary: m)
  case (Cons oper ops)
  then show ?case by (cases oper) auto
qed simp

text \<open>Only keys of the domain \<open>ok\<close> are used with the container.\<close>

locale map_store =
  fixes ok :: "'k \<Rightarrow> bool" and inv :: "'t \<Rightarrow> bool" and empty :: 't
    and get :: "'k \<Rightarrow> 't \<Rightarrow> 'v option" and put :: "'k \<Rightarrow> 'v \<Rightarrow> 't \<Rightarrow> 't" and remove :: "'k \<Rightarrow> 't \<Rightarrow> 't"
  assumes inv_empty: "inv empty" and get_empty: "ok k \<Longrightarrow> get k empty = None"
    and inv_put: "inv t \<Longrightarrow> ok k \<Longrightarrow> inv (put k v t)"
    and inv_remove: "inv t \<Longrightarrow> ok k \<Longrightarrow> inv (remove k t)"
    and get_put: "inv t \<Longrightarrow> ok k \<Longrightarrow> ok j \<Longrightarrow> get j (put k v t) = (if j = k then Some v else get j t)"
    and get_remove: "inv t \<Longrightarrow> ok k \<Longrightarrow> ok j \<Longrightarrow> get j (remove k t) = (if j = k then None else get j t)"
begin

lemma apply_refines:
  assumes "inv t" "ok (key_of oper)"
  shows "inv (map_apply put remove oper t)"
    and "ok j \<Longrightarrow> get j (map_apply put remove oper t) = map_effect oper (\<lambda>i. get i t) j"
  using assms by (cases oper; simp add: inv_put inv_remove get_put get_remove)+

text \<open>A run of operations acts on the container as it acts on the map.\<close>

lemma run_refines:
  assumes "inv t" "\<forall>oper\<in>set ops. ok (key_of oper)"
  shows "inv (run_ops put remove ops t) \<and>
    (\<forall>j. ok j \<longrightarrow> get j (run_ops put remove ops t) = fold map_effect ops (\<lambda>i. get i t) j)"
  using assms
proof (induction ops arbitrary: t)
  case (Cons oper ops)
  let ?t = "map_apply put remove oper t"
  have "inv ?t" using Cons.prems apply_refines(1) by simp
  then have IH: "inv (run_ops put remove ops ?t) \<and>
      (\<forall>j. ok j \<longrightarrow> get j (run_ops put remove ops ?t) = fold map_effect ops (\<lambda>i. get i ?t) j)"
    using Cons by simp
  moreover have "fold map_effect ops (\<lambda>i. get i ?t) j = fold map_effect ops (map_effect oper (\<lambda>i. get i t)) j" if "ok j" for j
    using Cons.prems apply_refines(2) [OF _ _ that] by (intro effects_cong) simp
  ultimately show ?case by (simp add: run_ops_def)
qed (simp add: run_ops_def)

text \<open>Operations on other keys do not disturb a key.\<close>

lemma run_other:
  assumes "inv t" "\<forall>oper\<in>set ops. ok (key_of oper) \<and> key_of oper \<noteq> j" "ok j"
  shows "get j (run_ops put remove ops t) = get j t"
  using run_refines [of t ops] effects_other [of ops j] assms by simp

end

end
