(* ===== verification/XxHash.thy ===== *)
theory XxHash
  imports Prelude
begin

text \<open>
  Models \<^verbatim>\<open>common/string/SPHash.h\<close>: the two xxHash functions behind \<^verbatim>\<open>hash32\<close>, \<^verbatim>\<open>hash64\<close> and
  \<^verbatim>\<open>hashSize\<close>, the default hash of the pool's hash table among them.

  A pointer is the list of the bytes from it on, so \<^verbatim>\<open>p += n\<close> is \<open>drop n p\<close>; the memory may be longer than
  the \<^verbatim>\<open>len\<close> bytes that are hashed. The specification reads the input as stripes, words and single
  bytes, as the published algorithm does.
\<close>

section \<open>32 bits\<close>

definition xxh32_PRIME1 :: u32 where "xxh32_PRIME1 = 0x9E3779B1"
definition xxh32_PRIME2 :: u32 where "xxh32_PRIME2 = 0x85EBCA77"
definition xxh32_PRIME3 :: u32 where "xxh32_PRIME3 = 0xC2B2AE3D"
definition xxh32_PRIME4 :: u32 where "xxh32_PRIME4 = 0x27D4EB2F"
definition xxh32_PRIME5 :: u32 where "xxh32_PRIME5 = 0x165667B1"

definition xxh32_rotl :: "u32 \<Rightarrow> nat \<Rightarrow> u32" where
  "xxh32_rotl x r = push_bit r x OR drop_bit (32 - r) x"

definition xxh32_round :: "u32 \<Rightarrow> u32 \<Rightarrow> u32" where
  "xxh32_round acc inp = xxh32_rotl (acc + inp * xxh32_PRIME2) 13 * xxh32_PRIME1"

definition xxh32_avalanche_step :: "u32 \<Rightarrow> nat \<Rightarrow> u32 \<Rightarrow> u32" where
  "xxh32_avalanche_step h rshift prime = (h XOR drop_bit rshift h) * prime"

definition xxh32_avalanche :: "u32 \<Rightarrow> u32" where
  "xxh32_avalanche h =
     xxh32_avalanche_step (xxh32_avalanche_step (xxh32_avalanche_step h 15 xxh32_PRIME2) 13 xxh32_PRIME3) 16 1"

definition endian32 :: "u8 list \<Rightarrow> u32" where
  "endian32 v = ucast (v ! 0) OR push_bit 8 (ucast (v ! 1)) OR push_bit 16 (ucast (v ! 2)) OR push_bit 24 (ucast (v ! 3))"

definition xxh32_fetch32 :: "u8 list \<Rightarrow> u32 \<Rightarrow> u32" where
  "xxh32_fetch32 p v = xxh32_round v (endian32 p)"

fun xxh32_final_words :: "u32 \<Rightarrow> u8 list \<Rightarrow> nat \<Rightarrow> u32 \<times> u8 list \<times> nat" where
  "xxh32_final_words h p len =
     (if len \<ge> 4
      then xxh32_final_words (xxh32_rotl (h + endian32 p * xxh32_PRIME3) 17 * xxh32_PRIME4) (drop 4 p) (len - 4)
      else (h, p, len))"

fun xxh32_final_bytes :: "u32 \<Rightarrow> u8 list \<Rightarrow> nat \<Rightarrow> u32" where
  "xxh32_final_bytes h p len =
     (if len > 0 then xxh32_final_bytes (xxh32_rotl (h + ucast (p ! 0) * xxh32_PRIME5) 11 * xxh32_PRIME1) (drop 1 p) (len - 1)
      else h)"

definition xxh32_finalize :: "u32 \<Rightarrow> u8 list \<Rightarrow> nat \<Rightarrow> u32" where
  "xxh32_finalize h p len =
     (let (h, p, len) = xxh32_final_words h p len in xxh32_avalanche (xxh32_final_bytes h p len))"

type_synonym 'w lanes = "'w \<times> 'w \<times> 'w \<times> 'w"

fun xxh32_step :: "u8 list \<Rightarrow> u32 lanes \<Rightarrow> u32 lanes" where
  "xxh32_step p (v1, v2, v3, v4) =
     (xxh32_fetch32 p v1, xxh32_fetch32 (drop 4 p) v2, xxh32_fetch32 (drop 8 p) v3, xxh32_fetch32 (drop 12 p) v4)"

text \<open>The \<^verbatim>\<open>do \<dots> while (p <= limit)\<close> loop; \<open>at\<close> is the offset of \<^verbatim>\<open>p\<close>.\<close>

function xxh32_loop :: "u8 list \<Rightarrow> nat \<Rightarrow> nat \<Rightarrow> u32 lanes \<Rightarrow> u32 lanes" where
  "xxh32_loop p at limit v =
     (let v = xxh32_step p v; p = drop 16 p; at = at + 16
      in if at \<le> limit then xxh32_loop p at limit v else v)"
  by pat_completeness auto
termination by (relation "measure (\<lambda>(_, at, limit, _). limit - at)") auto

fun xxh32_join :: "u32 lanes \<Rightarrow> u32" where
  "xxh32_join (v1, v2, v3, v4) = xxh32_rotl v1 1 + xxh32_rotl v2 7 + xxh32_rotl v3 12 + xxh32_rotl v4 18"

definition xxh32_lanes :: "u32 \<Rightarrow> u32 lanes" where
  "xxh32_lanes seed = (seed + xxh32_PRIME1 + xxh32_PRIME2, seed + xxh32_PRIME2, seed, seed - xxh32_PRIME1)"

definition xxh32_h16bytes :: "u8 list \<Rightarrow> u32 \<Rightarrow> u32 \<Rightarrow> u32" where
  "xxh32_h16bytes p len seed = xxh32_join (xxh32_loop p 0 (unat len - 16) (xxh32_lanes seed))"

definition xxh32_hash :: "u8 list \<Rightarrow> u32 \<Rightarrow> u32 \<Rightarrow> u32" where
  "xxh32_hash inp len seed =
     xxh32_finalize ((if len \<ge> 16 then xxh32_h16bytes inp len seed else seed + xxh32_PRIME5) + len)
       (drop (unat (len AND NOT 0xF)) inp) (unat (len AND 0xF))"

section \<open>64 bits\<close>

definition xxh64_PRIME1 :: u64 where "xxh64_PRIME1 = 0x9E3779B185EBCA87"
definition xxh64_PRIME2 :: u64 where "xxh64_PRIME2 = 0xC2B2AE3D27D4EB4F"
definition xxh64_PRIME3 :: u64 where "xxh64_PRIME3 = 0x165667B19E3779F9"
definition xxh64_PRIME4 :: u64 where "xxh64_PRIME4 = 0x85EBCA77C2B2AE63"
definition xxh64_PRIME5 :: u64 where "xxh64_PRIME5 = 0x27D4EB2F165667C5"

definition xxh64_rotl :: "u64 \<Rightarrow> nat \<Rightarrow> u64" where
  "xxh64_rotl x r = push_bit r x OR drop_bit (64 - r) x"

definition xxh64_mix1 :: "u64 \<Rightarrow> u64 \<Rightarrow> nat \<Rightarrow> u64" where
  "xxh64_mix1 h prime rshift = (h XOR drop_bit rshift h) * prime"

definition xxh64_mix2 :: "u64 \<Rightarrow> u64 \<Rightarrow> u64" where
  "xxh64_mix2 p v = xxh64_rotl (v + p * xxh64_PRIME2) 31 * xxh64_PRIME1"

definition xxh64_mix3 :: "u64 \<Rightarrow> u64 \<Rightarrow> u64" where
  "xxh64_mix3 h v = (h XOR xxh64_mix2 v 0) * xxh64_PRIME1 + xxh64_PRIME4"

definition endian64 :: "u8 list \<Rightarrow> u64" where
  "endian64 v = ucast (v ! 0) OR push_bit 8 (ucast (v ! 1)) OR push_bit 16 (ucast (v ! 2)) OR push_bit 24 (ucast (v ! 3))
     OR push_bit 32 (ucast (v ! 4)) OR push_bit 40 (ucast (v ! 5)) OR push_bit 48 (ucast (v ! 6)) OR push_bit 56 (ucast (v ! 7))"

definition xxh64_fetch64 :: "u8 list \<Rightarrow> u64 \<Rightarrow> u64" where
  "xxh64_fetch64 p v = xxh64_mix2 (endian64 p) v"

definition xxh64_fetch32 :: "u8 list \<Rightarrow> u64" where
  "xxh64_fetch32 p = ucast (endian32 p) * xxh64_PRIME1"

fun xxh64_final_words :: "u64 \<Rightarrow> u8 list \<Rightarrow> nat \<Rightarrow> u64 \<times> u8 list \<times> nat" where
  "xxh64_final_words h p len =
     (if len \<ge> 8
      then xxh64_final_words (xxh64_rotl (h XOR xxh64_fetch64 p 0) 27 * xxh64_PRIME1 + xxh64_PRIME4) (drop 8 p) (len - 8)
      else (h, p, len))"

fun xxh64_final_bytes :: "u64 \<Rightarrow> u8 list \<Rightarrow> nat \<Rightarrow> u64" where
  "xxh64_final_bytes h p len =
     (if len > 0 then xxh64_final_bytes (xxh64_rotl (h XOR (ucast (p ! 0) * xxh64_PRIME5)) 11 * xxh64_PRIME1) (drop 1 p) (len - 1)
      else h)"

definition xxh64_finalize :: "u64 \<Rightarrow> u8 list \<Rightarrow> nat \<Rightarrow> u64" where
  "xxh64_finalize h p len =
     (let (h, p, len) = xxh64_final_words h p len;
          (h, p, len) =
            (if len \<ge> 4 then (xxh64_rotl (h XOR xxh64_fetch32 p) 23 * xxh64_PRIME2 + xxh64_PRIME3, drop 4 p, len - 4)
             else (h, p, len));
          h = xxh64_final_bytes h p len
      in xxh64_mix1 (xxh64_mix1 (xxh64_mix1 h xxh64_PRIME2 33) xxh64_PRIME3 29) 1 32)"

fun xxh64_step :: "u8 list \<Rightarrow> u64 lanes \<Rightarrow> u64 lanes" where
  "xxh64_step p (v1, v2, v3, v4) =
     (xxh64_fetch64 p v1, xxh64_fetch64 (drop 8 p) v2, xxh64_fetch64 (drop 16 p) v3, xxh64_fetch64 (drop 24 p) v4)"

function xxh64_loop :: "u8 list \<Rightarrow> nat \<Rightarrow> nat \<Rightarrow> u64 lanes \<Rightarrow> u64 lanes" where
  "xxh64_loop p at limit v =
     (let v = xxh64_step p v; p = drop 32 p; at = at + 32
      in if at \<le> limit then xxh64_loop p at limit v else v)"
  by pat_completeness auto
termination by (relation "measure (\<lambda>(_, at, limit, _). limit - at)") auto

fun xxh64_join :: "u64 lanes \<Rightarrow> u64" where
  "xxh64_join (v1, v2, v3, v4) =
     xxh64_mix3 (xxh64_mix3 (xxh64_mix3 (xxh64_mix3
       (xxh64_rotl v1 1 + xxh64_rotl v2 7 + xxh64_rotl v3 12 + xxh64_rotl v4 18) v1) v2) v3) v4"

definition xxh64_lanes :: "u64 \<Rightarrow> u64 lanes" where
  "xxh64_lanes seed = (seed + xxh64_PRIME1 + xxh64_PRIME2, seed + xxh64_PRIME2, seed, seed - xxh64_PRIME1)"

definition xxh64_h32bytes :: "u8 list \<Rightarrow> u64 \<Rightarrow> u64 \<Rightarrow> u64" where
  "xxh64_h32bytes p len seed = xxh64_join (xxh64_loop p 0 (unat len - 32) (xxh64_lanes seed))"

definition xxh64_hash :: "u8 list \<Rightarrow> u64 \<Rightarrow> u64 \<Rightarrow> u64" where
  "xxh64_hash p len seed =
     xxh64_finalize ((if len \<ge> 32 then xxh64_h32bytes p len seed else seed + xxh64_PRIME5) + len)
       (drop (unat (len AND NOT 0x1F)) p) (unat (len AND 0x1F))"

definition hash32 :: "u8 list \<Rightarrow> u32 \<Rightarrow> u32 \<Rightarrow> u32" where
  "hash32 str len seed = xxh32_hash str len seed"

definition hash64 :: "u8 list \<Rightarrow> u64 \<Rightarrow> u64 \<Rightarrow> u64" where
  "hash64 str len seed = xxh64_hash str len seed"

text \<open>\<^verbatim>\<open>sizeof(size_t)\<close> is 8 on the modelled targets.\<close>

definition hashSize :: "u8 list \<Rightarrow> u64 \<Rightarrow> u64 \<Rightarrow> u64" where
  "hashSize str len seed = xxh64_hash str len seed"

section \<open>The published algorithm\<close>

definition xxh32_spec :: "u8 list \<Rightarrow> u32 \<Rightarrow> u32" where
  "xxh32_spec data seed =
     (let stripes = full_blocks 16 data; rest = drop (16 * length stripes) data;
          words = full_blocks 4 rest; bytes = drop (4 * length words) rest;
          acc = (if stripes = [] then seed + xxh32_PRIME5
                 else xxh32_join (foldl (\<lambda>v s. xxh32_step s v) (xxh32_lanes seed) stripes));
          acc = acc + of_nat (length data);
          acc = foldl (\<lambda>h w. xxh32_rotl (h + endian32 w * xxh32_PRIME3) 17 * xxh32_PRIME4) acc words;
          acc = foldl (\<lambda>h b. xxh32_rotl (h + ucast b * xxh32_PRIME5) 11 * xxh32_PRIME1) acc bytes
      in xxh32_avalanche acc)"

definition xxh64_spec :: "u8 list \<Rightarrow> u64 \<Rightarrow> u64" where
  "xxh64_spec data seed =
     (let stripes = full_blocks 32 data; rest = drop (32 * length stripes) data;
          longs = full_blocks 8 rest; rest = drop (8 * length longs) rest;
          words = full_blocks 4 rest; bytes = drop (4 * length words) rest;
          acc = (if stripes = [] then seed + xxh64_PRIME5
                 else xxh64_join (foldl (\<lambda>v s. xxh64_step s v) (xxh64_lanes seed) stripes));
          acc = acc + of_nat (length data);
          acc = foldl (\<lambda>h w. xxh64_rotl (h XOR xxh64_mix2 (endian64 w) 0) 27 * xxh64_PRIME1 + xxh64_PRIME4) acc longs;
          acc = foldl (\<lambda>h w. xxh64_rotl (h XOR ucast (endian32 w) * xxh64_PRIME1) 23 * xxh64_PRIME2 + xxh64_PRIME3) acc words;
          acc = foldl (\<lambda>h b. xxh64_rotl (h XOR ucast b * xxh64_PRIME5) 11 * xxh64_PRIME1) acc bytes
      in xxh64_mix1 (xxh64_mix1 (xxh64_mix1 acc xxh64_PRIME2 33) xxh64_PRIME3 29) 1 32)"

section \<open>Loops and blocks\<close>

declare xxh32_final_words.simps [simp del] xxh32_final_bytes.simps [simp del] xxh32_loop.simps [simp del]
  xxh64_final_words.simps [simp del] xxh64_final_bytes.simps [simp del] xxh64_loop.simps [simp del]

lemma full_blocks_Cons: "0 < n \<Longrightarrow> n \<le> length xs \<Longrightarrow> full_blocks n xs = take n xs # full_blocks n (drop n xs)"
  by (subst full_blocks.simps) simp

lemma full_blocks_length: "0 < n \<Longrightarrow> length (full_blocks n xs) = length xs div n"
proof (induction n xs rule: full_blocks.induct)
  case (1 n xs)
  then show ?case
    by (cases "length xs < n") (simp_all add: full_blocks_short full_blocks_Cons le_div_geq)
qed

lemma full_blocks_Nil_iff: "0 < n \<Longrightarrow> full_blocks n xs = [] \<longleftrightarrow> length xs < n"
  by (metis full_blocks_Cons full_blocks_short list.discI not_le)

lemma endian_take: "4 \<le> n \<Longrightarrow> endian32 (take n p) = endian32 p" "8 \<le> n \<Longrightarrow> endian64 (take n p) = endian64 p"
  by (simp_all add: endian32_def endian64_def)

lemma step_take:
  "xxh32_step (take 16 p) v = xxh32_step p v" "xxh64_step (take 32 p) w = xxh64_step p w"
  by (cases v; simp add: xxh32_fetch32_def endian_take drop_take)
     (cases w; simp add: xxh64_fetch64_def endian_take drop_take)

text \<open>A loop that consumes whole blocks while they fit is a fold over the blocks.\<close>

lemma xxh32_words_fold:
  "len \<le> length p \<Longrightarrow>
   xxh32_final_words h p len =
     (foldl (\<lambda>h w. xxh32_rotl (h + endian32 w * xxh32_PRIME3) 17 * xxh32_PRIME4) h (full_blocks 4 (take len p)),
      drop (len div 4 * 4) p, len mod 4)"
proof (induction h p len rule: xxh32_final_words.induct)
  case (1 h p len)
  show ?case
  proof (cases "4 \<le> len")
    case True
    then have "full_blocks 4 (take len p) = take 4 p # full_blocks 4 (take (len - 4) (drop 4 p))"
      using "1.prems" by (subst full_blocks_Cons) (simp_all add: drop_take min_def)
    moreover have "len div 4 * 4 = 4 + (len - 4) div 4 * 4" "(len - 4) mod 4 = len mod 4"
      using True by (simp_all add: le_div_geq le_mod_geq)
    ultimately show ?thesis
      using 1 True by (subst xxh32_final_words.simps) (simp add: endian_take add.commute)
  next
    case False
    then show ?thesis by (subst xxh32_final_words.simps) (simp add: full_blocks_short)
  qed
qed

lemma xxh64_words_fold:
  "len \<le> length p \<Longrightarrow>
   xxh64_final_words h p len =
     (foldl (\<lambda>h w. xxh64_rotl (h XOR xxh64_mix2 (endian64 w) 0) 27 * xxh64_PRIME1 + xxh64_PRIME4) h (full_blocks 8 (take len p)),
      drop (len div 8 * 8) p, len mod 8)"
proof (induction h p len rule: xxh64_final_words.induct)
  case (1 h p len)
  show ?case
  proof (cases "8 \<le> len")
    case True
    then have "full_blocks 8 (take len p) = take 8 p # full_blocks 8 (take (len - 8) (drop 8 p))"
      using "1.prems" by (subst full_blocks_Cons) (simp_all add: drop_take min_def)
    moreover have "len div 8 * 8 = 8 + (len - 8) div 8 * 8" "(len - 8) mod 8 = len mod 8"
      using True by (simp_all add: le_div_geq le_mod_geq)
    ultimately show ?thesis
      using 1 True by (subst xxh64_final_words.simps) (simp add: endian_take xxh64_fetch64_def add.commute)
  next
    case False
    then show ?thesis by (subst xxh64_final_words.simps) (simp add: full_blocks_short)
  qed
qed

lemma take_uncons: "0 < n \<Longrightarrow> n \<le> length p \<Longrightarrow> take n p = p ! 0 # take (n - 1) (drop 1 p)"
  by (cases p) (auto simp: take_Cons')

lemma xxh32_bytes_fold:
  "len \<le> length p \<Longrightarrow>
   xxh32_final_bytes h p len = foldl (\<lambda>h b. xxh32_rotl (h + ucast b * xxh32_PRIME5) 11 * xxh32_PRIME1) h (take len p)"
proof (induction h p len rule: xxh32_final_bytes.induct)
  case (1 h p len)
  then show ?case
    by (subst xxh32_final_bytes.simps) (simp add: take_uncons [of len p])
qed

lemma xxh64_bytes_fold:
  "len \<le> length p \<Longrightarrow>
   xxh64_final_bytes h p len = foldl (\<lambda>h b. xxh64_rotl (h XOR ucast b * xxh64_PRIME5) 11 * xxh64_PRIME1) h (take len p)"
proof (induction h p len rule: xxh64_final_bytes.induct)
  case (1 h p len)
  then show ?case
    by (subst xxh64_final_bytes.simps) (simp add: take_uncons [of len p])
qed

lemma xxh32_loop_fold:
  "at + 16 \<le> n \<Longrightarrow> n - at \<le> length p \<Longrightarrow>
   xxh32_loop p at (n - 16) v = foldl (\<lambda>v s. xxh32_step s v) v (full_blocks 16 (take (n - at) p))"
proof (induction p at "n - 16" v rule: xxh32_loop.induct)
  case (1 p at v)
  have b: "full_blocks 16 (take (n - at) p) = take 16 p # full_blocks 16 (take (n - (at + 16)) (drop 16 p))"
  proof (subst full_blocks_Cons)
    have "16 \<le> n - at" using "1.prems" by simp
    then show "16 \<le> length (take (n - at) p)" using "1.prems" by simp
    from \<open>16 \<le> n - at\<close> show "take 16 (take (n - at) p) # full_blocks 16 (drop 16 (take (n - at) p))
        = take 16 p # full_blocks 16 (take (n - (at + 16)) (drop 16 p))"
      by (simp add: drop_take min_def diff_diff_left)
  qed simp
  show ?case
  proof (cases "at + 16 \<le> n - 16")
    case True
    then show ?thesis
      using 1(1) [OF refl refl refl] "1.prems" unfolding b
      by (subst xxh32_loop.simps) (simp add: Let_def step_take)
  next
    case False
    then have "full_blocks 16 (take (n - (at + 16)) (drop 16 p)) = []"
      by (intro full_blocks_short) simp
    with False show ?thesis unfolding b by (subst xxh32_loop.simps) (simp add: Let_def step_take)
  qed
qed

lemma xxh64_loop_fold:
  "at + 32 \<le> n \<Longrightarrow> n - at \<le> length p \<Longrightarrow>
   xxh64_loop p at (n - 32) v = foldl (\<lambda>v s. xxh64_step s v) v (full_blocks 32 (take (n - at) p))"
proof (induction p at "n - 32" v rule: xxh64_loop.induct)
  case (1 p at v)
  have b: "full_blocks 32 (take (n - at) p) = take 32 p # full_blocks 32 (take (n - (at + 32)) (drop 32 p))"
  proof (subst full_blocks_Cons)
    have "32 \<le> n - at" using "1.prems" by simp
    then show "32 \<le> length (take (n - at) p)" using "1.prems" by simp
    from \<open>32 \<le> n - at\<close> show "take 32 (take (n - at) p) # full_blocks 32 (drop 32 (take (n - at) p))
        = take 32 p # full_blocks 32 (take (n - (at + 32)) (drop 32 p))"
      by (simp add: drop_take min_def diff_diff_left)
  qed simp
  show ?case
  proof (cases "at + 32 \<le> n - 32")
    case True
    then show ?thesis
      using 1(1) [OF refl refl refl] "1.prems" unfolding b
      by (subst xxh64_loop.simps) (simp add: Let_def step_take)
  next
    case False
    then have "full_blocks 32 (take (n - (at + 32)) (drop 32 p)) = []"
      by (intro full_blocks_short) simp
    with False show ?thesis unfolding b by (subst xxh64_loop.simps) (simp add: Let_def step_take)
  qed
qed

text \<open>Masking a length splits it into whole blocks and the rest.\<close>

lemma unat_and_not_mask: "unat ((w :: 'a::len word) AND NOT (mask n)) = unat w div 2 ^ n * 2 ^ n"
proof -
  have "(w AND mask n) + (w AND NOT (mask n)) = w"
    by (subst disjunctive_add_eq_or) (auto simp: bit_eq_iff bit_simps)
  then have "w AND NOT (mask n) = w - (w AND mask n)" by (simp add: algebra_simps)
  moreover have "w AND mask n \<le> w" by (rule word_and_le2)
  ultimately have "unat (w AND NOT (mask n)) = unat w - unat w mod 2 ^ n"
    using unat_sub unat_and_mask [of w n] by metis
  then show ?thesis by (simp add: minus_mod_eq_div_mult)
qed

lemma mask_literals: "mask 4 = (0xF :: 'a::len word)" "mask 5 = (0x1F :: 'a::len word)"
  by (simp_all add: mask_eq_exp_minus_1)

section \<open>Properties\<close>

lemma xxh32_finalize_fold:
  assumes "len \<le> length p"
  shows "xxh32_finalize h p len =
    (let words = full_blocks 4 (take len p) in
     xxh32_avalanche (foldl (\<lambda>h b. xxh32_rotl (h + ucast b * xxh32_PRIME5) 11 * xxh32_PRIME1)
       (foldl (\<lambda>h w. xxh32_rotl (h + endian32 w * xxh32_PRIME3) 17 * xxh32_PRIME4) h words)
       (drop (4 * length words) (take len p))))"
proof -
  have "len mod 4 \<le> length (drop (len div 4 * 4) p)"
    using assms by (simp add: minus_mod_eq_div_mult [symmetric])
  moreover have "take (len mod 4) (drop (len div 4 * 4) p) = drop (4 * (len div 4)) (take len p)"
    by (simp add: drop_take minus_mult_div_eq_mod mult.commute)
  ultimately show ?thesis
    using assms by (simp add: xxh32_finalize_def xxh32_words_fold xxh32_bytes_fold Let_def full_blocks_length)
qed

lemma xxh64_finalize_fold:
  assumes "len \<le> length p" "len < 32"
  shows "xxh64_finalize h p len =
    (let longs = full_blocks 8 (take len p); rest = drop (8 * length longs) (take len p); words = full_blocks 4 rest;
         acc = foldl (\<lambda>h w. xxh64_rotl (h XOR xxh64_mix2 (endian64 w) 0) 27 * xxh64_PRIME1 + xxh64_PRIME4) h longs;
         acc = foldl (\<lambda>h w. xxh64_rotl (h XOR ucast (endian32 w) * xxh64_PRIME1) 23 * xxh64_PRIME2 + xxh64_PRIME3) acc words;
         acc = foldl (\<lambda>h b. xxh64_rotl (h XOR ucast b * xxh64_PRIME5) 11 * xxh64_PRIME1) acc (drop (4 * length words) rest)
     in xxh64_mix1 (xxh64_mix1 (xxh64_mix1 acc xxh64_PRIME2 33) xxh64_PRIME3 29) 1 32)"
proof -
  let ?q = "drop (len div 8 * 8) p"
  have l: "len mod 8 \<le> length ?q"
    using assms by (simp add: minus_mod_eq_div_mult [symmetric])
  have n8: "length (full_blocks 8 (take len p)) = len div 8" using assms(1) by (simp add: full_blocks_length)
  have rest: "drop (8 * (len div 8)) (take len p) = take (len mod 8) ?q"
    by (simp add: drop_take minus_mult_div_eq_mod mult.commute)
  show ?thesis
  proof (cases "4 \<le> len mod 8")
    case True
    have "len mod 8 < 8" by simp
    then have "length (drop 4 (take (len mod 8) ?q)) < 4" by simp
    then have "full_blocks 4 (drop 4 (take (len mod 8) ?q)) = []" by (rule full_blocks_short)
    moreover have "4 \<le> length (take (len mod 8) ?q)" "take 4 (take (len mod 8) ?q) = take 4 ?q"
      using True l by (simp_all add: min_def)
    ultimately have w: "full_blocks 4 (take (len mod 8) ?q) = [take 4 ?q]"
      using full_blocks_Cons [of 4 "take (len mod 8) ?q"] by simp
    have b: "drop 4 (take (len mod 8) ?q) = take (len mod 8 - 4) (drop 4 ?q)" by (rule drop_take)
    have "len mod 8 - 4 \<le> length (drop 4 ?q)" using l by simp
    with assms(1) True show ?thesis
      by (simp add: xxh64_finalize_def xxh64_words_fold xxh64_bytes_fold Let_def n8 rest w b
        xxh64_fetch32_def endian_take del: drop_drop)
  next
    case False
    then have "full_blocks 4 (take (len mod 8) ?q) = []" by (intro full_blocks_short) simp
    then show ?thesis
      using assms(1) False l
      by (simp add: xxh64_finalize_def xxh64_words_fold xxh64_bytes_fold Let_def n8 rest)
  qed
qed

lemma xxh32_hash_spec:
  assumes "unat len \<le> length p"
  shows "xxh32_hash p len seed = xxh32_spec (take (unat len) p) seed"
proof -
  define n where "n = unat len"
  have m: "unat (len AND NOT 0xF) = 16 * (n div 16)" "unat (len AND 0xF) = n mod 16"
    using unat_and_not_mask [of len 4] unat_and_mask [of len 4] by (simp_all add: mask_literals n_def)
  have l: "n \<le> length p" using assms by (simp add: n_def)
  have r: "n mod 16 \<le> length (drop (16 * (n div 16)) p)"
    using l mult_div_mod_eq [of 16 n] by (simp_all, linarith)
  have t: "take (n mod 16) (drop (16 * (n div 16)) p) = drop (16 * (n div 16)) (take n p)"
    by (simp add: drop_take minus_mult_div_eq_mod)
  have ge: "len \<ge> 16 \<longleftrightarrow> 16 \<le> n" by (simp add: word_le_nat_alt n_def)
  have s: "xxh32_h16bytes p len seed = xxh32_join (foldl (\<lambda>v s. xxh32_step s v) (xxh32_lanes seed) (full_blocks 16 (take n p)))"
    if "16 \<le> n"
    using xxh32_loop_fold [of 0 n p] that l by (simp add: xxh32_h16bytes_def n_def)
  have st: "length (full_blocks 16 (take n p)) = n div 16" "full_blocks 16 (take n p) = [] \<longleftrightarrow> \<not> 16 \<le> n"
    "length (take n p) = n" "of_nat n = len"
    using l by (simp_all add: full_blocks_length full_blocks_Nil_iff min_def not_le n_def)
  show ?thesis
    using s unfolding xxh32_hash_def m xxh32_finalize_fold [OF r] t xxh32_spec_def n_def [symmetric] Let_def st ge
    by (cases "16 \<le> n") simp_all
qed

lemma xxh64_hash_spec:
  assumes "unat len \<le> length p"
  shows "xxh64_hash p len seed = xxh64_spec (take (unat len) p) seed"
proof -
  define n where "n = unat len"
  have m: "unat (len AND NOT 0x1F) = 32 * (n div 32)" "unat (len AND 0x1F) = n mod 32"
    using unat_and_not_mask [of len 5] unat_and_mask [of len 5] by (simp_all add: mask_literals n_def)
  have l: "n \<le> length p" using assms by (simp add: n_def)
  have r: "n mod 32 \<le> length (drop (32 * (n div 32)) p)" "n mod 32 < 32"
    using l mult_div_mod_eq [of 32 n] by (simp_all, linarith)
  have t: "take (n mod 32) (drop (32 * (n div 32)) p) = drop (32 * (n div 32)) (take n p)"
    by (simp add: drop_take minus_mult_div_eq_mod)
  have ge: "len \<ge> 32 \<longleftrightarrow> 32 \<le> n" by (simp add: word_le_nat_alt n_def)
  have s: "xxh64_h32bytes p len seed = xxh64_join (foldl (\<lambda>v s. xxh64_step s v) (xxh64_lanes seed) (full_blocks 32 (take n p)))"
    if "32 \<le> n"
    using xxh64_loop_fold [of 0 n p] that l by (simp add: xxh64_h32bytes_def n_def)
  have st: "length (full_blocks 32 (take n p)) = n div 32" "full_blocks 32 (take n p) = [] \<longleftrightarrow> \<not> 32 \<le> n"
    "length (take n p) = n" "of_nat n = len"
    using l by (simp_all add: full_blocks_length full_blocks_Nil_iff min_def not_le n_def)
  show ?thesis
    using s unfolding xxh64_hash_def m xxh64_finalize_fold [OF r] t xxh64_spec_def n_def [symmetric] Let_def st ge
    by (cases "32 \<le> n") simp_all
qed


text \<open>The published test vectors for the empty string and for \<^verbatim>\<open>abc\<close>.\<close>

lemma xxhash_vectors:
  "hash32 [] 0 0 = 0x02CC5D05" "hash64 [] 0 0 = 0xEF46DB3751D8E999"
  "hash32 (ascii ''abcd'') 3 0 = 0x32D153FF" "hash64 (ascii ''abcd'') 3 0 = 0x44BC2CF5AD770999"
  by code_simp+


end
