(* ===== verification/HashTable.thy ===== *)
theory HashTable
  imports MapSpec XxHash "HOL-Library.Multiset"
begin

text \<open>
  Models \<^verbatim>\<open>common/memory/pool/SPMemPoolHash.cc\<close>: the chained hash table of the pools.

  A key is the list of its bytes (\<^verbatim>\<open>memcmp\<close> on \<^verbatim>\<open>klen\<close> bytes compares those lists), a chain is a list
  of entries, a value \<^verbatim>\<open>NULL\<close> is \<open>None\<close>. The hash function, the default one or the table's own, is
  the parameter \<open>hf\<close>. Counters are natural numbers: the code's \<^verbatim>\<open>uint32_t\<close> agree with them below
  2^31 entries. The recycled entries are counted; their contents are always overwritten.
\<close>

section \<open>Data\<close>

record 'v entry =
  he_hash :: u32
  he_key :: "u8 list"
  he_val :: 'v

record 'v hashtable =
  ht_array :: "'v entry list list"
  ht_count :: nat
  ht_max :: nat
  ht_free :: nat

definition INITIAL_MAX :: nat where "INITIAL_MAX = 15"

definition alloc_array :: "nat \<Rightarrow> 'v entry list list" where
  "alloc_array mx = replicate (mx + 1) []"

definition HashTable_make :: "'v hashtable" where
  "HashTable_make = \<lparr> ht_array = alloc_array INITIAL_MAX, ht_count = 0, ht_max = INITIAL_MAX, ht_free = 0 \<rparr>"

text \<open>The hash of a table that was made without a hash function; it does not use the table's seed.\<close>

definition s_hashfunc_default :: "u8 list \<Rightarrow> u32" where
  "s_hashfunc_default key = hash32 key (of_nat (length key)) 0"

definition slot :: "nat \<Rightarrow> u32 \<Rightarrow> nat" where
  "slot mx hash = unat (hash AND of_nat mx)"

section \<open>Iteration\<close>

text \<open>
  \<^verbatim>\<open>first\<close> and \<^verbatim>\<open>next\<close> visit the chains by index and each chain in order; the successor is read
  before the caller may relink the entry, so a loop sees the entries the table had.
\<close>

definition ht_entries :: "'v hashtable \<Rightarrow> 'v entry list" where
  "ht_entries ht = concat (ht_array ht)"

section \<open>Operations\<close>

definition same_key :: "u32 \<Rightarrow> u8 list \<Rightarrow> 'v entry \<Rightarrow> bool" where
  "same_key hash key e \<longleftrightarrow> he_hash e = hash \<and> he_key e = key"

definition push_entry :: "nat \<Rightarrow> 'v entry \<Rightarrow> 'v entry list list \<Rightarrow> 'v entry list list" where
  "push_entry mx e arr = (let i = slot mx (he_hash e) in arr[i := e # arr ! i])"

definition expand_array :: "'v hashtable \<Rightarrow> 'v hashtable" where
  "expand_array ht =
     (let new_max = ht_max ht * 2 + 1
      in ht\<lparr> ht_array := fold (push_entry new_max) (ht_entries ht) (alloc_array new_max), ht_max := new_max \<rparr>)"

definition HashTable_get :: "(u8 list \<Rightarrow> u32) \<Rightarrow> u8 list \<Rightarrow> 'v hashtable \<Rightarrow> 'v option" where
  "HashTable_get hf key ht =
     map_option he_val (find (same_key (hf key) key) (ht_array ht ! slot (ht_max ht) (hf key)))"

text \<open>The chain scan of \<^verbatim>\<open>find_entry\<close>, followed by the replacement of the value or the new last entry.\<close>

fun chain_put :: "u32 \<Rightarrow> u8 list \<Rightarrow> 'v \<Rightarrow> 'v entry list \<Rightarrow> 'v entry list" where
  "chain_put hash key v [] = [\<lparr> he_hash = hash, he_key = key, he_val = v \<rparr>]"
| "chain_put hash key v (e # es) =
     (if same_key hash key e then e\<lparr> he_val := v \<rparr> # es else e # chain_put hash key v es)"

fun chain_remove :: "u32 \<Rightarrow> u8 list \<Rightarrow> 'v entry list \<Rightarrow> 'v entry list" where
  "chain_remove hash key [] = []"
| "chain_remove hash key (e # es) = (if same_key hash key e then es else e # chain_remove hash key es)"

definition HashTable_put :: "(u8 list \<Rightarrow> u32) \<Rightarrow> u8 list \<Rightarrow> 'v \<Rightarrow> 'v hashtable \<Rightarrow> 'v hashtable" where
  "HashTable_put hf key v ht =
     (let hash = hf key; i = slot (ht_max ht) hash; chain = ht_array ht ! i;
          ht = (if find (same_key hash key) chain = None
                then ht\<lparr> ht_count := ht_count ht + 1, ht_free := ht_free ht - 1 \<rparr> else ht);
          ht = ht\<lparr> ht_array := (ht_array ht)[i := chain_put hash key v chain] \<rparr>
      in if ht_count ht > ht_max ht then expand_array ht else ht)"

definition HashTable_remove :: "(u8 list \<Rightarrow> u32) \<Rightarrow> u8 list \<Rightarrow> 'v hashtable \<Rightarrow> 'v hashtable" where
  "HashTable_remove hf key ht =
     (let hash = hf key; i = slot (ht_max ht) hash; chain = ht_array ht ! i
      in if find (same_key hash key) chain = None then ht
         else ht\<lparr> ht_array := (ht_array ht)[i := chain_remove hash key chain],
                 ht_count := ht_count ht - 1, ht_free := ht_free ht + 1 \<rparr>)"

definition HashTable_set :: "(u8 list \<Rightarrow> u32) \<Rightarrow> u8 list \<Rightarrow> 'v option \<Rightarrow> 'v hashtable \<Rightarrow> 'v hashtable" where
  "HashTable_set hf key val ht =
     (case val of None \<Rightarrow> HashTable_remove hf key ht | Some v \<Rightarrow> HashTable_put hf key v ht)"

definition HashTable_size :: "'v hashtable \<Rightarrow> nat" where
  "HashTable_size ht = ht_count ht"

definition HashTable_copy :: "'v hashtable \<Rightarrow> 'v hashtable" where
  "HashTable_copy ht =
     \<lparr> ht_array = map (\<lambda>i. map (\<lambda>e. \<lparr> he_hash = he_hash e, he_key = he_key e, he_val = he_val e \<rparr>) (ht_array ht ! i))
         [0..<ht_max ht + 1],
       ht_count = ht_count ht, ht_max = ht_max ht, ht_free = 0 \<rparr>"

definition HashTable_clear :: "(u8 list \<Rightarrow> u32) \<Rightarrow> 'v hashtable \<Rightarrow> 'v hashtable" where
  "HashTable_clear hf ht = fold (\<lambda>e ht. HashTable_set hf (he_key e) None ht) (ht_entries ht) ht"

text \<open>
  \<^verbatim>\<open>merge\<close>: the entries of the base are pushed into the new array, then each of the overlay replaces
  the value of its key (through the merger, when there is one) or is pushed with its hash recomputed.
\<close>

fun merge_chain :: "('v \<Rightarrow> 'v \<Rightarrow> 'v) option \<Rightarrow> u8 list \<Rightarrow> 'v \<Rightarrow> 'v entry list \<Rightarrow> 'v entry list option" where
  "merge_chain merger key v [] = None"
| "merge_chain merger key v (ent # es) =
     (if he_key ent = key
      then Some (ent\<lparr> he_val := (case merger of Some f \<Rightarrow> f v (he_val ent) | None \<Rightarrow> v) \<rparr> # es)
      else map_option (Cons ent) (merge_chain merger key v es))"

definition merge_entry ::
  "(u8 list \<Rightarrow> u32) \<Rightarrow> ('v \<Rightarrow> 'v \<Rightarrow> 'v) option \<Rightarrow> 'v entry \<Rightarrow> 'v hashtable \<Rightarrow> 'v hashtable" where
  "merge_entry hf merger iter res =
     (let hash = hf (he_key iter); i = slot (ht_max res) hash in
      case merge_chain merger (he_key iter) (he_val iter) (ht_array res ! i) of
        Some chain \<Rightarrow> res\<lparr> ht_array := (ht_array res)[i := chain] \<rparr>
      | None \<Rightarrow> res\<lparr> ht_array := push_entry (ht_max res) (iter\<lparr> he_hash := hash \<rparr>) (ht_array res),
                    ht_count := ht_count res + 1 \<rparr>)"

definition HashTable_merge ::
  "(u8 list \<Rightarrow> u32) \<Rightarrow> ('v \<Rightarrow> 'v \<Rightarrow> 'v) option \<Rightarrow> 'v hashtable \<Rightarrow> 'v hashtable \<Rightarrow> 'v hashtable" where
  "HashTable_merge hf merger base overlay =
     (let max0 = (if ht_max overlay > ht_max base then ht_max overlay else ht_max base);
          max1 = (if ht_count base + ht_count overlay > max0 then max0 * 2 + 1 else max0);
          res = \<lparr> ht_array = fold (push_entry max1) (ht_entries base) (alloc_array max1),
                  ht_count = ht_count base, ht_max = max1, ht_free = 0 \<rparr>
      in fold (merge_entry hf merger) (ht_entries overlay) res)"

text \<open>\<^verbatim>\<open>foreach\<close>: the entries the callback saw, and the result, which is false for an empty table.\<close>

fun foreach_entries :: "(u8 list \<Rightarrow> 'v \<Rightarrow> bool) \<Rightarrow> 'v entry list \<Rightarrow> 'v entry list \<times> bool" where
  "foreach_entries f [] = ([], True)"
| "foreach_entries f (e # es) =
     (if f (he_key e) (he_val e)
      then (let (seen, rv) = foreach_entries f es in (e # seen, rv)) else ([e], False))"

definition HashTable_foreach :: "(u8 list \<Rightarrow> 'v \<Rightarrow> bool) \<Rightarrow> 'v hashtable \<Rightarrow> 'v entry list \<times> bool" where
  "HashTable_foreach f ht = (if ht_entries ht = [] then ([], False) else foreach_entries f (ht_entries ht))"

section \<open>The table as a map\<close>

definition placed :: "(u8 list \<Rightarrow> u32) \<Rightarrow> nat \<Rightarrow> nat \<Rightarrow> 'v entry \<Rightarrow> bool" where
  "placed hf mx i e \<longleftrightarrow> he_hash e = hf (he_key e) \<and> slot mx (he_hash e) = i"

definition array_wf :: "(u8 list \<Rightarrow> u32) \<Rightarrow> nat \<Rightarrow> 'v entry list list \<Rightarrow> bool" where
  "array_wf hf mx arr \<longleftrightarrow> length arr = mx + 1
     \<and> (\<forall>i\<le>mx. \<forall>e\<in>set (arr ! i). placed hf mx i e)
     \<and> distinct (map he_key (concat arr))"

definition ht_wf :: "(u8 list \<Rightarrow> u32) \<Rightarrow> 'v hashtable \<Rightarrow> bool" where
  "ht_wf hf ht \<longleftrightarrow> array_wf hf (ht_max ht) (ht_array ht)
     \<and> ht_count ht = length (ht_entries ht) \<and> ht_count ht \<le> ht_max ht"

definition arr_map :: "'v entry list list \<Rightarrow> u8 list \<rightharpoonup> 'v" where
  "arr_map arr = map_of (map (\<lambda>e. (he_key e, he_val e)) (concat arr))"

definition ht_map :: "'v hashtable \<Rightarrow> u8 list \<rightharpoonup> 'v" where
  "ht_map ht = arr_map (ht_array ht)"

lemma slot_le: "slot mx hash \<le> mx"
proof -
  have "slot mx hash \<le> unat (of_nat mx :: u32)"
    unfolding slot_def by (rule word_le_nat_alt [THEN iffD1]) (rule word_and_le1)
  also have "\<dots> \<le> mx" by (simp add: unat_of_nat)
  finally show ?thesis .
qed

lemma concat_update:
  assumes "i < length arr"
  obtains A B where "concat arr = A @ arr ! i @ B" "\<And>c. concat (arr[i := c]) = A @ c @ B"
proof
  show "concat arr = concat (take i arr) @ arr ! i @ concat (drop (Suc i) arr)"
    by (metis assms concat.simps(2) concat_append id_take_nth_drop)
  show "concat (arr[i := c]) = concat (take i arr) @ c @ concat (drop (Suc i) arr)" for c
    using assms by (simp add: upd_conv_take_nth_drop)
qed

lemma arr_map_iff:
  "distinct (map he_key (concat arr)) \<Longrightarrow>
   arr_map arr k = Some v \<longleftrightarrow> (\<exists>e\<in>set (concat arr). he_key e = k \<and> he_val e = v)"
  unfolding arr_map_def by (subst map_of_eq_Some_iff) (force simp: comp_def)+

lemma arr_map_eqI:
  assumes "distinct (map he_key (concat arr))" "mset (concat arr') = mset (concat arr)"
  shows "arr_map arr' = arr_map arr"
proof
  fix k
  have d: "distinct (map he_key (concat arr'))"
    using assms mset_eq_imp_distinct_iff [of "map he_key (concat arr')" "map he_key (concat arr)"] by simp
  have "set (concat arr') = set (concat arr)" using assms(2) mset_eq_setD by blast
  then have "arr_map arr' k = Some v \<longleftrightarrow> arr_map arr k = Some v" for v
    using arr_map_iff [OF d] arr_map_iff [OF assms(1)] by simp
  then show "arr_map arr' k = arr_map arr k" by (cases "arr_map arr k"; cases "arr_map arr' k") auto
qed

text \<open>Only the chain of its slot can hold a key.\<close>

lemma chain_holds_key:
  assumes "array_wf hf mx arr" "e \<in> set (concat arr)"
  shows "e \<in> set (arr ! slot mx (hf (he_key e)))"
proof -
  from assms(2) obtain ys where "ys \<in> set arr" "e \<in> set ys" by auto
  then obtain i where "i < length arr" "e \<in> set (arr ! i)" by (metis in_set_conv_nth)
  then have "slot mx (hf (he_key e)) = i" using assms(1) unfolding array_wf_def placed_def by (metis less_Suc_eq_le Suc_eq_plus1)
  then show ?thesis using \<open>e \<in> set (arr ! i)\<close> by simp
qed

lemma chain_in_array:
  assumes "array_wf hf mx arr" "e \<in> set (arr ! slot mx h)"
  shows "e \<in> set (concat arr)" "he_hash e = hf (he_key e)"
  using assms slot_le [of mx h] nth_mem [of "slot mx h" arr] by (auto simp: array_wf_def placed_def)

lemma arr_map_chain:
  assumes "array_wf hf mx arr"
  shows "arr_map arr k = map_option he_val (find (same_key (hf k) k) (arr ! slot mx (hf k)))"
proof -
  let ?c = "arr ! slot mx (hf k)"
  have d: "distinct (map he_key (concat arr))" using assms by (simp add: array_wf_def)
  show ?thesis
  proof (cases "find (same_key (hf k) k) ?c")
    case None
    then have "\<forall>e\<in>set ?c. \<not> same_key (hf k) k e" by (simp add: find_None_iff)
    then have "\<not> (\<exists>e\<in>set (concat arr). he_key e = k)"
      using chain_holds_key [OF assms] chain_in_array [OF assms] by (fastforce simp: same_key_def)
    then have "arr_map arr k = None" using arr_map_iff [OF d, of k] by (cases "arr_map arr k") auto
    with None show ?thesis by simp
  next
    case (Some e)
    then have "e \<in> set ?c" "he_key e = k" by (auto simp: find_Some_iff same_key_def)
    then have "arr_map arr k = Some (he_val e)"
      using arr_map_iff [OF d, of k "he_val e"] chain_in_array(1) [OF assms, of e "hf k"] by blast
    with Some show ?thesis by simp
  qed
qed

lemma HashTable_get_map: "ht_wf hf ht \<Longrightarrow> HashTable_get hf k ht = ht_map ht k"
  using arr_map_chain [of hf "ht_max ht" "ht_array ht" k] by (simp add: ht_wf_def HashTable_get_def ht_map_def)

subsection \<open>Moving entries to a new array\<close>

lemma push_entry_mset:
  "length arr = mx + 1 \<Longrightarrow> mset (concat (push_entry mx e arr)) = add_mset e (mset (concat arr))"
proof -
  assume "length arr = mx + 1"
  then have "slot mx (he_hash e) < length arr" using slot_le [of mx "he_hash e"] by simp
  then obtain A B where "concat arr = A @ arr ! slot mx (he_hash e) @ B"
    "\<And>c. concat (arr[slot mx (he_hash e) := c]) = A @ c @ B" using concat_update by blast
  then show ?thesis by (simp add: push_entry_def Let_def)
qed

lemma push_entry_wf:
  assumes "array_wf hf mx arr" "he_hash e = hf (he_key e)" "he_key e \<notin> he_key ` set (concat arr)"
  shows "array_wf hf mx (push_entry mx e arr)"
proof -
  let ?i = "slot mx (he_hash e)"
  have len: "length arr = mx + 1" using assms(1) by (simp add: array_wf_def)
  have "mset (map he_key (concat (push_entry mx e arr))) = mset (he_key e # map he_key (concat arr))"
    using push_entry_mset [OF len] by simp
  then have "distinct (map he_key (concat (push_entry mx e arr))) = distinct (he_key e # map he_key (concat arr))"
    by (rule mset_eq_imp_distinct_iff)
  then have "distinct (map he_key (concat (push_entry mx e arr)))"
    using assms(1,3) by (simp add: array_wf_def)
  moreover have "placed hf mx i d"
    if "i \<le> mx" "d \<in> set (push_entry mx e arr ! i)" for i d
  proof -
    have "d = e \<and> i = ?i \<or> d \<in> set (arr ! i)"
      using that(2) len slot_le [of mx "he_hash e"] by (cases "i = ?i") (auto simp: push_entry_def Let_def)
    moreover have "placed hf mx i c" if "c \<in> set (arr ! i)" for c
      using assms(1) \<open>i \<le> mx\<close> that unfolding array_wf_def by blast
    ultimately show ?thesis using assms(2) by (auto simp: placed_def)
  qed
  moreover have "length (push_entry mx e arr) = mx + 1" using len by (simp add: push_entry_def Let_def)
  ultimately show ?thesis unfolding array_wf_def by simp
qed

lemma alloc_array_wf: "array_wf hf mx (alloc_array mx)" "concat (alloc_array mx) = []"
  by (auto simp: array_wf_def alloc_array_def simp del: replicate_Suc)

lemma push_all:
  assumes "array_wf hf mx arr" "\<forall>e\<in>set es. he_hash e = hf (he_key e)"
    "distinct (map he_key (es @ concat arr))"
  shows "array_wf hf mx (fold (push_entry mx) es arr)
    \<and> mset (concat (fold (push_entry mx) es arr)) = mset es + mset (concat arr)"
  using assms
proof (induction es arbitrary: arr)
  case (Cons e es)
  have len: "length arr = mx + 1" using Cons.prems(1) by (simp add: array_wf_def)
  have "array_wf hf mx (push_entry mx e arr)"
    using Cons.prems by (intro push_entry_wf) auto
  moreover have m: "mset (concat (push_entry mx e arr)) = add_mset e (mset (concat arr))"
    by (rule push_entry_mset [OF len])
  moreover have "distinct (map he_key (es @ concat (push_entry mx e arr)))"
  proof -
    have "mset (map he_key (es @ concat (push_entry mx e arr))) = mset (map he_key ((e # es) @ concat arr))"
      using m by simp
    then have "distinct (map he_key (es @ concat (push_entry mx e arr))) = distinct (map he_key ((e # es) @ concat arr))"
      by (rule mset_eq_imp_distinct_iff)
    then show ?thesis using Cons.prems(3) by simp
  qed
  ultimately show ?case using Cons.IH [of "push_entry mx e arr"] Cons.prems(2) by simp
qed simp

lemma array_entries_wf:
  assumes "array_wf hf mx arr"
  shows "\<forall>e\<in>set (concat arr). he_hash e = hf (he_key e)" "distinct (map he_key (concat arr))"
  using chain_in_array(2) [OF assms] chain_holds_key [OF assms] assms unfolding array_wf_def by blast+

lemma rehash:
  assumes "array_wf hf mx arr"
  shows "array_wf hf new (fold (push_entry new) (concat arr) (alloc_array new))"
    and "mset (concat (fold (push_entry new) (concat arr) (alloc_array new))) = mset (concat arr)"
  using push_all [OF alloc_array_wf(1) array_entries_wf(1) [OF assms]] array_entries_wf(2) [OF assms]
  by (simp_all add: alloc_array_wf(2))

lemma expand_array_wf:
  assumes "array_wf hf (ht_max ht) (ht_array ht)" "ht_count ht = length (ht_entries ht)" "ht_count ht \<le> 2 * ht_max ht + 1"
  shows "ht_wf hf (expand_array ht)" "ht_map (expand_array ht) = ht_map ht"
proof -
  note r = rehash [OF assms(1), of "ht_max ht * 2 + 1"]
  have len: "length (concat (fold (push_entry (ht_max ht * 2 + 1)) (concat (ht_array ht)) (alloc_array (ht_max ht * 2 + 1))))
      = length (concat (ht_array ht))"
    using r(2) mset_eq_length by blast
  show "ht_wf hf (expand_array ht)"
    using r(1) len assms(2,3) by (simp add: ht_wf_def expand_array_def Let_def ht_entries_def)
  show "ht_map (expand_array ht) = ht_map ht"
    using arr_map_eqI [OF array_entries_wf(2) [OF assms(1)] r(2)]
    by (simp add: ht_map_def expand_array_def Let_def ht_entries_def)
qed


subsection \<open>Chains\<close>

lemma same_key_simps:
  "same_key h k (e\<lparr> he_val := v \<rparr>) = same_key h k e"
  "same_key h k \<lparr> he_hash = h', he_key = k', he_val = v \<rparr> \<longleftrightarrow> h' = h \<and> k' = k"
  by (auto simp: same_key_def)

lemma same_key_inj: "same_key h j e \<Longrightarrow> same_key h' k e \<Longrightarrow> j = k"
  by (simp add: same_key_def)

lemma chain_put_find:
  "map_option he_val (find (same_key (hf j) j) (chain_put (hf k) k v es))
   = (if j = k then Some v else map_option he_val (find (same_key (hf j) j) es))"
  by (induction es) (auto simp: same_key_simps dest: same_key_inj)

lemma chain_put_keys:
  "map he_key (chain_put h k v es) = (if find (same_key h k) es = None then map he_key es @ [k] else map he_key es)"
  by (induction es) (auto simp: same_key_def)

lemma chain_put_set:
  "e \<in> set (chain_put h k v es) \<Longrightarrow> he_hash e = h \<and> he_key e = k \<or> e \<in> set es"
  by (induction es) (auto simp: same_key_def split: if_splits)

lemma chain_remove_set: "e \<in> set (chain_remove h k es) \<Longrightarrow> e \<in> set es"
  by (induction es) (auto split: if_splits)

lemma chain_remove_keys:
  "find (same_key h k) es \<noteq> None \<Longrightarrow> mset (map he_key es) = add_mset k (mset (map he_key (chain_remove h k es)))"
  by (induction es) (auto simp: same_key_def split: if_splits)

lemma chain_remove_find:
  "distinct (map he_key es) \<Longrightarrow>
   find (same_key (hf j) j) (chain_remove (hf k) k es) = (if j = k then None else find (same_key (hf j) j) es)"
proof (induction es)
  case (Cons e es)
  have "find (same_key (hf k) k) es = None" if same: "same_key (hf k) k e"
    unfolding find_None_iff
  proof
    assume "\<exists>x. x \<in> set es \<and> same_key (hf k) k x"
    then obtain x where "x \<in> set es" "he_key x = he_key e" using same by (auto simp: same_key_def)
    then have "he_key e \<in> he_key ` set es" by (metis image_eqI)
    then show False using Cons.prems by simp
  qed
  with Cons show ?case by (auto dest: same_key_inj)
qed simp

lemma array_update_wf:
  assumes wf: "array_wf hf mx arr" and "i \<le> mx"
    and c: "\<forall>e\<in>set c. placed hf mx i e"
    and d: "distinct (map he_key (concat (arr[i := c])))"
  shows "array_wf hf mx (arr[i := c])"
proof -
  have len: "length arr = mx + 1" using wf by (simp add: array_wf_def)
  have "placed hf mx j e" if "j \<le> mx" "e \<in> set (arr[i := c] ! j)" for j e
  proof (cases "j = i")
    case True
    then have "e \<in> set c" using that len by simp
    then show ?thesis using c True by blast
  next
    case False
    then have "e \<in> set (arr ! j)" using that by simp
    then show ?thesis using wf that(1) unfolding array_wf_def by blast
  qed
  then show ?thesis using len d unfolding array_wf_def by simp
qed

subsection \<open>Insertion\<close>

lemma put_array:
  fixes k :: "u8 list" and v :: 'v
  assumes wf: "array_wf hf mx arr"
  defines "i \<equiv> slot mx (hf k)"
  defines "arr' \<equiv> arr[i := chain_put (hf k) k v (arr ! i)]"
  shows "array_wf hf mx arr'"
    and "arr_map arr' j = (if j = k then Some v else arr_map arr j)"
    and "length (concat arr') = length (concat arr) + (if find (same_key (hf k) k) (arr ! i) = None then 1 else 0)"
proof -
  have i: "i \<le> mx" using slot_le i_def by simp
  have len: "length arr = mx + 1" using wf by (simp add: array_wf_def)
  then obtain A B where ab: "concat arr = A @ arr ! i @ B" "\<And>c. concat (arr[i := c]) = A @ c @ B"
    using concat_update [of i arr] i by (auto simp: less_Suc_eq_le)
  have d: "distinct (map he_key (A @ arr ! i @ B))" using wf ab(1) by (simp add: array_wf_def)
  have chain: "\<forall>e\<in>set (arr ! i). placed hf mx i e"
    using wf i unfolding array_wf_def by blast
  have new: "k \<notin> he_key ` set (concat arr)" if "find (same_key (hf k) k) (arr ! i) = None"
  proof
    assume "k \<in> he_key ` set (concat arr)"
    then obtain e where "e \<in> set (concat arr)" "he_key e = k" by blast
    then have "e \<in> set (arr ! i)" using chain_holds_key [OF wf] by (auto simp: i_def)
    with that chain \<open>he_key e = k\<close> show False by (auto simp: find_None_iff same_key_def placed_def)
  qed
  have "distinct (map he_key (concat arr'))"
    using d new ab unfolding arr'_def by (auto simp: chain_put_keys image_Un)
  then show wf': "array_wf hf mx arr'"
    unfolding arr'_def using chain i_def chain_put_set
    by (intro array_update_wf [OF wf i]) (auto simp: placed_def dest!: chain_put_set)
  show "arr_map arr' j = (if j = k then Some v else arr_map arr j)"
  proof (cases "slot mx (hf j) = i")
    case True
    then show ?thesis
      using arr_map_chain [OF wf, of j] arr_map_chain [OF wf', of j] len i
      by (simp add: arr'_def chain_put_find)
  next
    case False
    then have "j \<noteq> k" by (auto simp: i_def)
    with False show ?thesis
      using arr_map_chain [OF wf, of j] arr_map_chain [OF wf', of j] by (simp add: arr'_def)
  qed
  have "length (chain_put (hf k) k v (arr ! i)) = length (arr ! i) + (if find (same_key (hf k) k) (arr ! i) = None then 1 else 0)"
    using arg_cong [OF chain_put_keys, of length "hf k" k v "arr ! i"] by simp
  then show "length (concat arr') = length (concat arr) + (if find (same_key (hf k) k) (arr ! i) = None then 1 else 0)"
    by (simp add: arr'_def ab)
qed

lemma HashTable_put_map:
  assumes "ht_wf hf ht"
  shows "ht_wf hf (HashTable_put hf k v ht)" "ht_map (HashTable_put hf k v ht) = (ht_map ht)(k \<mapsto> v)"
proof -
  let ?i = "slot (ht_max ht) (hf k)"
  let ?arr = "(ht_array ht)[?i := chain_put (hf k) k v (ht_array ht ! ?i)]"
  have wf: "array_wf hf (ht_max ht) (ht_array ht)" and n: "ht_count ht = length (concat (ht_array ht))" "ht_count ht \<le> ht_max ht"
    using assms by (auto simp: ht_wf_def ht_entries_def)
  note p = put_array [OF wf, where k = k and v = v]
  define h1 where "h1 = (if find (same_key (hf k) k) (ht_array ht ! ?i) = None
    then ht\<lparr> ht_count := ht_count ht + 1, ht_free := ht_free ht - 1 \<rparr> else ht)\<lparr> ht_array := ?arr \<rparr>"
  have put: "HashTable_put hf k v ht = (if ht_count h1 > ht_max h1 then expand_array h1 else h1)"
    by (simp add: HashTable_put_def Let_def h1_def)
  have h1: "ht_array h1 = ?arr" "ht_max h1 = ht_max ht" "ht_count h1 = length (concat ?arr)"
    using p(3) n(1) by (auto simp: h1_def)
  then have w1: "array_wf hf (ht_max h1) (ht_array h1)" "ht_count h1 = length (ht_entries h1)"
    using p(1) by (simp_all add: ht_entries_def)
  have le: "ht_count h1 \<le> 2 * ht_max h1 + 1" using h1 p(3) n by simp
  have m: "ht_map h1 = (ht_map ht)(k \<mapsto> v)"
    using p(2) h1(1) by (auto simp: ht_map_def fun_eq_iff)
  show "ht_wf hf (HashTable_put hf k v ht)" "ht_map (HashTable_put hf k v ht) = (ht_map ht)(k \<mapsto> v)"
    using expand_array_wf [OF w1 le] w1 m unfolding put by (auto simp: ht_wf_def)
qed

subsection \<open>Removal\<close>

lemma HashTable_remove_map:
  assumes "ht_wf hf ht"
  shows "ht_wf hf (HashTable_remove hf k ht)" "ht_map (HashTable_remove hf k ht) = (ht_map ht)(k := None)"
proof -
  let ?i = "slot (ht_max ht) (hf k)" and ?arr = "ht_array ht"
  let ?c = "?arr ! ?i"
  have wf: "array_wf hf (ht_max ht) ?arr" and n: "ht_count ht = length (concat ?arr)" "ht_count ht \<le> ht_max ht"
    using assms by (auto simp: ht_wf_def ht_entries_def)
  have i: "?i \<le> ht_max ht" and len: "length ?arr = ht_max ht + 1" using slot_le wf by (auto simp: array_wf_def)
  obtain A B where ab: "concat ?arr = A @ ?c @ B" "\<And>c. concat (?arr[?i := c]) = A @ c @ B"
    using concat_update [of ?i ?arr] i len by (auto simp: less_Suc_eq_le)
  have d: "distinct (map he_key (A @ ?c @ B))" using wf ab(1) by (simp add: array_wf_def)
  have "ht_wf hf (HashTable_remove hf k ht) \<and> ht_map (HashTable_remove hf k ht) = (ht_map ht)(k := None)"
  proof (cases "find (same_key (hf k) k) ?c")
    case None
    then have "ht_map ht k = None" using arr_map_chain [OF wf, of k] by (simp add: ht_map_def)
    with None assms show ?thesis by (auto simp: HashTable_remove_def Let_def)
  next
    case (Some e)
    let ?arr' = "?arr[?i := chain_remove (hf k) k ?c]"
    have rm: "mset (map he_key ?c) = add_mset k (mset (map he_key (chain_remove (hf k) k ?c)))"
      using Some by (intro chain_remove_keys) simp
    then have lc: "length ?c = length (chain_remove (hf k) k ?c) + 1"
      using mset_eq_length [of "map he_key ?c" "k # map he_key (chain_remove (hf k) k ?c)"] by simp
    have dc: "distinct (map he_key ?c)" using d by simp
    have "set (chain_remove (hf k) k ?c) \<subseteq> set ?c" by (auto dest: chain_remove_set)
    moreover have "distinct (map he_key (chain_remove (hf k) k ?c))"
      using dc mset_eq_imp_distinct_iff [of "map he_key ?c" "k # map he_key (chain_remove (hf k) k ?c)"] rm by simp
    ultimately have "distinct (map he_key (A @ chain_remove (hf k) k ?c @ B))" using d by (simp, blast)
    moreover have "\<forall>e\<in>set ?c. placed hf (ht_max ht) ?i e"
      using wf i unfolding array_wf_def by blast
    ultimately have wf': "array_wf hf (ht_max ht) ?arr'"
      using ab by (intro array_update_wf [OF wf i]) (auto dest: chain_remove_set)
    have "arr_map ?arr' j = ((arr_map ?arr)(k := None)) j" for j
    proof (cases "slot (ht_max ht) (hf j) = ?i")
      case True
      then show ?thesis
        using arr_map_chain [OF wf, of j] arr_map_chain [OF wf', of j] len i chain_remove_find [OF dc, of hf j k] by simp
    next
      case False
      then have "j \<noteq> k" by auto
      with False show ?thesis
        using arr_map_chain [OF wf, of j] arr_map_chain [OF wf', of j] by simp
    qed
    then show ?thesis
      using Some wf' n lc ab
      by (auto simp: HashTable_remove_def Let_def ht_wf_def ht_map_def ht_entries_def fun_eq_iff)
  qed
  then show "ht_wf hf (HashTable_remove hf k ht)" "ht_map (HashTable_remove hf k ht) = (ht_map ht)(k := None)" by simp_all
qed

lemma HashTable_make_map: "ht_wf hf HashTable_make" "ht_map HashTable_make = Map.empty"
  using alloc_array_wf(1) [of hf INITIAL_MAX] alloc_array_wf(2) [of INITIAL_MAX]
  by (simp_all add: HashTable_make_def ht_wf_def ht_map_def arr_map_def ht_entries_def)


interpretation table: map_store "\<lambda>k. True" "ht_wf hf" HashTable_make "HashTable_get hf" "HashTable_put hf" "HashTable_remove hf"
  for hf :: "u8 list \<Rightarrow> u32"
  by unfold_locales
    (simp_all add: HashTable_make_map HashTable_get_map HashTable_put_map HashTable_remove_map)

subsection \<open>Whole tables\<close>

lemma HashTable_copy_map:
  assumes "ht_wf hf ht"
  shows "ht_wf hf (HashTable_copy ht)" "ht_map (HashTable_copy ht) = ht_map ht"
proof -
  have len: "length (ht_array ht) = ht_max ht + 1" using assms by (simp add: ht_wf_def array_wf_def)
  have "\<lparr> he_hash = he_hash e, he_key = he_key e, he_val = he_val e \<rparr> = e" for e :: "'a entry" by simp
  then have "ht_array (HashTable_copy ht) = ht_array ht"
    using len by (intro nth_equalityI) (simp_all add: HashTable_copy_def del: upt_Suc)
  then show "ht_wf hf (HashTable_copy ht)" "ht_map (HashTable_copy ht) = ht_map ht"
    using assms by (simp_all add: ht_wf_def ht_map_def ht_entries_def HashTable_copy_def)
qed

lemma HashTable_clear_map:
  assumes "ht_wf hf ht"
  shows "ht_wf hf (HashTable_clear hf ht)" "ht_map (HashTable_clear hf ht) = Map.empty"
    "ht_count (HashTable_clear hf ht) = 0"
proof -
  have r: "ht_wf hf (fold (\<lambda>e ht. HashTable_set hf (he_key e) None ht) es h)
      \<and> ht_map (fold (\<lambda>e ht. HashTable_set hf (he_key e) None ht) es h) = ht_map h |` (- he_key ` set es)"
    if "ht_wf hf h" for es and h :: "'a hashtable"
    using that
  proof (induction es arbitrary: h)
    case (Cons e es)
    then show ?case
      using Cons.IH [of "HashTable_remove hf (he_key e) h"] HashTable_remove_map [OF Cons.prems, of "he_key e"]
      by (auto simp: HashTable_set_def restrict_map_def fun_eq_iff)
  qed (simp add: restrict_map_def)
  have wf: "array_wf hf (ht_max ht) (ht_array ht)" using assms by (simp add: ht_wf_def)
  have "ht_map ht |` (- he_key ` set (ht_entries ht)) = Map.empty"
  proof
    fix k
    show "(ht_map ht |` (- he_key ` set (ht_entries ht))) k = None"
    proof (cases "ht_map ht k")
      case (Some v)
      then have "\<exists>e\<in>set (ht_entries ht). he_key e = k"
        using arr_map_iff [OF array_entries_wf(2) [OF wf]] by (auto simp: ht_map_def ht_entries_def)
      then show ?thesis by (auto simp: restrict_map_def)
    qed (simp add: restrict_map_def)
  qed
  with r [OF assms, of "ht_entries ht"] show w: "ht_wf hf (HashTable_clear hf ht)"
    and e: "ht_map (HashTable_clear hf ht) = Map.empty" by (simp_all add: HashTable_clear_def)
  have "ht_entries (HashTable_clear hf ht) = []"
  proof (rule ccontr)
    assume "ht_entries (HashTable_clear hf ht) \<noteq> []"
    then have "hd (ht_entries (HashTable_clear hf ht)) \<in> set (ht_entries (HashTable_clear hf ht))"
      by (rule hd_in_set)
    then obtain d where "d \<in> set (concat (ht_array (HashTable_clear hf ht)))"
      unfolding ht_entries_def by (rule that)
    moreover have "distinct (map he_key (concat (ht_array (HashTable_clear hf ht))))"
      using w by (simp add: ht_wf_def array_wf_def)
    ultimately have "ht_map (HashTable_clear hf ht) (he_key d) = Some (he_val d)"
      unfolding ht_map_def by (subst arr_map_iff) auto
    with e show False by simp
  qed
  with w show "ht_count (HashTable_clear hf ht) = 0" by (simp add: ht_wf_def)
qed


text \<open>The value a merge leaves under a key of the overlay.\<close>

definition merged_value :: "('v \<Rightarrow> 'v \<Rightarrow> 'v) option \<Rightarrow> 'v \<Rightarrow> 'v option \<Rightarrow> 'v" where
  "merged_value merger v old =
     (case old of None \<Rightarrow> v | Some w \<Rightarrow> (case merger of Some f \<Rightarrow> f v w | None \<Rightarrow> v))"

lemma merge_chain_put:
  assumes "\<forall>e\<in>set es. he_hash e = hf (he_key e)"
  shows "merge_chain merger k v es =
    (case find (same_key (hf k) k) es of None \<Rightarrow> None
     | Some e \<Rightarrow> Some (chain_put (hf k) k (merged_value merger v (Some (he_val e))) es))"
  using assms
proof (induction es)
  case (Cons e es)
  have "same_key (hf k) k e \<longleftrightarrow> he_key e = k" using Cons.prems by (auto simp: same_key_def)
  with Cons show ?case by (auto simp: merged_value_def split: option.splits)
qed simp

lemma added_map:
  assumes d: "distinct (map he_key (concat arr'))" "distinct (map he_key (concat arr))"
    and st: "set (concat arr') = insert e (set (concat arr))" and new: "he_key e \<notin> he_key ` set (concat arr)"
  shows "arr_map arr' = (arr_map arr)(he_key e \<mapsto> he_val e)"
proof
  fix j
  have iff: "arr_map arr' j = Some x \<longleftrightarrow> ((arr_map arr)(he_key e \<mapsto> he_val e)) j = Some x" for x
  proof (cases "j = he_key e")
    case True
    then have "\<not> (\<exists>c\<in>set (concat arr). he_key c = j \<and> he_val c = x)" using new by (metis image_eqI)
    with True show ?thesis unfolding arr_map_iff [OF d(1)] st by auto
  next
    case False
    then show ?thesis unfolding arr_map_iff [OF d(1)] st using arr_map_iff [OF d(2), of j x] by auto
  qed
  show "arr_map arr' j = ((arr_map arr)(he_key e \<mapsto> he_val e)) j"
    using iff by (metis not_None_eq)
qed

lemma merge_entry_map:
  assumes wf: "array_wf hf (ht_max res) (ht_array res)" and n: "ht_count res = length (ht_entries res)"
  shows "array_wf hf (ht_max res) (ht_array (merge_entry hf merger e res))"
    and "ht_max (merge_entry hf merger e res) = ht_max res"
    and "ht_count (merge_entry hf merger e res) = length (ht_entries (merge_entry hf merger e res))"
    and "ht_count (merge_entry hf merger e res) \<le> ht_count res + 1"
    and "ht_map (merge_entry hf merger e res)
      = (ht_map res)(he_key e \<mapsto> merged_value merger (he_val e) (ht_map res (he_key e)))"
proof -
  let ?k = "he_key e" and ?arr = "ht_array res" and ?mx = "ht_max res"
  let ?i = "slot ?mx (hf ?k)"
  have len: "length ?arr = ?mx + 1" using wf by (simp add: array_wf_def)
  have hashes: "\<forall>d\<in>set (?arr ! ?i). he_hash d = hf (he_key d)"
    using chain_in_array(2) [OF wf] by blast
  note mc = merge_chain_put [where hf = hf, OF hashes, of merger ?k "he_val e"]
  note old = arr_map_chain [OF wf, of ?k]
  have "array_wf hf ?mx (ht_array (merge_entry hf merger e res)) \<and> ht_max (merge_entry hf merger e res) = ?mx
    \<and> ht_count (merge_entry hf merger e res) = length (ht_entries (merge_entry hf merger e res))
    \<and> ht_count (merge_entry hf merger e res) \<le> ht_count res + 1
    \<and> ht_map (merge_entry hf merger e res) = (ht_map res)(?k \<mapsto> merged_value merger (he_val e) (ht_map res ?k))"
  proof (cases "find (same_key (hf ?k) ?k) (?arr ! ?i)")
    case (Some d)
    let ?v = "merged_value merger (he_val e) (Some (he_val d))"
    have "merge_entry hf merger e res = res\<lparr> ht_array := ?arr[?i := chain_put (hf ?k) ?k ?v (?arr ! ?i)] \<rparr>"
      using Some mc by (simp add: merge_entry_def Let_def)
    moreover have "ht_map res ?k = Some (he_val d)" using Some old by (simp add: ht_map_def)
    ultimately show ?thesis
      using put_array [OF wf, where k = ?k and v = ?v] Some n
      by (simp add: ht_map_def ht_entries_def fun_eq_iff)
  next
    case None
    let ?e = "e\<lparr> he_hash := hf ?k \<rparr>"
    have m: "merge_entry hf merger e res = res\<lparr> ht_array := push_entry ?mx ?e ?arr, ht_count := ht_count res + 1 \<rparr>"
      using None mc by (simp add: merge_entry_def Let_def)
    have none: "ht_map res ?k = None" using None old by (simp add: ht_map_def)
    have new: "?k \<notin> he_key ` set (concat ?arr)"
    proof
      assume "?k \<in> he_key ` set (concat ?arr)"
      then have "ht_map res ?k \<noteq> None"
        using arr_map_iff [OF array_entries_wf(2) [OF wf]] unfolding ht_map_def by fastforce
      with none show False by simp
    qed
    then have w: "array_wf hf ?mx (push_entry ?mx ?e ?arr)" by (intro push_entry_wf [OF wf]) auto
    have ms: "mset (concat (push_entry ?mx ?e ?arr)) = add_mset ?e (mset (concat ?arr))"
      by (rule push_entry_mset [OF len])
    then have st: "set (concat (push_entry ?mx ?e ?arr)) = insert ?e (set (concat ?arr))"
      by (metis set_mset_add_mset_insert set_mset_mset)
    have "arr_map (push_entry ?mx ?e ?arr) = (arr_map ?arr)(?k \<mapsto> he_val e)"
      using added_map [OF w [THEN array_entries_wf(2)] array_entries_wf(2) [OF wf] st] new by simp
    then show ?thesis
      using w n none mset_eq_length [OF ms [folded mset.simps(2)]]
      by (simp add: m ht_map_def ht_entries_def merged_value_def)
  qed
  then show "array_wf hf ?mx (ht_array (merge_entry hf merger e res))" "ht_max (merge_entry hf merger e res) = ?mx"
    "ht_count (merge_entry hf merger e res) = length (ht_entries (merge_entry hf merger e res))"
    "ht_count (merge_entry hf merger e res) \<le> ht_count res + 1"
    "ht_map (merge_entry hf merger e res) = (ht_map res)(?k \<mapsto> merged_value merger (he_val e) (ht_map res ?k))"
    by simp_all
qed

lemma merge_entries_map:
  assumes "array_wf hf (ht_max res) (ht_array res)" "ht_count res = length (ht_entries res)" "distinct (map he_key es)"
  shows "array_wf hf (ht_max res) (ht_array (fold (merge_entry hf merger) es res))
    \<and> ht_max (fold (merge_entry hf merger) es res) = ht_max res
    \<and> ht_count (fold (merge_entry hf merger) es res) = length (ht_entries (fold (merge_entry hf merger) es res))
    \<and> ht_count (fold (merge_entry hf merger) es res) \<le> ht_count res + length es
    \<and> (\<forall>k. ht_map (fold (merge_entry hf merger) es res) k =
          (case map_of (map (\<lambda>e. (he_key e, he_val e)) es) k of None \<Rightarrow> ht_map res k
           | Some v \<Rightarrow> Some (merged_value merger v (ht_map res k))))"
  using assms
proof (induction es arbitrary: res)
  case (Cons e es)
  note m = merge_entry_map [OF Cons.prems(1,2), of merger e]
  note IH = Cons.IH [of "merge_entry hf merger e res"]
  have "map_of (map (\<lambda>e. (he_key e, he_val e)) es) (he_key e) = None"
    using Cons.prems(3) by (auto simp: map_of_eq_None_iff)
  with IH m Cons.prems(3) show ?case by (auto split: option.splits)
qed simp

lemma HashTable_merge_map:
  assumes "ht_wf hf base" "ht_wf hf overlay"
  shows "ht_wf hf (HashTable_merge hf merger base overlay)"
    and "ht_map (HashTable_merge hf merger base overlay) k =
      (case ht_map overlay k of None \<Rightarrow> ht_map base k | Some v \<Rightarrow> Some (merged_value merger v (ht_map base k)))"
proof -
  define mx where "mx = (if ht_max overlay > ht_max base then ht_max overlay else ht_max base)"
  define mx1 where "mx1 = (if ht_count base + ht_count overlay > mx then mx * 2 + 1 else mx)"
  define res where "res = \<lparr> ht_array = fold (push_entry mx1) (ht_entries base) (alloc_array mx1),
    ht_count = ht_count base, ht_max = mx1, ht_free = 0 \<rparr>"
  have e: "HashTable_merge hf merger base overlay = fold (merge_entry hf merger) (ht_entries overlay) res"
    by (simp add: HashTable_merge_def Let_def res_def mx1_def mx_def)
  have wb: "array_wf hf (ht_max base) (ht_array base)" and wo: "array_wf hf (ht_max overlay) (ht_array overlay)"
    using assms by (simp_all add: ht_wf_def)
  note r = rehash [OF wb, of mx1]
  have w: "array_wf hf (ht_max res) (ht_array res)" using r(1) by (simp add: res_def ht_entries_def)
  have n: "ht_count res = length (ht_entries res)"
    using mset_eq_length [OF r(2)] assms(1) by (simp add: res_def ht_wf_def ht_entries_def)
  have m: "ht_map res = ht_map base"
    using arr_map_eqI [OF array_entries_wf(2) [OF wb] r(2)] by (simp add: ht_map_def res_def ht_entries_def)
  have "distinct (map he_key (ht_entries overlay))" using wo by (simp add: array_wf_def ht_entries_def)
  note f = merge_entries_map [OF w n this, of merger]
  have overlay: "map_of (map (\<lambda>e. (he_key e, he_val e)) (ht_entries overlay)) = ht_map overlay"
    by (simp add: ht_map_def arr_map_def ht_entries_def)
  have "ht_count base + length (ht_entries overlay) \<le> mx1"
    using assms by (auto simp: ht_wf_def mx1_def mx_def)
  then show "ht_wf hf (HashTable_merge hf merger base overlay)"
    using f unfolding e ht_wf_def by (auto simp: res_def)
  show "ht_map (HashTable_merge hf merger base overlay) k =
      (case ht_map overlay k of None \<Rightarrow> ht_map base k | Some v \<Rightarrow> Some (merged_value merger v (ht_map base k)))"
    using f m overlay unfolding e by (simp split: option.splits)
qed

section \<open>Properties\<close>


text \<open>
  Growing the table, copying it and clearing it: the first two keep the map, the last one
  empties it and resets the count.
\<close>

theorem hash_table_copy_expand_clear:
  assumes "ht_wf hf ht"
  shows "ht_map (expand_array ht) = ht_map ht \<and> ht_wf hf (expand_array ht)
    \<and> ht_map (HashTable_copy ht) = ht_map ht \<and> ht_wf hf (HashTable_copy ht)
    \<and> ht_map (HashTable_clear hf ht) = Map.empty \<and> HashTable_size (HashTable_clear hf ht) = 0"
proof -
  have w: "array_wf hf (ht_max ht) (ht_array ht)" "ht_count ht = length (ht_entries ht)"
      "ht_count ht \<le> 2 * ht_max ht + 1"
    using assms by (auto simp: ht_wf_def)
  show ?thesis
    using expand_array_wf [OF w] HashTable_copy_map [OF assms] HashTable_clear_map [OF assms]
    by (simp add: HashTable_size_def)
qed

theorem hash_table_copy_expand_clear_witness:
  "ht_map (HashTable_clear s_hashfunc_default (HashTable_put s_hashfunc_default [1] (5 :: nat) HashTable_make)) = Map.empty"
proof -
  have "ht_wf s_hashfunc_default (HashTable_put s_hashfunc_default [1] (5 :: nat) HashTable_make)"
    by (intro HashTable_put_map(1) HashTable_make_map(1))
  from hash_table_copy_expand_clear [OF this] show ?thesis by blast
qed



end
