(* ===== verification/Dict.thy ===== *)
theory Dict
  imports MapSpec
begin

text \<open>
  Models \<^verbatim>\<open>common/memory/SPMemDict.h\<close>: the dictionary kept as a sorted vector of pairs.

  An iterator is the index it stands at, \<^verbatim>\<open>end()\<close> is the length. The comparator \<^verbatim>\<open>_comp\<close> is the
  parameter \<open>lt\<close>; the laws it needs are those of the locale \<open>key_order\<close>, which \<^verbatim>\<open>std::less\<close> has on a
  linear order. \<^verbatim>\<open>std::lower_bound\<close> and \<^verbatim>\<open>std::upper_bound\<close> are the bisection of the standard library.
\<close>

section \<open>Data and searching\<close>

type_synonym ('k, 'v) dict = "('k \<times> 'v) list"

function bisect :: "(nat \<Rightarrow> bool) \<Rightarrow> nat \<Rightarrow> nat \<Rightarrow> nat" where
  "bisect before first len =
     (if len = 0 then first
      else let half = len div 2; mid = first + half
           in if before mid then bisect before (mid + 1) (len - half - 1) else bisect before first half)"
  by pat_completeness auto
termination by (relation "measure (\<lambda>(_, _, len). len)") auto

declare bisect.simps [simp del]

definition lower_bound :: "('k \<Rightarrow> 'k \<Rightarrow> bool) \<Rightarrow> 'k \<Rightarrow> ('k, 'v) dict \<Rightarrow> nat" where
  "lower_bound lt x d = bisect (\<lambda>i. lt (fst (d ! i)) x) 0 (length d)"

definition upper_bound :: "('k \<Rightarrow> 'k \<Rightarrow> bool) \<Rightarrow> 'k \<Rightarrow> ('k, 'v) dict \<Rightarrow> nat" where
  "upper_bound lt x d = bisect (\<lambda>i. \<not> lt x (fst (d ! i))) 0 (length d)"

definition equal_range :: "('k \<Rightarrow> 'k \<Rightarrow> bool) \<Rightarrow> 'k \<Rightarrow> ('k, 'v) dict \<Rightarrow> nat \<times> nat" where
  "equal_range lt x d = (lower_bound lt x d, upper_bound lt x d)"

definition do_equal_check :: "('k \<Rightarrow> 'k \<Rightarrow> bool) \<Rightarrow> 'k \<Rightarrow> 'k \<Rightarrow> bool" where
  "do_equal_check lt l r \<longleftrightarrow> \<not> lt l r \<and> \<not> lt r l"

definition do_find :: "('k \<Rightarrow> 'k \<Rightarrow> bool) \<Rightarrow> 'k \<Rightarrow> ('k, 'v) dict \<Rightarrow> nat" where
  "do_find lt k d =
     (let it = lower_bound lt k d
      in if it \<noteq> length d \<and> do_equal_check lt (fst (d ! it)) k then it else length d)"

definition do_count :: "('k \<Rightarrow> 'k \<Rightarrow> bool) \<Rightarrow> 'k \<Rightarrow> ('k, 'v) dict \<Rightarrow> nat" where
  "do_count lt key d = (let (b, e) = equal_range lt key d in e - b)"

text \<open>What a caller reads through the iterator of \<^verbatim>\<open>find\<close>.\<close>

definition dict_get :: "('k \<Rightarrow> 'k \<Rightarrow> bool) \<Rightarrow> 'k \<Rightarrow> ('k, 'v) dict \<Rightarrow> 'v option" where
  "dict_get lt k d = (let it = do_find lt k d in if it = length d then None else Some (snd (d ! it)))"

section \<open>Insertion\<close>

definition emplace_safe :: "nat \<Rightarrow> 'k \<Rightarrow> 'v \<Rightarrow> ('k, 'v) dict \<Rightarrow> ('k, 'v) dict" where
  "emplace_safe it k v d = take it d @ (k, v) # drop it d"

definition do_insert_or_assign ::
  "('k \<Rightarrow> 'k \<Rightarrow> bool) \<Rightarrow> 'k \<Rightarrow> 'v \<Rightarrow> ('k, 'v) dict \<Rightarrow> ('k, 'v) dict \<times> nat \<times> bool" where
  "do_insert_or_assign lt k m d =
     (let it = lower_bound lt k d
      in if it \<noteq> length d \<and> do_equal_check lt (fst (d ! it)) k
         then (d[it := (fst (d ! it), m)], it, False)
         else (emplace_safe it k m d, it, True))"

text \<open>The hint is taken when it is not the first position and its neighbours allow it.\<close>

definition hint_fits :: "('k \<Rightarrow> 'k \<Rightarrow> bool) \<Rightarrow> nat \<Rightarrow> 'k \<Rightarrow> ('k, 'v) dict \<Rightarrow> bool" where
  "hint_fits lt hint k d \<longleftrightarrow>
     hint \<noteq> 0 \<and> lt (fst (d ! (hint - 1))) k \<and> (hint = length d \<or> \<not> lt (fst (d ! hint)) k)"

definition do_insert_or_assign_hint ::
  "('k \<Rightarrow> 'k \<Rightarrow> bool) \<Rightarrow> nat \<Rightarrow> 'k \<Rightarrow> 'v \<Rightarrow> ('k, 'v) dict \<Rightarrow> ('k, 'v) dict \<times> nat" where
  "do_insert_or_assign_hint lt hint k m d =
     (if hint_fits lt hint k d then (emplace_safe hint k m d, hint)
      else (let (d', it, _) = do_insert_or_assign lt k m d in (d', it)))"

definition do_try_emplace ::
  "('k \<Rightarrow> 'k \<Rightarrow> bool) \<Rightarrow> 'k \<Rightarrow> 'v \<Rightarrow> ('k, 'v) dict \<Rightarrow> ('k, 'v) dict \<times> nat \<times> bool" where
  "do_try_emplace lt k v d =
     (let it = lower_bound lt k d
      in if it = length d \<or> \<not> do_equal_check lt (fst (d ! it)) k
         then (emplace_safe it k v d, it, True) else (d, it, False))"

definition do_try_emplace_hint ::
  "('k \<Rightarrow> 'k \<Rightarrow> bool) \<Rightarrow> nat \<Rightarrow> 'k \<Rightarrow> 'v \<Rightarrow> ('k, 'v) dict \<Rightarrow> ('k, 'v) dict \<times> nat \<times> bool" where
  "do_try_emplace_hint lt hint k v d =
     (if hint_fits lt hint k d then (emplace_safe hint k v d, hint, True) else do_try_emplace lt k v d)"

definition do_assign :: "nat \<Rightarrow> 'v \<Rightarrow> ('k, 'v) dict \<Rightarrow> ('k, 'v) dict" where
  "do_assign it v d = d[it := (fst (d ! it), v)]"

definition emplace ::
  "('k \<Rightarrow> 'k \<Rightarrow> bool) \<Rightarrow> 'k \<Rightarrow> 'v \<Rightarrow> ('k, 'v) dict \<Rightarrow> ('k, 'v) dict \<times> nat \<times> bool" where
  "emplace lt k v d =
     (let (d', it, ins) = do_try_emplace lt k v d in (if ins then d' else do_assign it v d', it, ins))"

definition emplace_hint ::
  "('k \<Rightarrow> 'k \<Rightarrow> bool) \<Rightarrow> nat \<Rightarrow> 'k \<Rightarrow> 'v \<Rightarrow> ('k, 'v) dict \<Rightarrow> ('k, 'v) dict \<times> nat" where
  "emplace_hint lt hint k v d =
     (let (d', it, ins) = do_try_emplace_hint lt hint k v d in (if ins then d' else do_assign it v d', it))"

text \<open>The range and initializer-list forms insert one value after the other.\<close>

definition insert_range :: "('k \<Rightarrow> 'k \<Rightarrow> bool) \<Rightarrow> ('k \<times> 'v) list \<Rightarrow> ('k, 'v) dict \<Rightarrow> ('k, 'v) dict" where
  "insert_range lt vs d = fold (\<lambda>(k, v) d. fst (emplace lt k v d)) vs d"

definition dict_make :: "('k \<Rightarrow> 'k \<Rightarrow> bool) \<Rightarrow> ('k \<times> 'v) list \<Rightarrow> ('k, 'v) dict" where
  "dict_make lt vs = insert_range lt vs []"

definition do_erase :: "('k \<Rightarrow> 'k \<Rightarrow> bool) \<Rightarrow> 'k \<Rightarrow> ('k, 'v) dict \<Rightarrow> ('k, 'v) dict \<times> nat" where
  "do_erase lt key d = (let (b, e) = equal_range lt key d in (take b d @ drop e d, e - b))"

section \<open>Searching a sorted vector\<close>

lemma bisect_partition:
  assumes "\<And>i j. i < j \<Longrightarrow> j < first + len \<Longrightarrow> before j \<Longrightarrow> before i"
  shows "first \<le> bisect before first len \<and> bisect before first len \<le> first + len
    \<and> (\<forall>i. first \<le> i \<and> i < bisect before first len \<longrightarrow> before i)
    \<and> (\<forall>i. bisect before first len \<le> i \<and> i < first + len \<longrightarrow> \<not> before i)"
  using assms
proof (induction before first len rule: bisect.induct)
  case (1 before first len)
  show ?case
  proof (cases "len = 0")
    case True
    then show ?thesis by (subst (1 2 3 4) bisect.simps) auto
  next
    case False
    define half where "half = len div 2"
    have h: "half < len" using False by (simp add: half_def)
    show ?thesis
    proof (cases "before (first + half)")
      case True
      let ?r = "bisect before (first + half + 1) (len - half - 1)"
      have e: "bisect before first len = ?r"
        using False True by (subst bisect.simps) (simp add: Let_def half_def)
      have IH: "first + half + 1 \<le> ?r \<and> ?r \<le> first + half + 1 + (len - half - 1)
          \<and> (\<forall>i. first + half + 1 \<le> i \<and> i < ?r \<longrightarrow> before i)
          \<and> (\<forall>i. ?r \<le> i \<and> i < first + half + 1 + (len - half - 1) \<longrightarrow> \<not> before i)"
        using True 1(3) h by (intro 1(1) [OF False half_def refl]) simp_all
      have "before i" if "first \<le> i" "i < ?r" for i
        using that IH True 1(3) [of i "first + half"] h by (cases "i < first + half"; cases "i = first + half") auto
      then show ?thesis using IH h unfolding e by auto
    next
      case ff: False
      let ?r = "bisect before first half"
      have e: "bisect before first len = ?r"
        using False ff by (subst bisect.simps) (simp add: Let_def half_def)
      have IH: "first \<le> ?r \<and> ?r \<le> first + half
          \<and> (\<forall>i. first \<le> i \<and> i < ?r \<longrightarrow> before i)
          \<and> (\<forall>i. ?r \<le> i \<and> i < first + half \<longrightarrow> \<not> before i)"
        using ff 1(3) h by (intro 1(2) [OF False half_def refl]) simp_all
      have "\<not> before i" if "?r \<le> i" "i < first + len" for i
        using that IH ff 1(3) [of "first + half" i] by (cases "i < first + half"; cases "i = first + half") auto
      then show ?thesis using IH h unfolding e by auto
    qed
  qed
qed

lemma bisect_split:
  fixes d :: "'a list"
  assumes "\<And>i j. i < j \<Longrightarrow> j < length d \<Longrightarrow> p (d ! j) \<Longrightarrow> p (d ! i)"
  defines "r \<equiv> bisect (\<lambda>i. p (d ! i)) 0 (length d)"
  shows "r \<le> length d" "\<forall>e\<in>set (take r d). p e" "\<forall>e\<in>set (drop r d). \<not> p e"
proof -
  have "0 \<le> r \<and> r \<le> 0 + length d \<and> (\<forall>i. 0 \<le> i \<and> i < r \<longrightarrow> p (d ! i))
    \<and> (\<forall>i. r \<le> i \<and> i < 0 + length d \<longrightarrow> \<not> p (d ! i))"
    unfolding r_def by (rule bisect_partition) (use assms(1) in simp)
  then have b: "r \<le> length d \<and> (\<forall>i. i < r \<longrightarrow> p (d ! i)) \<and> (\<forall>i. r \<le> i \<and> i < length d \<longrightarrow> \<not> p (d ! i))"
    by simp
  then show "r \<le> length d" by simp
  show "\<forall>e\<in>set (take r d). p e" using b by (auto simp: in_set_conv_nth)
  show "\<forall>e\<in>set (drop r d). \<not> p e" using b by (auto simp: in_set_conv_nth)
qed

section \<open>The laws under a key order\<close>

definition dict_wf :: "('k \<Rightarrow> 'k \<Rightarrow> bool) \<Rightarrow> ('k, 'v) dict \<Rightarrow> bool" where
  "dict_wf lt d \<longleftrightarrow> sorted_wrt lt (map fst d)"

locale key_order =
  fixes lt :: "'k \<Rightarrow> 'k \<Rightarrow> bool"
  assumes irrefl: "\<not> lt k k" and trans: "lt i j \<Longrightarrow> lt j k \<Longrightarrow> lt i k"
    and total: "i \<noteq> j \<Longrightarrow> lt i j \<or> lt j i"
begin

lemma equal_check: "do_equal_check lt i j \<longleftrightarrow> i = j"
  using irrefl total by (auto simp: do_equal_check_def)

lemma wf_nth: "dict_wf lt d \<Longrightarrow> i < j \<Longrightarrow> j < length d \<Longrightarrow> lt (fst (d ! i)) (fst (d ! j))"
  by (simp add: dict_wf_def sorted_wrt_iff_nth_less)

text \<open>A well-formed vector falls into smaller keys, the key itself if present, and larger keys.\<close>

lemma split_at_key:
  assumes "dict_wf lt d"
  obtains (found) A v B where "d = A @ (k, v) # B" "lower_bound lt k d = length A" "upper_bound lt k d = length A + 1"
      "\<forall>e\<in>set A. lt (fst e) k" "\<forall>e\<in>set B. lt k (fst e)"
    | (absent) A B where "d = A @ B" "lower_bound lt k d = length A" "upper_bound lt k d = length A"
      "\<forall>e\<in>set A. lt (fst e) k" "\<forall>e\<in>set B. lt k (fst e)"
proof -
  let ?l = "lower_bound lt k d" and ?u = "upper_bound lt k d"
  have l: "?l \<le> length d" "\<forall>e\<in>set (take ?l d). lt (fst e) k" "\<forall>e\<in>set (drop ?l d). \<not> lt (fst e) k"
    unfolding lower_bound_def
    using bisect_split [of d "\<lambda>e. lt (fst e) k"] wf_nth [OF assms] trans by blast+
  have u: "?u \<le> length d" "\<forall>e\<in>set (take ?u d). \<not> lt k (fst e)" "\<forall>e\<in>set (drop ?u d). lt k (fst e)"
    unfolding upper_bound_def
    using bisect_split [of d "\<lambda>e. \<not> lt k (fst e)"] wf_nth [OF assms] trans by blast+
  have lu: "?l \<le> ?u"
  proof (rule ccontr)
    assume "\<not> ?l \<le> ?u"
    then have "d ! ?u \<in> set (take ?l d)" "d ! ?u \<in> set (drop ?u d)"
      using l(1) by (auto simp: in_set_conv_nth intro: exI [of _ ?u] exI [of _ 0])
    then show False using l(2) u(3) trans irrefl by blast
  qed
  have mid: "fst (d ! i) = k" if "?l \<le> i" "i < ?u" for i
  proof -
    have "d ! i \<in> set (drop ?l d)" "d ! i \<in> set (take ?u d)"
      using that u(1) by (auto simp: in_set_conv_nth intro: exI [of _ "i - ?l"] exI [of _ i])
    then show ?thesis using l(3) u(2) total by blast
  qed
  have one: "?u \<le> ?l + 1"
  proof (rule ccontr)
    assume "\<not> ?u \<le> ?l + 1"
    then have "lt (fst (d ! ?l)) (fst (d ! (?l + 1)))" using wf_nth [OF assms, of ?l "?l + 1"] u(1) by simp
    with mid [of ?l] mid [of "?l + 1"] \<open>\<not> ?u \<le> ?l + 1\<close> irrefl show False by simp
  qed
  show ?thesis
  proof (cases "?u = ?l")
    case True
    then show ?thesis using absent [of "take ?l d" "drop ?l d"] l u by simp
  next
    case False
    then have ul: "?u = ?l + 1" "?l < length d" using lu one u(1) by auto
    then have "d ! ?l = (k, snd (d ! ?l))" using mid [of ?l] by (metis less_add_one order_refl prod.collapse)
    then have "d = take ?l d @ (k, snd (d ! ?l)) # drop ?u d"
      using id_take_nth_drop [OF ul(2)] ul(1) by simp
    then show ?thesis using found [of "take ?l d" "snd (d ! ?l)" "drop ?u d"] l u ul by simp
  qed
qed

lemma wf_parts:
  "\<forall>e\<in>set A. lt (fst e) k \<Longrightarrow> \<forall>e\<in>set B. lt k (fst e) \<Longrightarrow>
   dict_wf lt (A @ (k, v) # B) \<longleftrightarrow> dict_wf lt (A @ B) \<and> dict_wf lt A \<and> dict_wf lt B"
  by (auto simp: dict_wf_def sorted_wrt_append intro: trans)

lemma map_of_parts:
  assumes "\<forall>e\<in>set A. lt (fst e) k"
  shows "map_of (A @ (k, v) # B) = (map_of (A @ B))(k \<mapsto> v)"
proof -
  have "map_of A k = None" using assms irrefl by (auto simp: map_of_eq_None_iff)
  then show ?thesis by (auto simp: fun_eq_iff map_add_def split: option.splits)
qed

lemma map_of_without:
  assumes "\<forall>e\<in>set A. lt (fst e) k" "\<forall>e\<in>set B. lt k (fst e)"
  shows "map_of (A @ B) k = None"
  using assms irrefl by (auto simp: map_of_eq_None_iff)

lemma get_map:
  assumes "dict_wf lt d"
  shows "dict_get lt k d = map_of d k"
  using assms
proof (cases rule: split_at_key [of d k])
  case (found A v B)
  then show ?thesis using map_of_parts [OF found(4), of v B]
    by (simp add: dict_get_def do_find_def Let_def equal_check)
next
  case (absent A B)
  have "B ! 0 \<in> set B" if "B \<noteq> []" using that by simp
  then have "fst (B ! 0) \<noteq> k" if "B \<noteq> []" using that absent(5) irrefl by metis
  then have "dict_get lt k d = None"
    using absent(2) unfolding absent(1) by (auto simp: dict_get_def do_find_def Let_def equal_check nth_append)
  moreover have "map_of d k = None" using map_of_without [OF absent(4,5)] unfolding absent(1) .
  ultimately show ?thesis by simp
qed

text \<open>Inserting and assigning, by either route, is the same vector: the key with its value in its place.\<close>

lemma insert_result:
  assumes "dict_wf lt d"
  shows "dict_wf lt (fst (do_insert_or_assign lt k v d))"
    and "map_of (fst (do_insert_or_assign lt k v d)) = (map_of d)(k \<mapsto> v)"
    and "fst (emplace lt k v d) = fst (do_insert_or_assign lt k v d)"
    and "snd (snd (do_insert_or_assign lt k v d)) \<longleftrightarrow> map_of d k = None"
proof -
  have "dict_wf lt (fst (do_insert_or_assign lt k v d))
    \<and> map_of (fst (do_insert_or_assign lt k v d)) = (map_of d)(k \<mapsto> v)
    \<and> fst (emplace lt k v d) = fst (do_insert_or_assign lt k v d)
    \<and> (snd (snd (do_insert_or_assign lt k v d)) \<longleftrightarrow> map_of d k = None)"
    using assms
  proof (cases rule: split_at_key [of d k])
    case (found A w B)
    have "do_insert_or_assign lt k v d = (A @ (k, v) # B, length A, False)"
      "emplace lt k v d = (A @ (k, v) # B, length A, False)"
      using found by (simp_all add: do_insert_or_assign_def emplace_def do_try_emplace_def do_assign_def Let_def equal_check)
    then show ?thesis
      using assms map_of_parts [OF found(4)] wf_parts [OF found(4,5)] unfolding found(1) by simp
  next
    case (absent A B)
    have "B ! 0 \<in> set B" if "B \<noteq> []" using that by simp
    then have "fst (B ! 0) \<noteq> k" if "B \<noteq> []" using that absent(5) irrefl by metis
    then have "do_insert_or_assign lt k v d = (A @ (k, v) # B, length A, True)"
      "emplace lt k v d = (A @ (k, v) # B, length A, True)"
      using absent by (auto simp: do_insert_or_assign_def emplace_def do_try_emplace_def emplace_safe_def Let_def
        equal_check nth_append)
    moreover have "dict_wf lt A" "dict_wf lt B"
      using assms unfolding absent(1) by (simp_all add: dict_wf_def sorted_wrt_append)
    ultimately show ?thesis
      using assms map_of_parts [OF absent(4)] wf_parts [OF absent(4,5)] map_of_without [OF absent(4,5)]
      unfolding absent(1) by simp
  qed
  then show "dict_wf lt (fst (do_insert_or_assign lt k v d))"
    and "map_of (fst (do_insert_or_assign lt k v d)) = (map_of d)(k \<mapsto> v)"
    and "fst (emplace lt k v d) = fst (do_insert_or_assign lt k v d)"
    and "snd (snd (do_insert_or_assign lt k v d)) \<longleftrightarrow> map_of d k = None" by blast+
qed

lemma erase_result:
  assumes "dict_wf lt d"
  shows "dict_wf lt (fst (do_erase lt k d))" "map_of (fst (do_erase lt k d)) = (map_of d)(k := None)"
    "snd (do_erase lt k d) = do_count lt k d" "do_count lt k d = (if map_of d k = None then 0 else 1)"
proof -
  have "dict_wf lt (fst (do_erase lt k d)) \<and> map_of (fst (do_erase lt k d)) = (map_of d)(k := None)
    \<and> snd (do_erase lt k d) = do_count lt k d \<and> do_count lt k d = (if map_of d k = None then 0 else 1)"
    using assms
  proof (cases rule: split_at_key [of d k])
    case (found A v B)
    then have "do_erase lt k d = (A @ B, 1)" "do_count lt k d = 1"
      by (simp_all add: do_erase_def do_count_def equal_range_def)
    moreover have "(map_of (A @ B))(k := None) = map_of (A @ B)"
      by (rule fun_upd_idem) (rule map_of_without [OF found(4,5)])
    ultimately show ?thesis
      using assms map_of_parts [OF found(4), of v B] wf_parts [OF found(4,5)] unfolding found(1) by auto
  next
    case (absent A B)
    then have "do_erase lt k d = (d, 0)" "do_count lt k d = 0"
      by (simp_all add: do_erase_def do_count_def equal_range_def)
    moreover have "map_of d k = None" using map_of_without [OF absent(4,5)] absent(1) by simp
    ultimately show ?thesis using assms by auto
  qed
  then show "dict_wf lt (fst (do_erase lt k d))" "map_of (fst (do_erase lt k d)) = (map_of d)(k := None)"
    "snd (do_erase lt k d) = do_count lt k d" "do_count lt k d = (if map_of d k = None then 0 else 1)" by blast+
qed

lemma insert_range_map:
  "dict_wf lt d \<Longrightarrow> dict_wf lt (insert_range lt vs d) \<and> map_of (insert_range lt vs d) = map_of d ++ map_of (rev vs)"
proof (induction vs arbitrary: d)
  case (Cons e vs)
  obtain k v where [simp]: "e = (k, v)" by force
  note r = insert_result [OF Cons.prems, of k v]
  have "insert_range lt (e # vs) d = insert_range lt vs (fst (emplace lt k v d))" by (simp add: insert_range_def)
  then have "dict_wf lt (insert_range lt (e # vs) d)"
    "map_of (insert_range lt (e # vs) d) = (map_of d)(k \<mapsto> v) ++ map_of (rev vs)"
    using Cons.IH [of "fst (emplace lt k v d)"] r(1-3) by (simp_all only:)
  then show ?case by (auto simp: fun_eq_iff map_add_def split: option.splits)
qed (simp add: insert_range_def)

text \<open>
  A hint changes nothing unless it stands at the key itself and is not the first position: the test
  \<^verbatim>\<open>!_comp(hint->first, k)\<close> then lets the key through a second time.
\<close>

lemma hint_result:
  assumes "dict_wf lt d" "hint \<le> length d" "hint_fits lt hint k d" "hint < length d \<Longrightarrow> fst (d ! hint) \<noteq> k"
  shows "emplace_safe hint k v d = fst (do_insert_or_assign lt k v d)"
  using assms(1)
proof (cases rule: split_at_key [of d k])
  case (found A w B)
  consider "hint < length A" | "hint = length A" | "length A < hint" by linarith
  then show ?thesis
  proof cases
    case 1
    then have "lt (fst (d ! hint)) k" using found(1,4) by (simp add: nth_append)
    with assms(3) 1 found(1) show ?thesis by (simp add: hint_fits_def)
  next
    case 2
    then show ?thesis using assms(4) found(1) by simp
  next
    case 3
    then have "\<not> hint - 1 < length A" by simp
    then have "d ! (hint - 1) = ((k, w) # B) ! (hint - 1 - length A)" unfolding found(1) nth_append by simp
    moreover have "((k, w) # B) ! (hint - 1 - length A) \<in> set ((k, w) # B)"
      using 3 assms(2) found(1) by (intro nth_mem) auto
    ultimately have "fst (d ! (hint - 1)) = k \<or> lt k (fst (d ! (hint - 1)))" using found(5) by auto
    with assms(3) show ?thesis using irrefl trans unfolding hint_fits_def by blast
  qed
next
  case (absent A B)
  have "hint = length A"
  proof (rule ccontr)
    assume "hint \<noteq> length A"
    then consider "hint < length A" | "length A < hint" by linarith
    then show False
    proof cases
      case 1
      then have "lt (fst (d ! hint)) k" using absent(1,4) by (simp add: nth_append)
      with assms(3) 1 absent(1) show ?thesis by (simp add: hint_fits_def)
    next
      case 2
      then have "d ! (hint - 1) \<in> set B"
        using assms(2) absent(1) by (simp add: nth_append) linarith
      with assms(3) absent(5) show ?thesis using irrefl trans unfolding hint_fits_def by blast
    qed
  qed
  moreover have "fst (B ! 0) \<noteq> k" if "B \<noteq> []" using that absent(5) irrefl by (metis length_greater_0_conv nth_mem)
  ultimately show ?thesis using absent
    by (auto simp: do_insert_or_assign_def emplace_safe_def Let_def equal_check nth_append)
qed

lemma hint_duplicates:
  assumes "hint < length d" "hint_fits lt hint k d" "fst (d ! hint) = k"
  shows "\<not> dict_wf lt (emplace_safe hint k v d)"
proof -
  have "drop hint d = d ! hint # drop (Suc hint) d" using assms(1) by (simp add: Cons_nth_drop_Suc)
  then show ?thesis using assms(3) irrefl by (auto simp: dict_wf_def emplace_safe_def sorted_wrt_append)
qed

end

section \<open>Properties\<close>

interpretation less: key_order "(<) :: 'k :: linorder \<Rightarrow> 'k \<Rightarrow> bool"
  by unfold_locales auto

definition dict_put :: "'k :: linorder \<Rightarrow> 'v \<Rightarrow> ('k, 'v) dict \<Rightarrow> ('k, 'v) dict" where
  "dict_put k v d = fst (do_insert_or_assign (<) k v d)"

definition dict_remove :: "'k :: linorder \<Rightarrow> ('k, 'v) dict \<Rightarrow> ('k, 'v) dict" where
  "dict_remove k d = fst (do_erase (<) k d)"

lemma dict_empty: "dict_wf lt []" "dict_get lt k [] = None"
  by (simp_all add: dict_wf_def dict_get_def do_find_def lower_bound_def bisect.simps)

interpretation dict: map_store "\<lambda>k. True" "dict_wf (<)" "[]" "dict_get (<)" dict_put dict_remove
  by unfold_locales
    (simp_all add: dict_put_def dict_remove_def dict_empty less.get_map less.insert_result less.erase_result)

text \<open>
  C17: with the default comparator, any run of insert_or_assign and erase on an empty dictionary
  leaves the vector strictly sorted by key and looks up every key as the finite map with the same
  updates; emplace gives the same vector as insert_or_assign, and the returned flag and the count of
  a key tell whether the map had the key.
\<close>

theorem dict_is_map:
  fixes ops :: "('k :: linorder, 'v) map_op list" and k :: 'k
  defines "d \<equiv> run_ops dict_put dict_remove ops []"
  shows "dict_wf (<) d \<and> dict_get (<) k d = fold map_effect ops Map.empty k
    \<and> fst (emplace (<) k v d) = dict_put k v d
    \<and> (snd (snd (do_insert_or_assign (<) k v d)) \<longleftrightarrow> dict_get (<) k d = None)
    \<and> do_count (<) k d = (if dict_get (<) k d = None then 0 else 1)"
proof -
  have "(\<lambda>i. dict_get (<) i ([] :: ('k, 'v) dict)) = Map.empty"
    by (rule ext) (rule dict.get_empty, rule TrueI)
  then have r: "dict_wf (<) d" "dict_get (<) k d = fold map_effect ops Map.empty k"
    using dict.run_refines [OF dict.inv_empty, of ops] unfolding d_def by simp_all
  then show ?thesis
    using less.insert_result(3,4) [OF r(1)] less.erase_result(4) [OF r(1), of k] less.get_map [OF r(1), of k]
    by (simp add: dict_put_def)
qed

text \<open>
  On a sorted vector a hinted insertion gives the vector of the unhinted one for every hint, except
  a hint that stands at the key itself behind a smaller key: there a second entry with the key is
  inserted and the vector is no longer sorted.
\<close>

theorem dict_hint:
  fixes k :: "'k :: linorder"
  assumes "dict_wf (<) d" "hint \<le> length d"
  shows "if hint \<noteq> 0 \<and> hint < length d \<and> fst (d ! hint) = k
    then fst (do_insert_or_assign_hint (<) hint k v d) = emplace_safe hint k v d
      \<and> \<not> dict_wf (<) (fst (do_insert_or_assign_hint (<) hint k v d))
      \<and> \<not> dict_wf (<) (fst (emplace_hint (<) hint k v d))
    else fst (do_insert_or_assign_hint (<) hint k v d) = dict_put k v d
      \<and> fst (emplace_hint (<) hint k v d) = dict_put k v d"
proof (cases "hint \<noteq> 0 \<and> hint < length d \<and> fst (d ! hint) = k")
  case True
  then have "fst (d ! (hint - 1)) < k" using less.wf_nth [OF assms(1), of "hint - 1" hint] by simp
  then have "hint_fits (<) hint k d" using True by (simp add: hint_fits_def)
  with True show ?thesis
    using less.hint_duplicates [of hint d k v] by (simp add: do_insert_or_assign_hint_def emplace_hint_def do_try_emplace_hint_def)
next
  case False
  have e: "fst (let (d', it, ins) = do_try_emplace (<) k v d in (if ins then d' else do_assign it v d', it)) = dict_put k v d"
    using less.insert_result(3) [OF assms(1), of k v] by (simp add: emplace_def dict_put_def case_prod_beta Let_def)
  have i: "fst (let (d', it, _) = do_insert_or_assign (<) k v d in (d', it)) = dict_put k v d"
    by (simp add: dict_put_def case_prod_beta)
  have "emplace_safe hint k v d = dict_put k v d" if "hint_fits (<) hint k d"
    using less.hint_result [OF assms that] False that by (simp add: dict_put_def hint_fits_def)
  then have "fst (do_insert_or_assign_hint (<) hint k v d) = dict_put k v d" "fst (emplace_hint (<) hint k v d) = dict_put k v d"
    using e i by (simp_all add: do_insert_or_assign_hint_def emplace_hint_def do_try_emplace_hint_def)
  with False show ?thesis by (simp only: if_False)
qed

theorem dict_hint_witness:
  "\<not> dict_wf (<) (fst (emplace_hint (<) 1 (5 :: nat) True [(3, False), (5, False)]))
   \<and> fst (emplace_hint (<) 2 (7 :: nat) True [(3, False), (5, False)]) = [(3, False), (5, False), (7, True)]"
  using dict_hint [of "[(3 :: nat, False), (5, False)]" 1 5 True]
    dict_hint [of "[(3 :: nat, False), (5, False)]" 2 7 True]
  by (simp add: dict_wf_def dict_put_def do_insert_or_assign_def lower_bound_def bisect.simps do_equal_check_def emplace_safe_def)

text \<open>
  A dictionary made from a range has for each key the value of its last occurrence in the range.
\<close>

lemma dict_make_last_value:
  fixes vs :: "('k :: linorder \<times> 'v) list"
  shows "dict_wf (<) (dict_make (<) vs) \<and> dict_get (<) k (dict_make (<) vs) = map_of (rev vs) k"
  using less.insert_range_map [of "[]" vs] less.get_map [of "dict_make (<) vs" k]
  by (simp add: dict_make_def dict_wf_def)

end
