(* ===== verification/CharGroup.thy ===== *)
theory CharGroup
  imports Prelude
begin

text \<open>
  Models \<^verbatim>\<open>common/string/SPCharGroup.h\<close> and \<^verbatim>\<open>SPCharGroup.cc\<close>: the character classes the readers are
  instantiated with.

  The templates \<^verbatim>\<open>Chars\<close>, \<^verbatim>\<open>Range\<close> and \<^verbatim>\<open>Compose\<close> are data here; a group is the list its \<^verbatim>\<open>Compose\<close> base names.
  For \<^verbatim>\<open>char\<close> most groups are matched by a lookup table instead. \<^verbatim>\<open>char\<close> is signed: a byte from 0x80 on
  is negative and lies in no range, which is what the unsigned comparison gives for ranges below 0x80.
\<close>

section \<open>Matchers\<close>

datatype 'c matcher = Chars "'c list" | Range 'c 'c

fun matches :: "'c :: ord matcher \<Rightarrow> 'c \<Rightarrow> bool" where
  "matches (Chars cs) c = (c \<in> set cs)"
| "matches (Range lo hi) c = (lo \<le> c \<and> c \<le> hi)"

definition matchCompose :: "'c :: ord matcher list \<Rightarrow> 'c \<Rightarrow> bool" where
  "matchCompose ms c = list_ex (\<lambda>m. matches m c) ms"

section \<open>The groups\<close>

datatype CharGroupId =
  G_None | G_PunctuationBasic | G_Numbers | G_Latin | G_Cyrillic | G_Currency | G_GreekBasic | G_Math
  | G_Arrows | G_Fractionals | G_LatinSuppl1 | G_PunctuationAdvanced | G_GreekAdvanced | G_WhiteSpace
  | G_Controls | G_NonPrintable | G_LatinLowercase | G_LatinUppercase | G_Alphanumeric |
  G_Hexadecimial | G_Base64 | G_BreakableWhiteSpace | G_OpticalAlignmentSpecial |
  G_OpticalAlignmentBullet | G_TextPunctuation

fun groupIndex :: "CharGroupId \<Rightarrow> nat" where
  "groupIndex G_None = 0"
| "groupIndex G_PunctuationBasic = 1"
| "groupIndex G_Numbers = 2"
| "groupIndex G_Latin = 3"
| "groupIndex G_Cyrillic = 4"
| "groupIndex G_Currency = 5"
| "groupIndex G_GreekBasic = 6"
| "groupIndex G_Math = 7"
| "groupIndex G_Arrows = 8"
| "groupIndex G_Fractionals = 9"
| "groupIndex G_LatinSuppl1 = 10"
| "groupIndex G_PunctuationAdvanced = 11"
| "groupIndex G_GreekAdvanced = 12"
| "groupIndex G_WhiteSpace = 13"
| "groupIndex G_Controls = 14"
| "groupIndex G_NonPrintable = 15"
| "groupIndex G_LatinLowercase = 16"
| "groupIndex G_LatinUppercase = 17"
| "groupIndex G_Alphanumeric = 18"
| "groupIndex G_Hexadecimial = 19"
| "groupIndex G_Base64 = 20"
| "groupIndex G_BreakableWhiteSpace = 21"
| "groupIndex G_OpticalAlignmentSpecial = 22"
| "groupIndex G_OpticalAlignmentBullet = 23"
| "groupIndex G_TextPunctuation = 24"

definition groupBit :: "CharGroupId \<Rightarrow> u32" where
  "groupBit g = (if g = G_None then 0 else push_bit (groupIndex g) 1)"

definition allGroups :: "CharGroupId list" where
  "allGroups =
     [G_None, G_PunctuationBasic, G_Numbers, G_Latin, G_Cyrillic, G_Currency, G_GreekBasic, G_Math,
      G_Arrows, G_Fractionals, G_LatinSuppl1, G_PunctuationAdvanced, G_GreekAdvanced, G_WhiteSpace,
      G_Controls, G_NonPrintable, G_LatinLowercase, G_LatinUppercase, G_Alphanumeric, G_Hexadecimial,
      G_Base64, G_BreakableWhiteSpace, G_OpticalAlignmentSpecial, G_OpticalAlignmentBullet,
      G_TextPunctuation]"

text \<open>The declared composition of a group of \<^verbatim>\<open>char\<close>; some groups exist for \<^verbatim>\<open>char16_t\<close> only.\<close>

fun charGroup :: "CharGroupId \<Rightarrow> u8 matcher list option" where
  "charGroup G_PunctuationBasic =
     Some [Range 0x21 0x2F, Range 0x3A 0x40, Range 0x5B 0x7F]"
| "charGroup G_Numbers =
     Some [Range 0x30 0x39]"
| "charGroup G_Latin =
     Some [Range 0x41 0x5A, Range 0x61 0x7A]"
| "charGroup G_WhiteSpace =
     Some [Range 0x09 0x0D, Chars [0x20]]"
| "charGroup G_Controls =
     Some [Range 0x01 0x20]"
| "charGroup G_NonPrintable =
     Some [Range 0x01 0x20, Chars [0x20]]"
| "charGroup G_LatinLowercase =
     Some [Range 0x61 0x7A]"
| "charGroup G_LatinUppercase =
     Some [Range 0x41 0x5A]"
| "charGroup G_Alphanumeric =
     Some [Range 0x30 0x39, Range 0x41 0x5A, Range 0x61 0x7A]"
| "charGroup G_Hexadecimial =
     Some [Range 0x30 0x39, Range 0x41 0x46, Range 0x61 0x66]"
| "charGroup G_Base64 =
     Some [Range 0x30 0x39, Range 0x41 0x5A, Range 0x61 0x7A, Chars [0x3D, 0x2F, 0x2B, 0x5F, 0x2D]]"
| "charGroup G_TextPunctuation =
     Some [Chars [0x3D, 0x2F, 0x28, 0x29, 0x2E, 0x2C, 0x2D, 0x27, 0x22, 0x3A, 0x3B, 0x3F, 0x21, 0x40, 0x23,
      0x24, 0x25, 0x5E, 0x2A, 0x5C, 0x5F, 0x2B, 0x5B, 0x5D]]"
| "charGroup _ = None"

text \<open>The groups of \<^verbatim>\<open>char16_t\<close>.\<close>

fun char16Group :: "CharGroupId \<Rightarrow> u16 matcher list" where
  "char16Group G_None = []"
| "char16Group G_PunctuationBasic =
     [Range 0x21 0x2F, Range 0x3A 0x40, Range 0x5B 0x60, Range 0x7B 0x7E, Range 0xA1 0xBF, Chars [0xAD,
      0x2013, 0x2014, 0x2019, 0x201C, 0x201D, 0x2116]]"
| "char16Group G_Numbers =
     [Range 0x30 0x39]"
| "char16Group G_Latin =
     [Range 0x41 0x5A, Range 0x61 0x7A]"
| "char16Group G_Cyrillic =
     [Range 0x410 0x42F, Range 0x430 0x44F, Chars [0x401, 0x451]]"
| "char16Group G_Currency =
     [Range 0x20A0 0x20BE]"
| "char16Group G_GreekBasic =
     [Range 0x391 0x3AB, Range 0x3B1 0x3CB]"
| "char16Group G_Math =
     [Range 0x2200 0x22FF]"
| "char16Group G_Arrows =
     [Range 0x2190 0x21FF]"
| "char16Group G_Fractionals =
     [Range 0x2150 0x215F]"
| "char16Group G_LatinSuppl1 =
     [Range 0xC0 0xFF]"
| "char16Group G_PunctuationAdvanced =
     [Range 0x21 0x2F, Range 0x3A 0x40, Range 0x5B 0x60, Range 0x7B 0x7F, Range 0xA1 0xBF, Range 0x2010
      0x201F, Range 0x2024 0x2027, Range 0x2030 0x203D, Chars [0x2013, 0x2014, 0x2019, 0x201C, 0x201D,
      0x2116]]"
| "char16Group G_GreekAdvanced =
     [Range 0x391 0x3AB, Range 0x3B1 0x3CB, Range 0x370 0x377, Range 0x37A 0x37F, Range 0x384 0x38A,
      Range 0x38E 0x390, Range 0x3AC 0x3B0, Range 0x3CC 0x3FF, Chars [0x38C]]"
| "char16Group G_WhiteSpace =
     [Range 0x09 0x0D, Range 0x2000 0x200D, Chars [0x20, 0x85, 0xA0, 0x1680, 0x2028, 0x2029, 0x202F,
      0x205F, 0x2060, 0x3000, 0xFEFF, 0xFFFF]]"
| "char16Group G_Controls =
     [Range 0x01 0x20]"
| "char16Group G_NonPrintable =
     [Range 0x01 0x20, Range 0x2000 0x200D, Chars [0x20, 0x85, 0xA0, 0x1680, 0x2028, 0x2029, 0x202F,
      0x205F, 0x2060, 0x3000, 0xFEFF, 0xFFFF]]"
| "char16Group G_LatinLowercase =
     [Range 0x61 0x7A]"
| "char16Group G_LatinUppercase =
     [Range 0x41 0x5A]"
| "char16Group G_Alphanumeric =
     [Range 0x30 0x39, Range 0x41 0x5A, Range 0x61 0x7A]"
| "char16Group G_Hexadecimial =
     [Range 0x30 0x39, Range 0x41 0x46, Range 0x61 0x66]"
| "char16Group G_Base64 =
     [Range 0x30 0x39, Range 0x41 0x5A, Range 0x61 0x7A, Chars [0x3D, 0x2F, 0x2B, 0x2D, 0x5F]]"
| "char16Group G_BreakableWhiteSpace =
     [Range 0x09 0x0D, Range 0x2000 0x200D, Chars [0x20, 0x85, 0x1680, 0x2028, 0x2029, 0x205F, 0x2060,
      0x3000, 0xFEFF]]"
| "char16Group G_OpticalAlignmentSpecial =
     [Chars [0x28, 0x5B, 0x7B, 0x22, 0x27, 0x5C, 0x3C, 0xAB, 0x201E, 0x2E, 0x2C, 0xAD, 0x2D]]"
| "char16Group G_OpticalAlignmentBullet =
     [Range 0x30 0x39, Chars [0x2014, 0x2013, 0x2015, 0x2022, 0x2023, 0x2043, 0x2D, 0x2A, 0x25E6, 0x25A0,
      0x2E, 0x2C, 0x29]]"
| "char16Group G_TextPunctuation =
     [Chars [0x3D, 0x2F, 0x28, 0x29, 0x2E, 0x2C, 0x2D, 0x27, 0x22, 0x3A, 0x3B, 0x3F, 0x21, 0x40, 0x23,
      0x24, 0x25, 0x5E, 0x2A, 0x5C, 0x5F, 0x2B, 0x5B, 0x5D, 0xAB, 0xBB]]"

section \<open>Lookup by table\<close>

definition smart_lookup_table :: "u8 list" where
  "smart_lookup_table = concat
     [[0, 0, 0, 0, 0, 0, 0, 0, 0, 4, 4, 4, 4, 4, 0, 0],
      [0, 0, 0, 0, 0, 0, 0, 0, 0, 0, 0, 0, 0, 0, 0, 0],
      [4, 129, 129, 129, 129, 129, 1, 129, 129, 129, 129, 193, 129, 193, 129, 193],
      [98, 98, 98, 98, 98, 98, 98, 98, 98, 98, 129, 129, 1, 193, 1, 129],
      [129, 112, 112, 112, 112, 112, 112, 80, 80, 80, 80, 80, 80, 80, 80, 80],
      [80, 80, 80, 80, 80, 80, 80, 80, 80, 80, 80, 129, 129, 129, 129, 193],
      [1, 105, 105, 105, 105, 105, 105, 73, 73, 73, 73, 73, 73, 73, 73, 73],
      [73, 73, 73, 73, 73, 73, 73, 73, 73, 73, 73, 1, 1, 1, 1, 1],
      [0, 0, 0, 0, 0, 0, 0, 0, 0, 0, 0, 0, 0, 0, 0, 0],
      [0, 0, 0, 0, 0, 0, 0, 0, 0, 0, 0, 0, 0, 0, 0, 0],
      [0, 0, 0, 0, 0, 0, 0, 0, 0, 0, 0, 0, 0, 0, 0, 0],
      [0, 0, 0, 0, 0, 0, 0, 0, 0, 0, 0, 0, 0, 0, 0, 0],
      [0, 0, 0, 0, 0, 0, 0, 0, 0, 0, 0, 0, 0, 0, 0, 0],
      [0, 0, 0, 0, 0, 0, 0, 0, 0, 0, 0, 0, 0, 0, 0, 0],
      [0, 0, 0, 0, 0, 0, 0, 0, 0, 0, 0, 0, 0, 0, 0, 0],
      [0, 0, 0, 0, 0, 0, 0, 0, 0, 0, 0, 0, 0, 0, 0, 0]]"

definition smart_PunctuationBasic :: u8 where "smart_PunctuationBasic = push_bit 0 1"
definition smart_Numbers :: u8 where "smart_Numbers = push_bit 1 1"
definition smart_WhiteSpace :: u8 where "smart_WhiteSpace = push_bit 2 1"
definition smart_LatinLowercase :: u8 where "smart_LatinLowercase = push_bit 3 1"
definition smart_LatinUppercase :: u8 where "smart_LatinUppercase = push_bit 4 1"
definition smart_Hexadecimial :: u8 where "smart_Hexadecimial = push_bit 5 1"
definition smart_Base64 :: u8 where "smart_Base64 = push_bit 6 1"
definition smart_TextPunctuation :: u8 where "smart_TextPunctuation = push_bit 7 1"

text \<open>The mask of a group whose \<^verbatim>\<open>match\<close> is overridden in \<^verbatim>\<open>SPCharGroup.cc\<close>.\<close>

fun smart_mask :: "CharGroupId \<Rightarrow> u8 option" where
  "smart_mask G_PunctuationBasic = Some smart_PunctuationBasic"
| "smart_mask G_Numbers = Some smart_Numbers"
| "smart_mask G_Latin = Some (smart_LatinLowercase OR smart_LatinUppercase)"
| "smart_mask G_WhiteSpace = Some smart_WhiteSpace"
| "smart_mask G_LatinLowercase = Some smart_LatinLowercase"
| "smart_mask G_LatinUppercase = Some smart_LatinUppercase"
| "smart_mask G_Alphanumeric = Some (smart_LatinLowercase OR smart_LatinUppercase OR smart_Numbers)"
| "smart_mask G_Hexadecimial = Some smart_Hexadecimial"
| "smart_mask G_Base64 = Some smart_Base64"
| "smart_mask G_TextPunctuation = Some smart_TextPunctuation"
| "smart_mask _ = None"

text \<open>\<^verbatim>\<open>CharGroup<char, g>::match\<close>; \<open>None\<close> for a group that has no \<^verbatim>\<open>char\<close> version.\<close>

definition charGroup_match :: "CharGroupId \<Rightarrow> u8 \<Rightarrow> bool option" where
  "charGroup_match g c =
     (case charGroup g of None \<Rightarrow> None
      | Some ms \<Rightarrow> (case smart_mask g of
          Some m \<Rightarrow> Some (smart_lookup_table ! unat c AND m \<noteq> 0)
        | None \<Rightarrow> Some (matchCompose ms c)))"

definition isupper :: "u8 \<Rightarrow> bool" where "isupper c = (charGroup_match G_LatinUppercase c = Some True)"
definition islower :: "u8 \<Rightarrow> bool" where "islower c = (charGroup_match G_LatinLowercase c = Some True)"
definition isdigit :: "u8 \<Rightarrow> bool" where "isdigit c = (charGroup_match G_Numbers c = Some True)"
definition isxdigit :: "u8 \<Rightarrow> bool" where "isxdigit c = (charGroup_match G_Hexadecimial c = Some True)"
definition isspace :: "u8 \<Rightarrow> bool" where "isspace c = (charGroup_match G_WhiteSpace c = Some True)"

section \<open>Groups by mask\<close>

text \<open>The \<^verbatim>\<open>switch\<close> over a mask: only the value of a single enumerator selects a group.\<close>

definition inCharGroup :: "u32 \<Rightarrow> u16 \<Rightarrow> bool" where
  "inCharGroup msk c =
     (case find (\<lambda>g. groupBit g = msk) allGroups of
        None \<Rightarrow> False | Some g \<Rightarrow> matchCompose (char16Group g) c)"

fun inCharGroupMask_from :: "nat list \<Rightarrow> u32 \<Rightarrow> u16 \<Rightarrow> bool" where
  "inCharGroupMask_from [] msk c = False"
| "inCharGroupMask_from (i # is) msk c =
     (if msk AND push_bit i 1 \<noteq> 0 \<and> inCharGroup msk c then True else inCharGroupMask_from is msk c)"

definition inCharGroupMask :: "u32 \<Rightarrow> u16 \<Rightarrow> bool" where
  "inCharGroupMask msk c = inCharGroupMask_from [1..<32] msk c"

section \<open>Properties\<close>

definition table_ok :: "CharGroupId \<Rightarrow> bool" where
  "table_ok g =
     (case (charGroup g, smart_mask g) of
        (Some ms, Some m) \<Rightarrow> map (\<lambda>e. e AND m \<noteq> 0) smart_lookup_table = map (matchCompose ms) (map of_int [0..255])
      | _ \<Rightarrow> True)"

lemma table_ok_PunctuationBasic: "table_ok G_PunctuationBasic"
  by code_simp

lemma table_ok_Numbers: "table_ok G_Numbers"
  by code_simp

lemma table_ok_Latin: "table_ok G_Latin"
  by code_simp

lemma table_ok_WhiteSpace: "table_ok G_WhiteSpace"
  by code_simp

lemma table_ok_LatinLowercase: "table_ok G_LatinLowercase"
  by code_simp

lemma table_ok_LatinUppercase: "table_ok G_LatinUppercase"
  by code_simp

lemma table_ok_Alphanumeric: "table_ok G_Alphanumeric"
  by code_simp

lemma table_ok_Hexadecimial: "table_ok G_Hexadecimial"
  by code_simp

lemma table_ok_Base64: "table_ok G_Base64"
  by code_simp

lemma table_ok_TextPunctuation: "table_ok G_TextPunctuation"
  by code_simp

lemma length_smart_table: "length smart_lookup_table = 256"
  by (simp add: smart_lookup_table_def)

lemma table_ok_all: "table_ok g"
  by (cases g) (simp_all only: table_ok_PunctuationBasic table_ok_Numbers table_ok_Latin table_ok_WhiteSpace table_ok_LatinLowercase table_ok_LatinUppercase table_ok_Alphanumeric table_ok_Hexadecimial table_ok_Base64 table_ok_TextPunctuation, simp_all add: table_ok_def)

lemma allGroups_all: "g \<in> set allGroups"
  by (cases g) (simp_all add: allGroups_def)

lemma charGroup_match_eq: "charGroup_match g c = map_option (\<lambda>ms. matchCompose ms c) (charGroup g)"
proof (cases "charGroup g")
  case (Some ms)
  show ?thesis
  proof (cases "smart_mask g")
    case m: (Some m)
    have "map (\<lambda>e. e AND m \<noteq> 0) smart_lookup_table = map (matchCompose ms) (map of_int [0..255])"
      using table_ok_all [of g] Some m by (simp add: table_ok_def)
    then have "map (\<lambda>e. e AND m \<noteq> 0) smart_lookup_table ! unat c = map (matchCompose ms) (map of_int [0..255]) ! unat c"
      by simp
    moreover have "[0..255] ! unat c = int (unat c)"
      using unat_u8_less [of c] by (subst nth_upto) linarith+
    moreover have "(of_int (int (unat c)) :: u8) = c" by simp
    ultimately show ?thesis
      using Some m by (simp add: charGroup_match_def length_smart_table)
  qed (simp add: charGroup_match_def Some)
qed (simp add: charGroup_match_def)

lemma ctype_eq:
  "isupper c \<longleftrightarrow> 0x41 \<le> c \<and> c \<le> 0x5A" "islower c \<longleftrightarrow> 0x61 \<le> c \<and> c \<le> 0x7A"
  "isdigit c \<longleftrightarrow> 0x30 \<le> c \<and> c \<le> 0x39"
  "isxdigit c \<longleftrightarrow> 0x30 \<le> c \<and> c \<le> 0x39 \<or> 0x41 \<le> c \<and> c \<le> 0x46 \<or> 0x61 \<le> c \<and> c \<le> 0x66"
  "isspace c \<longleftrightarrow> 0x09 \<le> c \<and> c \<le> 0x0D \<or> c = 0x20"
  by (simp_all add: isupper_def islower_def isdigit_def isxdigit_def isspace_def charGroup_match_eq matchCompose_def)

text \<open>
  C39: the lookup table decides every group of \<open>char\<close> as its declared ranges and characters do, and so
  do the classifications built on it.
\<close>

theorem char_table_matches_declaration:
  "charGroup_match g c = map_option (\<lambda>ms. matchCompose ms c) (charGroup g)
   \<and> (isspace c \<longleftrightarrow> 0x09 \<le> c \<and> c \<le> 0x0D \<or> c = 0x20) \<and> (isdigit c \<longleftrightarrow> 0x30 \<le> c \<and> c \<le> 0x39)
   \<and> (isupper c \<longleftrightarrow> 0x41 \<le> c \<and> c \<le> 0x5A) \<and> (islower c \<longleftrightarrow> 0x61 \<le> c \<and> c \<le> 0x7A)"
  using charGroup_match_eq ctype_eq by blast

text \<open>Every group but \<open>G_None\<close> has a bit of its own.\<close>

lemma groupIndex_range: "g \<noteq> G_None \<Longrightarrow> groupIndex g \<in> {1..<32}"
  by (cases g) simp_all

lemma groupBit_power: "g \<noteq> G_None \<Longrightarrow> \<exists>k\<in>{1..<32}. groupBit g = push_bit k 1"
  using groupIndex_range by (auto simp: groupBit_def)

lemma groupBit_inj: "groupBit g = groupBit h \<longleftrightarrow> g = h"
proof -
  have "distinct (map groupBit allGroups)" by code_simp
  then show ?thesis using allGroups_all by (auto simp: distinct_map dest: inj_onD)
qed

lemma inCharGroup_bit: "inCharGroup (groupBit g) c \<longleftrightarrow> matchCompose (char16Group g) c"
proof -
  obtain h where h: "find (\<lambda>h. groupBit h = groupBit g) allGroups = Some h"
    using allGroups_all [of g] by (cases "find (\<lambda>h. groupBit h = groupBit g) allGroups") (auto simp: find_None_iff)
  then have "h = g" by (auto simp: find_Some_iff groupBit_inj)
  with h show ?thesis by (simp add: inCharGroup_def)
qed

lemma inCharGroup_other: "\<forall>g. groupBit g \<noteq> msk \<Longrightarrow> \<not> inCharGroup msk c"
proof -
  assume "\<forall>g. groupBit g \<noteq> msk"
  then have "find (\<lambda>g. groupBit g = msk) allGroups = None" by (simp add: find_None_iff)
  then show ?thesis by (simp add: inCharGroup_def)
qed

lemma inCharGroupMask_from_iff:
  "inCharGroupMask_from is msk c \<longleftrightarrow> inCharGroup msk c \<and> (\<exists>i\<in>set is. msk AND push_bit i 1 \<noteq> 0)"
  by (induction "is") auto

lemma single_bit_and: "k < 32 \<Longrightarrow> push_bit k 1 AND push_bit k 1 \<noteq> (0 :: u32)"
  by (auto simp: bit_eq_iff bit_simps)

text \<open>
  The mask test finds a character exactly when the mask is the value of one group that contains it,
  so for the union of two groups it never finds anything.
\<close>

theorem inCharGroupMask_single_group:
  "inCharGroupMask (groupBit g) c = matchCompose (char16Group g) c
   \<and> (g \<noteq> G_None \<and> h \<noteq> G_None \<and> g \<noteq> h \<longrightarrow> \<not> inCharGroupMask (groupBit g OR groupBit h) c)"
proof (intro conjI impI)
  show "inCharGroupMask (groupBit g) c = matchCompose (char16Group g) c"
  proof (cases "g = G_None")
    case True
    then show ?thesis by (simp add: inCharGroupMask_def inCharGroupMask_from_iff inCharGroup_bit matchCompose_def)
  next
    case False
    then obtain k where "k \<in> {1..<32}" "groupBit g = push_bit k 1" using groupBit_power by blast
    then have "\<exists>i\<in>set [1..<32]. groupBit g AND push_bit i 1 \<noteq> 0"
      using single_bit_and [of k] by (intro bexI [of _ k]) auto
    then show ?thesis by (simp add: inCharGroupMask_def inCharGroupMask_from_iff inCharGroup_bit del: set_upt)
  qed
next
  assume gh: "g \<noteq> G_None \<and> h \<noteq> G_None \<and> g \<noteq> h"
  then obtain k l where k: "k \<in> {1..<32}" "groupBit g = push_bit k 1" and l: "l \<in> {1..<32}" "groupBit h = push_bit l 1"
    using groupBit_power by meson
  have "k \<noteq> l" using gh k l groupBit_inj [of g h] by auto
  have "groupBit f \<noteq> groupBit g OR groupBit h" for f
  proof
    assume e: "groupBit f = groupBit g OR groupBit h"
    have "bit (groupBit f) k" "bit (groupBit f) l"
      using k l unfolding e by (simp_all add: bit_simps)
    moreover from this have "f \<noteq> G_None" by (auto simp: groupBit_def)
    then obtain j where "groupBit f = push_bit j 1" using groupBit_power by blast
    ultimately show False using \<open>k \<noteq> l\<close> by (simp add: bit_simps)
  qed
  then show "\<not> inCharGroupMask (groupBit g OR groupBit h) c"
    using inCharGroup_other by (simp add: inCharGroupMask_def inCharGroupMask_from_iff)
qed

theorem inCharGroupMask_single_group_witness:
  "\<not> inCharGroupMask (groupBit G_Numbers OR groupBit G_Latin) 0x41 \<and> inCharGroupMask (groupBit G_Latin) 0x41"
  using inCharGroupMask_single_group [of G_Numbers "0x41" G_Latin] inCharGroupMask_single_group [of G_Latin "0x41" G_Latin]
  by (simp add: matchCompose_def)

lemma char_punct: "charGroup_match G_PunctuationBasic 0x61 = Some True"
  by code_simp

text \<open>The ranges of the \<^verbatim>\<open>char\<close> punctuation group cover the lower-case letters, those of \<^verbatim>\<open>char16_t\<close> do not.\<close>

lemma punctuation_letter:
  "charGroup_match G_PunctuationBasic 0x61 = Some True" "\<not> matchCompose (char16Group G_PunctuationBasic) 0x61"
  by (simp_all add: char_punct matchCompose_def)

end
