(* ===== verification/Unicode.thy ===== *)
theory Unicode
  imports Prelude
begin

text \<open>
  Models \<^verbatim>\<open>common/string/SPUnicode.h\<close>, \<^verbatim>\<open>common/string/SPUnicode.cc\<close> and the string-building
  templates over them (\<^verbatim>\<open>toUtf8\<close>, \<^verbatim>\<open>toUtf16\<close>, \<^verbatim>\<open>toUtf16Html\<close>, \<^verbatim>\<open>toKoi8r\<close>, \<^verbatim>\<open>_to_decimal\<close>).

  A character pointer is the list of the bytes that may be read from it on; a read past the end of
  that list is \<^verbatim>\<open>OutOfBounds\<close>. A loop that may run forever is a \<^verbatim>\<open>partial_function\<close>: its value is
  \<^verbatim>\<open>None\<close> when it does not return.
\<close>

section \<open>Tables\<close>

definition utf8_length_data :: "u8 list" where
  "utf8_length_data = concat [
    [0, 1, 1, 1, 1, 1, 1, 1, 1, 1, 1, 1, 1, 1, 1, 1, 1, 1, 1, 1, 1, 1, 1, 1, 1, 1, 1, 1, 1, 1, 1, 1],
    [1, 1, 1, 1, 1, 1, 1, 1, 1, 1, 1, 1, 1, 1, 1, 1, 1, 1, 1, 1, 1, 1, 1, 1, 1, 1, 1, 1, 1, 1, 1, 1],
    [1, 1, 1, 1, 1, 1, 1, 1, 1, 1, 1, 1, 1, 1, 1, 1, 1, 1, 1, 1, 1, 1, 1, 1, 1, 1, 1, 1, 1, 1, 1, 1],
    [1, 1, 1, 1, 1, 1, 1, 1, 1, 1, 1, 1, 1, 1, 1, 1, 1, 1, 1, 1, 1, 1, 1, 1, 1, 1, 1, 1, 1, 1, 1, 1],
    [1, 1, 1, 1, 1, 1, 1, 1, 1, 1, 1, 1, 1, 1, 1, 1, 1, 1, 1, 1, 1, 1, 1, 1, 1, 1, 1, 1, 1, 1, 1, 1],
    [1, 1, 1, 1, 1, 1, 1, 1, 1, 1, 1, 1, 1, 1, 1, 1, 1, 1, 1, 1, 1, 1, 1, 1, 1, 1, 1, 1, 1, 1, 1, 1],
    [2, 2, 2, 2, 2, 2, 2, 2, 2, 2, 2, 2, 2, 2, 2, 2, 2, 2, 2, 2, 2, 2, 2, 2, 2, 2, 2, 2, 2, 2, 2, 2],
    [3, 3, 3, 3, 3, 3, 3, 3, 3, 3, 3, 3, 3, 3, 3, 3, 4, 4, 4, 4, 4, 4, 4, 4, 5, 5, 5, 5, 6, 6, 1, 1]]"

definition utf8_length_mask :: "u8 list" where
  "utf8_length_mask = concat [
    [0x00, 0x7f, 0x7f, 0x7f, 0x7f, 0x7f, 0x7f, 0x7f, 0x7f, 0x7f, 0x7f, 0x7f, 0x7f, 0x7f, 0x7f, 0x7f, 0x7f, 0x7f, 0x7f, 0x7f, 0x7f, 0x7f, 0x7f, 0x7f, 0x7f, 0x7f, 0x7f, 0x7f, 0x7f, 0x7f, 0x7f, 0x7f],
    [0x7f, 0x7f, 0x7f, 0x7f, 0x7f, 0x7f, 0x7f, 0x7f, 0x7f, 0x7f, 0x7f, 0x7f, 0x7f, 0x7f, 0x7f, 0x7f, 0x7f, 0x7f, 0x7f, 0x7f, 0x7f, 0x7f, 0x7f, 0x7f, 0x7f, 0x7f, 0x7f, 0x7f, 0x7f, 0x7f, 0x7f, 0x7f],
    [0x7f, 0x7f, 0x7f, 0x7f, 0x7f, 0x7f, 0x7f, 0x7f, 0x7f, 0x7f, 0x7f, 0x7f, 0x7f, 0x7f, 0x7f, 0x7f, 0x7f, 0x7f, 0x7f, 0x7f, 0x7f, 0x7f, 0x7f, 0x7f, 0x7f, 0x7f, 0x7f, 0x7f, 0x7f, 0x7f, 0x7f, 0x7f],
    [0x7f, 0x7f, 0x7f, 0x7f, 0x7f, 0x7f, 0x7f, 0x7f, 0x7f, 0x7f, 0x7f, 0x7f, 0x7f, 0x7f, 0x7f, 0x7f, 0x7f, 0x7f, 0x7f, 0x7f, 0x7f, 0x7f, 0x7f, 0x7f, 0x7f, 0x7f, 0x7f, 0x7f, 0x7f, 0x7f, 0x7f, 0x7f],
    [0x7f, 0x7f, 0x7f, 0x7f, 0x7f, 0x7f, 0x7f, 0x7f, 0x7f, 0x7f, 0x7f, 0x7f, 0x7f, 0x7f, 0x7f, 0x7f, 0x7f, 0x7f, 0x7f, 0x7f, 0x7f, 0x7f, 0x7f, 0x7f, 0x7f, 0x7f, 0x7f, 0x7f, 0x7f, 0x7f, 0x7f, 0x7f],
    [0x7f, 0x7f, 0x7f, 0x7f, 0x7f, 0x7f, 0x7f, 0x7f, 0x7f, 0x7f, 0x7f, 0x7f, 0x7f, 0x7f, 0x7f, 0x7f, 0x7f, 0x7f, 0x7f, 0x7f, 0x7f, 0x7f, 0x7f, 0x7f, 0x7f, 0x7f, 0x7f, 0x7f, 0x7f, 0x7f, 0x7f, 0x7f],
    [0x1f, 0x1f, 0x1f, 0x1f, 0x1f, 0x1f, 0x1f, 0x1f, 0x1f, 0x1f, 0x1f, 0x1f, 0x1f, 0x1f, 0x1f, 0x1f, 0x1f, 0x1f, 0x1f, 0x1f, 0x1f, 0x1f, 0x1f, 0x1f, 0x1f, 0x1f, 0x1f, 0x1f, 0x1f, 0x1f, 0x1f, 0x1f],
    [0x0f, 0x0f, 0x0f, 0x0f, 0x0f, 0x0f, 0x0f, 0x0f, 0x0f, 0x0f, 0x0f, 0x0f, 0x0f, 0x0f, 0x0f, 0x0f, 0x07, 0x07, 0x07, 0x07, 0x07, 0x07, 0x07, 0x07, 0x03, 0x03, 0x03, 0x03, 0x01, 0x01, 0x7f, 0x7f]]"

definition utf8_valid_data :: "u8 list" where
  "utf8_valid_data = concat [
    [0, 1, 1, 1, 1, 1, 1, 1, 1, 1, 1, 1, 1, 1, 1, 1, 1, 1, 1, 1, 1, 1, 1, 1, 1, 1, 1, 1, 1, 1, 1, 1],
    [1, 1, 1, 1, 1, 1, 1, 1, 1, 1, 1, 1, 1, 1, 1, 1, 1, 1, 1, 1, 1, 1, 1, 1, 1, 1, 1, 1, 1, 1, 1, 1],
    [1, 1, 1, 1, 1, 1, 1, 1, 1, 1, 1, 1, 1, 1, 1, 1, 1, 1, 1, 1, 1, 1, 1, 1, 1, 1, 1, 1, 1, 1, 1, 1],
    [1, 1, 1, 1, 1, 1, 1, 1, 1, 1, 1, 1, 1, 1, 1, 1, 1, 1, 1, 1, 1, 1, 1, 1, 1, 1, 1, 1, 1, 1, 1, 1],
    [0, 0, 0, 0, 0, 0, 0, 0, 0, 0, 0, 0, 0, 0, 0, 0, 0, 0, 0, 0, 0, 0, 0, 0, 0, 0, 0, 0, 0, 0, 0, 0],
    [0, 0, 0, 0, 0, 0, 0, 0, 0, 0, 0, 0, 0, 0, 0, 0, 0, 0, 0, 0, 0, 0, 0, 0, 0, 0, 0, 0, 0, 0, 0, 0],
    [2, 2, 2, 2, 2, 2, 2, 2, 2, 2, 2, 2, 2, 2, 2, 2, 2, 2, 2, 2, 2, 2, 2, 2, 2, 2, 2, 2, 2, 2, 2, 2],
    [3, 3, 3, 3, 3, 3, 3, 3, 3, 3, 3, 3, 3, 3, 3, 3, 4, 4, 4, 4, 4, 4, 4, 4, 5, 5, 5, 5, 6, 6, 0, 0]]"

definition sp_uppercase_set :: "u8 list" where
  "sp_uppercase_set = [
    0xD0, 0x90, 0xD0, 0x91, 0xD0, 0x92, 0xD0, 0x93, 0xD0, 0x94, 0xD0, 0x95, 0xD0, 0x81, 0xD0, 0x96, 0xD0, 0x97, 0xD0, 0x98, 0xD0, 0x99,
    0xD0, 0x9A, 0xD0, 0x9B, 0xD0, 0x9C, 0xD0, 0x9D, 0xD0, 0x9E, 0xD0, 0x9F, 0xD0, 0xA0, 0xD0, 0xA1, 0xD0, 0xA2, 0xD0, 0xA3, 0xD0, 0xA4,
    0xD0, 0xA5, 0xD0, 0xA6, 0xD0, 0xA7, 0xD0, 0xA8, 0xD0, 0xA9, 0xD0, 0xAA, 0xD0, 0xAB, 0xD0, 0xAC, 0xD0, 0xAD, 0xD0, 0xAE, 0xD0, 0xAF]"

definition sp_lowercase_set :: "u8 list" where
  "sp_lowercase_set = [
    0xD0, 0xB0, 0xD0, 0xB1, 0xD0, 0xB2, 0xD0, 0xB3, 0xD0, 0xB4, 0xD0, 0xB5, 0xD1, 0x91, 0xD0, 0xB6, 0xD0, 0xB7, 0xD0, 0xB8, 0xD0, 0xB9,
    0xD0, 0xBA, 0xD0, 0xBB, 0xD0, 0xBC, 0xD0, 0xBD, 0xD0, 0xBE, 0xD0, 0xBF, 0xD1, 0x80, 0xD1, 0x81, 0xD1, 0x82, 0xD1, 0x83, 0xD1, 0x84,
    0xD1, 0x85, 0xD1, 0x86, 0xD1, 0x87, 0xD1, 0x88, 0xD1, 0x89, 0xD1, 0x8A, 0xD1, 0x8B, 0xD1, 0x8C, 0xD1, 0x8D, 0xD1, 0x8E, 0xD1, 0x8F]"

definition sp_uppercase_set_16 :: "u16 list" where
  "sp_uppercase_set_16 = [
    0x0410, 0x0411, 0x0412, 0x0413, 0x0414, 0x0415, 0x0401, 0x0416, 0x0417, 0x0418, 0x0419,
    0x041A, 0x041B, 0x041C, 0x041D, 0x041E, 0x041F, 0x0420, 0x0421, 0x0422, 0x0423, 0x0424,
    0x0425, 0x0426, 0x0427, 0x0428, 0x0429, 0x042A, 0x042B, 0x042C, 0x042D, 0x042E, 0x042F]"

definition sp_lowercase_set_16 :: "u16 list" where
  "sp_lowercase_set_16 = [
    0x0430, 0x0431, 0x0432, 0x0433, 0x0434, 0x0435, 0x0451, 0x0436, 0x0437, 0x0438, 0x0439,
    0x043A, 0x043B, 0x043C, 0x043D, 0x043E, 0x043F, 0x0440, 0x0441, 0x0442, 0x0443, 0x0444,
    0x0445, 0x0446, 0x0447, 0x0448, 0x0449, 0x044A, 0x044B, 0x044C, 0x044D, 0x044E, 0x044F]"

text \<open>What the length tables say of each byte, by ranges.\<close>

lemma length_table_ranges:
  "utf8_length_data = replicate 1 0 @ replicate 191 1 @ replicate 32 2 @ replicate 16 3
     @ replicate 8 4 @ replicate 4 5 @ replicate 2 6 @ replicate 2 1"
  "utf8_valid_data = replicate 1 0 @ replicate 127 1 @ replicate 64 0 @ replicate 32 2 @ replicate 16 3
     @ replicate 8 4 @ replicate 4 5 @ replicate 2 6 @ replicate 2 0"
  "utf8_length_mask = replicate 1 0 @ replicate 191 0x7f @ replicate 32 0x1f @ replicate 16 0x0f
     @ replicate 8 0x07 @ replicate 4 0x03 @ replicate 2 0x01 @ replicate 2 0x7f"
  by code_simp+

text \<open>Reading a table that is a sequence of constant runs.\<close>

lemma nth_run: "0 < n \<Longrightarrow> (replicate n x @ ys) ! (k - a) = (if k < a + n then x else ys ! (k - (a + n)))"
  by (auto simp: nth_append)

lemma nth_first_run: "0 < n \<Longrightarrow> (replicate n x @ ys) ! k = (if k < n then x else ys ! (k - n))"
  by (simp add: nth_append)

lemma nth_last_run: "k < a + n \<Longrightarrow> 0 < n \<Longrightarrow> replicate n x ! (k - a) = x"
  by simp

lemma utf8_length:
  "unat (utf8_length_data ! unat (b :: u8)) =
     (if b = 0 then 0 else if b < 0xC0 then 1 else if b < 0xE0 then 2 else if b < 0xF0 then 3
      else if b < 0xF8 then 4 else if b < 0xFC then 5 else if b < 0xFE then 6 else 1)"
proof -
  have "b = 0 \<longleftrightarrow> unat b < 1" by (simp add: unat_eq_0)
  then show ?thesis
    unfolding length_table_ranges
    by (subst nth_first_run, simp, simp only: nth_run zero_less_numeral zero_less_one)
      (use unat_u8_less [of b] in \<open>simp add: word_less_nat_alt nth_last_run\<close>)
qed

lemma utf8_mask:
  "utf8_length_mask ! unat (b :: u8) =
     (if b = 0 then 0 else if b < 0xC0 then 0x7f else if b < 0xE0 then 0x1f else if b < 0xF0 then 0x0f
      else if b < 0xF8 then 0x07 else if b < 0xFC then 0x03 else if b < 0xFE then 0x01 else 0x7f)"
proof -
  have "b = 0 \<longleftrightarrow> unat b < 1" by (simp add: unat_eq_0)
  then show ?thesis
    unfolding length_table_ranges
    by (subst nth_first_run, simp, simp only: nth_run zero_less_numeral zero_less_one)
      (use unat_u8_less [of b] in \<open>simp add: word_less_nat_alt nth_last_run\<close>)
qed

lemma utf8_valid:
  "unat (utf8_valid_data ! unat (b :: u8)) =
     (if b = 0 then 0 else if b < 0x80 then 1 else if b < 0xC0 then 0 else if b < 0xE0 then 2
      else if b < 0xF0 then 3 else if b < 0xF8 then 4 else if b < 0xFC then 5 else if b < 0xFE then 6
      else 0)"
proof -
  have "b = 0 \<longleftrightarrow> unat b < 1" by (simp add: unat_eq_0)
  then show ?thesis
    unfolding length_table_ranges
    by (subst nth_first_run, simp, simp only: nth_run zero_less_numeral zero_less_one)
      (use unat_u8_less [of b] in \<open>simp add: word_less_nat_alt nth_last_run\<close>)
qed

section \<open>UTF-8 coding of UCS-2 characters\<close>

text \<open>The loop over the continuation bytes of a sequence; a wrong byte makes the result 0.\<close>

fun utf8_continue :: "nat \<Rightarrow> u32 \<Rightarrow> u8 list \<Rightarrow> fault + u32" where
  "utf8_continue 0 ret p = Inr ret"
| "utf8_continue (Suc n) ret [] = Inl OutOfBounds"
| "utf8_continue (Suc n) ret (b # p) =
     (if b AND 0xc0 \<noteq> 0x80 then Inr 0
      else utf8_continue n (push_bit 6 ret OR ucast (b AND 0x3f)) p)"

text \<open>\<^verbatim>\<open>unicode::utf8Decode\<close>: the character and the length the first byte announces.\<close>

fun unicode_utf8Decode :: "u8 list \<Rightarrow> fault + u16 \<times> nat" where
  "unicode_utf8Decode [] = Inl OutOfBounds"
| "unicode_utf8Decode (b # p) =
     (let mask = utf8_length_mask ! unat b;
          len = unat (utf8_length_data ! unat b)
      in case utf8_continue (len - 1) (ucast (b AND mask)) p of
           Inl e \<Rightarrow> Inl e
         | Inr ret \<Rightarrow> Inr (ucast ret, len))"

definition utf8EncodeLength :: "u16 \<Rightarrow> nat" where
  "utf8EncodeLength c = (if c < 0x80 then 1 else if c < 0x800 then 2 else 3)"

text \<open>The bytes the encoders of a \<^verbatim>\<open>char16_t\<close> append (or write into the buffer).\<close>

definition utf8Encode :: "u16 \<Rightarrow> u8 list" where
  "utf8Encode c =
     (if c < 0x80 then [ucast c]
      else if c < 0x800 then [0xc0 OR ucast (drop_bit 6 c), 0x80 OR ucast (c AND 0x3f)]
      else [0xe0 OR ucast (drop_bit 12 c), 0x80 OR ucast (drop_bit 6 c AND 0x3f),
            0x80 OR ucast (c AND 0x3f)])"

text \<open>The \<^verbatim>\<open>char32_t\<close> encoder: the bytes appended and the count returned.\<close>

definition utf8Encode32 :: "u32 \<Rightarrow> u8 list \<times> nat" where
  "utf8Encode32 c =
     (if c < 0x80 then ([ucast c], 1)
      else if c < 0x800 then ([ucast (0xc0 OR drop_bit 6 c), ucast (0x80 OR (c AND 0x3f))], 2)
      else if c < 0xFFFF then
        ([ucast (0xe0 OR (drop_bit 12 c AND 0x0F)), ucast (0x80 OR (drop_bit 6 c AND 0x3f)),
          ucast (0x80 OR (c AND 0x3f))], 3)
      else if c < 0x10FFFF then
        ([ucast (0xf0 OR (drop_bit 18 c AND 0x07)), ucast (0x80 OR (drop_bit 12 c AND 0x3F)),
          ucast (0x80 OR (drop_bit 6 c AND 0x3f)), ucast (0x80 OR (c AND 0x3f))], 3)
      else ([], 0))"

definition utf16Encode :: "u32 \<Rightarrow> u16 list" where
  "utf16Encode c =
     (if c \<le> 0xFFFF then [ucast (c AND 0xFFFF)]
      else if c > 0x10FFFF then [0xFFFD]
      else (let c = c - 0x10000 in [ucast (drop_bit 10 c + 0xD800), ucast ((c AND 0x3FF) + 0xDC00)]))"

definition isUtf8Surrogate :: "u8 \<Rightarrow> bool" where
  "isUtf8Surrogate c \<longleftrightarrow> c AND 0xC0 = 0x80"

text \<open>\<^verbatim>\<open>string::utf8Decode\<close> advances the pointer; a sequence of more than three bytes is a blank.\<close>

definition string_utf8Decode :: "u8 list \<Rightarrow> fault + u16 \<times> u8 list" where
  "string_utf8Decode ptr =
     (case unicode_utf8Decode ptr of
        Inl e \<Rightarrow> Inl e
      | Inr (ret, len) \<Rightarrow> Inr (if len > 3 then 0x20 else ret, drop len ptr))"

text \<open>
  \<^verbatim>\<open>StringTraits::toUtf16\<close>. A pointer moved past the end of the view stops the loop. The length of
  byte 0 is 0, so the pointer does not move on it.
\<close>

partial_function (option) toUtf16_loop :: "u8 list \<Rightarrow> u16 list \<Rightarrow> (fault + u16 list) option" where
  "toUtf16_loop ptr utf16_str =
     (if ptr = [] then Some (Inr utf16_str)
      else case string_utf8Decode ptr of
             Inl e \<Rightarrow> Some (Inl e)
           | Inr (c, ptr') \<Rightarrow> toUtf16_loop ptr' (utf16_str @ [c]))"

definition toUtf16 :: "u8 list \<Rightarrow> (fault + u16 list) option" where
  "toUtf16 utf8_str = toUtf16_loop utf8_str []"

definition toUtf8 :: "u16 list \<Rightarrow> u8 list" where
  "toUtf8 str = fold (\<lambda>c ret. ret @ utf8Encode c) str []"

definition getUtf8Length :: "u16 list \<Rightarrow> nat" where
  "getUtf8Length str = fold (\<lambda>c ret. ret + utf8EncodeLength c) str 0"

text \<open>\<^verbatim>\<open>getUtf16Length\<close> stops at the first zero byte.\<close>

function getUtf16Length :: "u8 list \<Rightarrow> nat" where
  "getUtf16Length [] = 0"
| "getUtf16Length (b # p) =
     (if b = 0 then 0 else Suc (getUtf16Length (drop (unat (utf8_length_data ! unat b)) (b # p))))"
  by pat_completeness auto
termination
proof (relation "measure length")
  fix b :: u8 and p :: "u8 list"
  assume "b \<noteq> 0"
  then have "0 < unat (utf8_length_data ! unat b)" by (simp add: utf8_length)
  then show "(drop (unat (utf8_length_data ! unat b)) (b # p), b # p) \<in> measure length"
    by (simp add: drop_Cons')
qed simp

definition getUtf16Length32 :: "u32 \<Rightarrow> nat" where
  "getUtf16Length32 ch = (if ch > 0xFFFF then 2 else 1)"

text \<open>
  \<^verbatim>\<open>isValidUtf8\<close>: \<open>n\<close> bytes are left in the view, \<open>mem\<close> are the bytes that may be read. The inner
  loop checks the continuation bytes without looking at the end of the view.
\<close>

fun valid_continue :: "nat \<Rightarrow> u8 list \<Rightarrow> fault + bool" where
  "valid_continue 0 mem = Inr True"
| "valid_continue (Suc l) [] = Inl OutOfBounds"
| "valid_continue (Suc l) (b # mem) =
     (if b AND 0xC0 \<noteq> 0x80 then Inr False else valid_continue l mem)"

function isValidUtf8 :: "nat \<Rightarrow> u8 list \<Rightarrow> fault + bool" where
  "isValidUtf8 0 mem = Inr True"
| "isValidUtf8 (Suc n) [] = Inl OutOfBounds"
| "isValidUtf8 (Suc n) (b # mem) =
     (if b = 0 then Inr True
      else let l = unat (utf8_valid_data ! unat b) in
        if l = 0 then Inr False
        else if l = 1 then isValidUtf8 n mem
        else case valid_continue (l - 1) mem of
               Inl e \<Rightarrow> Inl e
             | Inr ok \<Rightarrow> if ok then isValidUtf8 (n - (l - 1)) (drop (l - 1) mem) else Inr False)"
  by pat_completeness auto
termination
  by (relation "measure fst") auto

section \<open>HTML entities\<close>

text \<open>\<^verbatim>\<open>strncmp(ptr, s, len) == 0\<close> on a zero-terminated literal \<open>s\<close>, reading no further than needed.\<close>

fun strncmp_eq :: "u8 list \<Rightarrow> u8 list \<Rightarrow> nat \<Rightarrow> bool" where
  "strncmp_eq p s 0 \<longleftrightarrow> True"
| "strncmp_eq p [] (Suc n) \<longleftrightarrow> (case p of [] \<Rightarrow> True | a # p' \<Rightarrow> a = 0)"
| "strncmp_eq p (b # s) (Suc n) \<longleftrightarrow> (case p of [] \<Rightarrow> False | a # p' \<Rightarrow> a = b \<and> strncmp_eq p' s n)"

text \<open>\<^verbatim>\<open>strtol\<close>: blanks, a sign, an optional \<^verbatim>\<open>0x\<close> for base 16, digits. The entities are at most ten
  characters long, so the value never reaches the limits of \<^verbatim>\<open>long\<close>.\<close>

definition digit_value :: "u8 \<Rightarrow> nat" where
  "digit_value c =
     (if 0x30 \<le> c \<and> c \<le> 0x39 then unat c - 0x30
      else if 0x61 \<le> c \<and> c \<le> 0x7a then unat c - 0x61 + 10
      else if 0x41 \<le> c \<and> c \<le> 0x5a then unat c - 0x41 + 10 else 99)"

fun strtol_digits :: "nat \<Rightarrow> nat \<Rightarrow> u8 list \<Rightarrow> nat" where
  "strtol_digits base acc [] = acc"
| "strtol_digits base acc (c # p) =
     (if digit_value c < base then strtol_digits base (acc * base + digit_value c) p else acc)"

definition c_isspace :: "u8 \<Rightarrow> bool" where
  "c_isspace c \<longleftrightarrow> c = 0x20 \<or> (0x09 \<le> c \<and> c \<le> 0x0d)"

definition strtol_prefix :: "nat \<Rightarrow> u8 list \<Rightarrow> u8 list" where
  "strtol_prefix base p =
     (if base = 16 then
        (case p of a # b # c # r \<Rightarrow>
           if a = 0x30 \<and> (b = 0x78 \<or> b = 0x58) \<and> digit_value c < 16 then c # r else p
         | _ \<Rightarrow> p)
      else p)"

definition strtol :: "nat \<Rightarrow> u8 list \<Rightarrow> int" where
  "strtol base p =
     (case dropWhile c_isspace p of
        [] \<Rightarrow> 0
      | s # r \<Rightarrow>
          if s = 0x2d then - int (strtol_digits base 0 (strtol_prefix base r))
          else if s = 0x2b then int (strtol_digits base 0 (strtol_prefix base r))
          else int (strtol_digits base 0 (strtol_prefix base (s # r))))"

text \<open>\<^verbatim>\<open>Utf8DecodeHtml\<close>; \<open>ptr\<close> is the text after the ampersand, up to and past the semicolon.\<close>

definition Utf8DecodeHtml :: "u8 list \<Rightarrow> nat \<Rightarrow> u16" where
  "Utf8DecodeHtml ptr len =
     (if ptr ! 0 = of_char CHR ''#'' then
        (if len > 1 \<and> (ptr ! 1 = of_char CHR ''x'' \<or> ptr ! 1 = of_char CHR ''X'')
         then word_of_int (strtol 16 (drop 2 ptr))
         else word_of_int (strtol 10 (drop 1 ptr)))
      else if strncmp_eq ptr (ascii ''amp'') len then of_char CHR ''&''
      else if strncmp_eq ptr (ascii ''nbsp'') len then 0xA0
      else if strncmp_eq ptr (ascii ''quot'') len then 0x22
      else if strncmp_eq ptr (ascii ''apos'') len then 0x27
      else if strncmp_eq ptr (ascii ''lt'') len then of_char CHR ''<''
      else if strncmp_eq ptr (ascii ''gt'') len then of_char CHR ''>''
      else if strncmp_eq ptr (ascii ''shy'') len then 0x00AD
      else 0)"

text \<open>The search for the semicolon: the first index of a zero byte, a semicolon or 10.\<close>

fun entity_scan :: "nat \<Rightarrow> nat \<Rightarrow> u8 list \<Rightarrow> fault + nat" where
  "entity_scan 0 len p = (case p of [] \<Rightarrow> Inl OutOfBounds | _ \<Rightarrow> Inr len)"
| "entity_scan (Suc n) len [] = Inl OutOfBounds"
| "entity_scan (Suc n) len (b # p) =
     (if b = 0 \<or> b = of_char CHR '';'' then Inr len else entity_scan n (Suc len) p)"

definition utf8HtmlDecode :: "u8 list \<Rightarrow> fault + u16 \<times> u8 list" where
  "utf8HtmlDecode utf8 =
     (case utf8 of [] \<Rightarrow> Inl OutOfBounds
      | b # p \<Rightarrow>
        if b = of_char CHR ''&'' then
          (case entity_scan 10 0 utf8 of
             Inl e \<Rightarrow> Inl e
           | Inr len \<Rightarrow>
               (let c = if utf8 ! len = of_char CHR '';'' \<and> len > 2
                        then Utf8DecodeHtml p (len - 2) else 0
                in if c = 0 then string_utf8Decode utf8 else Inr (c, drop (len + 1) utf8)))
        else string_utf8Decode utf8)"

partial_function (option) toUtf16Html_loop :: "u8 list \<Rightarrow> u16 list \<Rightarrow> (fault + u16 list) option" where
  "toUtf16Html_loop ptr utf16_str =
     (if ptr = [] then Some (Inr utf16_str)
      else case utf8HtmlDecode ptr of
             Inl e \<Rightarrow> Some (Inl e)
           | Inr (c, ptr') \<Rightarrow> toUtf16Html_loop ptr' (utf16_str @ [c]))"

definition toUtf16Html :: "u8 list \<Rightarrow> (fault + u16 list) option" where
  "toUtf16Html utf8_str = toUtf16Html_loop utf8_str []"

text \<open>The length reserved for it; the pointer is left on the semicolon, which is then counted too.\<close>

lemma entity_scan_from: "entity_scan n l p = Inr m \<Longrightarrow> l \<le> m"
  by (induction n l p rule: entity_scan.induct) (auto split: list.splits if_splits)

lemma entity_scan_moves: "entity_scan 10 0 (0x26 # p) = Inr m \<Longrightarrow> 0 < m"
proof -
  assume "entity_scan 10 0 (0x26 # p) = Inr m"
  moreover have "entity_scan 10 0 (0x26 # p) = entity_scan 9 (Suc 0) p"
    using entity_scan.simps(3) [of 9 0 "0x26" p] by simp
  ultimately show ?thesis using entity_scan_from [of 9 "Suc 0" p m] by simp
qed

lemma utf8_length_moves: "b \<noteq> 0 \<Longrightarrow> 0 < unat (utf8_length_data ! unat (b :: u8))"
  by (simp add: utf8_length)

function getUtf16HtmlLength :: "u8 list \<Rightarrow> nat \<Rightarrow> fault + nat" where
  "getUtf16HtmlLength [] counter = Inr counter"
| "getUtf16HtmlLength (b # p) counter =
     (if b = 0 then Inr counter
      else if b = of_char CHR ''&'' then
        (case entity_scan 10 0 (b # p) of
           Inl e \<Rightarrow> Inl e
         | Inr len \<Rightarrow>
             if (b # p) ! len = of_char CHR '';'' \<and> len > 2
             then getUtf16HtmlLength (drop len (b # p)) (counter + 1)
             else if (b # p) ! len = 0 then getUtf16HtmlLength (drop len (b # p)) counter
             else getUtf16HtmlLength (drop (unat (utf8_length_data ! unat b)) (b # p)) (counter + 1))
      else getUtf16HtmlLength (drop (unat (utf8_length_data ! unat b)) (b # p)) (counter + 1))"
  by pat_completeness auto
termination
  by (relation "measure (\<lambda>(p, c). length p)")
    (auto simp: drop_Cons' utf8_length_moves utf8_length_moves [of "0x26", simplified]
      dest!: entity_scan_moves)

section \<open>Letter case\<close>

text \<open>\<^verbatim>\<open>::tolower\<close> and \<^verbatim>\<open>::toupper\<close> of the C library in the C locale.\<close>

definition c_tolower :: "nat \<Rightarrow> nat" where
  "c_tolower c = (if 65 \<le> c \<and> c \<le> 90 then c + 32 else c)"

definition c_toupper :: "nat \<Rightarrow> nat" where
  "c_toupper c = (if 97 \<le> c \<and> c \<le> 122 then c - 32 else c)"

fun set16_search :: "u16 list \<Rightarrow> u16 list \<Rightarrow> u16 \<Rightarrow> nat \<Rightarrow> u16" where
  "set16_search target [] c index = c"
| "set16_search target (s # str) c index =
     (if s = c then target ! index else set16_search target str c (index + 1))"

definition tolower16 :: "u16 \<Rightarrow> u16" where
  "tolower16 c =
     (if c < 128 then of_nat (c_tolower (unat c))
      else set16_search sp_lowercase_set_16 sp_uppercase_set_16 c 0)"

definition toupper16 :: "u16 \<Rightarrow> u16" where
  "toupper16 c =
     (if c < 128 then of_nat (c_toupper (unat c))
      else set16_search sp_uppercase_set_16 sp_lowercase_set_16 c 0)"

text \<open>\<^verbatim>\<open>sp_str_replace\<close>: the first position of the pair; only even positions are replaced.\<close>

fun sp_str_replace :: "u8 list \<Rightarrow> nat \<Rightarrow> u8 list \<Rightarrow> u8 \<Rightarrow> u8 \<Rightarrow> u8 \<times> u8" where
  "sp_str_replace target i (s0 # s1 # str) b c =
     (if s0 = b \<and> s1 = c
      then (if i mod 2 = 0 then (target ! i, target ! (i + 1)) else (b, c))
      else sp_str_replace target (i + 1) (s1 # str) b c)"
| "sp_str_replace target i _ b c = (b, c)"

definition toupper_pair :: "u8 \<Rightarrow> u8 \<Rightarrow> u8 \<times> u8" where
  "toupper_pair b c = sp_str_replace sp_uppercase_set 0 sp_lowercase_set b c"

definition tolower_pair :: "u8 \<Rightarrow> u8 \<Rightarrow> u8 \<times> u8" where
  "tolower_pair b c = sp_str_replace sp_lowercase_set 0 sp_uppercase_set b c"

text \<open>
  The loop of \<^verbatim>\<open>toupper_buf\<close> and \<^verbatim>\<open>tolower_buf\<close>: \<open>b\<close> is the previous byte as it was read, \<open>buf\<close> the
  bytes before \<open>i\<close> as they are now, latest first.
\<close>

fun case_buf :: "(u8 \<Rightarrow> u8 \<Rightarrow> u8 \<times> u8) \<Rightarrow> (nat \<Rightarrow> nat) \<Rightarrow> u8 \<Rightarrow> u8 list \<Rightarrow> u8 list \<Rightarrow> u8 list" where
  "case_buf pair ch b buf [] = rev buf"
| "case_buf pair ch b buf (c # str) =
     (if b AND 0x80 \<noteq> 0
      then (let (p, q) = pair (hd buf) c in case_buf pair ch c (q # p # tl buf) str)
      else case_buf pair ch c (of_nat (ch (unat c)) # buf) str)"

definition toupper_buf :: "u8 list \<Rightarrow> u8 list" where
  "toupper_buf str = case_buf toupper_pair c_toupper 0 [] str"

definition tolower_buf :: "u8 list \<Rightarrow> u8 list" where
  "tolower_buf str = case_buf tolower_pair c_tolower 0 [] str"

definition toupper_buf16 :: "u16 list \<Rightarrow> u16 list" where
  "toupper_buf16 str = map toupper16 str"

definition tolower_buf16 :: "u16 list \<Rightarrow> u16 list" where
  "tolower_buf16 str = map tolower16 str"

definition isspace16 :: "u16 \<Rightarrow> bool" where
  "isspace16 ch \<longleftrightarrow> (ch \<ge> 0x0009 \<and> ch \<le> 0x000D) \<or> ch = 0x0020 \<or> ch = 0x0085 \<or> ch = 0x00A0 \<or> ch = 0x1680
    \<or> (ch \<ge> 0x2000 \<and> ch \<le> 0x200A) \<or> ch = 0x2028 \<or> ch = 0x2029 \<or> ch = 0x202F
    \<or> ch = 0x205F \<or> ch = 0x3000 \<or> ch = 0xFFFF"

definition isspace_ptr :: "u8 list \<Rightarrow> fault + bool" where
  "isspace_ptr ch =
     (case ch of [] \<Rightarrow> Inl OutOfBounds
      | b # p \<Rightarrow>
        if b = 0 then Inr False
        else if b \<le> 127 then Inr (c_isspace b)
        else case unicode_utf8Decode ch of Inl e \<Rightarrow> Inl e | Inr (c, len) \<Rightarrow> Inr (isspace16 c))"

section \<open>KOI8-R\<close>

definition koi8r_small :: "u8 list" where
  "koi8r_small = [
    0xE1, 0xE2, 0xF7, 0xE7, 0xE4, 0xE5, 0xF6, 0xFA, 0xE9, 0xEA, 0xEB, 0xEC, 0xED, 0xEE, 0xEF, 0xF0,
    0xF2, 0xF3, 0xF4, 0xF5, 0xE6, 0xE8, 0xE3, 0xFE, 0xFB, 0xFD, 0xFF, 0xF9, 0xF8, 0xFC, 0xE0, 0xF1,
    0xC1, 0xC2, 0xD7, 0xC7, 0xC4, 0xC5, 0xD6, 0xDA, 0xC9, 0xCA, 0xCB, 0xCC, 0xCD, 0xCE, 0xCF, 0xD0,
    0xD2, 0xD3, 0xD4, 0xD5, 0xC6, 0xC8, 0xC3, 0xDE, 0xDB, 0xDD, 0xDF, 0xD9, 0xD8, 0xDC, 0xC0, 0xD1]"

definition koi8r_cases :: "(u16 \<times> u8) list" where
  "koi8r_cases = [
    (0x2500, 0x80), (0x2502, 0x81), (0x250C, 0x82), (0x2510, 0x83), (0x2514, 0x84), (0x2518, 0x85), (0x251C, 0x86), (0x2524, 0x87),
    (0x252C, 0x88), (0x2534, 0x89), (0x253C, 0x8A), (0x2580, 0x8B), (0x2584, 0x8C), (0x2588, 0x8D), (0x258C, 0x8E), (0x2590, 0x8F),
    (0x2591, 0x90), (0x2592, 0x91), (0x2593, 0x92), (0x2320, 0x93), (0x25A0, 0x94), (0x2219, 0x95), (0x221A, 0x96), (0x2248, 0x97),
    (0x2264, 0x98), (0x2265, 0x99), (0x00A0, 0x9A), (0x2321, 0x9B), (0x00B0, 0x9C), (0x00B2, 0x9D), (0x00B7, 0x9E), (0x00F7, 0x9F),
    (0x2550, 0xA0), (0x2551, 0xA1), (0x2552, 0xA2), (0x0451, 0xA3), (0x2553, 0xA4), (0x2554, 0xA5), (0x2555, 0xA6), (0x2556, 0xA7),
    (0x2557, 0xA8), (0x2558, 0xA9), (0x2559, 0xAA), (0x255A, 0xAB), (0x255B, 0xAC), (0x255C, 0xAD), (0x255D, 0xAE), (0x255E, 0xAF),
    (0x255F, 0xB0), (0x2560, 0xB1), (0x2561, 0xB2), (0x0401, 0xB3), (0x2562, 0xB4), (0x2563, 0xB5), (0x2564, 0xB6), (0x2565, 0xB7),
    (0x2566, 0xB8), (0x2567, 0xB9), (0x2568, 0xBA), (0x2569, 0xBB), (0x256A, 0xBC), (0x256B, 0xBD), (0x256C, 0xBE), (0x00A9, 0xBF)]"

definition charToKoi8r :: "u16 \<Rightarrow> u8" where
  "charToKoi8r c =
     (if c \<le> 0x7f then ucast (c AND 0xFF)
      else if c \<ge> 0x0430 \<and> c \<le> 0x044F then koi8r_small ! (unat c - 0x0430 + 32)
      else if c \<ge> 0x0410 \<and> c \<le> 0x042F then koi8r_small ! ((unat c - 0x41) mod 64)
      else (case map_of koi8r_cases c of Some k \<Rightarrow> k | None \<Rightarrow> 0x20))"

definition toKoi8r :: "u16 list \<Rightarrow> u8 list" where
  "toKoi8r str = fold (\<lambda>c ret. ret @ [charToKoi8r c]) str []"

section \<open>Decimal numbers\<close>

text \<open>\<^verbatim>\<open>unsigned_to_decimal\<close>: the digits are written lowest first and reversed in place.\<close>

function decimal_digits :: "u64 \<Rightarrow> u8 list" where
  "decimal_digits number =
     (if number \<noteq> 0 then (0x30 + ucast (number mod 10)) # decimal_digits (number div 10) else [])"
  by pat_completeness auto
termination
  by (relation "measure unat") (auto simp: unat_div unat_gt_0)

declare decimal_digits.simps [simp del]

definition unsigned_to_decimal :: "u64 \<Rightarrow> u8 list" where
  "unsigned_to_decimal number = (if number \<noteq> 0 then rev (decimal_digits number) else [0x30])"

definition to_decimal_signed :: "64 word \<Rightarrow> u8 list" where
  "to_decimal_signed number =
     (if number <s 0 then 0x2d # unsigned_to_decimal (- number) else unsigned_to_decimal number)"


section \<open>Encoding and decoding a character\<close>

text \<open>Lead and continuation bytes, checked over their payload bits.\<close>

lemma utf8_byte_checks:
  "\<forall>k<64. (0x80 OR of_nat k :: u8) AND 0xc0 = 0x80 \<and> (0x80 OR of_nat k :: u8) AND 0x3f = of_nat k"
  "\<forall>k<32. (let b = 0xc0 OR of_nat k :: u8 in b \<noteq> 0 \<and> \<not> b < 0xC0 \<and> b < 0xE0 \<and> b AND 0x1f = of_nat k)"
  "\<forall>k<16. (let b = 0xe0 OR of_nat k :: u8 in b \<noteq> 0 \<and> \<not> b < 0xC0 \<and> \<not> b < 0xE0 \<and> b < 0xF0 \<and> b AND 0x0f = of_nat k)"
  by code_simp+

lemma utf8_cont_byte:
  assumes "unat (x :: u8) < 64"
  shows "(0x80 OR x) AND 0xc0 = 0x80" "(0x80 OR x) AND 0x3f = x"
  using utf8_byte_checks(1) [rule_format, OF assms] by (simp_all only: of_nat_unat ucast_id)

lemma utf8_lead2:
  assumes "unat (x :: u8) < 32"
  shows "0xc0 OR x \<noteq> 0" "\<not> 0xc0 OR x < 0xC0" "0xc0 OR x < 0xE0" "(0xc0 OR x) AND 0x1f = x"
  using utf8_byte_checks(2) [rule_format, OF assms] by (simp_all only: of_nat_unat ucast_id Let_def simp_thms)

lemma utf8_lead3:
  assumes "unat (x :: u8) < 16"
  shows "0xe0 OR x \<noteq> 0" "\<not> 0xe0 OR x < 0xC0" "\<not> 0xe0 OR x < 0xE0" "0xe0 OR x < 0xF0" "(0xe0 OR x) AND 0x0f = x"
  using utf8_byte_checks(3) [rule_format, OF assms] by (simp_all only: of_nat_unat ucast_id Let_def simp_thms)

lemma unat_u8_of_u16: "unat (ucast (w :: u16) :: u8) = unat w mod 256"
  by (simp add: unsigned_ucast_eq take_bit_eq_mod)

lemma unat_low6: "unat (ucast (w AND 0x3f :: u16) :: u8) < 64"
  using unat_mask_less [of "0x3f :: u16" 64 w] by (simp add: unat_u8_of_u16)

lemma unat_lead2: "c < 0x800 \<Longrightarrow> unat (ucast (drop_bit 6 c :: u16) :: u8) < 32"
  by (simp add: unat_u8_of_u16 unat_drop_bit_div word_less_nat_alt less_mult_imp_div_less)

lemma unat_lead3: "unat (ucast (drop_bit 12 c :: u16) :: u8) < 16"
proof -
  have "unat c < 65536" using unsigned_less [of c, where ?'a = nat] by simp
  then show ?thesis by (simp add: unat_u8_of_u16 unat_drop_bit_div less_mult_imp_div_less)
qed

lemma utf8_continue_steps:
  "utf8_continue (Suc 0) ret (b # p) =
     (if b AND 0xc0 \<noteq> 0x80 then Inr 0 else Inr (push_bit 6 ret OR ucast (b AND 0x3f)))"
  "utf8_continue 2 ret (b # c # p) =
     (if b AND 0xc0 \<noteq> 0x80 then Inr 0
      else if c AND 0xc0 \<noteq> 0x80 then Inr 0
      else Inr (push_bit 6 (push_bit 6 ret OR ucast (b AND 0x3f)) OR ucast (c AND 0x3f)))"
  by (simp_all add: numeral_2_eq_2)

lemma utf8_decode_encode:
  assumes "c \<noteq> 0"
  shows "unicode_utf8Decode (utf8Encode c @ rest) = Inr (c, utf8EncodeLength c)"
proof -
  consider "c < 0x80" | "\<not> c < 0x80" "c < 0x800" | "\<not> c < 0x80" "\<not> c < 0x800" by blast
  then show ?thesis
  proof cases
    case 1
    then have "\<not> bit c n" if "7 \<le> n" for n using word_bit_less [of c 7 n] that by auto
    note high = this [of 7] this [of 8] this [of 9] this [of 10] this [of 11] this [of 12]
      this [of 13] this [of 14] this [of 15]
    have "unat (ucast c :: u8) = unat c" using 1 by (simp add: unat_u8_of_u16 word_less_nat_alt)
    with 1 assms have "ucast c \<noteq> (0 :: u8)" "ucast c < (0xC0 :: u8)"
      by (simp_all add: word_less_nat_alt unat_eq_0 flip: unat_0_iff)
    moreover have "(ucast (ucast (ucast c AND 0x7f :: u8) :: u32) :: u16) = c"
      by (rule word16_eqI) (use high in \<open>simp_all add: bit_simps\<close>)
    ultimately show ?thesis using 1 by (simp add: utf8Encode_def utf8EncodeLength_def utf8_length utf8_mask)
  next
    case 2
    then have "\<not> bit c n" if "11 \<le> n" for n using word_bit_less [of c 11 n] that by auto
    note high = this [of 11] this [of 12] this [of 13] this [of 14] this [of 15]
    define x y :: u8 where "x = ucast (drop_bit 6 c)" and "y = ucast (c AND 0x3f)"
    have "unat x < 32" "unat y < 64"
      using unat_lead2 [OF 2(2)] unat_low6 [of c] by (simp_all add: x_def y_def)
    note x = utf8_lead2 [OF this(1)] and y = utf8_cont_byte [OF this(2)]
    have "(ucast (push_bit 6 (ucast x :: u32) OR ucast y) :: u16) = c"
      by (rule word16_eqI) (use high in \<open>simp_all add: x_def y_def bit_simps\<close>)
    with 2 x y show ?thesis
      by (simp add: utf8Encode_def utf8EncodeLength_def utf8_length utf8_mask utf8_continue_steps
          flip: x_def y_def)
  next
    case 3
    define x y z :: u8 where "x = ucast (drop_bit 12 c)" and "y = ucast (drop_bit 6 c AND 0x3f)"
      and "z = ucast (c AND 0x3f)"
    have "unat x < 16" "unat y < 64" "unat z < 64"
      using unat_lead3 [of c] unat_low6 [of c] unat_low6 [of "drop_bit 6 c"] by (simp_all only: x_def y_def z_def)
    note x = utf8_lead3 [OF this(1)] and y = utf8_cont_byte [OF this(2)] and z = utf8_cont_byte [OF this(3)]
    have "(ucast (push_bit 6 (push_bit 6 (ucast x :: u32) OR ucast y) OR ucast z) :: u16) = c"
      by (rule word16_eqI) (simp_all add: x_def y_def z_def bit_simps)
    with 3 x y z show ?thesis
      by (simp add: utf8Encode_def utf8EncodeLength_def utf8_length utf8_mask utf8_continue_steps
          flip: x_def y_def z_def)
  qed
qed


lemma string_utf8Decode_encode:
  "c \<noteq> 0 \<Longrightarrow> string_utf8Decode (utf8Encode c @ rest) = Inr (c, rest)"
  by (simp add: string_utf8Decode_def utf8_decode_encode utf8EncodeLength_def)
    (simp add: utf8Encode_def)

lemma length_utf8Encode: "length (utf8Encode c) = utf8EncodeLength c"
  by (simp add: utf8Encode_def utf8EncodeLength_def)

lemma utf8Encode_nonempty: "utf8Encode c \<noteq> []"
  by (simp add: utf8Encode_def)

section \<open>Encoding and decoding a text\<close>

lemma toUtf8_simps [simp]:
  "toUtf8 [] = []" "toUtf8 (c # s) = utf8Encode c @ toUtf8 s" "toUtf8 (s @ t) = toUtf8 s @ toUtf8 t"
proof -
  have acc: "fold (\<lambda>c ret. ret @ utf8Encode c) s ret = ret @ concat (map utf8Encode s)" for s ret
    by (induction s arbitrary: ret) simp_all
  show "toUtf8 [] = []" "toUtf8 (c # s) = utf8Encode c @ toUtf8 s" "toUtf8 (s @ t) = toUtf8 s @ toUtf8 t"
    by (simp_all add: toUtf8_def acc del: fold_append)
qed

lemma getUtf8Length_toUtf8: "getUtf8Length s = length (toUtf8 s)"
proof -
  have "fold (\<lambda>c ret. ret + utf8EncodeLength c) s n = n + length (toUtf8 s)" for n
    by (induction s arbitrary: n) (simp_all add: length_utf8Encode)
  then show ?thesis by (simp add: getUtf8Length_def)
qed

lemma toUtf16_loop_encoded:
  "0 \<notin> set s \<Longrightarrow> toUtf16_loop (toUtf8 s @ rest) out = toUtf16_loop rest (out @ s)"
proof (induction s arbitrary: out)
  case (Cons c s)
  then have "string_utf8Decode (utf8Encode c @ toUtf8 s @ rest) = Inr (c, toUtf8 s @ rest)"
    by (intro string_utf8Decode_encode) auto
  with Cons show ?case
    by (subst toUtf16_loop.simps) (simp add: utf8Encode_nonempty)
qed simp

lemma toUtf16_loop_stuck: "toUtf16_loop (0 # p) out = None"
proof -
  have "ptr \<noteq> 0 # p" if "toUtf16_loop ptr out = Some y" for ptr out y
  proof (rule toUtf16_loop.raw_induct [where P = "\<lambda>ptr out y. ptr \<noteq> 0 # p", OF _ that])
    fix f ptr out y
    assume 1: "\<And>ptr b y. f ptr b = Some y \<Longrightarrow> ptr \<noteq> 0 # p"
      "(if ptr = [] then Some (Inr out)
        else case string_utf8Decode ptr of Inl e \<Rightarrow> Some (Inl e)
             | Inr (c, ptr') \<Rightarrow> f ptr' (out @ [c])) = Some y"
    have "string_utf8Decode (0 # p) = Inr (0, 0 # p)"
      using utf8_length [of 0] by (simp add: string_utf8Decode_def)
    with 1(2) 1(1) [of "0 # p" "out @ [0]" y] show "ptr \<noteq> 0 # p" by auto
  qed
  then show ?thesis by (cases "toUtf16_loop (0 # p) out") auto
qed

lemma toUtf16_of_toUtf8:
  "toUtf16 (toUtf8 s) = (if 0 \<in> set s then None else Some (Inr s))"
proof (cases "0 \<in> set s")
  case True
  then obtain a b where s: "s = a @ 0 # b" "0 \<notin> set a" by (meson split_list_first)
  then have "toUtf8 s = toUtf8 a @ 0 # toUtf8 b" by (simp add: utf8Encode_def)
  with s True show ?thesis
    by (simp add: toUtf16_def toUtf16_loop_encoded toUtf16_loop_stuck)
next
  case False
  then show ?thesis
    using toUtf16_loop_encoded [of s "[]" "[]"]
    by (simp add: toUtf16_def toUtf16_loop.simps [of "[]"])
qed

lemma getUtf16Length_encoded:
  "0 \<notin> set s \<Longrightarrow> getUtf16Length (toUtf8 s) = length s"
proof (induction s)
  case (Cons c s)
  obtain b p where e: "utf8Encode c @ toUtf8 s = b # p" by (cases "utf8Encode c @ toUtf8 s") (simp_all add: utf8Encode_nonempty)
  have "unicode_utf8Decode (b # p) = Inr (c, utf8EncodeLength c)"
    using Cons.prems utf8_decode_encode [of c "toUtf8 s"] e by auto
  then have len: "unat (utf8_length_data ! unat b) = utf8EncodeLength c"
    by (simp add: Let_def split: sum.splits)
  then have "b \<noteq> 0" by (auto simp: utf8_length utf8EncodeLength_def split: if_splits)
  moreover have "drop (utf8EncodeLength c) (b # p) = toUtf8 s"
    using e [symmetric] by (simp add: length_utf8Encode)
  ultimately show ?case using Cons e len by simp
qed simp

section \<open>Validation\<close>

text \<open>A structurally valid sequence: a lead byte and the continuation bytes it announces.\<close>

definition utf8_sequence :: "u8 list \<Rightarrow> bool" where
  "utf8_sequence xs \<longleftrightarrow>
     (case xs of [] \<Rightarrow> False
      | b # cs \<Rightarrow> utf8_valid_data ! unat b \<noteq> 0 \<and> length xs = unat (utf8_valid_data ! unat b)
          \<and> list_all isUtf8Surrogate cs)"

definition utf8_text :: "u8 list \<Rightarrow> bool" where
  "utf8_text xs \<longleftrightarrow> (\<exists>seqs. xs = concat seqs \<and> list_all utf8_sequence seqs)"

lemma utf8_text_Nil: "utf8_text []"
  unfolding utf8_text_def by (rule exI [of _ "[]"]) simp

lemma utf8_text_Cons:
  "utf8_text (b # w) \<longleftrightarrow>
     (let l = unat (utf8_valid_data ! unat b) in
      l \<noteq> 0 \<and> l - 1 \<le> length w \<and> list_all isUtf8Surrogate (take (l - 1) w) \<and> utf8_text (drop (l - 1) w))"
  (is "?L \<longleftrightarrow> ?R")
proof
  assume ?L
  then obtain seqs where w: "b # w = concat seqs" "list_all utf8_sequence seqs"
    by (auto simp: utf8_text_def)
  then obtain q seqs' where q: "seqs = q # seqs'" "utf8_sequence q" by (cases seqs) auto
  then obtain cs where cs: "q = b # cs" "w = cs @ concat seqs'"
    using w by (auto simp: utf8_sequence_def split: list.splits)
  then have "unat (utf8_valid_data ! unat b) = Suc (length cs)" "list_all isUtf8Surrogate cs"
    using q(2) by (auto simp: utf8_sequence_def)
  moreover have "utf8_text (concat seqs')" using w(2) q(1) by (auto simp: utf8_text_def)
  ultimately show ?R using cs(2) by (simp add: Let_def)
next
  assume r: ?R
  let ?l = "unat (utf8_valid_data ! unat b)"
  from r obtain seqs where "drop (?l - 1) w = concat seqs" "list_all utf8_sequence seqs"
    by (auto simp: utf8_text_def Let_def)
  moreover from r have "utf8_sequence (b # take (?l - 1) w)"
    by (auto simp: utf8_sequence_def Let_def unat_eq_0)
  ultimately have "b # w = concat ((b # take (?l - 1) w) # seqs) \<and>
      list_all utf8_sequence ((b # take (?l - 1) w) # seqs)"
    by simp (metis append_take_drop_id)
  then show ?L unfolding utf8_text_def by blast
qed

lemma valid_continue_terminated:
  "valid_continue l (xs @ 0 # rest) = Inr (l \<le> length xs \<and> list_all isUtf8Surrogate (take l xs))"
proof (induction l arbitrary: xs)
  case (Suc l)
  then show ?case by (cases xs) (auto simp: isUtf8Surrogate_def)
qed simp

lemma surrogates_nonzero: "list_all isUtf8Surrogate xs \<Longrightarrow> 0 \<notin> set xs"
  by (induction xs) (auto simp: isUtf8Surrogate_def)

lemma takeWhile_nonzero_split:
  assumes "0 \<notin> set (take n ys)"
  shows "takeWhile (\<lambda>b. b \<noteq> 0) ys = take n ys @ takeWhile (\<lambda>b. b \<noteq> 0) (drop n ys)"
  by (metis (mono_tags, lifting) append_take_drop_id assms takeWhile_append2)

lemma take_takeWhile: "n \<le> length (takeWhile P ys) \<Longrightarrow> take n (takeWhile P ys) = take n ys"
proof (induction ys arbitrary: n)
  case (Cons y ys)
  then show ?case by (cases n) (auto split: if_splits)
qed simp

lemma prefix_parts:
  assumes "xs = take n ys @ zs" "n \<le> length ys"
  shows "n \<le> length xs" "take n xs = take n ys" "drop n xs = zs"
  using assms by auto

lemma isValidUtf8_terminated:
  "isValidUtf8 (length xs) (xs @ 0 # rest) = Inr (utf8_text (takeWhile (\<lambda>b. b \<noteq> 0) xs))"
proof (induction xs rule: length_induct)
  case (1 xs)
  show ?case
  proof (cases xs)
    case Nil
    then show ?thesis by (simp add: utf8_text_Nil)
  next
    case (Cons b ys)
    let ?l = "unat (utf8_valid_data ! unat b)" and ?nz = "takeWhile (\<lambda>b. b \<noteq> 0)"
    consider "b = 0" | "b \<noteq> 0" "?l = 0" | "b \<noteq> 0" "?l \<noteq> 0" by blast
    then show ?thesis
    proof cases
      case 1
      then show ?thesis using Cons by (simp add: utf8_text_Nil)
    next
      case 2
      then show ?thesis using Cons by (simp add: utf8_text_Cons Let_def)
    next
      case 3
      have IH: "isValidUtf8 (length (drop (?l - 1) ys)) (drop (?l - 1) ys @ 0 # rest)
          = Inr (utf8_text (?nz (drop (?l - 1) ys)))"
        using "1.IH" [rule_format, of "drop (?l - 1) ys"] Cons by simp
      let ?c = "?l - 1 \<le> length ys \<and> list_all isUtf8Surrogate (take (?l - 1) ys)"
      have txt_iff: "utf8_text (?nz xs) \<longleftrightarrow> ?c \<and> utf8_text (?nz (drop (?l - 1) ys))"
      proof (cases ?c)
        case True
        then have "?nz ys = take (?l - 1) ys @ ?nz (drop (?l - 1) ys)"
          using surrogates_nonzero takeWhile_nonzero_split by blast
        then have "?nz ys = take (?l - 1) ys @ ?nz (drop (?l - 1) ys)" .
        note parts = prefix_parts [OF this conjunct1 [OF True]]
        show ?thesis using True 3 Cons parts by (simp add: utf8_text_Cons Let_def)
      next
        case False
        have "\<not> (?l - 1 \<le> length (?nz ys) \<and> list_all isUtf8Surrogate (take (?l - 1) (?nz ys)))"
        proof
          assume a: "?l - 1 \<le> length (?nz ys) \<and> list_all isUtf8Surrogate (take (?l - 1) (?nz ys))"
          then have "take (?l - 1) (?nz ys) = take (?l - 1) ys"
            by (simp add: take_takeWhile)
          with a False length_takeWhile_le [of "\<lambda>b. b \<noteq> 0" ys] show False by simp
        qed
        then show ?thesis using 3 False Cons by (auto simp: utf8_text_Cons Let_def)
      qed
      show ?thesis
      proof (cases "?l = 1")
        case True
        then show ?thesis using Cons 3 IH txt_iff by simp
      next
        case False
        then show ?thesis using Cons 3 IH txt_iff by (auto simp: Let_def valid_continue_terminated)
      qed
    qed
  qed
qed


section \<open>Letter case in UTF-8 text\<close>

text \<open>The pairs at the even positions of a string, which are the ones a search may replace.\<close>

fun even_pairs :: "u8 list \<Rightarrow> (u8 \<times> u8) list" where
  "even_pairs (x # y # r) = (x, y) # even_pairs r"
| "even_pairs _ = []"

lemma sp_str_replace_other:
  "(if even i then (b, c) \<notin> set (even_pairs str) else (b, c) \<notin> set (even_pairs (tl str)))
   \<Longrightarrow> sp_str_replace target i str b c = (b, c)"
proof (induction target i str b c rule: sp_str_replace.induct)
  case (1 target i s0 s1 str b c)
  show ?case
  proof (cases "even i")
    case True
    with "1.prems" "1.IH" show ?thesis by (auto elim: evenE)
  next
    case False
    with "1.prems" "1.IH" show ?thesis by (cases str) (auto simp: odd_iff_mod_2_eq_one)
  qed
qed simp_all

lemma nth_even_pairs: "j < length (even_pairs t) \<Longrightarrow> even_pairs t ! j = (t ! (2 * j), t ! (2 * j + 1))"
proof (induction t arbitrary: j rule: even_pairs.induct)
  case (1 x y r)
  then show ?case by (cases j) auto
qed auto

text \<open>A pair that occurs at an even position only, and once, is replaced by the pair of the target.\<close>

lemma sp_str_replace_found:
  assumes "even i" "j < length (even_pairs str)" "even_pairs str ! j = (b, c)"
    "distinct (even_pairs str)" "b \<notin> snd ` set (even_pairs str)"
  shows "sp_str_replace target i str b c = (target ! (i + 2 * j), target ! (i + 2 * j + 1))"
  using assms
proof (induction str arbitrary: i j rule: even_pairs.induct)
  case (1 x y r)
  show ?case
  proof (cases j)
    case 0
    with 1 show ?thesis by simp
  next
    case (Suc k)
    with "1.prems" have "(x, y) \<noteq> (b, c)" "y \<noteq> b" using nth_mem [of k "even_pairs r"] by force+
    then show ?thesis using 1 Suc by (cases r) auto
  qed
qed auto

text \<open>The effect on characters: an ASCII character right after a longer one is not changed.\<close>

primrec case_folded :: "(u16 \<Rightarrow> u16) \<Rightarrow> bool \<Rightarrow> u16 list \<Rightarrow> u16 list" where
  "case_folded f after [] = []"
| "case_folded f after (c # s) =
     (if after \<and> c < 0x80 then c else f c) # case_folded f (\<not> c < 0x80) s"

lemma high_bit_iff: "b AND 0x80 \<noteq> 0 \<longleftrightarrow> bit (b :: u8) 7"
proof -
  have "b AND 0x80 = (if bit b 7 then 0x80 else 0)"
    by (rule word8_eqI) (auto simp: bit_simps)
  then show ?thesis by simp
qed

lemma surrogate_high: "isUtf8Surrogate b \<Longrightarrow> b AND 0x80 \<noteq> 0"
proof -
  assume "isUtf8Surrogate b"
  then have "bit (b AND 0xC0) 7 = bit (0x80 :: u8) 7" by (simp add: isUtf8Surrogate_def)
  then show ?thesis by (simp add: high_bit_iff bit_simps)
qed

lemma low_byte: "(c :: u16) < 0x80 \<Longrightarrow> ucast c AND 0x80 = (0 :: u8)"
  using high_bit_iff [of "ucast c"] word_bit_less [of c 7 7] by (auto simp: bit_simps)

lemma utf8Encode_parts:
  assumes "\<not> c < 0x80"
  shows "c < 0x800 \<Longrightarrow> utf8Encode c = [p, q] \<Longrightarrow> p AND 0x80 \<noteq> 0 \<and> isUtf8Surrogate q"
    and "\<not> c < 0x800 \<Longrightarrow> utf8Encode c = [p, q, r] \<Longrightarrow>
      p AND 0x80 \<noteq> 0 \<and> 0xE0 \<le> p \<and> isUtf8Surrogate q \<and> isUtf8Surrogate r"
  using assms utf8_cont_byte(1) [OF unat_low6 [of c]] utf8_cont_byte(1) [OF unat_low6 [of "drop_bit 6 c"]]
    utf8_lead3(3) [OF unat_lead3 [of c]]
  by (auto simp: utf8Encode_def isUtf8Surrogate_def high_bit_iff bit_simps)

text \<open>
  What the byte-wise case loop needs of a pair replacement and a character function to act as the
  character function \<open>f\<close> on encoded text.
\<close>

locale case_folding =
  fixes pair :: "u8 \<Rightarrow> u8 \<Rightarrow> u8 \<times> u8" and ch :: "nat \<Rightarrow> nat" and f :: "u16 \<Rightarrow> u16"
  assumes ascii_char: "c < 0x80 \<Longrightarrow> utf8Encode (f c) = [of_nat (ch (unat (ucast c :: u8)))]"
    and two_bytes: "\<not> c < 0x80 \<Longrightarrow> c < 0x800 \<Longrightarrow> utf8Encode c = [p, q] \<Longrightarrow>
      utf8Encode (f c) = [fst (pair p q), snd (pair p q)] \<and> isUtf8Surrogate (snd (pair p q))"
    and three_bytes: "\<not> c < 0x800 \<Longrightarrow> f c = c"
    and other_pair: "isUtf8Surrogate b \<or> 0xE0 \<le> b \<Longrightarrow> pair b d = (b, d)"
    and high_char: "b AND 0x80 \<noteq> 0 \<Longrightarrow> ch (unat b) = unat (b :: u8)"
begin

lemma case_buf_text:
  assumes "b AND 0x80 \<noteq> 0 \<longrightarrow> (\<exists>d ds. buf = d # ds \<and> isUtf8Surrogate d)"
  shows "case_buf pair ch b buf (toUtf8 s) = rev buf @ toUtf8 (case_folded f (b AND 0x80 \<noteq> 0) s)"
  using assms
proof (induction s arbitrary: b buf)
  case (Cons c s)
  consider "c < 0x80" | "\<not> c < 0x80" "c < 0x800" | "\<not> c < 0x800" by blast
  then show ?case
  proof cases
    case 1
    then have enc: "utf8Encode c = [ucast c]" by (simp add: utf8Encode_def)
    note low = low_byte [OF 1]
    show ?thesis
    proof (cases "b AND 0x80 = 0")
      case True
      then show ?thesis
        using 1 Cons.IH [of "ucast c"] low by (simp add: enc ascii_char)
    next
      case False
      with Cons.prems obtain d ds where "buf = d # ds" "isUtf8Surrogate d" by blast
      then show ?thesis
        using 1 False Cons.IH [of "ucast c"] low by (simp add: enc other_pair)
    qed
  next
    case 2
    then obtain p q where enc: "utf8Encode c = [p, q]" by (simp add: utf8Encode_def)
    have hi: "p AND 0x80 \<noteq> 0" "q AND 0x80 \<noteq> 0"
      using utf8Encode_parts(1) [OF 2 enc] surrogate_high by auto
    obtain p' q' where pq: "pair p q = (p', q')" "utf8Encode (f c) = [p', q']" "isUtf8Surrogate q'"
      using two_bytes [OF 2 enc] by (cases "pair p q") auto
    show ?thesis
    proof (cases "b AND 0x80 = 0")
      case True
      then show ?thesis
        using 2 hi pq Cons.IH [of q "q' # p' # buf"] by (simp add: enc high_char)
    next
      case False
      with Cons.prems obtain d ds where "buf = d # ds" "isUtf8Surrogate d" by blast
      then show ?thesis
        using 2 hi pq False Cons.IH [of q "q' # p' # buf"] by (simp add: enc other_pair)
    qed
  next
    case 3
    then have n: "\<not> c < 0x80" by (auto simp: word_less_nat_alt)
    with 3 obtain p q r where enc: "utf8Encode c = [p, q, r]" by (simp add: utf8Encode_def)
    note parts = utf8Encode_parts(2) [OF n 3 enc]
    have hi: "p AND 0x80 \<noteq> 0" "q AND 0x80 \<noteq> 0" "r AND 0x80 \<noteq> 0"
      using parts surrogate_high by auto
    show ?thesis
    proof (cases "b AND 0x80 = 0")
      case True
      then show ?thesis
        using 3 n hi parts Cons.IH [of r "r # q # p # buf"] by (simp add: enc high_char other_pair three_bytes)
    next
      case False
      with Cons.prems obtain d ds where "buf = d # ds" "isUtf8Surrogate d" by blast
      then show ?thesis
        using 3 n hi parts False Cons.IH [of r "r # q # p # buf"] by (simp add: enc other_pair three_bytes)
    qed
  qed
qed simp

end


subsection \<open>The two case tables\<close>

lemma letter_bytes:
  "even_pairs sp_lowercase_set = map (\<lambda>c. (utf8Encode c ! 0, utf8Encode c ! 1)) sp_lowercase_set_16"
  "even_pairs sp_uppercase_set = map (\<lambda>c. (utf8Encode c ! 0, utf8Encode c ! 1)) sp_uppercase_set_16"
  by code_simp+

lemma letter_range:
  "list_all (\<lambda>c. c \<noteq> 0 \<and> \<not> c < 0x80 \<and> c < 0x800 \<and> \<not> isUtf8Surrogate (utf8Encode c ! 0) \<and> utf8Encode c ! 0 < 0xE0)
     (sp_lowercase_set_16 @ sp_uppercase_set_16)"
  by code_simp


lemma letters_distinct:
  "distinct (even_pairs sp_lowercase_set)" "distinct (even_pairs sp_uppercase_set)"
  "distinct sp_lowercase_set_16" "distinct sp_uppercase_set_16"
  by code_simp+


lemma letters_length: "length sp_lowercase_set_16 = 33" "length sp_uppercase_set_16 = 33"
  by (simp_all add: sp_lowercase_set_16_def sp_uppercase_set_16_def)

lemma set16_search_found:
  "distinct str \<Longrightarrow> j < length str \<Longrightarrow> set16_search target str (str ! j) i = target ! (i + j)"
proof (induction target str "str ! j" i arbitrary: j rule: set16_search.induct)
  case (2 target s str index)
  then show ?case by (cases j) auto
qed simp

lemma set16_search_other: "c \<notin> set str \<Longrightarrow> set16_search target str c i = c"
  by (induction target str c i rule: set16_search.induct) auto

text \<open>Both directions of the case change, from one set of letters to the other.\<close>

definition letter_sets :: "u8 list \<Rightarrow> u16 list \<Rightarrow> bool" where
  "letter_sets bytes chars \<longleftrightarrow>
     even_pairs bytes = map (\<lambda>c. (utf8Encode c ! 0, utf8Encode c ! 1)) chars
     \<and> distinct (even_pairs bytes) \<and> distinct chars \<and> length chars = 33
     \<and> list_all (\<lambda>c. c \<noteq> 0 \<and> \<not> c < 0x80 \<and> c < 0x800
          \<and> \<not> isUtf8Surrogate (utf8Encode c ! 0) \<and> utf8Encode c ! 0 < 0xE0) chars"

lemma letter_sets_tables:
  "letter_sets sp_lowercase_set sp_lowercase_set_16" "letter_sets sp_uppercase_set sp_uppercase_set_16"
  using letter_range [unfolded list_all_append] letters_distinct letter_bytes letters_length
  unfolding letter_sets_def by blast+

lemma two_byte_code:
  "\<not> c < 0x80 \<Longrightarrow> c < 0x800 \<Longrightarrow> utf8Encode c = [utf8Encode c ! 0, utf8Encode c ! 1]"
  by (simp add: utf8Encode_def)

lemma utf8Encode_inject:
  assumes "c \<noteq> 0" "d \<noteq> 0" "utf8Encode c = utf8Encode d"
  shows "c = d"
  using utf8_decode_encode [OF assms(1), of "[]"] utf8_decode_encode [OF assms(2), of "[]"] assms(3) by simp

lemma letter_sets_surrogate:
  assumes "letter_sets bytes chars" "(x, y) \<in> set (even_pairs bytes)"
  shows "isUtf8Surrogate y" "\<not> isUtf8Surrogate x" "x < 0xE0"
proof -
  from assms obtain c where c: "c \<in> set chars" "x = utf8Encode c ! 0" "y = utf8Encode c ! 1"
    by (auto simp: letter_sets_def)
  with assms(1) have "\<not> c < 0x80" "c < 0x800" "\<not> isUtf8Surrogate x" "x < 0xE0"
    by (auto simp: letter_sets_def list_all_iff)
  with c utf8Encode_parts(1) two_byte_code show "isUtf8Surrogate y" "\<not> isUtf8Surrogate x" "x < 0xE0"
    by blast+
qed

lemma letter_pair_found:
  assumes S: "letter_sets sb sc" and T: "letter_sets tb tc" and j: "j < 33"
  shows "sp_str_replace tb 0 sb (utf8Encode (sc ! j) ! 0) (utf8Encode (sc ! j) ! 1)
       = (utf8Encode (tc ! j) ! 0, utf8Encode (tc ! j) ! 1)"
proof -
  have s: "even_pairs sb ! j = (utf8Encode (sc ! j) ! 0, utf8Encode (sc ! j) ! 1)"
    and t: "even_pairs tb ! j = (utf8Encode (tc ! j) ! 0, utf8Encode (tc ! j) ! 1)"
    and len: "j < length (even_pairs sb)" "j < length (even_pairs tb)"
    using S T j by (auto simp: letter_sets_def)
  have dist: "distinct (even_pairs sb)" using S unfolding letter_sets_def by blast
  have "utf8Encode (sc ! j) ! 0 \<notin> snd ` set (even_pairs sb)"
    using letter_sets_surrogate [OF S] s len(1) by (force simp: in_set_conv_nth)
  then show ?thesis
    using sp_str_replace_found [OF _ len(1) s dist, of 0 tb] t nth_even_pairs [OF len(2)] by simp
qed

lemma letter_pair_other:
  assumes S: "letter_sets sb sc" and c: "c \<notin> set sc" "\<not> c < 0x80" "c < 0x800" "utf8Encode c = [p, q]"
  shows "sp_str_replace tb 0 sb p q = (p, q)"
proof (rule sp_str_replace_other)
  have "(p, q) \<notin> set (even_pairs sb)"
  proof
    assume "(p, q) \<in> set (even_pairs sb)"
    with S obtain d where d: "d \<in> set sc" "p = utf8Encode d ! 0" "q = utf8Encode d ! 1"
      by (auto simp: letter_sets_def)
    with S have "\<not> d < 0x80" "d < 0x800" "d \<noteq> 0" by (auto simp: letter_sets_def list_all_iff)
    with d c two_byte_code have "utf8Encode c = utf8Encode d" by metis
    moreover have "c \<noteq> 0" using c(2) by auto
    ultimately show False using d(1) c(1) \<open>d \<noteq> 0\<close> utf8Encode_inject by blast
  qed
  then show "if even 0 then (p, q) \<notin> set (even_pairs sb) else (p, q) \<notin> set (even_pairs (tl sb))" by simp
qed

lemma unmatched_pair:
  assumes "letter_sets sb sc" "isUtf8Surrogate b \<or> 0xE0 \<le> b"
  shows "sp_str_replace tb 0 sb b d = (b, d)"
  using letter_sets_surrogate [OF assms(1), of b d] assms(2)
  by (intro sp_str_replace_other) auto

lemma letter_two_bytes:
  assumes S: "letter_sets sb sc" and T: "letter_sets tb tc"
    and c: "\<not> c < 0x80" "c < 0x800" "utf8Encode c = [p, q]"
  shows "utf8Encode (set16_search tc sc c 0)
       = [fst (sp_str_replace tb 0 sb p q), snd (sp_str_replace tb 0 sb p q)]
     \<and> isUtf8Surrogate (snd (sp_str_replace tb 0 sb p q))"
proof (cases "c \<in> set sc")
  case True
  with S obtain j where j: "j < 33" "c = sc ! j" by (auto simp: letter_sets_def in_set_conv_nth)
  let ?d = "tc ! j"
  have "set16_search tc sc c 0 = ?d"
    using set16_search_found [of sc j tc 0] S j by (simp add: letter_sets_def)
  moreover have "\<not> ?d < 0x80" "?d < 0x800" using T j by (auto simp: letter_sets_def list_all_length)
  note d = two_byte_code [OF this] and dp = utf8Encode_parts(1) [OF this]
  moreover have "sp_str_replace tb 0 sb p q = (utf8Encode ?d ! 0, utf8Encode ?d ! 1)"
    using letter_pair_found [OF S T j(1)] j(2) c(3) by simp
  ultimately show ?thesis by simp
next
  case False
  then show ?thesis
    using letter_pair_other [OF S False c] utf8Encode_parts(1) [OF c] c(3) by (simp add: set16_search_other)
qed

lemma letter_three_bytes:
  assumes "letter_sets sb sc" "\<not> c < 0x800"
  shows "set16_search tc sc c 0 = c"
  using assms by (intro set16_search_other) (auto simp: letter_sets_def list_all_iff)

lemma ascii_encode: "n < 128 \<Longrightarrow> utf8Encode (of_nat n) = [of_nat n]"
proof -
  assume n: "n < 128"
  then have "unat (of_nat n :: u16) = n" by (simp add: unat_of_nat)
  moreover from this n have "(ucast (of_nat n :: u16) :: u8) = of_nat n"
    by (intro word_unat_eq_iff [THEN iffD2]) (simp add: unat_u8_of_u16 unat_of_nat)
  ultimately show ?thesis using n by (simp add: utf8Encode_def word_less_nat_alt)
qed

lemma ascii_char_folded:
  assumes "c < 0x80" "g (unat c) < 128"
  shows "utf8Encode (of_nat (g (unat c))) = [of_nat (g (unat (ucast (c :: u16) :: u8)))]"
proof -
  have "unat (ucast c :: u8) = unat c" using assms(1) by (simp add: unat_u8_of_u16 word_less_nat_alt)
  then show ?thesis using ascii_encode [OF assms(2)] by simp
qed

lemma high_byte_value: "b AND 0x80 \<noteq> 0 \<Longrightarrow> 128 \<le> unat (b :: u8)"
  using word_bit_less [of b 7 7] by (force simp: high_bit_iff word_less_nat_alt not_less)

interpretation upper: case_folding toupper_pair c_toupper toupper16
proof
  fix c :: u16 and p q b d :: u8
  show "c < 0x80 \<Longrightarrow> utf8Encode (toupper16 c) = [of_nat (c_toupper (unat (ucast c :: u8)))]"
    by (simp add: toupper16_def, rule ascii_char_folded) (auto simp: c_toupper_def word_less_nat_alt)
  show "\<not> c < 0x80 \<Longrightarrow> c < 0x800 \<Longrightarrow> utf8Encode c = [p, q] \<Longrightarrow>
      utf8Encode (toupper16 c) = [fst (toupper_pair p q), snd (toupper_pair p q)]
      \<and> isUtf8Surrogate (snd (toupper_pair p q))"
    using letter_two_bytes [OF letter_sets_tables] by (simp add: toupper16_def toupper_pair_def)
  show "\<not> c < 0x800 \<Longrightarrow> toupper16 c = c"
    using letter_three_bytes [OF letter_sets_tables(1)] by (auto simp: toupper16_def word_less_nat_alt)
  show "isUtf8Surrogate b \<or> 0xE0 \<le> b \<Longrightarrow> toupper_pair b d = (b, d)"
    by (simp add: toupper_pair_def unmatched_pair [OF letter_sets_tables(1)])
  show "b AND 0x80 \<noteq> 0 \<Longrightarrow> c_toupper (unat b) = unat b"
    using high_byte_value [of b] by (auto simp: c_toupper_def)
qed

interpretation lower: case_folding tolower_pair c_tolower tolower16
proof
  fix c :: u16 and p q b d :: u8
  show "c < 0x80 \<Longrightarrow> utf8Encode (tolower16 c) = [of_nat (c_tolower (unat (ucast c :: u8)))]"
    by (simp add: tolower16_def, rule ascii_char_folded) (auto simp: c_tolower_def word_less_nat_alt)
  show "\<not> c < 0x80 \<Longrightarrow> c < 0x800 \<Longrightarrow> utf8Encode c = [p, q] \<Longrightarrow>
      utf8Encode (tolower16 c) = [fst (tolower_pair p q), snd (tolower_pair p q)]
      \<and> isUtf8Surrogate (snd (tolower_pair p q))"
    using letter_two_bytes [OF letter_sets_tables(2,1)] by (simp add: tolower16_def tolower_pair_def)
  show "\<not> c < 0x800 \<Longrightarrow> tolower16 c = c"
    using letter_three_bytes [OF letter_sets_tables(2)] by (auto simp: tolower16_def word_less_nat_alt)
  show "isUtf8Surrogate b \<or> 0xE0 \<le> b \<Longrightarrow> tolower_pair b d = (b, d)"
    by (simp add: tolower_pair_def unmatched_pair [OF letter_sets_tables(2)])
  show "b AND 0x80 \<noteq> 0 \<Longrightarrow> c_tolower (unat b) = unat b"
    using high_byte_value [of b] by (auto simp: c_tolower_def)
qed

section \<open>Numbers, entities and KOI8-R\<close>

text \<open>The value of a decimal numeral.\<close>

definition decimal_value :: "u8 list \<Rightarrow> nat" where
  "decimal_value ds = foldl (\<lambda>n d. n * 10 + (unat d - 0x30)) 0 ds"

lemma decimal_value_snoc: "decimal_value (ds @ [d]) = decimal_value ds * 10 + (unat d - 0x30)"
  by (simp add: decimal_value_def)

lemma decimal_digit:
  "unat (0x30 + ucast ((n :: u64) mod 10) :: u8) - 0x30 = unat n mod 10"
proof -
  have "unat (n mod 10) < 10" by (simp add: unat_mod)
  then show ?thesis
    by (simp add: unat_word_ariths unsigned_ucast_eq take_bit_eq_mod)
qed

lemma decimal_digits_value: "decimal_value (rev (decimal_digits n)) = unat n"
proof (induction n rule: decimal_digits.induct)
  case (1 n)
  show ?case
  proof (cases "n = 0")
    case True
    then show ?thesis by (simp add: decimal_digits.simps decimal_value_def)
  next
    case False
    with 1 show ?thesis
      by (simp add: decimal_digits.simps [of n] decimal_value_snoc decimal_digit unat_div)
  qed
qed


lemma decimal_digits_chars: "list_all (\<lambda>d. 0x30 \<le> d \<and> d \<le> 0x39) (decimal_digits n)"
proof (induction n rule: decimal_digits.induct)
  case (1 n)
  have "unat (n mod 10) < 10" by (simp add: unat_mod)
  then have "0x30 \<le> (0x30 + ucast (n mod 10) :: u8) \<and> (0x30 + ucast (n mod 10) :: u8) \<le> 0x39"
    by (simp add: word_le_nat_alt unat_word_ariths unsigned_ucast_eq take_bit_eq_mod)
  with 1 show ?case by (simp add: decimal_digits.simps [of n])
qed

lemma unsigned_to_decimal_value: "decimal_value (unsigned_to_decimal n) = unat n"
  by (simp add: unsigned_to_decimal_def decimal_digits_value) (simp add: decimal_value_def)

lemma unsigned_to_decimal_chars: "list_all (\<lambda>d. 0x30 \<le> d \<and> d \<le> 0x39) (unsigned_to_decimal n)"
  using decimal_digits_chars by (simp add: unsigned_to_decimal_def list_all_rev)

lemma sint_by_uint: "sint (n :: u64) = (if uint n < 2 ^ 63 then uint n else uint n - 2 ^ 64)"
proof -
  have u: "0 \<le> uint n" "uint n < 2 ^ 64" using unsigned_less [of n, where ?'a = int] by simp_all
  have "sint n = (uint n + 2 ^ 63) mod 2 ^ 64 - 2 ^ 63"
    by (simp add: sint_uint signed_take_bit_eq_take_bit_shift take_bit_eq_mod)
  moreover have "(uint n + 2 ^ 63) mod 2 ^ 64 = (if uint n < 2 ^ 63 then uint n + 2 ^ 63 else uint n - 2 ^ 63)"
  proof (cases "uint n < 2 ^ 63")
    case True
    then show ?thesis using u by simp
  next
    case False
    have "(uint n + 2 ^ 63) mod 2 ^ 64 = ((uint n - 2 ^ 63) + 2 ^ 64) mod 2 ^ 64" by (simp add: add.commute)
    also have "\<dots> = (uint n - 2 ^ 63) mod 2 ^ 64" by (rule mod_add_self2)
    also have "\<dots> = uint n - 2 ^ 63" using u False by (intro mod_pos_pos_trivial) auto
    finally show ?thesis using False by simp
  qed
  ultimately show ?thesis by simp
qed

lemma negative_word_nat:
  assumes "(n :: u64) <s 0" shows "uint (- n) = - sint n"
proof -
  have u: "0 \<le> uint n" "uint n < 2 ^ 64" using unsigned_less [of n, where ?'a = int] by simp_all
  with assms have "sint n = uint n - 2 ^ 64" "uint n \<noteq> 0"
    by (auto simp: word_sless_alt sint_by_uint split: if_splits)
  moreover have "uint (- n) = (- uint n) mod 2 ^ 64" by (simp add: uint_word_ariths)
  ultimately show ?thesis using u by (simp add: zmod_zminus1_eq_if)
qed

lemma nonnegative_word_nat: "\<not> (n :: u64) <s 0 \<Longrightarrow> uint n = sint n"
  using unsigned_less [of n, where ?'a = int] by (auto simp: word_sless_alt sint_by_uint split: if_splits)

lemma entity_scan_numeral:
  "entity_scan (numeral v) len (b # p) =
     (if b = 0 \<or> b = of_char CHR '';'' then Inr len else entity_scan (pred_numeral v) (Suc len) p)"
  by (simp add: numeral_eq_Suc)

lemma strncmp_eq_numeral:
  "strncmp_eq (a # p) (b # s) (numeral v) \<longleftrightarrow> a = b \<and> strncmp_eq p s (pred_numeral v)"
  by (simp add: numeral_eq_Suc)

lemma entity_chars:
  "ascii ''&l'' = [0x26, 0x6c]" "ascii ''&g'' = [0x26, 0x67]" "ascii ''&am'' = [0x26, 0x61, 0x6d]"
  "ascii ''&sh'' = [0x26, 0x73, 0x68]" "ascii ''&nbs'' = [0x26, 0x6e, 0x62, 0x73]"
  "ascii ''&quo'' = [0x26, 0x71, 0x75, 0x6f]" "ascii ''&apo'' = [0x26, 0x61, 0x70, 0x6f]"
  "ascii ''amp'' = [0x61, 0x6d, 0x70]" "ascii ''nbsp'' = [0x6e, 0x62, 0x73, 0x70]"
  "ascii ''quot'' = [0x71, 0x75, 0x6f, 0x74]" "ascii ''apos'' = [0x61, 0x70, 0x6f, 0x73]"
  "ascii ''lt'' = [0x6c, 0x74]" "ascii ''gt'' = [0x67, 0x74]" "ascii ''shy'' = [0x73, 0x68, 0x79]"
  "ascii '';'' = [0x3b]"
  "(of_char CHR '';'' :: u8) = 0x3b" "(of_char CHR ''&'' :: u8) = 0x26" "(of_char CHR ''#'' :: u8) = 0x23"
  "(of_char CHR ''&'' :: u16) = 0x26" "(of_char CHR ''<'' :: u16) = 0x3c" "(of_char CHR ''>'' :: u16) = 0x3e"
  by code_simp+

lemmas entity_eval = utf8HtmlDecode_def entity_scan_numeral strncmp_eq_numeral Utf8DecodeHtml_def entity_chars



text \<open>The KOI8-R table is used correctly for the small letters and shifted by 15 for the capitals.\<close>

lemma koi8r_small_distinct: "distinct koi8r_small" "length koi8r_small = 64"
  by (simp_all add: koi8r_small_def)

lemma charToKoi8r_letters:
  assumes "k < 32"
  shows "charToKoi8r (0x0430 + of_nat k) = koi8r_small ! (32 + k)"
    and "charToKoi8r (0x0410 + of_nat k) = koi8r_small ! (k + 15)"
    and "charToKoi8r (0x0410 + of_nat k) \<noteq> koi8r_small ! k"
proof -
  have n: "unat (0x0430 + of_nat k :: u16) = 0x0430 + k" "unat (0x0410 + of_nat k :: u16) = 0x0410 + k"
    using assms by (simp_all add: unat_word_ariths unat_of_nat)
  have "(975 + k) mod 64 = k + 15" using assms by (simp add: mod_if)
  then show small: "charToKoi8r (0x0430 + of_nat k) = koi8r_small ! (32 + k)"
    and big: "charToKoi8r (0x0410 + of_nat k) = koi8r_small ! (k + 15)"
    using assms by (simp_all add: charToKoi8r_def word_le_nat_alt n) (simp add: add.commute)
  show "charToKoi8r (0x0410 + of_nat k) \<noteq> koi8r_small ! k"
    unfolding big using assms koi8r_small_distinct by (simp add: nth_eq_iff_index_eq)
qed

lemma utf8Encode32_count:
  "snd (utf8Encode32 c) = length (fst (utf8Encode32 c)) \<longleftrightarrow> c < 0xFFFF \<or> 0x10FFFF \<le> c"
  by (auto simp: utf8Encode32_def word_less_nat_alt word_le_nat_alt)

section \<open>Properties\<close>

text \<open>
  C28: decoding inverts encoding on UCS-2 text without zero characters, and both length
  computations are exact; on a text with a zero character the decoding loop never returns.
\<close>

theorem utf16_utf8_roundtrip:
  "toUtf16 (toUtf8 s) = (if 0 \<in> set s then None else Some (Inr s))
   \<and> length (toUtf8 s) = getUtf8Length s
   \<and> (0 \<in> set s \<or> getUtf16Length (toUtf8 s) = length s)"
  using toUtf16_of_toUtf8 getUtf8Length_toUtf8 getUtf16Length_encoded by auto


text \<open>
  C38: changing the case of UTF-8 text in place is changing the case of its characters, except that
  an ASCII letter right after a character of two or three bytes keeps its case.
\<close>

theorem case_buf_is_case_map:
  "toupper_buf (toUtf8 s) = toUtf8 (case_folded toupper16 False s)
   \<and> tolower_buf (toUtf8 s) = toUtf8 (case_folded tolower16 False s)"
  using upper.case_buf_text [of 0 "[]" s] lower.case_buf_text [of 0 "[]" s]
  by (simp add: toupper_buf_def tolower_buf_def)

text \<open>
  The decimal printers write ASCII digits that read back as the number, with a sign for the
  negative ones, the smallest \<^verbatim>\<open>int64_t\<close> included (its negation wraps to itself).
\<close>

theorem to_decimal_value:
  "decimal_value (unsigned_to_decimal n) = unat n
   \<and> list_all (\<lambda>d. 0x30 \<le> d \<and> d \<le> 0x39) (unsigned_to_decimal n)
   \<and> (if n <s 0 then \<exists>ds. to_decimal_signed n = 0x2d # ds \<and> int (decimal_value ds) = - sint n
      else int (decimal_value (to_decimal_signed n)) = sint n)"
  by (simp add: to_decimal_signed_def unsigned_to_decimal_value unsigned_to_decimal_chars
      negative_word_nat nonnegative_word_nat)

text \<open>
  A named entity is recognised whatever its last character is, because the comparison is one
  character short.
\<close>

theorem html_entity_last_character:
  assumes "x \<noteq> 0" "x \<noteq> of_char CHR '';''"
  shows "utf8HtmlDecode (ascii ''&l'' @ x # ascii '';'' @ rest) = Inr (0x3C, rest)
    \<and> utf8HtmlDecode (ascii ''&g'' @ x # ascii '';'' @ rest) = Inr (0x3E, rest)
    \<and> utf8HtmlDecode (ascii ''&am'' @ x # ascii '';'' @ rest) = Inr (0x26, rest)
    \<and> utf8HtmlDecode (ascii ''&sh'' @ x # ascii '';'' @ rest) = Inr (0xAD, rest)
    \<and> utf8HtmlDecode (ascii ''&nbs'' @ x # ascii '';'' @ rest) = Inr (0xA0, rest)
    \<and> utf8HtmlDecode (ascii ''&quo'' @ x # ascii '';'' @ rest) = Inr (0x22, rest)
    \<and> utf8HtmlDecode (ascii ''&apo'' @ x # ascii '';'' @ rest) = Inr (0x27, rest)"
  using assms unfolding entity_chars append.simps by (intro conjI) (simp_all add: entity_eval)

theorem html_entity_last_character_witness:
  "utf8HtmlDecode (ascii ''&g'' @ 0x78 # ascii '';'' @ []) = Inr (0x3E, [])"
proof -
  have "(0x78 :: u8) \<noteq> 0" "(0x78 :: u8) \<noteq> of_char CHR '';''" by code_simp+
  from html_entity_last_character [OF this, of "[]"] show ?thesis by blast
qed

end
