(* ===== verification/StringView.thy ===== *)
theory StringView
  imports CharGroup Unicode
begin

text \<open>
  Models \<^verbatim>\<open>common/string/SPBytesReader.h\<close> and the class \<^verbatim>\<open>StringViewBase\<close> of \<^verbatim>\<open>SPStringView.h\<close>: the readers
  over a borrowed character range.

  A view is the list of the characters in \<^verbatim>\<open>[ptr, ptr + len)\<close> of a non-null pointer; an operation that
  moves the pointer returns the remaining view. The matcher template argument is a predicate. A
  position \<^verbatim>\<open>maxOf<size_t>()\<close> is \<open>None\<close>.
\<close>

section \<open>Bytes readers\<close>

type_synonym 'c view = "'c list"

definition offset :: "nat \<Rightarrow> 'c view \<Rightarrow> 'c view" where
  "offset l v = (if l > length v then [] else drop l v)"

definition compare :: "'c list \<Rightarrow> 'c view \<Rightarrow> bool" where
  "compare d v \<longleftrightarrow> length d = length v \<and> take (length d) v = d"

definition prefix_of :: "'c list \<Rightarrow> 'c view \<Rightarrow> bool" where
  "prefix_of d v \<longleftrightarrow> length d \<le> length v \<and> take (length d) v = d"

definition ends_with :: "'c list \<Rightarrow> 'c view \<Rightarrow> bool" where
  "ends_with d v \<longleftrightarrow> length d \<le> length v \<and> take (length d) (drop (length v - length d) v) = d"

function find_from :: "'c view \<Rightarrow> 'c list \<Rightarrow> nat \<Rightarrow> nat option" where
  "find_from v s pos =
     (if pos \<le> length v - length s
      then if v ! pos = s ! 0 \<and> take (length s - 1) (drop (pos + 1) v) = drop 1 s then Some pos
           else find_from v s (pos + 1)
      else None)"
  by pat_completeness auto
termination by (relation "measure (\<lambda>(v, s, pos). length v + 1 - pos)") auto

declare find_from.simps [simp del]

definition find_string :: "'c list \<Rightarrow> nat \<Rightarrow> 'c view \<Rightarrow> nat option" where
  "find_string s pos v =
     (if length s = 0 then (if pos \<le> length v then Some pos else None)
      else if length s \<le> length v then find_from v s pos else None)"

text \<open>\<^verbatim>\<open>char_traits::find\<close> on the characters from \<open>pos\<close> on.\<close>

fun traits_find :: "'c \<Rightarrow> 'c list \<Rightarrow> nat \<Rightarrow> nat option" where
  "traits_find c [] i = None"
| "traits_find c (x # xs) i = (if x = c then Some i else traits_find c xs (i + 1))"

definition find_char :: "'c \<Rightarrow> nat \<Rightarrow> 'c view \<Rightarrow> nat option" where
  "find_char c pos v = (if pos < length v then traits_find c (drop pos v) pos else None)"

fun rfind_from :: "'c view \<Rightarrow> 'c list \<Rightarrow> nat \<Rightarrow> nat option" where
  "rfind_from v s pos =
     (if take (length s) (drop pos v) = s then Some pos
      else case pos of 0 \<Rightarrow> None | Suc p \<Rightarrow> rfind_from v s p)"

declare rfind_from.simps [simp del]

definition rfind_string :: "'c list \<Rightarrow> nat \<Rightarrow> 'c view \<Rightarrow> nat option" where
  "rfind_string s pos v =
     (if length s \<le> length v then rfind_from v s (min (length v - length s) pos) else None)"

fun rfind_char_from :: "'c view \<Rightarrow> 'c \<Rightarrow> nat \<Rightarrow> nat option" where
  "rfind_char_from v c 0 = None"
| "rfind_char_from v c (Suc n) = (if v ! n = c then Some n else rfind_char_from v c n)"

definition rfind_char :: "'c \<Rightarrow> nat \<Rightarrow> 'c view \<Rightarrow> nat option" where
  "rfind_char c pos v =
     (if length v \<noteq> 0 then rfind_char_from v c (if length v - 1 > pos then pos + 1 else length v) else None)"

section \<open>Matching readers\<close>

definition view_is :: "'c \<Rightarrow> 'c view \<Rightarrow> bool" where
  "view_is c v \<longleftrightarrow> length v > 0 \<and> v ! 0 = c"

definition view_next :: "'c view \<Rightarrow> 'c view" where
  "view_next v = (if v = [] then v else drop 1 v)"

text \<open>A sub-view that starts behind the end is outside the text: \<^verbatim>\<open>size() - pos\<close> wraps to a huge length.\<close>

definition sub_view :: "nat \<Rightarrow> nat \<Rightarrow> 'c view \<Rightarrow> fault + 'c view" where
  "sub_view pos len v =
     (if pos \<le> length v then Inr (take (min len (length v - pos)) (drop pos v))
      else if len = 0 then Inr [] else Inl OutOfBounds)"

text \<open>The counting loop of \<^verbatim>\<open>skipChars\<close> and \<^verbatim>\<open>skipUntil\<close>.\<close>

function match_count :: "('c \<Rightarrow> bool) \<Rightarrow> 'c view \<Rightarrow> nat \<Rightarrow> nat" where
  "match_count m v off = (if length v > off \<and> m (v ! off) then match_count m v (off + 1) else off)"
  by pat_completeness auto
termination by (relation "measure (\<lambda>(m, v, off). length v - off)") auto

declare match_count.simps [simp del]

definition skipChars :: "('c \<Rightarrow> bool) \<Rightarrow> 'c view \<Rightarrow> 'c view" where
  "skipChars m v = (let off = min (match_count m v 0) (length v) in drop off v)"

definition skipUntil :: "('c \<Rightarrow> bool) \<Rightarrow> 'c view \<Rightarrow> 'c view" where
  "skipUntil m v = (let off = min (match_count (\<lambda>c. \<not> m c) v 0) (length v) in drop off v)"

function backwardSkipChars :: "('c \<Rightarrow> bool) \<Rightarrow> 'c view \<Rightarrow> 'c view" where
  "backwardSkipChars m v = (if length v > 0 \<and> m (v ! (length v - 1)) then backwardSkipChars m (take (length v - 1) v) else v)"
  by pat_completeness auto
termination by (relation "measure (\<lambda>(m, v). length v)") auto

declare backwardSkipChars.simps [simp del]

definition backwardSkipUntil :: "('c \<Rightarrow> bool) \<Rightarrow> 'c view \<Rightarrow> 'c view" where
  "backwardSkipUntil m v = backwardSkipChars (\<lambda>c. \<not> m c) v"

text \<open>A \<^verbatim>\<open>read\<close> operation returns the part the pointer moved over, and the remaining view.\<close>

definition readChars :: "('c \<Rightarrow> bool) \<Rightarrow> 'c view \<Rightarrow> 'c view \<times> 'c view" where
  "readChars m v = (let v' = skipChars m v in (take (length v - length v') v, v'))"

definition readUntil :: "('c \<Rightarrow> bool) \<Rightarrow> 'c view \<Rightarrow> 'c view \<times> 'c view" where
  "readUntil m v = (let v' = skipUntil m v in (take (length v - length v') v, v'))"

definition backwardReadChars :: "('c \<Rightarrow> bool) \<Rightarrow> 'c view \<Rightarrow> 'c view \<times> 'c view" where
  "backwardReadChars m v = (let v' = backwardSkipChars m v in (take (length v - length v') (drop (length v') v), v'))"

definition backwardReadUntil :: "('c \<Rightarrow> bool) \<Rightarrow> 'c view \<Rightarrow> 'c view \<times> 'c view" where
  "backwardReadUntil m v = (let v' = backwardSkipUntil m v in (take (length v - length v') (drop (length v') v), v'))"

definition skipString :: "'c list \<Rightarrow> 'c view \<Rightarrow> bool \<times> 'c view" where
  "skipString str v = (if prefix_of str v then (True, drop (min (length str) (length v)) v) else (False, v))"

fun skip_to_string :: "'c list \<Rightarrow> 'c view \<Rightarrow> 'c view" where
  "skip_to_string str [] = []"
| "skip_to_string str (c # v) = (if \<not> prefix_of str (c # v) then skip_to_string str v else c # v)"

definition skipUntilString :: "'c :: zero list \<Rightarrow> bool \<Rightarrow> 'c view \<Rightarrow> bool \<times> 'c view" where
  "skipUntilString str stopBeforeString v =
     (let v = skip_to_string str v;
          v = (if length v > 0 \<and> v ! 0 \<noteq> 0 \<and> \<not> stopBeforeString then snd (skipString str v) else v)
      in (length v > 0 \<and> v ! 0 \<noteq> 0, v))"

definition readUntilString :: "'c :: zero list \<Rightarrow> 'c view \<Rightarrow> 'c view \<times> 'c view" where
  "readUntilString str v = (let v' = snd (skipUntilString str True v) in (take (length v - length v') v, v'))"

lemma match_count_takeWhile:
  "off \<le> length v \<Longrightarrow> match_count m v off = off + length (takeWhile m (drop off v))"
proof (induction m v off rule: match_count.induct)
  case (1 m v off)
  show ?case
  proof (cases "off < length v")
    case True
    then have "drop off v = v ! off # drop (off + 1) v" by (simp add: Cons_nth_drop_Suc)
    with 1 True show ?thesis by (subst match_count.simps) simp
  next
    case False
    then show ?thesis by (subst match_count.simps) simp
  qed
qed

lemma skip_eq: "skipChars m v = dropWhile m v" "skipUntil m v = dropWhile (\<lambda>c. \<not> m c) v"
  by (simp_all add: skipChars_def skipUntil_def match_count_takeWhile length_takeWhile_le min_def dropWhile_eq_drop Let_def)

lemma read_eq:
  "readChars m v = (takeWhile m v, dropWhile m v)"
  "readUntil m v = (takeWhile (\<lambda>c. \<not> m c) v, dropWhile (\<lambda>c. \<not> m c) v)"
proof -
  have "take (length v - length (dropWhile p v)) v = takeWhile p v" for p :: "'a \<Rightarrow> bool"
    by (metis add_diff_cancel_right' append_eq_conv_conj length_append takeWhile_dropWhile_id)
  then show "readChars m v = (takeWhile m v, dropWhile m v)"
    "readUntil m v = (takeWhile (\<lambda>c. \<not> m c) v, dropWhile (\<lambda>c. \<not> m c) v)"
    by (simp_all add: readChars_def readUntil_def skip_eq Let_def)
qed

text \<open>\<^verbatim>\<open>split\<close>: the views the callback is called with, in order.\<close>

function split :: "('c \<Rightarrow> bool) \<Rightarrow> 'c view \<Rightarrow> 'c view list" where
  "split sep str =
     (if str = [] then []
      else let r = readUntil sep (skipChars sep str)
           in (if fst r = [] then [] else [fst r]) @ split sep (snd r))"
  by pat_completeness auto
termination
proof (relation "measure (\<lambda>(sep, str). length str)")
  fix sep :: "'c \<Rightarrow> bool" and str :: "'c view" and r
  assume "str \<noteq> []" "r = readUntil sep (skipChars sep str)"
  moreover have "length (dropWhile (\<lambda>c. \<not> sep c) (dropWhile sep str)) < length str" if "str \<noteq> []"
  proof (cases str)
    case (Cons c cs)
    then show ?thesis
      using length_dropWhile_le [of "\<lambda>c. \<not> sep c" "dropWhile sep cs"] length_dropWhile_le [of sep cs]
        length_dropWhile_le [of "\<lambda>c. \<not> sep c" cs]
      by simp
  qed (use that in simp)
  ultimately show "((sep, snd r), sep, str) \<in> measure (\<lambda>(sep, str). length str)"
    by (simp add: read_eq skip_eq)
qed simp

declare split.simps [simp del]

definition trimChars :: "('c \<Rightarrow> bool) \<Rightarrow> 'c view \<Rightarrow> 'c view" where
  "trimChars m v = (let v = skipChars m v in if v \<noteq> [] then backwardSkipChars m v else v)"

definition trimUntil :: "('c \<Rightarrow> bool) \<Rightarrow> 'c view \<Rightarrow> 'c view" where
  "trimUntil m v = (let v = skipUntil m v in if v \<noteq> [] then backwardSkipUntil m v else v)"

section \<open>Numbers\<close>

text \<open>
  \<^verbatim>\<open>strtoll\<close> of the C library on a zero-terminated buffer: white space, a sign, the prefix \<^verbatim>\<open>0x\<close> when a
  hexadecimal digit follows it, and the digits of the base; base 0 stands for 16, 8 or 10 according to
  the prefix. The result saturates at the limits of \<^verbatim>\<open>int64_t\<close>. With the value comes the number of
  characters before \<open>*tail\<close>.
\<close>

definition c_space :: "u8 \<Rightarrow> bool" where
  "c_space c \<longleftrightarrow> c = 0x20 \<or> 0x09 \<le> c \<and> c \<le> 0x0D"

definition digit_of :: "u8 \<Rightarrow> nat option" where
  "digit_of c =
     (if 0x30 \<le> c \<and> c \<le> 0x39 then Some (unat c - 0x30)
      else if 0x61 \<le> c \<and> c \<le> 0x7A then Some (unat c - 0x61 + 10)
      else if 0x41 \<le> c \<and> c \<le> 0x5A then Some (unat c - 0x41 + 10)
      else None)"

definition digit_below :: "nat \<Rightarrow> u8 \<Rightarrow> bool" where
  "digit_below base c = (case digit_of c of None \<Rightarrow> False | Some d \<Rightarrow> d < base)"

definition digits_value :: "nat \<Rightarrow> u8 list \<Rightarrow> nat" where
  "digits_value base ds = foldl (\<lambda>n c. n * base + the (digit_of c)) 0 ds"

definition saturate64 :: "int \<Rightarrow> int" where
  "saturate64 n = (if n < - (2 ^ 63) then - (2 ^ 63) else if n \<ge> 2 ^ 63 then 2 ^ 63 - 1 else n)"

definition strtoll_prefix :: "nat \<Rightarrow> u8 list \<Rightarrow> nat \<times> nat" where
  "strtoll_prefix base s =
     (if (base = 0 \<or> base = 16) \<and> length s \<ge> 3 \<and> s ! 0 = 0x30 \<and> (s ! 1 = 0x78 \<or> s ! 1 = 0x58) \<and> digit_below 16 (s ! 2)
      then (16, 2)
      else if base = 0 then (if s \<noteq> [] \<and> s ! 0 = 0x30 then 8 else 10, 0)
      else (base, 0))"

definition strtoll :: "u8 list \<Rightarrow> nat \<Rightarrow> int \<times> nat" where
  "strtoll s base =
     (let ws = takeWhile c_space s; s1 = drop (length ws) s;
          sgn = (if s1 \<noteq> [] \<and> (s1 ! 0 = 0x2d \<or> s1 ! 0 = 0x2b) then 1 else 0);
          neg = (sgn = 1 \<and> s1 ! 0 = 0x2d);
          s2 = drop sgn s1;
          (b, pre) = strtoll_prefix base s2;
          ds = takeWhile (digit_below b) (drop pre s2)
      in if ds = [] then (0, 0)
         else (saturate64 ((if neg then - 1 else 1) * int (digits_value b ds)), length ws + sgn + pre + length ds))"

text \<open>
  \<^verbatim>\<open>StringView_readNumber\<close> copies at most 31 characters into a zeroed buffer of 32; the string \<^verbatim>\<open>strtoll\<close>
  sees ends at the first zero byte. A tail at a zero byte consumes all the characters copied.
\<close>

definition readNumber :: "u8 view \<Rightarrow> nat \<Rightarrow> int option \<times> u8 view" where
  "readNumber v base =
     (let m = min 31 (length v); buf = take m v @ replicate (32 - m) 0;
          (val, ret) = strtoll (takeWhile (\<lambda>c. c \<noteq> 0) buf) base
      in if buf ! ret = 0 then (Some val, drop m v)
         else if ret \<noteq> 0 then (Some val, drop ret v)
         else (None, v))"

definition readInteger :: "nat \<Rightarrow> u8 view \<Rightarrow> int option \<times> u8 view" where
  "readInteger base v = readNumber (skipChars isspace v) base"

text \<open>The same with \<^verbatim>\<open>strtod\<close>, which is an argument: a value and the number of characters it took.\<close>

definition readDouble :: "(u8 list \<Rightarrow> u64 \<times> nat) \<Rightarrow> u8 view \<Rightarrow> u64 option \<times> u8 view" where
  "readDouble strtod w =
     (let v = skipChars isspace w; m = min 31 (length v); buf = take m v @ replicate (32 - m) 0;
          (val, ret) = strtod (takeWhile (\<lambda>c. c \<noteq> 0) buf)
      in if buf ! ret = 0 then (Some val, drop m v)
         else if ret \<noteq> 0 then (Some val, drop ret v)
         else (None, v))"

section \<open>Reading decimal numbers\<close>

lemma decimal_digit_of:
  assumes "0x30 \<le> c \<and> c \<le> 0x39"
  shows "digit_of c = Some (unat c - 0x30)" "digit_below 10 c" "c \<noteq> 0" "\<not> isspace c" "\<not> c_space c"
    "c \<noteq> 0x2d" "c \<noteq> 0x2b" "c \<noteq> 0x78" "c \<noteq> 0x58"
proof -
  have "48 \<le> unat c" "unat c \<le> 57" using assms by (simp_all add: word_le_nat_alt)
  then show "digit_of c = Some (unat c - 0x30)" "digit_below 10 c" "c \<noteq> 0" "\<not> isspace c" "\<not> c_space c"
    "c \<noteq> 0x2d" "c \<noteq> 0x2b" "c \<noteq> 0x78" "c \<noteq> 0x58"
    using assms by (auto simp: digit_of_def digit_below_def ctype_eq c_space_def word_le_nat_alt)
qed

lemma digits_value_decimal:
  "list_all (\<lambda>c. 0x30 \<le> c \<and> c \<le> 0x39) ds \<Longrightarrow> digits_value 10 ds = decimal_value ds"
proof -
  have "foldl (\<lambda>n c. n * 10 + the (digit_of c)) k ds = foldl (\<lambda>n d. n * 10 + (unat d - 0x30)) k ds"
    if "list_all (\<lambda>c. 0x30 \<le> c \<and> c \<le> 0x39) ds" for k
    using that by (induction ds arbitrary: k) (simp_all add: decimal_digit_of)
  then show "list_all (\<lambda>c. 0x30 \<le> c \<and> c \<le> 0x39) ds \<Longrightarrow> digits_value 10 ds = decimal_value ds"
    by (simp add: digits_value_def decimal_value_def)
qed

definition sign_chars :: "bool \<Rightarrow> u8 list" where
  "sign_chars neg = (if neg then [0x2d] else [])"

text \<open>Digits that start with a zero are octal for base 0, so a single zero is the only such decimal.\<close>

lemma strtoll_decimal:
  assumes d: "list_all (\<lambda>c. 0x30 \<le> c \<and> c \<le> 0x39) ds" "ds \<noteq> []"
    and b: "base = 10 \<or> base = 0 \<and> (hd ds = 0x30 \<longrightarrow> ds = [0x30])"
    and r: "r = [] \<or> \<not> digit_below 10 (hd r) \<and> hd r \<noteq> 0x78 \<and> hd r \<noteq> 0x58"
  shows "strtoll (sign_chars neg @ ds @ r) base =
    (saturate64 ((if neg then - 1 else 1) * int (decimal_value ds)), length (sign_chars neg) + length ds)"
proof -
  obtain c cs where ds: "ds = c # cs" and c: "0x30 \<le> c \<and> c \<le> 0x39" using d by (cases ds) auto
  let ?s1 = "sign_chars neg @ ds @ r"
  have ws: "takeWhile c_space ?s1 = []"
    using decimal_digit_of [OF c] by (cases neg) (simp_all add: sign_chars_def ds c_space_def)
  have sgn: "?s1 \<noteq> [] \<and> (?s1 ! 0 = 0x2d \<or> ?s1 ! 0 = 0x2b) \<longleftrightarrow> neg" "neg \<Longrightarrow> ?s1 ! 0 = 0x2d"
    using decimal_digit_of [OF c] by (cases neg; simp add: sign_chars_def ds)+
  have s2: "drop (if neg then 1 else 0) ?s1 = ds @ r" by (simp add: sign_chars_def)
  have tw: "takeWhile (digit_below 10) (ds @ r) = ds"
    using d(1) r decimal_digit_of(2) by (cases r) (auto simp: takeWhile_append list_all_iff)
  have "(ds @ r) ! 1 \<noteq> 0x78 \<and> (ds @ r) ! 1 \<noteq> 0x58" if "length (ds @ r) \<ge> 3"
  proof (cases cs)
    case Nil
    then show ?thesis using r that by (cases r) (auto simp: ds)
  next
    case (Cons c' cs')
    then show ?thesis using d(1) decimal_digit_of [of c'] by (auto simp: ds)
  qed
  then have pre: "strtoll_prefix base (ds @ r) = (if base = 0 \<and> hd ds = 0x30 then 8 else 10, 0)"
    using b by (auto simp: strtoll_prefix_def ds)
  have val: "takeWhile (digit_below (if base = 0 \<and> hd ds = 0x30 then 8 else 10)) (ds @ r) = ds
    \<and> digits_value (if base = 0 \<and> hd ds = 0x30 then 8 else 10) ds = decimal_value ds"
  proof (cases "base = 0 \<and> hd ds = 0x30")
    case True
    then have "ds = [0x30]" using b by auto
    moreover have "\<not> digit_below 8 (hd r)" if "r \<noteq> []"
      using r that by (auto simp: digit_below_def split: option.splits)
    ultimately show ?thesis
      by (cases r) (auto simp: True digit_below_def digit_of_def digits_value_def decimal_value_def)
  next
    case False
    then have "(if base = 0 \<and> hd ds = 0x30 then 8 else 10) = (10 :: nat)" by argo
    then show ?thesis using tw digits_value_decimal [OF d(1)] by (simp only:)
  qed
  show ?thesis
    unfolding strtoll_def ws Let_def list.size drop_0 sgn(1) s2 pre prod.case
    using val d(2) sgn(2) by (simp add: sign_chars_def)
qed

lemma readNumber_decimal:
  assumes d: "list_all (\<lambda>c. 0x30 \<le> c \<and> c \<le> 0x39) ds" "ds \<noteq> []" "length ds \<le> 20"
    and b: "base = 10 \<or> base = 0 \<and> (hd ds = 0x30 \<longrightarrow> ds = [0x30])"
    and r: "r = [] \<or> hd r \<noteq> 0 \<and> \<not> digit_below 10 (hd r) \<and> hd r \<noteq> 0x78 \<and> hd r \<noteq> 0x58"
  shows "readInteger base (sign_chars neg @ ds @ r) =
    (Some (saturate64 ((if neg then - 1 else 1) * int (decimal_value ds))), r)"
proof -
  let ?v = "sign_chars neg @ ds @ r" and ?n = "length (sign_chars neg) + length ds"
  obtain c cs where ds: "ds = c # cs" and c: "0x30 \<le> c \<and> c \<le> 0x39" using d by (cases ds) auto
  have sp: "skipChars isspace ?v = ?v"
  proof -
    have "\<not> isspace (hd ?v)" "?v \<noteq> []"
      using decimal_digit_of(4) [OF c] by (cases neg; simp add: sign_chars_def ds ctype_eq)+
    then show ?thesis by (cases ?v) (simp_all add: skip_eq)
  qed
  have n: "?n \<le> 21" using d(3) by (simp add: sign_chars_def)
  define m where "m = min 31 (length ?v)"
  have m: "m \<ge> ?n" "m \<le> 31" using n by (auto simp: m_def)
  have tk: "take m ?v = sign_chars neg @ ds @ take (m - ?n) r"
    using m by simp
  have nz: "\<forall>x\<in>set (sign_chars neg @ ds). x \<noteq> 0"
    using d(1) decimal_digit_of(3) by (auto simp: sign_chars_def list_all_iff)
  define r' where "r' = takeWhile (\<lambda>c. c \<noteq> 0) (take (m - ?n) r @ replicate (32 - m) 0)"
  have cs: "takeWhile (\<lambda>c. c \<noteq> 0) (take m ?v @ replicate (32 - m) 0) = sign_chars neg @ ds @ r'"
    using nz unfolding tk r'_def by (simp add: takeWhile_append)
  have r': "r' = [] \<or> \<not> digit_below 10 (hd r') \<and> hd r' \<noteq> 0x78 \<and> hd r' \<noteq> 0x58"
    using r m n unfolding r'_def by (cases r; cases "m - ?n") auto
  note st = strtoll_decimal [OF d(1,2) b r', of neg]
  have at: "(take m ?v @ replicate (32 - m) 0) ! ?n = (if r = [] then 0 else hd r)"
  proof (cases r)
    case Nil
    then have "m = ?n" using n by (simp add: m_def)
    then show ?thesis using n Nil by (simp add: nth_append)
  next
    case (Cons x xs)
    then have "m > ?n" using n by (simp add: m_def)
    then obtain j where "m - ?n = Suc j" by (metis Suc_diff_Suc)
    then show ?thesis unfolding tk using Cons by (simp add: nth_append)
  qed
  have "drop m ?v = []" if "r = []" using that n by (simp add: m_def)
  then show ?thesis
    using r d(2) unfolding readInteger_def sp readNumber_def Let_def m_def [symmetric] cs st prod.case at
    by (cases r) auto
qed

lemma decimal_digits_bound: "n \<noteq> 0 \<Longrightarrow> 10 ^ (length (decimal_digits n) - 1) \<le> unat n"
proof (induction n rule: decimal_digits.induct)
  case (1 n)
  have u: "unat (n div 10) = unat n div 10" by (simp add: unat_div)
  show ?case
  proof (cases "n div 10 = 0")
    case True
    then have "length (decimal_digits n) = 1" using 1(2) by (simp add: decimal_digits.simps [of n] decimal_digits.simps [of 0])
    then show ?thesis using 1(2) by (simp add: unat_gt_0 Suc_le_eq)
  next
    case False
    then have IH: "10 ^ (length (decimal_digits (n div 10)) - 1) \<le> unat n div 10" using 1 u by simp
    have "length (decimal_digits (n div 10)) \<noteq> 0" using False by (simp add: decimal_digits.simps [of "n div 10"])
    then have "(10 :: nat) ^ (length (decimal_digits n) - 1) = 10 * 10 ^ (length (decimal_digits (n div 10)) - 1)"
      using 1(2) by (cases "length (decimal_digits (n div 10))") (simp_all add: decimal_digits.simps [of n])
    then show ?thesis using IH by simp
  qed
qed

lemma decimal_digits_length: "length (decimal_digits n) \<le> 20"
proof (cases "n = 0")
  case False
  have "(10 :: nat) ^ (length (decimal_digits n) - 1) < 2 ^ 64"
    using decimal_digits_bound [OF False] unsigned_less [of n, where ?'a = nat] by simp
  also have "(2 :: nat) ^ 64 < 10 ^ 20" by simp
  finally have "length (decimal_digits n) - 1 < 20" by (rule power_less_imp_less_exp [rotated]) simp
  then show ?thesis by simp
qed (simp add: decimal_digits.simps [of 0])

lemma decimal_digits_last: "n \<noteq> 0 \<Longrightarrow> decimal_digits n \<noteq> [] \<and> last (decimal_digits n) \<noteq> 0x30"
proof (induction n rule: decimal_digits.induct)
  case (1 n)
  show ?case
  proof (cases "n div 10 = 0")
    case True
    then have "unat (n div 10) = 0" by simp
    then have small: "unat n < 10" by (simp add: unat_div)
    have "unat (n mod 10) = unat n" using small by (simp add: unat_mod)
    then have "n mod 10 = n" by (rule word_unat_eq_iff [THEN iffD2])
    moreover have "0x30 + ucast n \<noteq> (0x30 :: u8)"
    proof
      assume "0x30 + ucast n = (0x30 :: u8)"
      then have "(ucast n :: u8) = 0" by simp
      then have "unat (ucast n :: u8) = 0" by simp
      then have "unat n mod 256 = 0" by (simp add: unsigned_ucast_eq take_bit_eq_mod)
      then have "unat n = 0" using small by simp
      then have "n = 0" by (simp only: unat_eq_zero)
      with 1(2) show False by blast
    qed
    ultimately show ?thesis using True 1(2) by (simp add: decimal_digits.simps [of n] decimal_digits.simps [of 0])
  next
    case False
    then show ?thesis using 1 by (simp add: decimal_digits.simps [of n])
  qed
qed

section \<open>Splitting and searching\<close>

text \<open>The fields between single separators; consecutive separators delimit empty ones.\<close>

fun fields :: "('c \<Rightarrow> bool) \<Rightarrow> 'c list \<Rightarrow> 'c list list" where
  "fields sep [] = [[]]"
| "fields sep (c # cs) =
     (if sep c then [] # fields sep cs
      else case fields sep cs of [] \<Rightarrow> [[c]] | f # fs \<Rightarrow> (c # f) # fs)"

lemma fields_first:
  "fields sep v = takeWhile (\<lambda>c. \<not> sep c) v #
     (case dropWhile (\<lambda>c. \<not> sep c) v of [] \<Rightarrow> [] | s # rest \<Rightarrow> fields sep rest)"
  by (induction v) auto

lemma fields_dropWhile: "filter (\<lambda>t. t \<noteq> []) (fields sep (dropWhile sep v)) = filter (\<lambda>t. t \<noteq> []) (fields sep v)"
  by (induction v) auto

lemma split_fields: "split sep v = filter (\<lambda>t. t \<noteq> []) (fields sep v)"
proof (induction sep v rule: split.induct)
  case (1 sep v)
  show ?case
  proof (cases "v = []")
    case False
    let ?u = "dropWhile sep v"
    let ?t = "takeWhile (\<lambda>c. \<not> sep c) ?u" and ?w = "dropWhile (\<lambda>c. \<not> sep c) ?u"
    have IH: "split sep ?w = filter (\<lambda>t. t \<noteq> []) (fields sep ?w)"
      using 1 [OF False refl] by (simp add: read_eq skip_eq)
    have "filter (\<lambda>t. t \<noteq> []) (fields sep ?w)
        = filter (\<lambda>t. t \<noteq> []) (case ?w of [] \<Rightarrow> [] | s # rest \<Rightarrow> fields sep rest)"
    proof (rule list.exhaust [of ?w])
      assume "?w = []"
      then show ?thesis by (simp only: fields.simps list.case) simp
    next
      fix s rest
      assume w: "?w = s # rest"
      then have "sep s" using hd_dropWhile [of "\<lambda>c. \<not> sep c" ?u] by auto
      then show ?thesis unfolding w by simp
    qed
    then have "filter (\<lambda>t. t \<noteq> []) (fields sep ?u) = (if ?t = [] then [] else [?t]) @ filter (\<lambda>t. t \<noteq> []) (fields sep ?w)"
      by (subst fields_first) simp
    then show ?thesis
      using False IH by (subst split.simps) (simp add: read_eq skip_eq fields_dropWhile)
  qed (simp add: split.simps)
qed

definition occurs :: "'c list \<Rightarrow> nat \<Rightarrow> 'c list \<Rightarrow> bool" where
  "occurs s i v \<longleftrightarrow> i + length s \<le> length v \<and> take (length s) (drop i v) = s"

lemma occurs_first:
  assumes "s \<noteq> []" "pos \<le> length v - length s" "length s \<le> length v"
  shows "v ! pos = s ! 0 \<and> take (length s - 1) (drop (pos + 1) v) = drop 1 s \<longleftrightarrow> occurs s pos v"
proof -
  obtain c cs where s: "s = c # cs" using assms(1) by (cases s) auto
  have "pos < length v" using assms s by simp
  then have "drop pos v = v ! pos # drop (pos + 1) v" by (simp add: Cons_nth_drop_Suc)
  then show ?thesis using assms s by (auto simp: occurs_def)
qed

text \<open>The first position from \<open>pos\<close> on with a property, and the last one up to \<open>pos\<close>.\<close>

definition first_from :: "(nat \<Rightarrow> bool) \<Rightarrow> nat \<Rightarrow> nat \<Rightarrow> bool" where
  "first_from P pos i \<longleftrightarrow> pos \<le> i \<and> P i \<and> (\<forall>j. pos \<le> j \<and> j < i \<longrightarrow> \<not> P j)"

definition last_to :: "(nat \<Rightarrow> bool) \<Rightarrow> nat \<Rightarrow> nat \<Rightarrow> bool" where
  "last_to P pos i \<longleftrightarrow> i \<le> pos \<and> P i \<and> (\<forall>j. i < j \<and> j \<le> pos \<longrightarrow> \<not> P j)"

lemma first_here: "P pos \<Longrightarrow> first_from P pos i \<longleftrightarrow> i = pos"
  unfolding first_from_def by (metis le_neq_implies_less less_irrefl order_refl not_le)

lemma first_next: "\<not> P pos \<Longrightarrow> first_from P pos i \<longleftrightarrow> first_from P (Suc pos) i"
  unfolding first_from_def by (metis Suc_leI Suc_le_lessD le_neq_implies_less nat_less_le)

lemma last_here: "P pos \<Longrightarrow> last_to P pos i \<longleftrightarrow> i = pos"
  unfolding last_to_def by (metis le_neq_implies_less less_irrefl order_refl not_le)

lemma last_next: "\<not> P (Suc pos) \<Longrightarrow> last_to P (Suc pos) i \<longleftrightarrow> last_to P pos i"
  unfolding last_to_def by (metis le_Suc_eq)

lemma find_from_first:
  assumes "s \<noteq> []" "length s \<le> length v"
  shows "find_from v s pos = Some i \<longleftrightarrow> first_from (\<lambda>i. occurs s i v) pos i"
  using assms
proof (induction v s pos rule: find_from.induct)
  case (1 v s pos)
  have le: "occurs s j v \<Longrightarrow> j \<le> length v - length s" for j by (auto simp: occurs_def)
  show ?case
  proof (cases "pos \<le> length v - length s")
    case True
    note iff = occurs_first [OF "1.prems"(1) True "1.prems"(2)]
    show ?thesis
    proof (cases "occurs s pos v")
      case o: True
      then have "find_from v s pos = Some pos" using iff True by (subst find_from.simps) simp
      then show ?thesis using first_here [of "\<lambda>i. occurs s i v" pos i] o by auto
    next
      case False
      then have "find_from v s pos = find_from v s (pos + 1)" using iff True by (subst find_from.simps) auto
      moreover have "find_from v s (pos + 1) = Some i \<longleftrightarrow> first_from (\<lambda>i. occurs s i v) (pos + 1) i"
        using iff True False "1.prems" by (intro "1.IH") auto
      ultimately show ?thesis using first_next [of "\<lambda>i. occurs s i v" pos i] False by simp
    qed
  next
    case False
    then have "find_from v s pos = None" by (subst find_from.simps) simp
    moreover have "\<not> first_from (\<lambda>i. occurs s i v) pos i"
      using False le unfolding first_from_def by (meson le_trans)
    ultimately show ?thesis by simp
  qed
qed

lemma find_string_first: "find_string s pos v = Some i \<longleftrightarrow> first_from (\<lambda>i. occurs s i v) pos i"
proof (cases "s = []")
  case True
  have o: "occurs [] j v \<longleftrightarrow> j \<le> length v" for j by (auto simp: occurs_def)
  show ?thesis
  proof (cases "pos \<le> length v")
    case le: True
    then show ?thesis using first_here [of "\<lambda>i. occurs s i v" pos i] o True by (auto simp: find_string_def)
  next
    case False
    then show ?thesis using o True by (auto simp: find_string_def first_from_def)
  qed
next
  case False
  show ?thesis
  proof (cases "length s \<le> length v")
    case True
    then show ?thesis using find_from_first [OF False True] False by (simp add: find_string_def)
  next
    case short: False
    then show ?thesis using False by (auto simp: find_string_def first_from_def occurs_def)
  qed
qed

lemma rfind_from_last:
  "pos + length s \<le> length v \<Longrightarrow> rfind_from v s pos = Some i \<longleftrightarrow> last_to (\<lambda>i. occurs s i v) pos i"
proof (induction pos)
  case 0
  have "take (length s) v = s \<longleftrightarrow> occurs s 0 v" using 0 by (auto simp: occurs_def)
  then show ?case by (subst rfind_from.simps) (auto simp: last_to_def)
next
  case (Suc p)
  have o: "take (length s) (drop (Suc p) v) = s \<longleftrightarrow> occurs s (Suc p) v" using Suc.prems by (auto simp: occurs_def)
  show ?case
  proof (cases "occurs s (Suc p) v")
    case True
    then have "rfind_from v s (Suc p) = Some (Suc p)" using o by (subst rfind_from.simps) simp
    then show ?thesis using last_here [of "\<lambda>i. occurs s i v" "Suc p" i] True by auto
  next
    case False
    then have "rfind_from v s (Suc p) = rfind_from v s p" using o by (subst rfind_from.simps) simp
    then show ?thesis using Suc last_next [of "\<lambda>i. occurs s i v" p i] False by simp
  qed
qed

lemma last_to_min:
  assumes "\<And>j. P j \<Longrightarrow> j \<le> n" shows "last_to P (min n pos) i \<longleftrightarrow> last_to P pos i"
  using assms unfolding last_to_def by (metis min.bounded_iff)

lemma rfind_string_last: "rfind_string s pos v = Some i \<longleftrightarrow> last_to (\<lambda>i. occurs s i v) pos i"
proof (cases "length s \<le> length v")
  case True
  have "occurs s j v \<Longrightarrow> j \<le> length v - length s" for j by (auto simp: occurs_def)
  then show ?thesis
    using rfind_from_last [of "min (length v - length s) pos" s v i] True
      last_to_min [of "\<lambda>i. occurs s i v" "length v - length s" pos i]
    by (simp add: rfind_string_def)
next
  case False
  then show ?thesis by (auto simp: rfind_string_def occurs_def last_to_def)
qed

text \<open>Searching for a character is searching for the string of that character.\<close>

lemma occurs_char: "occurs [c] i v \<longleftrightarrow> i < length v \<and> v ! i = c"
proof (cases "i < length v")
  case True
  then have "drop i v = v ! i # drop (Suc i) v" by (simp add: Cons_nth_drop_Suc)
  then show ?thesis using True by (auto simp: occurs_def)
qed (auto simp: occurs_def)

lemma traits_find_first:
  "traits_find c (drop pos v) pos = Some i \<longleftrightarrow> first_from (\<lambda>i. occurs [c] i v) pos i"
proof (induction "length v - pos" arbitrary: pos)
  case 0
  then show ?case by (auto simp: first_from_def occurs_char)
next
  case (Suc n)
  then have d: "drop pos v = v ! pos # drop (Suc pos) v" "pos < length v" by (simp_all add: Cons_nth_drop_Suc)
  show ?case
  proof (cases "v ! pos = c")
    case True
    then show ?thesis using first_here [of "\<lambda>i. occurs [c] i v" pos i] d by (auto simp: occurs_char)
  next
    case False
    moreover have "traits_find c (drop (Suc pos) v) (Suc pos) = Some i \<longleftrightarrow> first_from (\<lambda>i. occurs [c] i v) (Suc pos) i"
      using Suc(2) by (intro Suc.hyps(1)) simp
    ultimately show ?thesis
      using first_next [of "\<lambda>i. occurs [c] i v" pos i] unfolding d(1) by (simp add: occurs_char)
  qed
qed

lemma find_char_string: "find_char c pos v = find_string [c] pos v"
proof -
  have "find_char c pos v = Some i \<longleftrightarrow> find_string [c] pos v = Some i" for i
    using traits_find_first [of c pos v i] find_string_first [of "[c]" pos v i]
    by (cases "pos < length v") (auto simp: find_char_def first_from_def occurs_char)
  then show ?thesis by (metis not_None_eq)
qed

lemma rfind_char_from_last:
  "n < length v \<Longrightarrow> rfind_char_from v c (Suc n) = Some i \<longleftrightarrow> last_to (\<lambda>i. occurs [c] i v) n i"
proof (induction n)
  case 0
  then show ?case by (auto simp: last_to_def occurs_char)
next
  case (Suc n)
  show ?case
  proof (cases "occurs [c] (Suc n) v")
    case True
    then show ?thesis using last_here [of "\<lambda>i. occurs [c] i v" "Suc n" i] by (auto simp: occurs_char)
  next
    case False
    then show ?thesis using last_next [of "\<lambda>i. occurs [c] i v" n i] Suc by (auto simp: occurs_char)
  qed
qed

lemma rfind_char_string: "rfind_char c pos v = rfind_string [c] pos v"
proof -
  have "rfind_char c pos v = Some i \<longleftrightarrow> rfind_string [c] pos v = Some i" for i
  proof (cases "length v = 0")
    case False
    define n where "n = min (length v - 1) pos"
    have "(if length v - 1 > pos then pos + 1 else length v) = Suc n" using False by (auto simp: n_def)
    then have "rfind_char c pos v = rfind_char_from v c (Suc n)" using False by (simp only: rfind_char_def) simp
    moreover have "n < length v"
    proof -
      have "n \<le> length v - 1" by (simp add: n_def)
      then show ?thesis using False by linarith
    qed
    moreover have "last_to (\<lambda>i. occurs [c] i v) n i = last_to (\<lambda>i. occurs [c] i v) pos i"
      unfolding n_def by (rule last_to_min) (simp add: occurs_char, linarith)
    ultimately show ?thesis
      using rfind_char_from_last [of n v c i] rfind_string_last [of "[c]" pos v i] by simp
  qed (auto simp: rfind_char_def rfind_string_def)
  then show ?thesis by (metis not_None_eq)
qed

section \<open>Properties\<close>

text \<open>
  C33: splitting a view calls back with the non-empty fields between separators, in order; reading up to
  a separator and the rest partition the view.
\<close>

theorem split_gives_fields:
  "split sep v = filter (\<lambda>t. t \<noteq> []) (fields sep v)
   \<and> readUntil sep v = (takeWhile (\<lambda>c. \<not> sep c) v, dropWhile (\<lambda>c. \<not> sep c) v)
   \<and> readChars sep v = (takeWhile sep v, dropWhile sep v)"
  by (simp add: split_fields read_eq)

text \<open>
  The searches return the first occurrence at or after a position, and the last at or before it,
  for strings and for single characters.
\<close>

theorem find_and_rfind:
  "(find_string s pos v = Some i \<longleftrightarrow> pos \<le> i \<and> occurs s i v \<and> (\<forall>j. pos \<le> j \<and> j < i \<longrightarrow> \<not> occurs s j v))
   \<and> (rfind_string s pos v = Some i \<longleftrightarrow> i \<le> pos \<and> occurs s i v \<and> (\<forall>j. i < j \<and> j \<le> pos \<longrightarrow> \<not> occurs s j v))
   \<and> find_char c pos v = find_string [c] pos v \<and> rfind_char c pos v = rfind_string [c] pos v"
  using find_string_first [of s pos v i] rfind_string_last [of s pos v i] find_char_string [of c pos v] rfind_char_string [of c pos v]
  unfolding first_from_def last_to_def by blast

theorem find_and_rfind_witness:
  "find_string (ascii ''ab'') 1 (ascii ''abcab'') = Some 3 \<and> \<not> occurs (ascii ''ab'') 1 (ascii ''abcab'')
    \<and> \<not> occurs (ascii ''ab'') 2 (ascii ''abcab'')"
proof -
  have "find_string (ascii ''ab'') 1 (ascii ''abcab'') = Some 3" by code_simp
  then show ?thesis using find_and_rfind [of "ascii ''ab''" 1 "ascii ''abcab''" 3 0] by simp
qed

lemma readInteger_decimal:
  assumes "base = 10 \<or> base = 0"
    and "rest = [] \<or> hd rest \<noteq> 0 \<and> \<not> digit_below 10 (hd rest) \<and> hd rest \<noteq> 0x78 \<and> hd rest \<noteq> 0x58"
  shows "readInteger base (to_decimal_signed n @ rest) = (Some (sint n), rest)"
proof -
  have digits: "readInteger base (sign_chars neg @ unsigned_to_decimal m @ rest) =
      (Some (saturate64 ((if neg then - 1 else 1) * uint m)), rest)" for neg m
  proof -
    have d: "list_all (\<lambda>c. 0x30 \<le> c \<and> c \<le> 0x39) (unsigned_to_decimal m)" by (rule unsigned_to_decimal_chars)
    have l: "unsigned_to_decimal m \<noteq> []" "length (unsigned_to_decimal m) \<le> 20"
      "hd (unsigned_to_decimal m) = 0x30 \<longrightarrow> unsigned_to_decimal m = [0x30]"
      using decimal_digits_last [of m] decimal_digits_length [of m] by (auto simp: unsigned_to_decimal_def hd_rev)
    show ?thesis
      using readNumber_decimal [OF d l(1,2) _ assms(2), of base neg] assms(1) l(3) unsigned_to_decimal_value [of m] by auto
  qed
  have "- (2 ^ 63) \<le> sint n" "sint n < 2 ^ 63"
    using sint_ge [of n] sint_less [of n] by simp_all
  then have "saturate64 (sint n) = sint n" by (simp add: saturate64_def)
  then show ?thesis
    using digits [of False n] digits [of True "- n"] negative_word_nat [of n] nonnegative_word_nat [of n]
    by (auto simp: to_decimal_signed_def sign_chars_def)
qed

text \<open>
  C35: a decimal number written by the library's printer is read back, with base 10 and with the base the
  prefix selects, and the view stands behind it; from an empty view a valid zero is read.
\<close>

theorem readInteger_reads_decimal:
  assumes "base = 10 \<or> base = 0"
    and "rest = [] \<or> hd rest \<noteq> 0 \<and> \<not> digit_below 10 (hd rest) \<and> hd rest \<noteq> 0x78 \<and> hd rest \<noteq> 0x58"
  shows "readInteger base (to_decimal_signed n @ rest) = (Some (sint n), rest) \<and> readInteger base [] = (Some 0, [])"
proof
  show "readInteger base (to_decimal_signed n @ rest) = (Some (sint n), rest)" by (rule readInteger_decimal [OF assms])
  show "readInteger base [] = (Some 0, [])"
    using assms(1) by (auto simp: readInteger_def readNumber_def skip_eq strtoll_def strtoll_prefix_def)
qed

theorem readInteger_reads_decimal_witness:
  "readInteger 0 (to_decimal_signed (- 42) @ ascii '', x'') = (Some (- 42), ascii '', x'')"
proof -
  have "hd (ascii '', x'') \<noteq> 0 \<and> \<not> digit_below 10 (hd (ascii '', x'')) \<and> hd (ascii '', x'') \<noteq> 0x78 \<and> hd (ascii '', x'') \<noteq> 0x58"
    by code_simp
  moreover have "sint (- 42 :: u64) = - 42" by code_simp
  ultimately show ?thesis using readInteger_reads_decimal [of 0 "ascii '', x''" "- 42"] by simp
qed

text \<open>With the default base a leading zero makes a number octal: the first digit 8 or 9 ends it.\<close>

lemma readInteger_leading_zero:
  "readInteger 0 (ascii ''0530'') = (Some 344, [])" "readInteger 0 (ascii ''0900'') = (Some 0, ascii ''900'')"
  by code_simp+

end
