(* ===== verification/TimeStamp.thy ===== *)
theory TimeStamp
  imports Prelude "HOL-Library.Signed_Division"
begin

text \<open>
  Models \<^verbatim>\<open>common/utils/SPTime.h\<close> and the first half of \<^verbatim>\<open>SPTime.cc\<close>: time stamps in microseconds and
  broken-down times. The date formats are in the theory \<open>DateFormat\<close>.

  \<^verbatim>\<open>int32_t\<close> fields are integers (every value the code computes fits); time stamps are 64-bit words and
  the day count of \<^verbatim>\<open>geti\<close> is computed in 32-bit words as in the code. \<^verbatim>\<open>gmtime_r\<close> of the C library is
  the Gregorian calendar counted year by year and month by month. The offset of the local time zone
  (\<^verbatim>\<open>localtime_r\<close>) is the argument \<open>ltoff\<close>.
\<close>

section \<open>Time stamps\<close>

type_synonym time = u64

definition SP_USEC_PER_SEC :: u64 where "SP_USEC_PER_SEC = 1000000"

definition toMilliseconds :: "time \<Rightarrow> u64" where "toMilliseconds v = v div 1000"
definition toSeconds :: "time \<Rightarrow> u64" where "toSeconds v = v div 1000000"
definition milliseconds :: "u64 \<Rightarrow> time" where "milliseconds msec = msec * 1000"
definition seconds :: "u64 \<Rightarrow> time" where "seconds sec = sec * 1000000"

definition between :: "time \<Rightarrow> time \<Rightarrow> u64" where
  "between v1 v2 = (if v1 > v2 then v1 - v2 else v2 - v1)"

definition Time_plus :: "time \<Rightarrow> u64 \<Rightarrow> time" where "Time_plus t v = t + v"

definition Time_minus_time :: "time \<Rightarrow> time \<Rightarrow> u64" where "Time_minus_time t v = between t v"

definition Time_minus :: "time \<Rightarrow> u64 \<Rightarrow> time" where
  "Time_minus t v = (if t < v then 0 else t - v)"

definition Time_minus_assign :: "time \<Rightarrow> u64 \<Rightarrow> time" where
  "Time_minus_assign t v = (let t = (if t < v then 0 else t) in t - v)"

definition TimeInterval_minus_assign :: "u64 \<Rightarrow> u64 \<Rightarrow> u64" where
  "TimeInterval_minus_assign t v = (if t < v then 0 else t - v)"

section \<open>Broken-down time\<close>

datatype tm_gmt = gmt_unset | gmt_local | gmt_set

record sp_time_exp =
  tm_usec :: int
  tm_sec :: int
  tm_min :: int
  tm_hour :: int
  tm_mday :: int
  tm_mon :: int
  tm_year :: int
  tm_wday :: int
  tm_yday :: int
  tm_isdst :: int
  tm_gmtoff :: int
  tm_gmt_type :: tm_gmt

definition time_exp_zero :: sp_time_exp where
  "time_exp_zero = \<lparr> tm_usec = 0, tm_sec = 0, tm_min = 0, tm_hour = 0, tm_mday = 0, tm_mon = 0, tm_year = 0,
     tm_wday = 0, tm_yday = 0, tm_isdst = 0, tm_gmtoff = 0, tm_gmt_type = gmt_unset \<rparr>"

subsection \<open>The calendar\<close>

text \<open>Years count from 1900, months from January = 0.\<close>

definition leap_year :: "nat \<Rightarrow> bool" where
  "leap_year y \<longleftrightarrow> y mod 4 = 0 \<and> (y mod 100 = 0 \<longrightarrow> y mod 400 = 100)"

definition year_length :: "nat \<Rightarrow> nat" where
  "year_length y = (if leap_year y then 366 else 365)"

definition month_length :: "nat \<Rightarrow> nat \<Rightarrow> nat" where
  "month_length y m =
     (if m = 1 then (if leap_year y then 29 else 28) else [31, 28, 31, 30, 31, 30, 31, 31, 30, 31, 30, 31] ! m)"

function count_years :: "nat \<Rightarrow> nat \<Rightarrow> nat \<times> nat" where
  "count_years y days = (if days < year_length y then (y, days) else count_years (y + 1) (days - year_length y))"
  by pat_completeness auto
termination by (relation "measure snd") (auto simp: year_length_def split: if_splits)

declare count_years.simps [simp del]

function count_months :: "nat \<Rightarrow> nat \<Rightarrow> nat \<Rightarrow> nat \<times> nat" where
  "count_months y m days =
     (if m \<ge> 11 \<or> days < month_length y m then (m, days) else count_months y (m + 1) (days - month_length y m))"
  by pat_completeness auto
termination by (relation "measure (\<lambda>(y, m, days). 11 - m)") auto

declare count_months.simps [simp del]

text \<open>
  \<^verbatim>\<open>gmtime_r\<close>: seconds since 1970 to calendar fields; the calendar repeats every 400 years (146097 days).
\<close>

definition gmtime :: "int \<Rightarrow> sp_time_exp" where
  "gmtime s =
     (let days = s div 86400; rest = s mod 86400;
          (y, yday) = count_years 70 (nat (days mod 146097));
          (m, mday) = count_months y 0 yday
      in time_exp_zero\<lparr> tm_sec := rest mod 60, tm_min := rest div 60 mod 60, tm_hour := rest div 3600,
           tm_mday := int mday + 1, tm_mon := int m, tm_year := int y + 400 * (days div 146097),
           tm_wday := (days + 4) mod 7, tm_yday := int yday \<rparr>)"

text \<open>The constructor from a time stamp, in UTC; \<open>t\<close> is the stamp as \<^verbatim>\<open>int64_t\<close>.\<close>

definition time_exp_gmt :: "int \<Rightarrow> int \<Rightarrow> sp_time_exp" where
  "time_exp_gmt t offs =
     (gmtime (t sdiv 1000000))\<lparr> tm_usec := t smod 1000000, tm_gmt_type := gmt_set, tm_gmtoff := offs \<rparr>"

definition time_exp :: "time \<Rightarrow> sp_time_exp" where
  "time_exp t = time_exp_gmt (sint t) 0"

subsection \<open>Back to a time stamp\<close>

definition dayoffset :: "int list" where
  "dayoffset = [306, 337, 0, 31, 61, 92, 122, 153, 184, 214, 245, 275]"

text \<open>\<^verbatim>\<open>sp_time_t\<close> is \<^verbatim>\<open>uint32_t\<close>; a month outside the table is an access outside it.\<close>

definition geti :: "sp_time_exp \<Rightarrow> fault + u64" where
  "geti ds =
     (if tm_mon ds < 0 \<or> 12 \<le> tm_mon ds then Inl OutOfBounds
      else
        let year = (of_int (tm_year ds) :: u32);
            year = (if tm_mon ds < 2 then year - 1 else year);
            days = uint (year * 365 + year div 4 - year div 100 + (year div 100 + 3) div 4);
            days = days + (dayoffset ! nat (tm_mon ds) + tm_mday ds - 1);
            days = days - 25508
        in Inr (of_int (((days * 24 + tm_hour ds) * 60 + tm_min ds) * 60 + tm_sec ds) * SP_USEC_PER_SEC + of_int (tm_usec ds)))"

definition gmt_geti :: "sp_time_exp \<Rightarrow> fault + u64" where
  "gmt_geti ds = (case geti ds of Inl e \<Rightarrow> Inl e | Inr v \<Rightarrow> Inr (v - of_int (tm_gmtoff ds) * SP_USEC_PER_SEC))"

definition ltz_geti :: "int \<Rightarrow> sp_time_exp \<Rightarrow> fault + u64" where
  "ltz_geti ltoff ds = (case geti ds of Inl e \<Rightarrow> Inl e | Inr v \<Rightarrow> Inr (v - of_int ltoff * SP_USEC_PER_SEC))"

text \<open>The tests of \<^verbatim>\<open>sp_time_exp_check_mon\<close>, which the other readers repeat.\<close>

definition day_in_month :: "int \<Rightarrow> int \<Rightarrow> int \<Rightarrow> bool" where
  "day_in_month mday mon year \<longleftrightarrow>
     \<not> (mday = 31 \<and> (mon = 3 \<or> mon = 5 \<or> mon = 8 \<or> mon = 10))
     \<and> \<not> (mon = 1 \<and> (mday > 29 \<or> mday = 29 \<and> (year mod 4 \<noteq> 0 \<or> year mod 100 = 0 \<and> year mod 400 \<noteq> 100)))"

definition check_mon :: "sp_time_exp \<Rightarrow> bool" where
  "check_mon ds \<longleftrightarrow> \<not> (tm_mday ds \<le> 0 \<or> tm_mday ds > 31) \<and> \<not> tm_mon ds \<ge> 12
     \<and> day_in_month (tm_mday ds) (tm_mon ds) (tm_year ds)"

section \<open>Day numbers\<close>

text \<open>Days from 1 March 1900 to the 1 March of a year, and to the first day of a month.\<close>

definition march_days :: "nat \<Rightarrow> nat" where
  "march_days Y = 365 * Y + Y div 4 - Y div 100 + (Y div 100 + 3) div 4"

definition month_start :: "nat \<Rightarrow> nat \<Rightarrow> int" where
  "month_start y m = int (march_days (if m < 2 then y - 1 else y)) + dayoffset ! m - 25508"

lemma march_days_sum: "march_days Y + Y div 100 = 365 * Y + Y div 4 + (Y div 100 + 3) div 4"
proof -
  have "Y div 100 \<le> Y div 4" by (rule div_le_mono2) simp_all
  then show ?thesis unfolding march_days_def by linarith
qed

lemma century_leap: "Suc Y mod 100 = 0 \<Longrightarrow> Suc Y mod 400 = 100 \<longleftrightarrow> (Suc Y div 100 + 3) mod 4 = 0"
proof -
  assume "Suc Y mod 100 = 0"
  then obtain k where e: "Suc Y = 100 * k" by (metis mod_0_imp_dvd dvd_def)
  have "Suc Y mod 400 = 100 * (k mod 4)" unfolding e using mod_mult_mult1 [of 100 k 4] by simp
  moreover have "Suc Y div 100 = k" unfolding e by simp
  moreover have "(k + 3) mod 4 = 0 \<longleftrightarrow> k mod 4 = 1" by presburger
  ultimately show ?thesis by simp
qed

lemma march_days_Suc: "march_days (Suc Y) = march_days Y + year_length (Suc Y)"
proof -
  have a: "Suc Y div 4 = (if Suc Y mod 4 = 0 then Suc (Y div 4) else Y div 4)" by (rule div_Suc)
  have b: "Suc Y div 100 = (if Suc Y mod 100 = 0 then Suc (Y div 100) else Y div 100)" by (rule div_Suc)
  have c: "(Suc (Y div 100) + 3) div 4 = (if (Suc (Y div 100) + 3) mod 4 = 0 then Suc ((Y div 100 + 3) div 4) else (Y div 100 + 3) div 4)"
    using div_Suc [of "Y div 100 + 3" 4] by simp
  note sums = march_days_sum [of Y] march_days_sum [of "Suc Y"]
  show ?thesis
  proof (cases "Suc Y mod 100 = 0")
    case True
    have four: "Suc Y mod 4 = 0" using True by presburger
    have B: "Suc Y div 100 = Suc (Y div 100)" using b True by simp
    have A: "Suc Y div 4 = Suc (Y div 4)" using a four by simp
    show ?thesis
    proof (cases "Suc Y mod 400 = 100")
      case leap: True
      then have "(Suc (Y div 100) + 3) div 4 = Suc ((Y div 100 + 3) div 4)"
        using c century_leap [OF True] unfolding B by simp
      moreover have "year_length (Suc Y) = 366" using four leap by (simp only: year_length_def leap_year_def) simp
      ultimately show ?thesis using sums unfolding A B by simp
    next
      case leap: False
      then have "(Suc (Y div 100) + 3) div 4 = (Y div 100 + 3) div 4"
        using c century_leap [OF True] unfolding B by simp
      moreover have "year_length (Suc Y) = 365" using True leap by (simp only: year_length_def leap_year_def) simp
      ultimately show ?thesis using sums unfolding A B by simp
    qed
  next
    case False
    have B: "Suc Y div 100 = Y div 100" using b False by simp
    show ?thesis
    proof (cases "Suc Y mod 4 = 0")
      case True
      then have A: "Suc Y div 4 = Suc (Y div 4)" using a by simp
      have "year_length (Suc Y) = 366" using True False by (simp only: year_length_def leap_year_def) simp
      then show ?thesis using sums unfolding A B by simp
    next
      case four: False
      then have A: "Suc Y div 4 = Y div 4" using a four by simp
      have "year_length (Suc Y) = 365" using four by (simp only: year_length_def leap_year_def) simp
      then show ?thesis using sums unfolding A B by simp
    qed
  qed
qed

lemma march_days_400: "march_days (Y + 400) = march_days Y + 146097"
proof -
  have "(Y + 400) div 4 = Y div 4 + 100" "(Y + 400) div 100 = Y div 100 + 4"
    "(Y div 100 + 4 + 3) div 4 = (Y div 100 + 3) div 4 + 1" by simp_all
  moreover have "365 * (Y + 400) = 365 * Y + 146000" by simp
  ultimately show ?thesis using march_days_sum [of Y] march_days_sum [of "Y + 400"] by simp
qed

lemma month_start_Suc:
  assumes "1 \<le> y" "m < 11" shows "month_start y (m + 1) = month_start y m + int (month_length y m)"
proof -
  obtain Y where Y: "y = Suc Y" using assms(1) by (cases y) auto
  have "m = 0 \<or> m = 1 \<or> m = 2 \<or> m = 3 \<or> m = 4 \<or> m = 5 \<or> m = 6 \<or> m = 7 \<or> m = 8 \<or> m = 9 \<or> m = 10"
    using assms(2) by presburger
  then show ?thesis
    using march_days_Suc [of Y] unfolding Y
    by (auto simp: month_start_def month_length_def dayoffset_def year_length_def)
qed

lemma month_start_year: "1 \<le> y \<Longrightarrow> month_start (y + 1) 0 = month_start y 11 + int (month_length y 11)"
  by (simp add: month_start_def dayoffset_def month_length_def)

lemma year_start_Suc: "1 \<le> y \<Longrightarrow> month_start (y + 1) 0 = month_start y 0 + int (year_length y)"
  using march_days_Suc [of "y - 1"] by (simp add: month_start_def)

lemma count_years_start:
  "1 \<le> y \<Longrightarrow> count_years y days = (y', d) \<Longrightarrow>
   month_start y' 0 + int d = month_start y 0 + int days \<and> d < year_length y' \<and> y \<le> y' \<and> 365 * (y' - y) \<le> days"
proof (induction y days arbitrary: y' d rule: count_years.induct)
  case (1 y days)
  show ?case
  proof (cases "days < year_length y")
    case True
    then show ?thesis using 1(3) by (simp add: count_years.simps [of y days])
  next
    case False
    then have "count_years (y + 1) (days - year_length y) = (y', d)" using 1(3) by (simp add: count_years.simps [of y days])
    with 1 False have "month_start y' 0 + int d = month_start (y + 1) 0 + int (days - year_length y) \<and> d < year_length y'
      \<and> y + 1 \<le> y' \<and> 365 * (y' - (y + 1)) \<le> days - year_length y" by simp
    moreover have "365 \<le> year_length y" by (simp add: year_length_def)
    ultimately show ?thesis using False year_start_Suc [OF 1(2)] by auto
  qed
qed

lemma count_months_start:
  "1 \<le> y \<Longrightarrow> m \<le> 11 \<Longrightarrow> month_start y m + int days < month_start (y + 1) 0 \<Longrightarrow> count_months y m days = (m', d) \<Longrightarrow>
   month_start y m' + int d = month_start y m + int days \<and> d < month_length y m' \<and> m' \<le> 11"
proof (induction y m days arbitrary: m' d rule: count_months.induct)
  case (1 y m days)
  show ?case
  proof (cases "m \<ge> 11 \<or> days < month_length y m")
    case True
    then have "m' = m" "d = days" using 1(5) by (simp_all add: count_months.simps [of y m days])
    moreover have "days < month_length y m"
    proof (cases "days < month_length y m")
      case False
      then have "m = 11" using True 1(3) by simp
      then show ?thesis using 1(4) month_start_year [OF 1(2)] by simp
    qed
    ultimately show ?thesis using 1(3) by simp
  next
    case False
    then have "count_months y (m + 1) (days - month_length y m) = (m', d)" using 1(5) by (simp add: count_months.simps [of y m days])
    then show ?thesis using 1 False month_start_Suc [OF 1(2), of m] by auto
  qed
qed

lemma u32_add: "unat a + unat b < 2 ^ 32 \<Longrightarrow> unat (a + b :: u32) = unat a + unat b"
  by (simp add: unat_word_ariths)

lemma u32_days:
  assumes "Y < 1000000"
  shows "uint ((of_nat Y :: u32) * 365 + of_nat Y div 4 - of_nat Y div 100 + (of_nat Y div 100 + 3) div 4) = int (march_days Y)"
proof -
  let ?w = "of_nat Y :: u32"
  have y: "unat ?w = Y" using assms by (simp add: unat_of_nat take_bit_nat_eq_self)
  have le: "Y div 100 \<le> Y div 4" "Y div 4 \<le> Y" "Y div 100 \<le> Y" by (rule div_le_mono2) simp_all
  have m: "unat (?w * 365) = Y * 365" using assms y by (simp add: unat_word_ariths)
  have d4: "unat (?w div 4) = Y div 4" and d100: "unat (?w div 100) = Y div 100" by (simp_all add: unat_div y)
  have s: "unat (?w * 365 + ?w div 4) = Y * 365 + Y div 4"
    using assms le by (subst u32_add) (simp_all add: m d4)
  have t: "unat (?w * 365 + ?w div 4 - ?w div 100) = Y * 365 + Y div 4 - Y div 100"
    using le by (subst unat_sub) (simp_all add: word_le_nat_alt s d100)
  have u: "unat (?w div 100 + 3) = Y div 100 + 3"
    using assms le by (subst u32_add) (simp_all add: d100)
  have q: "unat ((?w div 100 + 3) div 4) = (Y div 100 + 3) div 4"
    by (simp only: unat_div u) simp
  have "(Y div 100 + 3) div 4 \<le> Y div 100 + 3" by (rule div_le_dividend)
  then have "unat (?w * 365 + ?w div 4 - ?w div 100 + (?w div 100 + 3) div 4) = march_days Y"
    using assms le by (subst u32_add) (simp_all only: t q march_days_def, simp_all add: mult.commute)
  then show ?thesis by (simp only: uint_nat)
qed

lemma month_start_cycles: "1 \<le> y \<Longrightarrow> month_start (y + 400 * c) m = month_start y m + 146097 * int c"
proof (induction c)
  case (Suc c)
  have e: "y + 400 * c + 400 - 1 = y + 400 * c - 1 + 400" using Suc(2) by simp
  have "month_start (y + 400 * c + 400) m = month_start (y + 400 * c) m + 146097"
    unfolding month_start_def e using march_days_400 [of "y + 400 * c"] march_days_400 [of "y + 400 * c - 1"]
    by (simp split: if_split del: diff_Suc_1)
  then show ?case using Suc by (simp add: algebra_simps)
qed simp

lemma month_length_cycles: "month_length (y + 400 * c) m = month_length y m"
proof -
  have "400 * c = 4 * (100 * c)" "400 * c = 100 * (4 * c)" by simp_all
  then have "leap_year (y + 400 * c) = leap_year y"
    unfolding leap_year_def by (metis mod_mult_self2)
  then show ?thesis by (simp add: month_length_def)
qed

lemma year_start_mono: "1 \<le> y \<Longrightarrow> month_start y 0 \<le> month_start (y + k) 0"
proof (induction k)
  case (Suc k)
  then show ?case using year_start_Suc [of "y + k"] by simp
qed simp

lemma year_start_limits: "month_start 70 0 = 0" "month_start 470 0 = 146097" "month_start 8100 0 = 2932897"
  by (simp_all add: month_start_def march_days_def dayoffset_def)

text \<open>What \<^verbatim>\<open>gmtime_r\<close> gives up to the end of the year 9999.\<close>

definition civil :: "int \<Rightarrow> sp_time_exp \<Rightarrow> bool" where
  "civil s ds \<longleftrightarrow> 70 \<le> tm_year ds \<and> tm_year ds < 8100 \<and> 0 \<le> tm_mon ds \<and> tm_mon ds < 12
     \<and> 1 \<le> tm_mday ds \<and> tm_mday ds \<le> int (month_length (nat (tm_year ds)) (nat (tm_mon ds)))
     \<and> 0 \<le> tm_hour ds \<and> tm_hour ds < 24 \<and> 0 \<le> tm_min ds \<and> tm_min ds < 60 \<and> 0 \<le> tm_sec ds \<and> tm_sec ds < 60
     \<and> 0 \<le> tm_wday ds \<and> tm_wday ds < 7
     \<and> (((month_start (nat (tm_year ds)) (nat (tm_mon ds)) + tm_mday ds - 1) * 24 + tm_hour ds) * 60 + tm_min ds) * 60 + tm_sec ds = s"

lemma civil_fields:
  assumes "Y < 8100" "70 \<le> Y" "mday < month_length Y m" "m \<le> 11"
    and g: "ds = time_exp_zero\<lparr> tm_sec := se, tm_min := mi, tm_hour := h,
       tm_mday := int mday + 1, tm_mon := int m, tm_year := int Y, tm_wday := wd, tm_yday := int yday \<rparr>"
    and "h * 3600 + mi * 60 + se = rest" "s = days * 86400 + rest"
    "0 \<le> h" "h < 24" "0 \<le> mi" "mi < 60" "0 \<le> se" "se < 60" "0 \<le> wd" "wd < 7" "month_start Y m + int mday = days"
  shows "civil s ds"
proof -
  have "((D * 24 + h) * 60 + mi) * 60 + se = D * 86400 + (h * 3600 + mi * 60 + se)" for D :: int
    by (simp add: algebra_simps)
  moreover have "month_start Y m + (int mday + 1) - 1 = days" using assms(16) by simp
  ultimately have "(((month_start Y m + (int mday + 1) - 1) * 24 + h) * 60 + mi) * 60 + se = s" using assms(6,7) by simp
  moreover have "tm_year ds = int Y" "tm_mon ds = int m" "tm_mday ds = int mday + 1" "tm_hour ds = h" "tm_min ds = mi"
    "tm_sec ds = se" "tm_wday ds = wd" by (simp_all add: g)
  ultimately show ?thesis
    unfolding civil_def using assms(1-4,8-15) by (simp only: nat_int) simp
qed

lemma gmtime_civil:
  assumes "0 \<le> s" "s < 253402300800"
  shows "civil s (gmtime s)"
proof -
  define days rest where "days = s div 86400" and "rest = s mod 86400"
  have rest: "0 \<le> rest" "rest < 86400" by (simp_all add: rest_def)
  have days: "0 \<le> days" "days < 2932897" using assms by (simp_all add: days_def)
  define c where "c = nat (days div 146097)"
  define r where "r = nat (days mod 146097)"
  have dcr: "days = 146097 * int c + int r" "r < 146097"
    using days by (simp_all add: c_def r_def nat_less_iff pos_imp_zdiv_nonneg_iff)
  obtain y yday where cy: "count_years 70 r = (y, yday)" by force
  obtain m mday where cm: "count_months y 0 yday = (m, mday)" by force
  note y = count_years_start [OF _ cy, unfolded year_start_limits]
  have "month_start y 0 + int yday < month_start (y + 1) 0" using y year_start_Suc [of y] by simp
  then have m: "month_start y m + int mday = month_start y 0 + int yday" "mday < month_length y m" "m \<le> 11"
    using count_months_start [OF _ _ _ cm] y by simp_all
  define Y where "Y = y + 400 * c"
  have start: "month_start Y m + int mday = days"
    using m(1) y month_start_cycles [of y c m] dcr by (simp add: Y_def)
  have "Y < 8100"
  proof (rule ccontr)
    assume "\<not> Y < 8100"
    then obtain k where "Y = 8100 + k" by (metis le_iff_add not_less)
    then have "2932897 \<le> month_start Y 0" using year_start_mono [of 8100 k] year_start_limits by simp
    moreover have "month_start Y 0 \<le> days"
      using y month_start_cycles [of y c 0] dcr by (simp add: Y_def)
    ultimately show False using days by simp
  qed
  moreover have "70 \<le> Y" using y by (simp add: Y_def)
  moreover have "mday < month_length Y m" using m(2) by (simp add: Y_def month_length_cycles)
  moreover have "gmtime s = time_exp_zero\<lparr> tm_sec := rest mod 60, tm_min := rest div 60 mod 60, tm_hour := rest div 3600,
       tm_mday := int mday + 1, tm_mon := int m, tm_year := int Y,
       tm_wday := (days + 4) mod 7, tm_yday := int yday \<rparr>"
    using days(1) by (simp add: gmtime_def Let_def days_def [symmetric] rest_def [symmetric] r_def [symmetric] cy cm Y_def c_def)
  moreover have "rest div 3600 * 3600 + rest div 60 mod 60 * 60 + rest mod 60 = rest"
  proof -
    have "rest div 3600 = rest div 60 div 60" by (simp add: zdiv_zmult2_eq [of 60 rest 60, simplified])
    moreover have "rest div 60 div 60 * 60 + rest div 60 mod 60 = rest div 60" by (rule div_mult_mod_eq)
    moreover have "rest div 60 * 60 + rest mod 60 = rest" by (rule div_mult_mod_eq)
    ultimately show ?thesis by linarith
  qed
  moreover have "s = days * 86400 + rest" by (simp add: days_def rest_def)
  moreover have "0 \<le> rest div 3600" "rest div 3600 < 24" using rest by (simp_all add: pos_imp_zdiv_nonneg_iff)
  moreover have "0 \<le> rest div 60 mod 60" "rest div 60 mod 60 < 60" "0 \<le> rest mod 60" "rest mod 60 < 60"
    "0 \<le> (days + 4) mod 7" "(days + 4) mod 7 < 7" by simp_all
  ultimately show ?thesis using m(3) start by (intro civil_fields)
qed

lemma nth_nat_less: "nat (tm_mon ds) < 12 \<Longrightarrow> tm_mon ds < 12" by simp

lemma geti_civil:
  assumes "civil s ds"
  shows "geti ds = Inr (of_int s * SP_USEC_PER_SEC + of_int (tm_usec ds))"
proof -
  define y m where "y = nat (tm_year ds)" and "m = nat (tm_mon ds)"
  have f: "tm_year ds = int y" "tm_mon ds = int m" "70 \<le> y" "y < 8100" "m < 12"
    and s: "(((month_start y m + tm_mday ds - 1) * 24 + tm_hour ds) * 60 + tm_min ds) * 60 + tm_sec ds = s"
    using assms by (auto simp: civil_def y_def m_def)
  let ?w = "of_int (tm_year ds) :: u32"
  let ?yr = "if tm_mon ds < 2 then ?w - 1 else ?w"
  have "?w - 1 = of_nat (y - 1)" "?w = of_nat y" using f(1,3) by (simp_all add: of_nat_diff)
  then have u: "uint (?yr * 365 + ?yr div 4 - ?yr div 100 + (?yr div 100 + 3) div 4) = int (march_days (if m < 2 then y - 1 else y))"
    using u32_days [of y] u32_days [of "y - 1"] f(2,4) by (cases "m < 2") (simp_all only: f(2) if_True if_False, simp_all)
  have "(((int (march_days (if m < 2 then y - 1 else y)) + (dayoffset ! m + tm_mday ds - 1) - 25508) * 24 + tm_hour ds) * 60
      + tm_min ds) * 60 + tm_sec ds = s"
    using s unfolding month_start_def by (simp only: algebra_simps)
  moreover have "\<not> (tm_mon ds < 0 \<or> 12 \<le> tm_mon ds)" using f by simp
  ultimately show ?thesis
    unfolding geti_def Let_def u by (simp only: m_def [symmetric] if_False)
qed

lemma civil_check_mon:
  assumes "civil s ds"
  shows "check_mon ds"
proof -
  define y m where "y = nat (tm_year ds)" and "m = nat (tm_mon ds)"
  have f: "tm_year ds = int y" "tm_mon ds = int m" "m < 12" "1 \<le> tm_mday ds" "tm_mday ds \<le> int (month_length y m)"
    using assms by (auto simp: civil_def y_def m_def)
  have leap: "leap_year y \<longleftrightarrow> \<not> (int y mod 4 \<noteq> 0 \<or> int y mod 100 = 0 \<and> int y mod 400 \<noteq> 100)"
  proof -
    have "int y mod 4 = int (y mod 4)" "int y mod 100 = int (y mod 100)" "int y mod 400 = int (y mod 400)"
      by (simp_all add: of_nat_mod)
    then show ?thesis by (auto simp: leap_year_def)
  qed
  have "m = 0 \<or> m = 1 \<or> m = 2 \<or> m = 3 \<or> m = 4 \<or> m = 5 \<or> m = 6 \<or> m = 7 \<or> m = 8 \<or> m = 9 \<or> m = 10 \<or> m = 11"
    using f(3) by presburger
  then show ?thesis
    using f(4,5) leap unfolding check_mon_def day_in_month_def f(1,2)
    by (elim disjE) (simp_all add: month_length_def split: if_splits)
qed

lemma time_exp_civil:
  assumes "0 \<le> sint t" "sint t < 253402300800000000"
  shows "civil (sint t div 1000000) (time_exp t)" "tm_usec (time_exp t) = sint t mod 1000000"
    "tm_gmtoff (time_exp t) = 0" "tm_gmt_type (time_exp t) = gmt_set"
proof -
  have d: "sint t sdiv 1000000 = sint t div 1000000" "sint t smod 1000000 = sint t mod 1000000"
    using assms(1) by (simp_all add: signed_divide_int_def signed_modulo_int_def sgn_if)
  have "0 \<le> sint t div 1000000" "sint t div 1000000 < 253402300800" using assms by simp_all
  then show "civil (sint t div 1000000) (time_exp t)"
    using gmtime_civil [of "sint t div 1000000"] by (simp add: time_exp_def time_exp_gmt_def d civil_def)
  show "tm_usec (time_exp t) = sint t mod 1000000" "tm_gmtoff (time_exp t) = 0" "tm_gmt_type (time_exp t) = gmt_set"
    by (simp_all add: time_exp_def time_exp_gmt_def d)
qed

section \<open>Properties\<close>

text \<open>
  C31: from 1970 to the end of 9999 the broken-down time of a time stamp has its fields in the calendar's
  ranges, and the day formula of \<open>geti\<close> gives the time stamp back to the microsecond.
\<close>

theorem time_exp_roundtrip:
  assumes "0 \<le> sint t" "sint t < 253402300800000000"
  shows "geti (time_exp t) = Inr t \<and> gmt_geti (time_exp t) = Inr t \<and> check_mon (time_exp t)
    \<and> 0 \<le> tm_hour (time_exp t) \<and> tm_hour (time_exp t) < 24 \<and> 0 \<le> tm_usec (time_exp t) \<and> tm_usec (time_exp t) < 1000000"
proof -
  note c = time_exp_civil [OF assms]
  have "of_int a * SP_USEC_PER_SEC + of_int b = (of_int (a * 1000000 + b) :: u64)" for a b
    by (simp add: SP_USEC_PER_SEC_def)
  from this [of "sint t div 1000000" "sint t mod 1000000"]
  have "of_int (sint t div 1000000) * SP_USEC_PER_SEC + of_int (sint t mod 1000000) = t" by simp
  then have g: "geti (time_exp t) = Inr t"
    using geti_civil [OF c(1)] c(2) by simp
  then have "gmt_geti (time_exp t) = Inr t" by (simp add: gmt_geti_def c)
  moreover have "check_mon (time_exp t)" using civil_check_mon [OF c(1)] .
  ultimately show ?thesis using g c by (simp add: civil_def)
qed

lemma time_exp_roundtrip_witness: "geti (time_exp 951827696000123) = Inr 951827696000123"
proof -
  have "sint (951827696000123 :: u64) = 951827696000123" by simp
  then show ?thesis using time_exp_roundtrip [of 951827696000123] by simp
qed

end
