(* ===== verification/DateFormat.thy ===== *)
theory DateFormat
  imports TimeStamp StringView
begin

text \<open>
  Models the date formats of \<^verbatim>\<open>common/utils/SPTime.cc\<close>: the RFC 822/850, \<^verbatim>\<open>asctime\<close> and ISO 8601 readers,
  \<^verbatim>\<open>Time::fromHttp\<close> and \<^verbatim>\<open>Time::fromCompileTime\<close>, and the writers.

  A mask fixes the length of the text behind it, so the readers index the view directly. The
  floating-point reading of a fraction of a second (\<^verbatim>\<open>readDouble\<close>, scaled to microseconds) is the
  argument \<open>frac\<close>: it returns the microseconds and the rest of the view.
\<close>

section \<open>Reading dates\<close>

fun mask_char :: "u8 \<Rightarrow> u8 \<Rightarrow> bool" where
  "mask_char m d =
     (if m = of_char CHR ''@'' then isupper d
      else if m = of_char CHR ''$'' then islower d
      else if m = of_char CHR ''#'' then isdigit d
      else if m = of_char CHR ''&'' then isxdigit d
      else if m = of_char CHR ''~'' then d = 0x20 \<or> isdigit d
      else m = d)"

text \<open>The stars that are left when the data ends are skipped.\<close>

fun sp_date_checkmask :: "u8 view \<Rightarrow> u8 view \<Rightarrow> bool" where
  "sp_date_checkmask [] msk = (dropWhile (\<lambda>m. m = 0x2A) msk = [])"
| "sp_date_checkmask (d # data) [] = False"
| "sp_date_checkmask (d # data) (m # msk) =
     (if m = 0 then d = 0
      else if m = 0x2A then True
      else if mask_char m d then sp_date_checkmask data msk else False)"

definition digit :: "u8 \<Rightarrow> int" where
  "digit c = sint c - 0x30"

definition digits2 :: "u8 view \<Rightarrow> nat \<Rightarrow> int" where
  "digits2 r i = digit (r ! i) * 10 + digit (r ! (i + 1))"

text \<open>Three characters of a month name packed into an \<^verbatim>\<open>int\<close>.\<close>

definition pack3 :: "u8 \<Rightarrow> u8 \<Rightarrow> u8 \<Rightarrow> u32" where
  "pack3 a b c = push_bit 16 (scast a) OR push_bit 8 (scast b) OR scast c"

definition month_names :: "u8 list list" where
  "month_names = map ascii [''Jan'', ''Feb'', ''Mar'', ''Apr'', ''May'', ''Jun'', ''Jul'', ''Aug'', ''Sep'', ''Oct'', ''Nov'', ''Dec'']"

definition s_months :: "u32 list" where
  "s_months = map (\<lambda>s. pack3 (s ! 0) (s ! 1) (s ! 2)) month_names"

text \<open>The search for a month; 12 when there is none.\<close>

fun month_index :: "u32 \<Rightarrow> u32 list \<Rightarrow> nat \<Rightarrow> nat" where
  "month_index mint [] mon = mon"
| "month_index mint (s # ss) mon = (if mint = s then mon else month_index mint ss (mon + 1))"

definition read_time :: "u8 view \<Rightarrow> sp_time_exp \<Rightarrow> sp_time_exp option" where
  "read_time timstr ds =
     (let ds = ds\<lparr> tm_hour := digits2 timstr 0, tm_min := digits2 timstr 3, tm_sec := digits2 timstr 6 \<rparr>
      in if tm_hour ds > 23 \<or> tm_min ds > 59 \<or> tm_sec ds > 61 then None else Some ds)"

definition read_mon :: "u8 view \<Rightarrow> sp_time_exp \<Rightarrow> sp_time_exp option" where
  "read_mon monstr ds =
     (if tm_mday ds \<le> 0 \<or> tm_mday ds > 31 then None
      else
        let mon = (if length monstr \<ge> 3
                   then int (month_index (pack3 (monstr ! 0) (monstr ! 1) (monstr ! 2)) s_months 0)
                   else tm_mon ds - 1)
        in if mon \<ge> 12 \<or> \<not> day_in_month (tm_mday ds) mon (tm_year ds) then None else Some (ds\<lparr> tm_mon := mon \<rparr>))"

definition read_gmt :: "u8 view \<Rightarrow> sp_time_exp \<Rightarrow> sp_time_exp" where
  "read_gmt gmtstr ds =
     (let ds = ds\<lparr> tm_gmtoff := 0 \<rparr> in
      if gmtstr = [] then ds\<lparr> tm_gmt_type := gmt_local \<rparr>
      else if gmtstr = ascii ''GMT'' then ds\<lparr> tm_gmt_type := gmt_set \<rparr>
      else
        let c = gmtstr ! 0;
            sign = (if c = of_char CHR ''-'' then - 1 else if c = of_char CHR ''+'' then 1 else 0);
            ds = (if c = of_char CHR ''Z'' then ds\<lparr> tm_gmt_type := gmt_set \<rparr> else ds);
            (off1, gmtstr) = readChars isdigit (view_next gmtstr)
        in if length off1 = 2 \<and> view_is (of_char CHR '':'') gmtstr
           then (let (off2, gmtstr) = readChars isdigit gmtstr in
             if length off2 = 2
             then ds\<lparr> tm_gmtoff := tm_gmtoff ds + sign * the (fst (readInteger 0 off1)) * 60 * 60
                        + sign * the (fst (readInteger 0 off2)) * 60, tm_gmt_type := gmt_set \<rparr>
             else ds)
           else if length off1 = 4
           then (let offset = the (fst (readInteger 0 off1)) in
             ds\<lparr> tm_gmtoff := tm_gmtoff ds + sign * (offset div 100) * 60 * 60 + sign * (offset mod 100) * 60,
                 tm_gmt_type := gmt_set \<rparr>)
           else ds)"

text \<open>The four digits of a year at a position, counted from 1900; the century alone decides \<open>None\<close>.\<close>

definition year4 :: "u8 view \<Rightarrow> nat \<Rightarrow> int option" where
  "year4 r i =
     (let c = (digits2 r i - 19) * 100 in if c < 0 then None else Some (c + digits2 r (i + 2)))"

definition sub :: "u8 view \<Rightarrow> nat \<Rightarrow> nat \<Rightarrow> u8 view" where
  "sub r pos len = take len (drop pos r)"

text \<open>The formats without a space.\<close>

definition read_iso :: "(u8 view \<Rightarrow> int \<times> u8 view) \<Rightarrow> u8 view \<Rightarrow> sp_time_exp \<Rightarrow> sp_time_exp option" where
  "read_iso frac r ds =
     (if sp_date_checkmask r (ascii ''####-##-##T##:##:##*'') then
        (case year4 r 0 of None \<Rightarrow> None | Some y \<Rightarrow>
         let ds = ds\<lparr> tm_year := y, tm_mon := digits2 r 5 - 1, tm_mday := digits2 r 8 \<rparr>; r = offset 11 r in
         (case read_time (sub r 0 8) ds of None \<Rightarrow> None | Some ds \<Rightarrow>
          if \<not> check_mon ds then None
          else let r = offset 8 r;
                   (ds, r) = (if view_is (of_char CHR ''.'') r then (let (us, r) = frac r in (ds\<lparr> tm_usec := us \<rparr>, r)) else (ds, r))
               in Some (read_gmt (if r = [] then ascii ''Z'' else r) ds)))
      else if sp_date_checkmask r (ascii ''####-##-##*'') then
        (case year4 r 0 of None \<Rightarrow> None | Some y \<Rightarrow>
         let ds = ds\<lparr> tm_year := y, tm_mon := digits2 r 5 - 1, tm_mday := digits2 r 8 \<rparr> in
         if \<not> check_mon ds then None
         else let r = offset 10 r in Some (read_gmt (if r = [] then ascii ''Z'' else r) ds))
      else if sp_date_checkmask r (ascii ''##.##.####'') then
        (case year4 r 6 of None \<Rightarrow> None | Some y \<Rightarrow>
         let ds = ds\<lparr> tm_year := y, tm_mday := digits2 r 0, tm_mon := digits2 r 3 - 1 \<rparr> in
         if \<not> check_mon ds then None else Some (read_gmt (ascii ''Z'') ds))
      else None)"

text \<open>\<^verbatim>\<open>asctime\<close>; the characters of the year behind the first digit are not checked.\<close>

definition read_asctime :: "u8 view \<Rightarrow> sp_time_exp \<Rightarrow> sp_time_exp option" where
  "read_asctime r ds =
     (let ydate = skipUntil isdigit (drop 20 r) in
      if length ydate < 4 then None
      else case year4 ydate 0 of None \<Rightarrow> None | Some y \<Rightarrow>
        let ds = ds\<lparr> tm_year := y, tm_mday := (if r ! 8 = 0x20 then digit (r ! 9) else digits2 r 8) \<rparr> in
        (case read_time (sub r 11 8) ds of None \<Rightarrow> None | Some ds \<Rightarrow>
        (case read_mon (sub r 4 3) ds of None \<Rightarrow> None | Some ds \<Rightarrow>
          Some (ds\<lparr> tm_usec := 0, tm_gmtoff := 0, tm_gmt_type := gmt_local \<rparr>))))"

text \<open>The RFC forms: year, day, and the views of month, time and zone.\<close>

definition rfc_fields :: "u8 view \<Rightarrow> (int \<times> int \<times> u8 view \<times> u8 view \<times> u8 view) option" where
  "rfc_fields r =
     (if sp_date_checkmask r (ascii ''## @$$ #### ##:##:## *'') then
        (case year4 r 7 of None \<Rightarrow> None | Some y \<Rightarrow> Some (y, digits2 r 0, sub r 3 3, sub r 12 8, drop 21 r))
      else if sp_date_checkmask r (ascii ''# @$$ #### ##:##:## *'') then
        (case year4 r 6 of None \<Rightarrow> None | Some y \<Rightarrow> Some (y, digit (r ! 0), sub r 2 3, sub r 11 8, drop 20 r))
      else if sp_date_checkmask r (ascii ''##-@$$-## ##:##:## *'') then
        (let y = digits2 r 7; y = (if y < 70 then y + 100 else y)
         in Some (y, digits2 r 0, sub r 3 3, sub r 10 8, drop 19 r))
      else None)"

definition read_rfc :: "u8 view \<Rightarrow> sp_time_exp \<Rightarrow> sp_time_exp option" where
  "read_rfc r ds =
     (case rfc_fields r of None \<Rightarrow> None | Some (y, mday, monstr, timstr, gmtstr) \<Rightarrow>
      (case read_time timstr (ds\<lparr> tm_year := y, tm_mday := mday \<rparr>) of None \<Rightarrow> None | Some ds \<Rightarrow>
      (case read_mon monstr ds of None \<Rightarrow> None | Some ds \<Rightarrow>
        let ds = ds\<lparr> tm_usec := 0 \<rparr> in
        Some (if gmtstr \<noteq> [] then read_gmt gmtstr ds else ds\<lparr> tm_gmtoff := 0 \<rparr>))))"

definition time_read :: "(u8 view \<Rightarrow> int \<times> u8 view) \<Rightarrow> u8 view \<Rightarrow> sp_time_exp \<Rightarrow> sp_time_exp option" where
  "time_read frac r ds =
     (let r = skipChars isspace r in
      if r = [] then None
      else
        let tmp = skipUntil (\<lambda>c. c = 0x20) r; ds = ds\<lparr> tm_gmt_type := gmt_unset \<rparr> in
        if \<not> view_is 0x20 tmp then read_iso frac r ds
        else if sp_date_checkmask r (ascii ''@$$ @$$ ~# ##:##:## *'') then read_asctime r ds
        else read_rfc (skipUntil isdigit r) ds)"

definition fromHttp :: "int \<Rightarrow> (u8 view \<Rightarrow> int \<times> u8 view) \<Rightarrow> u8 view \<Rightarrow> fault + time" where
  "fromHttp ltoff frac r =
     (case time_read frac r time_exp_zero of None \<Rightarrow> Inr 0
      | Some ds \<Rightarrow> (case tm_gmt_type ds of gmt_set \<Rightarrow> gmt_geti ds | gmt_local \<Rightarrow> ltz_geti ltoff ds | gmt_unset \<Rightarrow> geti ds))"

text \<open>The compiler's \<^verbatim>\<open>__DATE__\<close> (11 characters) and \<^verbatim>\<open>__TIME__\<close> (8 characters).\<close>

definition fromCompileTime :: "int \<Rightarrow> u8 list \<Rightarrow> u8 list \<Rightarrow> fault + time" where
  "fromCompileTime ltoff date time =
     (case year4 date 7 of None \<Rightarrow> Inr 0 | Some y \<Rightarrow>
      let mday = (if date ! 4 \<noteq> 0x20 then digit (date ! 4) * 10 else 0) + digit (date ! 5);
          mon = int (month_index (pack3 (date ! 0) (date ! 1) (date ! 2)) s_months 0)
      in if mon = 12 \<or> mday \<le> 0 \<or> mday > 31 \<or> \<not> day_in_month mday mon y then Inr 0
         else case read_time time (time_exp_zero\<lparr> tm_year := y, tm_mday := mday, tm_mon := mon \<rparr>) of
           None \<Rightarrow> Inr 0 | Some ds \<Rightarrow> ltz_geti ltoff (ds\<lparr> tm_usec := 0, tm_gmtoff := 0 \<rparr>))"

section \<open>Writing dates\<close>

definition digit_char :: "int \<Rightarrow> u8" where
  "digit_char n = of_int n + 0x30"

definition put2 :: "int \<Rightarrow> u8 list" where
  "put2 n = [digit_char (n div 10), digit_char (n mod 10)]"

definition put_year :: "int \<Rightarrow> u8 list" where
  "put_year y = (let real_year = 1900 + y in
     [digit_char (real_year div 1000), digit_char (real_year mod 1000 div 100),
      digit_char (real_year mod 100 div 10), digit_char (real_year mod 10)])"

definition sp_day_snames :: "u8 list list" where
  "sp_day_snames = map ascii [''Sun'', ''Mon'', ''Tue'', ''Wed'', ''Thu'', ''Fri'', ''Sat'']"

definition put_clock :: "sp_time_exp \<Rightarrow> u8 list" where
  "put_clock ds = put2 (tm_hour ds) @ ascii '':'' @ put2 (tm_min ds) @ ascii '':'' @ put2 (tm_sec ds)"

definition encodeRfc822 :: "sp_time_exp \<Rightarrow> u8 list" where
  "encodeRfc822 ds =
     sp_day_snames ! nat (tm_wday ds) @ ascii '', '' @ put2 (tm_mday ds) @ ascii '' '' @ month_names ! nat (tm_mon ds)
     @ ascii '' '' @ put_year (tm_year ds) @ ascii '' '' @ put_clock ds @ ascii '' GMT''"

definition encodeCTime :: "sp_time_exp \<Rightarrow> u8 list" where
  "encodeCTime ds =
     sp_day_snames ! nat (tm_wday ds) @ ascii '' '' @ month_names ! nat (tm_mon ds) @ ascii '' '' @ put2 (tm_mday ds)
     @ ascii '' '' @ put_clock ds @ ascii '' '' @ put_year (tm_year ds)"

text \<open>
  \<^verbatim>\<open>std::round\<close> of a quotient of an \<^verbatim>\<open>int\<close> below 2^31 by a power of ten is the rounding of the exact
  quotient: the nearest double of a quotient is on the same side of every half.
\<close>

fun put_fraction :: "nat \<Rightarrow> int \<Rightarrow> u8 list" where
  "put_fraction 0 val = []"
| "put_fraction (Suc p) val = digit_char (val div 10 ^ p) # put_fraction p (val mod 10 ^ p)"

definition encodeIso8601 :: "sp_time_exp \<Rightarrow> nat \<Rightarrow> u8 list" where
  "encodeIso8601 ds precision =
     put_year (tm_year ds) @ ascii ''-'' @ put2 (tm_mon ds + 1) @ ascii ''-'' @ put2 (tm_mday ds) @ ascii ''T'' @ put_clock ds
     @ (if 0 < precision \<and> precision \<le> 6
        then let desc = 1000000 div 10 ^ precision in ascii ''.'' @ put_fraction precision ((2 * tm_usec ds + desc) div (2 * desc))
        else [])
     @ ascii ''Z''"

definition toRfc822 :: "time \<Rightarrow> u8 list" where
  "toRfc822 t = encodeRfc822 (time_exp t)"

definition toIso8601 :: "nat \<Rightarrow> time \<Rightarrow> u8 list" where
  "toIso8601 precision t = encodeIso8601 (time_exp t) precision"

section \<open>Formats read back\<close>

lemma digit_char_range:
  assumes "0 \<le> n" "n < 10" shows "0x30 \<le> digit_char n" "digit_char n \<le> 0x39" "digit (digit_char n) = n"
    "isdigit (digit_char n)" "digit_char n \<noteq> 0x20" "\<not> isspace (digit_char n)"
proof -
  have "n = 0 \<or> n = 1 \<or> n = 2 \<or> n = 3 \<or> n = 4 \<or> n = 5 \<or> n = 6 \<or> n = 7 \<or> n = 8 \<or> n = 9"
    using assms by presburger
  then have "0x30 \<le> digit_char n \<and> digit_char n \<le> 0x39 \<and> digit (digit_char n) = n \<and> digit_char n \<noteq> 0x20"
    by (elim disjE) (simp_all add: digit_char_def digit_def)
  then show "0x30 \<le> digit_char n" "digit_char n \<le> 0x39" "digit (digit_char n) = n" "isdigit (digit_char n)"
    "digit_char n \<noteq> 0x20" "\<not> isspace (digit_char n)"
    using decimal_digit_of(4) [of "digit_char n"] by (auto simp: ctype_eq)
qed

text \<open>Two-digit fields.\<close>

definition two :: "int \<Rightarrow> bool" where "two n \<longleftrightarrow> 0 \<le> n \<and> n < 100"

lemma put2_digits:
  assumes "two n"
  shows "0 \<le> n div 10" "n div 10 < 10" "0 \<le> n mod 10" "n mod 10 < 10" "n div 10 * 10 + n mod 10 = n"
  using assms by (auto simp: two_def pos_imp_zdiv_nonneg_iff)

lemma put_year_digits:
  fixes y :: int
  assumes "70 \<le> y" "y < 8100"
  defines "r \<equiv> 1900 + y"
  shows "0 \<le> r div 1000" "r div 1000 < 10" "0 \<le> r mod 1000 div 100" "r mod 1000 div 100 < 10"
    "0 \<le> r mod 100 div 10" "r mod 100 div 10 < 10" "0 \<le> r mod 10" "r mod 10 < 10"
    "(r div 1000 * 10 + r mod 1000 div 100 - 19) * 100 + (r mod 100 div 10 * 10 + r mod 10) = y"
    "\<not> r div 1000 * 10 + r mod 1000 div 100 < 19"
proof -
  have r: "1970 \<le> r" "r < 10000" using assms by (simp_all add: r_def)
  have "r mod 1000 = 100 * (r div 100 mod 10) + r mod 100" using zmod_zmult2_eq [of 10 r 100] by simp
  then have "r mod 1000 div 100 = r div 100 mod 10" by simp
  moreover have "r div 1000 = r div 100 div 10" using zdiv_zmult2_eq [of 10 r 100] by simp
  moreover have "r div 100 div 10 * 10 + r div 100 mod 10 = r div 100" by (rule div_mult_mod_eq)
  ultimately have h: "r div 1000 * 10 + r mod 1000 div 100 = r div 100" by simp
  have "r mod 100 = 10 * (r div 10 mod 10) + r mod 10" using zmod_zmult2_eq [of 10 r 10] by simp
  then have l: "r mod 100 div 10 * 10 + r mod 10 = r mod 100" by simp
  have d: "r div 100 * 100 + r mod 100 = r" by (rule div_mult_mod_eq)
  show "0 \<le> r div 1000" "r div 1000 < 10" "0 \<le> r mod 1000 div 100" "r mod 1000 div 100 < 10"
    "0 \<le> r mod 100 div 10" "r mod 100 div 10 < 10" "0 \<le> r mod 10" "r mod 10 < 10"
    using r by (simp_all add: pos_imp_zdiv_nonneg_iff)
  show "\<not> r div 1000 * 10 + r mod 1000 div 100 < 19"
    unfolding h using r d pos_mod_bound [of 100 r] by linarith
  show "(r div 1000 * 10 + r mod 1000 div 100 - 19) * 100 + (r mod 100 div 10 * 10 + r mod 10) = y"
    unfolding h l using d by (simp add: r_def algebra_simps)
qed

text \<open>The date and time of an ISO 8601 text, on any two-digit fields and any text without spaces behind it.\<close>

definition iso_text :: "int \<Rightarrow> int \<Rightarrow> int \<Rightarrow> int \<Rightarrow> int \<Rightarrow> int \<Rightarrow> u8 list" where
  "iso_text y mo d h mi se =
     put_year y @ ascii ''-'' @ put2 (mo + 1) @ ascii ''-'' @ put2 d @ ascii ''T''
     @ put2 h @ ascii '':'' @ put2 mi @ ascii '':'' @ put2 se"

definition civil_exp :: "int \<Rightarrow> int \<Rightarrow> int \<Rightarrow> int \<Rightarrow> int \<Rightarrow> int \<Rightarrow> sp_time_exp" where
  "civil_exp y mo d h mi se =
     time_exp_zero\<lparr> tm_year := y, tm_mon := mo, tm_mday := d, tm_hour := h, tm_min := mi, tm_sec := se \<rparr>"

lemma digit_chars:
  "isdigit c \<Longrightarrow> c \<noteq> 0x20 \<and> \<not> isspace c \<and> c \<noteq> 0 \<and> c \<noteq> 0x2E"
  by (auto simp: ctype_eq word_le_def)

lemma put2_eq:
  assumes "two n"
  obtains a b where "put2 n = [a, b]" "isdigit a" "isdigit b" "digit a * 10 + digit b = n"
  using put2_digits [OF assms] digit_char_range [of "n div 10"] digit_char_range [of "n mod 10"] that
  by (auto simp: put2_def)

lemma put_year_eq:
  assumes "70 \<le> y" "y < 8100"
  obtains a b c d where "put_year y = [a, b, c, d]" "isdigit a" "isdigit b" "isdigit c" "isdigit d"
    "(digit a * 10 + digit b - 19) * 100 + (digit c * 10 + digit d) = y" "\<not> digit a * 10 + digit b < 19"
proof -
  note d = put_year_digits [OF assms]
  note c = digit_char_range [OF d(1,2)] digit_char_range [OF d(3,4)] digit_char_range [OF d(5,6)] digit_char_range [OF d(7,8)]
  show ?thesis
    by (rule that [of "digit_char ((1900 + y) div 1000)" "digit_char ((1900 + y) mod 1000 div 100)"
        "digit_char ((1900 + y) mod 100 div 10)" "digit_char ((1900 + y) mod 10)"])
      (simp_all only: put_year_def Let_def c d not_False_eq_True)
qed

lemma dropWhile_none: "\<forall>c\<in>set v. P c \<Longrightarrow> dropWhile P v = []"
  by (induction v) auto

lemma checkmask_star: "sp_date_checkmask v [0x2A]"
  by (cases v) simp_all

lemma checkmask_char:
  "sp_date_checkmask (d # data) (0x23 # msk) \<longleftrightarrow> isdigit d \<and> sp_date_checkmask data msk"
  "sp_date_checkmask (d # data) (0x40 # msk) \<longleftrightarrow> isupper d \<and> sp_date_checkmask data msk"
  "sp_date_checkmask (d # data) (0x24 # msk) \<longleftrightarrow> islower d \<and> sp_date_checkmask data msk"
  "sp_date_checkmask (d # data) (0x20 # msk) \<longleftrightarrow> d = 0x20 \<and> sp_date_checkmask data msk"
  "sp_date_checkmask (d # data) (0x3A # msk) \<longleftrightarrow> d = 0x3A \<and> sp_date_checkmask data msk"
  "sp_date_checkmask (d # data) (0x2D # msk) \<longleftrightarrow> d = 0x2D \<and> sp_date_checkmask data msk"
  "sp_date_checkmask (d # data) (0x54 # msk) \<longleftrightarrow> d = 0x54 \<and> sp_date_checkmask data msk"
  by auto

declare sp_date_checkmask.simps(3) [simp del]

lemma iso_read:
  assumes y: "70 \<le> y" "y < 8100" and t: "two (mo + 1)" "two d" "two h" "two mi" "two se"
    and v: "h \<le> 23" "mi \<le> 59" "se \<le> 61" "check_mon (civil_exp y mo d h mi se)"
    and z: "\<forall>c\<in>set z. c \<noteq> 0x20" "z = [] \<or> hd z \<noteq> 0x2E"
  shows "time_read frac (iso_text y mo d h mi se @ z) time_exp_zero
    = Some (read_gmt (if z = [] then ascii ''Z'' else z) (civil_exp y mo d h mi se))"
proof -
  obtain y1 y2 y3 y4 where Y: "put_year y = [y1, y2, y3, y4]" "isdigit y1" "isdigit y2" "isdigit y3" "isdigit y4"
    "(digit y1 * 10 + digit y2 - 19) * 100 + (digit y3 * 10 + digit y4) = y" "\<not> digit y1 * 10 + digit y2 < 19"
    using put_year_eq [OF y] by blast
  obtain m1 m2 where M: "put2 (mo + 1) = [m1, m2]" "isdigit m1" "isdigit m2" "digit m1 * 10 + digit m2 = mo + 1"
    using put2_eq [OF t(1)] by blast
  obtain d1 d2 where D: "put2 d = [d1, d2]" "isdigit d1" "isdigit d2" "digit d1 * 10 + digit d2 = d"
    using put2_eq [OF t(2)] by blast
  obtain h1 h2 where H: "put2 h = [h1, h2]" "isdigit h1" "isdigit h2" "digit h1 * 10 + digit h2 = h"
    using put2_eq [OF t(3)] by blast
  obtain i1 i2 where I: "put2 mi = [i1, i2]" "isdigit i1" "isdigit i2" "digit i1 * 10 + digit i2 = mi"
    using put2_eq [OF t(4)] by blast
  obtain s1 s2 where S: "put2 se = [s1, s2]" "isdigit s1" "isdigit s2" "digit s1 * 10 + digit s2 = se"
    using put2_eq [OF t(5)] by blast
  define r where "r = [y1, y2, y3, y4, 0x2D, m1, m2, 0x2D, d1, d2, 0x54, h1, h2, 0x3A, i1, i2, 0x3A, s1, s2] @ z"
  have e: "iso_text y mo d h mi se @ z = r"
    by (simp add: iso_text_def Y(1) M(1) D(1) H(1) I(1) S(1) r_def ascii_def)
  have msk: "sp_date_checkmask r (ascii ''####-##-##T##:##:##*'')"
    using Y M D H I S checkmask_star [of z] by (simp add: r_def ascii_def checkmask_char)
  have sp: "skipChars isspace r = r"
    using digit_chars [OF Y(2)] by (simp add: skip_eq r_def)
  have "\<forall>c\<in>set r. c \<noteq> 0x20"
    using z(1) Y M D H I S digit_chars unfolding r_def by auto
  then have tmp: "skipUntil (\<lambda>c. c = 0x20) r = []" by (simp add: skip_eq dropWhile_none)
  have rd: "time_read frac r time_exp_zero = read_iso frac r time_exp_zero"
    by (simp add: time_read_def sp tmp view_is_def time_exp_zero_def) (simp add: r_def)
  have year: "year4 r 0 = Some y"
    using Y(6,7) by (simp add: year4_def digits2_def r_def Let_def)
  have mon: "digits2 r 5 - 1 = mo" and day: "digits2 r 8 = d"
    using M(4) D(4) by (simp_all add: digits2_def r_def)
  have time: "read_time (sub (offset 11 r) 0 8) ds = Some (ds\<lparr> tm_hour := h, tm_min := mi, tm_sec := se \<rparr>)" for ds
    using H(4) I(4) S(4) v(1-3) by (simp add: read_time_def sub_def offset_def r_def digits2_def Let_def)
  have rest: "offset 8 (offset 11 r) = z" by (simp add: offset_def r_def)
  have dot: "\<not> view_is 0x2E z" using z(2) by (cases z) (simp_all add: view_is_def)
  show ?thesis
    using v(4) dot unfolding e rd read_iso_def
    by (simp add: msk year mon day time rest civil_exp_def Let_def)
qed

text \<open>The RFC 822 text with the three characters of a day name in front.\<close>

definition rfc_text :: "u8 list \<Rightarrow> int \<Rightarrow> int \<Rightarrow> int \<Rightarrow> int \<Rightarrow> int \<Rightarrow> int \<Rightarrow> u8 list" where
  "rfc_text day y mo d h mi se =
     day @ ascii '', '' @ put2 d @ ascii '' '' @ month_names ! nat mo @ ascii '' '' @ put_year y @ ascii '' ''
     @ put2 h @ ascii '':'' @ put2 mi @ ascii '':'' @ put2 se @ ascii '' GMT''"

definition name3 :: "u8 list \<Rightarrow> bool" where
  "name3 s \<longleftrightarrow> length s = 3 \<and> isupper (s ! 0) \<and> islower (s ! 1) \<and> islower (s ! 2)"

lemma name3_cases:
  assumes "name3 s"
  obtains a b c where "s = [a, b, c]" "isupper a" "islower b" "islower c"
  using assms by (cases s rule: list.exhaust; cases "tl s"; cases "tl (tl s)") (auto simp: name3_def)

lemma letters: "isupper c \<or> islower c \<Longrightarrow> \<not> isdigit c \<and> c \<noteq> 0x20 \<and> \<not> isspace c"
  by (auto simp: ctype_eq word_le_nat_alt)

lemma name_chars:
  "month_names = [[0x4A, 0x61, 0x6E], [0x46, 0x65, 0x62], [0x4D, 0x61, 0x72], [0x41, 0x70, 0x72],
    [0x4D, 0x61, 0x79], [0x4A, 0x75, 0x6E], [0x4A, 0x75, 0x6C], [0x41, 0x75, 0x67],
    [0x53, 0x65, 0x70], [0x4F, 0x63, 0x74], [0x4E, 0x6F, 0x76], [0x44, 0x65, 0x63]]"
  "sp_day_snames = [[0x53, 0x75, 0x6E], [0x4D, 0x6F, 0x6E], [0x54, 0x75, 0x65], [0x57, 0x65, 0x64], [0x54, 0x68, 0x75], [0x46, 0x72, 0x69], [0x53, 0x61, 0x74]]"
  by (simp_all add: month_names_def sp_day_snames_def ascii_def)

lemma pack3_ascii:
  assumes "a < 0x80" "b < 0x80" "c < 0x80"
  shows "pack3 a b c = push_bit 16 (ucast a) OR push_bit 8 (ucast b) OR ucast c"
proof -
  have "scast x = (ucast x :: u32)" if "x < 0x80" for x :: u8
  proof -
    have "uint x < 2 ^ 7" "0 \<le> uint x" using that by (simp_all add: word_less_def)
    then have "signed_take_bit 7 (uint x) = uint x" by (intro signed_take_bit_int_eq_self; linarith)
    then have "sint x = uint x" by (simp add: sint_uint)
    then show ?thesis by (simp add: scast_eq)
  qed
  then show ?thesis using assms by (simp add: pack3_def)
qed

lemma s_months_eq:
  "s_months = [0x4A616E, 0x466562, 0x4D6172, 0x417072, 0x4D6179, 0x4A756E, 0x4A756C, 0x417567, 0x536570, 0x4F6374, 0x4E6F76, 0x446563]"
  by (simp add: s_months_def name_chars pack3_ascii)

lemma name3_code: "name3 [a, b, c] \<longleftrightarrow> isupper a \<and> islower b \<and> islower c"
  by (simp add: name3_def)

lemma below_12: "m < 12 \<Longrightarrow> m \<in> {0, 1, 2, 3, 4, 5, 6, 7, 8, 9, 10, 11}" for m :: nat
  by (simp only: insert_iff empty_iff) presburger

lemma month_name:
  assumes "m < 12"
  shows "name3 (month_names ! m)"
    "month_index (pack3 (month_names ! m ! 0) (month_names ! m ! 1) (month_names ! m ! 2)) s_months 0 = m"
proof -
  have "name3 (month_names ! m)
    \<and> month_index (pack3 (month_names ! m ! 0) (month_names ! m ! 1) (month_names ! m ! 2)) s_months 0 = m"
    using below_12 [OF assms] by (elim insertE emptyE)
      (simp_all add: name_chars name3_code ctype_eq s_months_eq pack3_ascii)
  then show "name3 (month_names ! m)"
    "month_index (pack3 (month_names ! m ! 0) (month_names ! m ! 1) (month_names ! m ! 2)) s_months 0 = m" by blast+
qed

lemma day_name:
  assumes "k < 7"
  shows "name3 (sp_day_snames ! k)"
proof -
  have "k \<in> {0, 1, 2, 3, 4, 5, 6}" using assms by auto
  then show ?thesis by (elim insertE emptyE) (simp_all add: name_chars name3_code ctype_eq)
qed

lemma rfc_read:
  assumes y: "70 \<le> y" "y < 8100" and t: "two d" "two h" "two mi" "two se" and mo: "0 \<le> mo" "mo < 12" and day: "name3 day"
    and v: "h \<le> 23" "mi \<le> 59" "se \<le> 61" "check_mon (civil_exp y mo d h mi se)"
  shows "time_read frac (rfc_text day y mo d h mi se) time_exp_zero
    = Some (read_gmt (ascii ''GMT'') (civil_exp y mo d h mi se))"
proof -
  obtain y1 y2 y3 y4 where Y: "put_year y = [y1, y2, y3, y4]" "isdigit y1" "isdigit y2" "isdigit y3" "isdigit y4"
    "(digit y1 * 10 + digit y2 - 19) * 100 + (digit y3 * 10 + digit y4) = y" "\<not> digit y1 * 10 + digit y2 < 19"
    using put_year_eq [OF y] by blast
  obtain d1 d2 where D: "put2 d = [d1, d2]" "isdigit d1" "isdigit d2" "digit d1 * 10 + digit d2 = d"
    using put2_eq [OF t(1)] by blast
  obtain h1 h2 where H: "put2 h = [h1, h2]" "isdigit h1" "isdigit h2" "digit h1 * 10 + digit h2 = h"
    using put2_eq [OF t(2)] by blast
  obtain i1 i2 where I: "put2 mi = [i1, i2]" "isdigit i1" "isdigit i2" "digit i1 * 10 + digit i2 = mi"
    using put2_eq [OF t(3)] by blast
  obtain s1 s2 where S: "put2 se = [s1, s2]" "isdigit s1" "isdigit s2" "digit s1 * 10 + digit s2 = se"
    using put2_eq [OF t(4)] by blast
  define m where "m = nat mo"
  have m: "m < 12" "mo = int m" using mo by (simp_all add: m_def)
  obtain w1 w2 w3 where W: "day = [w1, w2, w3]" "isupper w1" "islower w2" "islower w3" using name3_cases [OF day] by blast
  obtain n1 n2 n3 where N: "month_names ! m = [n1, n2, n3]" "isupper n1" "islower n2" "islower n3"
    using name3_cases [OF month_name(1) [OF m(1)]] by blast
  have idx: "month_index (pack3 n1 n2 n3) s_months 0 = m" using month_name(2) [OF m(1)] N(1) by simp
  define r where "r = [d1, d2, 0x20, n1, n2, n3, 0x20, y1, y2, y3, y4, 0x20, h1, h2, 0x3A, i1, i2, 0x3A, s1, s2, 0x20, 0x47, 0x4D, 0x54]"
  define u where "u = [w1, w2, w3, 0x2C, 0x20] @ r"
  have e: "rfc_text day y mo d h mi se = u"
    by (simp add: rfc_text_def W(1) Y(1) D(1) H(1) I(1) S(1) m_def [symmetric] N(1) r_def u_def ascii_def)
  have sp: "skipChars isspace u = u" using letters [of w1] W(2) by (simp add: skip_eq u_def)
  have tmp: "view_is 0x20 (skipUntil (\<lambda>c. c = 0x20) u)"
    using W letters [of w1] letters [of w2] letters [of w3] by (simp add: skip_eq u_def view_is_def)
  have asc: "\<not> sp_date_checkmask u (ascii ''@$$ @$$ ~# ##:##:## *'')"
    by (simp add: u_def ascii_def checkmask_char)
  have dig: "skipUntil isdigit u = r"
    using W letters [of w1] letters [of w2] letters [of w3] D(2) by (simp add: skip_eq u_def r_def ctype_eq(3) [of "0x2C"] ctype_eq(3) [of "0x20"])
  have msk: "sp_date_checkmask r (ascii ''## @$$ #### ##:##:## *'')"
    using Y D H I S N by (simp add: r_def ascii_def checkmask_char checkmask_star)
  have fields: "rfc_fields r = Some (y, d, [n1, n2, n3], [h1, h2, 0x3A, i1, i2, 0x3A, s1, s2], ascii ''GMT'')"
    unfolding rfc_fields_def using msk Y(6,7) D(4)
    by (simp add: year4_def digits2_def r_def Let_def sub_def ascii_def)
  have time: "read_time [h1, h2, 0x3A, i1, i2, 0x3A, s1, s2] ds = Some (ds\<lparr> tm_hour := h, tm_min := mi, tm_sec := se \<rparr>)" for ds
    using H(4) I(4) S(4) v(1-3) by (simp add: read_time_def digits2_def Let_def)
  have mday: "\<not> d \<le> 0" "\<not> d > 31" "day_in_month d mo y" using v(4) by (simp_all add: check_mon_def civil_exp_def)
  have "time_read frac u time_exp_zero = read_rfc r time_exp_zero"
    by (simp add: time_read_def sp tmp asc dig time_exp_zero_def) (simp add: u_def)
  moreover have "read_rfc r time_exp_zero = Some (read_gmt (ascii ''GMT'') (civil_exp y mo d h mi se))"
    using mday m by (simp add: read_rfc_def fields time read_mon_def idx civil_exp_def Let_def)
      (simp add: ascii_def time_exp_zero_def)
  ultimately show ?thesis unfolding e by simp
qed


lemma civil_exp_civil:
  assumes "civil s ds"
  defines "e \<equiv> civil_exp (tm_year ds) (tm_mon ds) (tm_mday ds) (tm_hour ds) (tm_min ds) (tm_sec ds)"
  shows "civil s e" "check_mon e" "two (tm_mon ds + 1)" "two (tm_mday ds)" "two (tm_hour ds)" "two (tm_min ds)" "two (tm_sec ds)"
    "tm_usec e = 0" "tm_gmtoff e = 0"
proof -
  show c: "civil s e" using assms(1) by (simp add: civil_def e_def civil_exp_def time_exp_zero_def)
  show m: "check_mon e" by (rule civil_check_mon [OF c])
  show "two (tm_mon ds + 1)" "two (tm_mday ds)" "two (tm_hour ds)" "two (tm_min ds)" "two (tm_sec ds)"
    using assms(1) m by (simp_all add: two_def civil_def check_mon_def e_def civil_exp_def)
  show "tm_usec e = 0" "tm_gmtoff e = 0" by (simp_all add: e_def civil_exp_def time_exp_zero_def)
qed

lemma read_gmt_utc:
  "tm_gmtoff e = 0 \<Longrightarrow> read_gmt (ascii ''GMT'') e = e\<lparr> tm_gmt_type := gmt_set \<rparr>"
  "tm_gmtoff e = 0 \<Longrightarrow> read_gmt (ascii ''Z'') e = e\<lparr> tm_gmt_type := gmt_set \<rparr>"
  by (simp_all add: read_gmt_def ascii_def read_eq view_next_def offset_def Let_def)

lemma fromHttp_civil:
  assumes "time_read frac r time_exp_zero = Some (e\<lparr> tm_gmt_type := gmt_set \<rparr>)" "civil s e" "tm_usec e = 0" "tm_gmtoff e = 0"
  shows "fromHttp ltoff frac r = Inr (of_int s * SP_USEC_PER_SEC)"
proof -
  have "civil s (e\<lparr> tm_gmt_type := gmt_set \<rparr>)" using assms(2) by (simp add: civil_def)
  then show ?thesis using geti_civil [of s "e\<lparr> tm_gmt_type := gmt_set \<rparr>"] assms by (simp add: fromHttp_def gmt_geti_def)
qed

lemma whole_seconds:
  assumes "0 \<le> sint (t :: u64)"
  shows "of_int (sint t div 1000000) * SP_USEC_PER_SEC = seconds (toSeconds t)"
proof -
  have "sint t = uint t" using assms using unsigned_less [of t, where ?'a = int]
    by (simp add: sint_by_uint split: if_splits)
  then have "of_int (sint t div 1000000) = t div 1000000" by (simp add: word_div_def)
  then show ?thesis by (simp add: seconds_def toSeconds_def SP_USEC_PER_SEC_def)
qed

lemma fromHttp_geti_civil:
  assumes "time_read frac r time_exp_zero = Some e" "tm_gmt_type e = gmt_unset" "civil s e" "tm_usec e = 0"
  shows "fromHttp ltoff frac r = Inr (of_int s * SP_USEC_PER_SEC)"
  using geti_civil [OF assms(3)] assms by (simp add: fromHttp_def)

lemma encodeRfc822_text:
  "encodeRfc822 ds = rfc_text (sp_day_snames ! nat (tm_wday ds)) (tm_year ds) (tm_mon ds) (tm_mday ds) (tm_hour ds) (tm_min ds) (tm_sec ds)"
  by (simp add: encodeRfc822_def rfc_text_def put_clock_def)

lemma encodeIso8601_text:
  "encodeIso8601 ds 0 = iso_text (tm_year ds) (tm_mon ds) (tm_mday ds) (tm_hour ds) (tm_min ds) (tm_sec ds) @ ascii ''Z''"
  by (simp add: encodeIso8601_def iso_text_def put_clock_def)

lemma iso_text_length: "length (iso_text y mo d h mi se) = 19"
  by (simp add: iso_text_def put_year_def put2_def ascii_def Let_def)

lemma iso_civil_read:
  assumes "civil s ds" "\<forall>c\<in>set z. c \<noteq> 0x20" "z = [] \<or> hd z \<noteq> 0x2E"
  defines "e \<equiv> civil_exp (tm_year ds) (tm_mon ds) (tm_mday ds) (tm_hour ds) (tm_min ds) (tm_sec ds)"
  shows "time_read frac (iso_text (tm_year ds) (tm_mon ds) (tm_mday ds) (tm_hour ds) (tm_min ds) (tm_sec ds) @ z) time_exp_zero
    = Some (read_gmt (if z = [] then ascii ''Z'' else z) e)"
  unfolding e_def using assms(1) civil_exp_civil [OF assms(1)] assms(2,3)
  by (intro iso_read) (simp_all add: civil_def)

lemma rfc_civil_read:
  assumes "civil s ds"
  shows "time_read frac (encodeRfc822 ds) time_exp_zero
    = Some (read_gmt (ascii ''GMT'') (civil_exp (tm_year ds) (tm_mon ds) (tm_mday ds) (tm_hour ds) (tm_min ds) (tm_sec ds)))"
proof -
  have "0 \<le> tm_wday ds" "tm_wday ds < 7" using assms by (simp_all only: civil_def)
  then have "name3 (sp_day_snames ! nat (tm_wday ds))" by (intro day_name) linarith
  then show ?thesis unfolding encodeRfc822_text
    using assms civil_exp_civil [OF assms] by (intro rfc_read) (simp_all add: civil_def)
qed

lemma read_gmt_colon:
  assumes "sign = 0x2B \<or> sign = 0x2D" "isdigit a" "isdigit b" "isdigit c" "isdigit d" "tm_gmtoff e = 0"
  shows "read_gmt [sign, a, b, 0x3A, c, d] e = e"
  using assms by (auto simp: read_gmt_def ascii_def read_eq view_next_def view_is_def ctype_eq(3) [of "0x3A"] Let_def)

section \<open>Properties\<close>

text \<open>
  C30: the HTTP date and the ISO 8601 text written for a time stamp of the years 1970 to 9999 are both
  accepted by \<^verbatim>\<open>Time::fromHttp\<close>, which returns the time stamp cut to whole seconds, whatever the local zone is.
\<close>

theorem http_date_roundtrip:
  assumes "0 \<le> sint t" "sint t < 253402300800000000"
  shows "fromHttp ltoff frac (toRfc822 t) = Inr (seconds (toSeconds t))
    \<and> fromHttp ltoff frac (toIso8601 0 t) = Inr (seconds (toSeconds t))"
proof -
  note c = time_exp_civil(1) [OF assms]
  note e = civil_exp_civil [OF c]
  have "\<forall>c\<in>set (ascii ''Z''). c \<noteq> 0x20" "hd (ascii ''Z'') \<noteq> 0x2E" "ascii ''Z'' \<noteq> []" by (simp_all add: ascii_def)
  then have i: "time_read frac (toIso8601 0 t) time_exp_zero = Some (read_gmt (ascii ''Z'') (civil_exp (tm_year (time_exp t))
     (tm_mon (time_exp t)) (tm_mday (time_exp t)) (tm_hour (time_exp t)) (tm_min (time_exp t)) (tm_sec (time_exp t))))"
    using iso_civil_read [OF c, of "ascii ''Z''"] by (simp only: toIso8601_def encodeIso8601_text simp_thms if_False)
  show ?thesis
    using fromHttp_civil [OF i [unfolded read_gmt_utc(2) [OF e(9)]] e(1,8,9)]
      fromHttp_civil [OF rfc_civil_read [OF c, unfolded read_gmt_utc(1) [OF e(9)]] e(1,8,9)]
      whole_seconds [OF assms(1)] by (simp add: toRfc822_def)
qed

lemma http_date_roundtrip_witness:
  "fromHttp 10800 (\<lambda>r. (0, r)) (toRfc822 784111777000000) = Inr (seconds (toSeconds 784111777000000))"
proof -
  have "sint (784111777000000 :: u64) = 784111777000000" by simp
  then show ?thesis using http_date_roundtrip [of 784111777000000] by simp
qed

text \<open>
  A numeric zone with a colon is accepted and has no effect: for any two digits of hours and minutes the
  text reads as the time stamp of its UTC reading.
\<close>

theorem colon_zone_ignored:
  assumes "0 \<le> sint t" "sint t < 253402300800000000"
    and "sign = 0x2B \<or> sign = 0x2D" "isdigit a" "isdigit b" "isdigit c" "isdigit d"
  shows "fromHttp ltoff frac (take 19 (toIso8601 0 t) @ [sign, a, b, 0x3A, c, d]) = Inr (seconds (toSeconds t))"
proof -
  note cv = time_exp_civil(1) [OF assms(1,2)]
  note e = civil_exp_civil [OF cv]
  have z: "\<forall>x\<in>set [sign, a, b, 0x3A, c, d]. x \<noteq> 0x20" "hd [sign, a, b, 0x3A, c, d] \<noteq> 0x2E"
    using assms(3) digit_chars [OF assms(4)] digit_chars [OF assms(5)] digit_chars [OF assms(6)] digit_chars [OF assms(7)] by auto
  have t: "take 19 (toIso8601 0 t) = iso_text (tm_year (time_exp t)) (tm_mon (time_exp t)) (tm_mday (time_exp t))
    (tm_hour (time_exp t)) (tm_min (time_exp t)) (tm_sec (time_exp t))"
    by (simp add: toIso8601_def encodeIso8601_text iso_text_length)
  have "time_read frac (take 19 (toIso8601 0 t) @ [sign, a, b, 0x3A, c, d]) time_exp_zero
    = Some (civil_exp (tm_year (time_exp t)) (tm_mon (time_exp t)) (tm_mday (time_exp t))
        (tm_hour (time_exp t)) (tm_min (time_exp t)) (tm_sec (time_exp t)))"
    unfolding t using iso_civil_read [OF cv, of "[sign, a, b, 0x3A, c, d]"] z read_gmt_colon [OF assms(3-7) e(9)]
    by (simp only: list.distinct if_False simp_thms)
  then show ?thesis
    using fromHttp_geti_civil [OF _ _ e(1,8)] whole_seconds [OF assms(1)] by (simp add: civil_exp_def time_exp_zero_def)
qed

lemma colon_zone_ignored_witness:
  "fromHttp 0 (\<lambda>r. (0, r)) (take 19 (toIso8601 0 1303972440000000) @ ascii ''+09:00'') = Inr (seconds (toSeconds 1303972440000000))"
proof -
  have "sint (1303972440000000 :: u64) = 1303972440000000" by simp
  then show ?thesis
    using colon_zone_ignored [of 1303972440000000 "0x2B" "0x30" "0x39" "0x30" "0x30" 0] by (simp add: ctype_eq ascii_def)
qed

text \<open>A fraction that rounds up to a whole second does not carry into the seconds.\<close>

lemma fraction_carry:
  "encodeIso8601 (time_exp_zero\<lparr> tm_year := 70, tm_mday := 1, tm_usec := 999999 \<rparr>) 3 = ascii ''1970-01-01T00:00:00.:00Z''"
  by code_simp

end
