(* ===== verification/FloatBits.thy ===== *)
theory FloatBits
  imports Prelude
begin

text \<open>
  Models \<^verbatim>\<open>common/utils/SPHalfFloat.h\<close> and the conversions between \<^verbatim>\<open>float\<close> and \<^verbatim>\<open>double\<close> the CBOR
  coder relies on. Floating-point numbers are their IEEE 754 bit patterns: \<^verbatim>\<open>half\<close> a 16-bit, \<^verbatim>\<open>float\<close> a
  32-bit and \<^verbatim>\<open>double\<close> a 64-bit word.
\<close>

section \<open>Formats\<close>

fun log2 :: "nat \<Rightarrow> nat" where
  "log2 n = (if n < 2 then 0 else Suc (log2 (n div 2)))"

declare log2.simps [simp del]

text \<open>
  The pattern of \<open>m * 2 ^ x\<close> without sign in a format with \<open>p\<close> bits of mantissa and the exponent bias \<open>b\<close>,
  for a number that is exact and normal in the format; what \<^verbatim>\<open>std::ldexp\<close> returns.
\<close>

definition float_pattern :: "nat \<Rightarrow> int \<Rightarrow> nat \<Rightarrow> int \<Rightarrow> nat" where
  "float_pattern p b m x =
     (if m = 0 then 0 else nat (x + int (log2 m) + b) * 2 ^ p + (m * 2 ^ (p - log2 m) - 2 ^ p))"

definition with_sign :: "bool \<Rightarrow> nat \<Rightarrow> nat \<Rightarrow> 'a::len word" where
  "with_sign s n w = of_nat ((if s then 2 ^ (n - 1) else 0) + w)"

section \<open>Half precision\<close>

definition half_nan :: u16 where "half_nan = 0x7e00"
definition half_posinf :: u16 where "half_posinf = push_bit 10 31"
definition half_neginf :: u16 where "half_neginf = push_bit 10 63"

definition float_inf :: nat where "float_inf = 0x7f800000"
definition float_nan :: nat where "float_nan = 0x7fc00000"

definition halffloat_decode :: "u16 \<Rightarrow> u32" where
  "halffloat_decode half =
     (let exp = unat (drop_bit 10 half AND 0x1f); mant = unat (half AND 0x3ff);
          val = (if exp = 0 then float_pattern 23 127 mant (- 24)
                 else if exp \<noteq> 31 then float_pattern 23 127 (mant + 1024) (int exp - 25)
                 else if mant = 0 then float_inf else float_nan)
      in with_sign (half AND 0x8000 \<noteq> 0) 32 val)"

text \<open>\<^verbatim>\<open>halffloat::encode\<close>, on the bits of the \<^verbatim>\<open>float\<close>.\<close>

definition halffloat_encode :: "u32 \<Rightarrow> u16" where
  "halffloat_encode i =
     (let bits = ucast (drop_bit 16 i AND 0x8000) :: u16; m = ucast (drop_bit 12 i AND 0x07ff) :: u16;
          e = unat (drop_bit 23 i AND 0xff) in
      if e < 103 then bits
      else if e > 142 then
        (bits OR 0x7c00) OR (if e = 255 \<and> i AND 0x007fffff \<noteq> 0 then 1 else 0)
      else if e < 113 then
        (let m = m OR 0x0800 in bits OR (drop_bit (114 - e) m + (drop_bit (113 - e) m AND 1)))
      else
        (bits OR (of_nat ((e - 112) * 2 ^ 10) OR drop_bit 1 m)) + (m AND 1))"

section \<open>Single and double precision\<close>

text \<open>Assigning a \<^verbatim>\<open>float\<close> to a \<^verbatim>\<open>double\<close>; a signalling NaN becomes quiet.\<close>

definition float_to_double :: "u32 \<Rightarrow> u64" where
  "float_to_double f =
     (let n = unat f; e = n div 2 ^ 23 mod 256; m = n mod 2 ^ 23;
          val = (if e = 255 then 2047 * 2 ^ 52 + (if m = 0 then 0 else 2 ^ 51 + m mod 2 ^ 22 * 2 ^ 29)
                 else if e = 0 then float_pattern 52 1023 m (- 149)
                 else float_pattern 52 1023 (m + 2 ^ 23) (int e - 150))
      in with_sign (2 ^ 31 \<le> n) 64 val)"

text \<open>The \<^verbatim>\<open>float\<close> equal to a finite \<^verbatim>\<open>double\<close>, when there is one.\<close>

definition double_to_float :: "u64 \<Rightarrow> u32 option" where
  "double_to_float d =
     (let n = unat d; s = (2 ^ 63 \<le> n); e = n div 2 ^ 52 mod 2048; m = n mod 2 ^ 52 in
      if e = 0 \<and> m = 0 then Some (with_sign s 32 0)
      else if 897 \<le> e \<and> e \<le> 1150 \<and> m mod 2 ^ 29 = 0 then Some (with_sign s 32 ((e - 896) * 2 ^ 23 + m div 2 ^ 29))
      else if 874 \<le> e \<and> e \<le> 896 \<and> (2 ^ 52 + m) mod 2 ^ (926 - e) = 0 then Some (with_sign s 32 ((2 ^ 52 + m) div 2 ^ (926 - e)))
      else None)"

definition double_isnan :: "u64 \<Rightarrow> bool" where
  "double_isnan d \<longleftrightarrow> unat d div 2 ^ 52 mod 2048 = 2047 \<and> unat d mod 2 ^ 52 \<noteq> 0"

definition double_posinf :: u64 where "double_posinf = 0x7ff0000000000000"
definition double_neginf :: u64 where "double_neginf = 0xfff0000000000000"
definition double_nan :: u64 where "double_nan = 0x7ff8000000000000"

section \<open>Exact conversions\<close>

lemma log2_exact: "2 ^ k \<le> n \<Longrightarrow> n < 2 ^ Suc k \<Longrightarrow> log2 n = k"
proof (induction k arbitrary: n)
  case 0
  then have "n = 1" by simp
  then show ?case by (simp add: log2.simps [of "Suc 0"])
next
  case (Suc k)
  have "2 ^ k \<le> n div 2" "n div 2 < 2 ^ Suc k" using Suc.prems by auto
  then have "log2 (n div 2) = k" by (rule Suc.IH)
  moreover have "\<not> n < 2" using Suc.prems(1) by (simp add: not_less order_trans [of 2 "2 * 2 ^ k"])
  ultimately show ?case by (simp add: log2.simps [of n])
qed

text \<open>Dropping trailing zeros of the significand and raising the exponent gives the same pattern.\<close>

lemma float_pattern_reduced:
  assumes M: "2 ^ p \<le> M" "M < 2 ^ Suc p" and j: "M mod 2 ^ j = 0" "j \<le> p"
  shows "float_pattern p b (M div 2 ^ j) (x + int j) = nat (x + int p + b) * 2 ^ p + (M - 2 ^ p)"
proof -
  define q where "q = M div 2 ^ j"
  have q: "M = q * 2 ^ j" using div_mult_mod_eq [of M "2 ^ j"] j(1) by (simp add: q_def)
  have p: "(2::nat) ^ p = 2 ^ (p - j) * 2 ^ j" "(2::nat) ^ Suc p = 2 ^ Suc (p - j) * 2 ^ j"
    using j(2) by (simp_all add: power_add [symmetric])
  have "2 ^ (p - j) \<le> q" "q < 2 ^ Suc (p - j)" using M unfolding q p by simp_all
  then have l: "log2 q = p - j" by (rule log2_exact)
  have "q \<noteq> 0" using \<open>2 ^ (p - j) \<le> q\<close> by (metis not_less0 power_eq_0_iff le_zero_eq zero_neq_numeral)
  then show ?thesis
    using l j(2) by (simp add: float_pattern_def q_def [symmetric]) (simp add: q add.commute add.left_commute)
qed

text \<open>The fields of a word with a sign bit, \<open>k\<close> bits of exponent and \<open>p\<close> bits of mantissa.\<close>

lemma sign_fields:
  assumes "n < 2 ^ Suc (k + p)"
  shows "n = (if 2 ^ (k + p) \<le> n then 2 ^ (k + p) else 0) + (n div 2 ^ p mod 2 ^ k) * 2 ^ p + n mod (2::nat) ^ p"
proof -
  define q where "q = n div 2 ^ p"
  have n: "n = q * 2 ^ p + n mod 2 ^ p" by (simp only: q_def div_mult_mod_eq)
  have "q < 2 ^ Suc k" unfolding q_def by (rule less_mult_imp_div_less) (use assms in \<open>simp add: power_add ac_simps\<close>)
  have "2 ^ (k + p) \<le> n \<longleftrightarrow> 2 ^ k \<le> q" by (simp add: q_def less_eq_div_iff_mult_less_eq power_add)
  moreover define c r where "c = (if 2 ^ k \<le> q then 1 else 0 :: nat)" and "r = q mod 2 ^ k"
  have q: "q = c * 2 ^ k + r" using \<open>q < 2 ^ Suc k\<close> by (auto simp: mod_if c_def r_def)
  have "n = (c * 2 ^ k + r) * 2 ^ p + n mod 2 ^ p" using n unfolding q [symmetric] .
  then have "n = c * 2 ^ (k + p) + r * 2 ^ p + n mod 2 ^ p" by (simp add: power_add algebra_simps)
  ultimately show ?thesis unfolding c_def r_def q_def by (cases "2 ^ (k + p) \<le> n") (simp_all only: if_True if_False mult_1 mult_zero_left)
qed

lemma unat_with_sign:
  assumes "w < 2 ^ (n - 1)" "LENGTH('a) = n"
  shows "unat (with_sign s n w :: 'a::len word) = (if s then 2 ^ (n - 1) else 0) + w"
proof -
  have "0 < n" using assms(2) by (metis len_gt_0)
  then have "(2::nat) ^ n = 2 ^ (n - 1) + 2 ^ (n - 1)" by (cases n) simp_all
  moreover define v where "v = (if s then 2 ^ (n - 1) else 0) + w"
  ultimately have "v < 2 ^ n" using assms(1) by auto
  then have "unat (of_nat v :: 'a word) = v" using assms(2) by (simp add: unat_of_nat)
  then show ?thesis by (simp only: with_sign_def v_def)
qed

lemma with_sign_unat:
  assumes "unat d = (if s then 2 ^ (n - 1) else 0) + w"
  shows "with_sign s n w = d"
  unfolding with_sign_def assms [symmetric] by simp

text \<open>The fields of a pattern put together from them.\<close>

lemma fields_of_sum:
  fixes m :: nat
  assumes "m < 2 ^ p" "e < 2 ^ k"
  shows "(c * 2 ^ (k + p) + (e * 2 ^ p + m)) div 2 ^ p mod 2 ^ k = e" "(c * 2 ^ (k + p) + (e * 2 ^ p + m)) mod 2 ^ p = m"
proof -
  have a: "c * 2 ^ (k + p) + (e * 2 ^ p + m) = (c * 2 ^ k + e) * 2 ^ p + m" by (simp add: power_add algebra_simps)
  show "(c * 2 ^ (k + p) + (e * 2 ^ p + m)) div 2 ^ p mod 2 ^ k = e" unfolding a using assms by simp
  show "(c * 2 ^ (k + p) + (e * 2 ^ p + m)) mod 2 ^ p = m" unfolding a using assms(1) by simp
qed

lemma double_fields:
  fixes d :: u64
  defines "n \<equiv> unat d" defines "e \<equiv> n div 2 ^ 52 mod 2048" and "m \<equiv> n mod 2 ^ 52"
  shows "n = (if 2 ^ 63 \<le> n then 2 ^ 63 else 0) + (e * 2 ^ 52 + m)" "e < 2048" "m < 2 ^ 52"
proof -
  have "n < 2 ^ Suc (11 + 52)" using unsigned_less [of d, where ?'a = nat] by (simp add: n_def)
  from sign_fields [OF this] show "n = (if 2 ^ 63 \<le> n then 2 ^ 63 else 0) + (e * 2 ^ 52 + m)"
    by (simp add: e_def m_def cong: if_cong)
qed (simp_all add: e_def m_def)

lemma float_sum_fields:
  assumes "m < 2 ^ 23" "e < 256" "f = with_sign s 32 (e * 2 ^ 23 + m)"
  shows "unat (f :: u32) div 2 ^ 23 mod 256 = e" "unat f mod 2 ^ 23 = m" "2 ^ 31 \<le> unat f \<longleftrightarrow> s"
proof -
  have w: "e * 2 ^ 23 + m < 2 ^ 31" using assms(1,2) by simp
  then have u: "unat f = (if s then 1 else 0) * 2 ^ (8 + 23) + (e * 2 ^ 23 + m)"
    using unat_with_sign [of "e * 2 ^ 23 + m" 32 s, where ?'a = 32] by (simp add: assms(3))
  show "unat f div 2 ^ 23 mod 256 = e" "unat f mod 2 ^ 23 = m"
    using fields_of_sum [of m 23 e 8 "if s then 1 else 0"] assms(1,2) unfolding u by simp_all
  show "2 ^ 31 \<le> unat f \<longleftrightarrow> s" using u w by simp
qed

text \<open>A \<^verbatim>\<open>float\<close> equal to a \<^verbatim>\<open>double\<close> holds the number without loss.\<close>

lemma double_to_float_exact:
  assumes "double_to_float d = Some f"
  shows "float_to_double f = d"
proof -
  define n e m where "n = unat d" and "e = n div 2 ^ 52 mod 2048" and "m = n mod 2 ^ 52"
  define s where "s \<longleftrightarrow> 2 ^ 63 \<le> n"
  have d: "n = (if s then 2 ^ 63 else 0) + (e * 2 ^ 52 + m)" "e < 2048" "m < 2 ^ 52"
    using double_fields [of d] by (simp_all add: n_def e_def m_def s_def)
  have dd: "with_sign s 64 (e * 2 ^ 52 + m) = d" using d(1) by (intro with_sign_unat) (simp add: n_def)
  have M: "2 ^ 52 \<le> 2 ^ 52 + m" "2 ^ 52 + m < 2 ^ Suc 52" using d(3) by simp_all
  consider (zero) "e = 0" "m = 0" "f = with_sign s 32 0"
    | (normal) "897 \<le> e" "e \<le> 1150" "m mod 2 ^ 29 = 0" "f = with_sign s 32 ((e - 896) * 2 ^ 23 + m div 2 ^ 29)"
    | (small) "874 \<le> e" "e \<le> 896" "(2 ^ 52 + m) mod 2 ^ (926 - e) = 0" "f = with_sign s 32 ((2 ^ 52 + m) div 2 ^ (926 - e))"
    using assms unfolding double_to_float_def Let_def n_def [symmetric] e_def [symmetric] m_def [symmetric] s_def [symmetric]
    by (auto split: if_splits)
  then show ?thesis
  proof cases
    case zero
    then show ?thesis
      using float_sum_fields [of 0 0 f s] dd by (simp add: float_to_double_def float_pattern_def Let_def)
  next
    case normal
    have g: "unat f div 2 ^ 23 mod 256 = e - 896" "unat f mod 2 ^ 23 = m div 2 ^ 29" "2 ^ 31 \<le> unat f \<longleftrightarrow> s"
      using float_sum_fields [of "m div 2 ^ 29" "e - 896" f s] normal d(3) by auto
    have k: "m div 2 ^ 29 + 2 ^ 23 = (2 ^ 52 + m) div 2 ^ 29" "(2 ^ 52 + m) mod 2 ^ 29 = 0"
      using normal(3) by (simp_all add: div_add1_eq mod_add_eq [symmetric])
    have ne: "e - 896 \<noteq> 255" "e - 896 \<noteq> 0" using normal(1,2) by arith+
    have x: "int (e - 896) - 150 = (int e - 1075) + int 29" using normal(1) by simp
    have "float_pattern 52 1023 (m div 2 ^ 29 + 2 ^ 23) (int (e - 896) - 150) = e * 2 ^ 52 + m"
      unfolding k(1) x using float_pattern_reduced [OF M k(2), of 1023 "int e - 1075"] normal(1)
      by (simp add: nat_int_add)
    then show ?thesis using dd ne unfolding float_to_double_def g Let_def by simp
  next
    case small
    have "(2 ^ 52 + m) div 2 ^ (926 - e) < 2 ^ 23"
    proof (rule less_mult_imp_div_less)
      have "(2::nat) ^ 30 \<le> 2 ^ (926 - e)" using small(2) by (intro power_increasing) simp_all
      then have "(2::nat) ^ 53 \<le> 2 ^ 23 * 2 ^ (926 - e)" by simp
      then show "2 ^ 52 + m < 2 ^ 23 * 2 ^ (926 - e)" using M(2) by simp
    qed
    then have g: "unat f div 2 ^ 23 mod 256 = 0" "unat f mod 2 ^ 23 = (2 ^ 52 + m) div 2 ^ (926 - e)" "2 ^ 31 \<le> unat f \<longleftrightarrow> s"
      using float_sum_fields [of "(2 ^ 52 + m) div 2 ^ (926 - e)" 0 f s] small(4) by auto
    have x: "- 149 = (int e - 1075) + int (926 - e)" using small(2) by simp
    have "float_pattern 52 1023 ((2 ^ 52 + m) div 2 ^ (926 - e)) (- 149) = e * 2 ^ 52 + m"
      unfolding x using float_pattern_reduced [OF M small(3), of 1023 "int e - 1075"] small(1) by simp
    then show ?thesis using dd unfolding float_to_double_def g Let_def by simp
  qed
qed

section \<open>The half-precision form of a float\<close>

text \<open>
  The choice of \<^verbatim>\<open>cbor::_writeFloat\<close>: the half-precision pattern of a \<^verbatim>\<open>float\<close>, or \<open>None\<close> where 32 bits are written.
\<close>

definition half_of_float :: "u32 \<Rightarrow> u16 option" where
  "half_of_float u =
     (if u AND 0x1FFF = 0 then
        let s16 = unat (drop_bit 16 u AND 0x8000); exp = unat (drop_bit 23 u AND 0xff); mant = unat (u AND 0x7fffff) in
        if exp = 0 \<and> mant = 0 then Some (of_nat s16)
        else if 113 \<le> exp \<and> exp \<le> 142 then Some (of_nat (s16 + ((exp - 112) * 2 ^ 10 + mant div 2 ^ 13)))
        else if 103 \<le> exp \<and> exp < 113 then
          (if mant mod 2 ^ (126 - exp) \<noteq> 0 then None else Some (of_nat (s16 + (mant + 0x800000) div 2 ^ (126 - exp))))
        else if exp = 255 \<and> mant = 0 then Some (of_nat (s16 + 0x7c00))
        else None
      else None)"

lemma masks:
  "(0x1FFF :: 'a::len word) = mask 13" "(0xff :: 'a word) = mask 8" "(0x7fffff :: 'a word) = mask 23"
  "(0x3ff :: 'a word) = mask 10" "(0x1f :: 'a word) = mask 5"
  by (simp_all add: mask_eq_exp_minus_1)

lemma top_bit: "bit u 31 \<longleftrightarrow> 2 ^ 31 \<le> unat (u :: u32)" "bit h 15 \<longleftrightarrow> 2 ^ 15 \<le> unat (h :: u16)"
proof -
  have "unat u < 2 ^ 32" "unat h < 2 ^ 16"
    using unsigned_less [of u, where ?'a = nat] unsigned_less [of h, where ?'a = nat] by simp_all
  then have "unat u div 2 ^ 31 = (if 2 ^ 31 \<le> unat u then 1 else 0)" "unat h div 2 ^ 15 = (if 2 ^ 15 \<le> unat h then 1 else 0)"
    by (auto simp: div_nat_eqI)
  moreover have "bit u 31 \<longleftrightarrow> bit (unat u) 31" "bit h 15 \<longleftrightarrow> bit (unat h) 15" by (simp_all add: bit_unsigned_iff)
  ultimately show "bit u 31 \<longleftrightarrow> 2 ^ 31 \<le> unat u" "bit h 15 \<longleftrightarrow> 2 ^ 15 \<le> unat h"
    by (simp_all add: bit_iff_odd)
qed

lemma and_exp: "(a :: 'a::len word) AND 2 ^ k = (if bit a k then 2 ^ k else 0)"
  by (rule bit_word_eqI) (auto simp: bit_simps)

lemma sign_mask:
  "drop_bit 16 u AND 0x8000 = (if 2 ^ 31 \<le> unat (u :: u32) then 0x8000 else 0)"
  "h AND 0x8000 \<noteq> 0 \<longleftrightarrow> 2 ^ 15 \<le> unat (h :: u16)"
proof -
  have e: "(0x8000 :: 'a::len word) = 2 ^ 15" by simp
  have "bit (drop_bit 16 u) 15 \<longleftrightarrow> bit u 31" by (simp add: bit_simps)
  then show "drop_bit 16 u AND 0x8000 = (if 2 ^ 31 \<le> unat u then 0x8000 else 0)"
    unfolding e and_exp by (simp add: top_bit)
  show "h AND 0x8000 \<noteq> 0 \<longleftrightarrow> 2 ^ 15 \<le> unat h"
    unfolding e using and_exp_eq_0_iff_not_bit [of h 15] by (simp add: top_bit)
qed

lemma float_fields:
  fixes u :: u32
  defines "n \<equiv> unat u" defines "e \<equiv> n div 2 ^ 23 mod 256" and "m \<equiv> n mod 2 ^ 23"
  shows "n = (if 2 ^ 31 \<le> n then 2 ^ 31 else 0) + (e * 2 ^ 23 + m)" "e < 256" "m < 2 ^ 23"
    "unat (drop_bit 23 u AND 0xff) = e" "unat (u AND 0x7fffff) = m"
proof -
  have "n < 2 ^ Suc (8 + 23)" using unsigned_less [of u, where ?'a = nat] by (simp add: n_def)
  from sign_fields [OF this] show "n = (if 2 ^ 31 \<le> n then 2 ^ 31 else 0) + (e * 2 ^ 23 + m)"
    by (simp add: e_def m_def cong: if_cong)
  show "unat (drop_bit 23 u AND 0xff) = e" "unat (u AND 0x7fffff) = m"
    by (simp_all only: masks unat_and_mask unat_drop_bit_div e_def m_def n_def) simp
qed (simp_all add: e_def m_def)

lemma half_sum_fields:
  assumes "m < 2 ^ 10" "e < 32" "h = of_nat ((if s then 0x8000 else 0) + (e * 2 ^ 10 + m))"
  shows "unat (drop_bit 10 h AND 0x1f) = e" "unat (h AND 0x3ff) = m" "(h :: u16) AND 0x8000 \<noteq> 0 \<longleftrightarrow> s"
proof -
  have w: "e * 2 ^ 10 + m < 2 ^ 15" using assms(1,2) by simp
  then have "(if s then 0x8000 else 0) + (e * 2 ^ 10 + m) < (2::nat) ^ 16" by simp
  then have "unat h = (if s then 0x8000 else 0) + (e * 2 ^ 10 + m)" unfolding assms(3) by (subst unat_of_nat) simp
  then have u: "unat h = (if s then 1 else 0) * 2 ^ (5 + 10) + (e * 2 ^ 10 + m)" by simp
  have "unat h div 2 ^ 10 mod 2 ^ 5 = e" "unat h mod 2 ^ 10 = m"
    using fields_of_sum [of m 10 e 5 "if s then 1 else 0"] assms(1,2) unfolding u by simp_all
  then show "unat (drop_bit 10 h AND 0x1f) = e" "unat (h AND 0x3ff) = m"
    by (simp_all only: masks unat_and_mask unat_drop_bit_div)
  show "h AND 0x8000 \<noteq> 0 \<longleftrightarrow> s" using u w by (simp add: sign_mask)
qed

text \<open>A \<^verbatim>\<open>float\<close> written in half precision is read back.\<close>

lemma half_of_float_exact:
  assumes "half_of_float u = Some h"
  shows "halffloat_decode h = u"
proof -
  define n e m where "n = unat u" and "e = n div 2 ^ 23 mod 256" and "m = n mod 2 ^ 23"
  define s where "s \<longleftrightarrow> 2 ^ 31 \<le> n"
  note f = float_fields [of u, folded n_def, folded e_def m_def, folded s_def]
  have uu: "with_sign s 32 (e * 2 ^ 23 + m) = u" using f(1) by (intro with_sign_unat) (simp add: n_def)
  have sg: "unat (drop_bit 16 u AND 0x8000) = (if s then 0x8000 else 0)" by (simp add: sign_mask s_def n_def)
  have M: "2 ^ 23 \<le> 2 ^ 23 + m" "2 ^ 23 + m < 2 ^ Suc 23" using f(3) by simp_all
  have "unat (u AND 0x1FFF) = 0" using assms by (simp add: half_of_float_def split: if_splits)
  then have "n mod 2 ^ 13 = 0" by (simp only: masks unat_and_mask n_def)
  then have low: "m mod 2 ^ 13 = 0" using mod_mod_cancel [of "2 ^ 13" "2 ^ 23" n] by (simp add: m_def)
  consider (zero) "e = 0" "m = 0" "h = of_nat ((if s then 0x8000 else 0) + (0 * 2 ^ 10 + 0))"
    | (normal) "113 \<le> e" "e \<le> 142" "h = of_nat ((if s then 0x8000 else 0) + ((e - 112) * 2 ^ 10 + m div 2 ^ 13))"
    | (small) "103 \<le> e" "e < 113" "m mod 2 ^ (126 - e) = 0" "h = of_nat ((if s then 0x8000 else 0) + (0 * 2 ^ 10 + (2 ^ 23 + m) div 2 ^ (126 - e)))"
    | (inf) "e = 255" "m = 0" "h = of_nat ((if s then 0x8000 else 0) + (31 * 2 ^ 10 + 0))"
  proof -
    define S :: nat where "S = (if s then 0x8000 else 0)"
    have "(if e = 0 \<and> m = 0 then Some (of_nat S)
        else if 113 \<le> e \<and> e \<le> 142 then Some (of_nat (S + ((e - 112) * 2 ^ 10 + m div 2 ^ 13)))
        else if 103 \<le> e \<and> e < 113 then
          (if m mod 2 ^ (126 - e) \<noteq> 0 then None else Some (of_nat (S + (m + 0x800000) div 2 ^ (126 - e))))
        else if e = 255 \<and> m = 0 then Some (of_nat (S + 0x7c00)) else None) = Some h"
      using assms unfolding half_of_float_def Let_def f(4,5) sg S_def
      by (cases "u AND 0x1FFF = 0") (simp_all only: if_True if_False option.distinct simp_thms)
    moreover have "m + 0x800000 = 2 ^ 23 + m" "S + 0 = S" "0 * 2 ^ 10 + x = x" "31 * 2 ^ 10 + 0 = (0x7c00 :: nat)" for x :: nat by simp_all
    ultimately show ?thesis
      using that unfolding S_def [symmetric] by (metis (no_types, lifting) option.distinct(1) option.inject)
  qed
  then show ?thesis
  proof cases
    case zero
    then show ?thesis
      using half_sum_fields [OF _ _ zero(3)] uu by (simp add: halffloat_decode_def float_pattern_def Let_def)
  next
    case normal
    have g: "unat (drop_bit 10 h AND 0x1f) = e - 112" "unat (h AND 0x3ff) = m div 2 ^ 13" "h AND 0x8000 \<noteq> 0 \<longleftrightarrow> s"
      using half_sum_fields [OF _ _ normal(3)] normal f(3) by auto
    have k: "m div 2 ^ 13 + 1024 = (2 ^ 23 + m) div 2 ^ 13" "(2 ^ 23 + m) mod 2 ^ 13 = 0"
      using low by (simp_all add: div_add1_eq mod_add_eq [symmetric])
    have ne: "e - 112 \<noteq> 0" "e - 112 \<noteq> 31" using normal(1,2) by arith+
    have x: "int (e - 112) - 25 = (int e - 150) + int 13" using normal(1) by simp
    have "float_pattern 23 127 (m div 2 ^ 13 + 1024) (int (e - 112) - 25) = e * 2 ^ 23 + m"
      unfolding k(1) x using float_pattern_reduced [OF M k(2), of 127 "int e - 150"] normal(1) by simp
    then show ?thesis using uu ne unfolding halffloat_decode_def g Let_def by simp
  next
    case small
    define j where "j = 126 - e"
    have j: "14 \<le> j" "j \<le> 23" using small(1,2) by (simp_all add: j_def)
    have dvd: "(2 ^ 23 + m) mod 2 ^ j = 0"
    proof -
      have "(2::nat) ^ 23 mod 2 ^ j = 0" using le_imp_power_dvd [OF j(2), of "2::nat"] by (simp only: dvd_eq_mod_eq_0)
      then show ?thesis using small(3) by (simp add: mod_add_eq [symmetric] j_def)
    qed
    have "(2 ^ 23 + m) div 2 ^ j < 2 ^ 10"
    proof (rule less_mult_imp_div_less)
      have "(2::nat) ^ 14 \<le> 2 ^ j" using j(1) by (intro power_increasing) simp_all
      then have "(2::nat) ^ 24 \<le> 2 ^ 10 * 2 ^ j" by simp
      then show "2 ^ 23 + m < 2 ^ 10 * 2 ^ j" using M(2) by simp
    qed
    then have g: "unat (drop_bit 10 h AND 0x1f) = 0" "unat (h AND 0x3ff) = (2 ^ 23 + m) div 2 ^ j" "h AND 0x8000 \<noteq> 0 \<longleftrightarrow> s"
      using half_sum_fields [OF _ _ small(4)] unfolding j_def by auto
    have x: "- 24 = (int e - 150) + int j" using small(2) by (simp add: j_def)
    have "float_pattern 23 127 ((2 ^ 23 + m) div 2 ^ j) (- 24) = e * 2 ^ 23 + m"
      unfolding x using float_pattern_reduced [OF M dvd j(2), of 127 "int e - 150"] small(1) by simp
    then show ?thesis using uu unfolding halffloat_decode_def g Let_def by simp
  next
    case inf
    then show ?thesis
      using half_sum_fields [OF _ _ inf(3)] uu by (simp add: halffloat_decode_def float_inf_def Let_def)
  qed
qed

lemma halffloat_specials:
  "float_to_double (halffloat_decode half_nan) = double_nan"
  "float_to_double (halffloat_decode half_posinf) = double_posinf"
  "float_to_double (halffloat_decode half_neginf) = double_neginf"
  by (simp_all add: half_nan_def half_posinf_def half_neginf_def double_nan_def double_posinf_def double_neginf_def
      halffloat_decode_def float_to_double_def float_nan_def float_inf_def with_sign_def Let_def)

end
