(* ===== verification/BytesView.thy ===== *)
theory BytesView
  imports StringView FloatBits
begin

text \<open>
  Models \<^verbatim>\<open>common/string/SPByteOrder.h\<close> and \<^verbatim>\<open>common/string/SPBytesView.h\<close>: numbers in the two byte orders, the
  readers over a borrowed byte range, and the comparison operators.

  The host is little-endian. \<^verbatim>\<open>memcpy\<close> between a number and memory is \<open>load_le\<close> and \<open>store_le\<close>, the
  compiler's byte swap reverses the bytes. A reader returns the value and the remaining view.
\<close>

section \<open>Byte order\<close>

datatype endian = Endian_Big | Endian_Little

definition load_le :: "u8 list \<Rightarrow> 'a::len word" where
  "load_le bs = foldr (\<lambda>b w. push_bit 8 w OR ucast b) bs 0"

definition store_le :: "nat \<Rightarrow> 'a::len word \<Rightarrow> u8 list" where
  "store_le n w = map (\<lambda>i. ucast (drop_bit (8 * i) w)) [0..<n]"

definition bswap :: "nat \<Rightarrow> 'a::len word \<Rightarrow> 'a word" where
  "bswap n w = load_le (rev (store_le n w))"

fun swap_to :: "endian \<Rightarrow> nat \<Rightarrow> 'a::len word \<Rightarrow> 'a word" where
  "swap_to Endian_Big n w = bswap n w"
| "swap_to Endian_Little n w = w"

definition HostToNetwork :: "nat \<Rightarrow> 'a::len word \<Rightarrow> 'a word" where
  "HostToNetwork n w = swap_to Endian_Big n w"

section \<open>Readers\<close>

definition convert :: "endian \<Rightarrow> nat \<Rightarrow> u8 view \<Rightarrow> 'a::len word" where
  "convert en n data = swap_to en n (load_le (take n data))"

definition readUnsigned64 :: "endian \<Rightarrow> u8 view \<Rightarrow> u64 \<times> u8 view" where
  "readUnsigned64 en v = (if length v \<ge> 8 then (convert en 8 v, drop 8 v) else (0, v))"

definition readUnsigned32 :: "endian \<Rightarrow> u8 view \<Rightarrow> u32 \<times> u8 view" where
  "readUnsigned32 en v = (if length v \<ge> 4 then (convert en 4 v, drop 4 v) else (0, v))"

definition readUnsigned24 :: "u8 view \<Rightarrow> u32 \<times> u8 view" where
  "readUnsigned24 v =
     (if length v \<ge> 3 then (push_bit 16 (ucast (v ! 0)) + push_bit 8 (ucast (v ! 1)) + ucast (v ! 2), drop 3 v) else (0, v))"

definition readUnsigned16 :: "endian \<Rightarrow> u8 view \<Rightarrow> u16 \<times> u8 view" where
  "readUnsigned16 en v = (if length v \<ge> 2 then (convert en 2 v, drop 2 v) else (0, v))"

definition readUnsigned :: "u8 view \<Rightarrow> u8 \<times> u8 view" where
  "readUnsigned v = (if length v > 0 then (v ! 0, drop 1 v) else (0, v))"

definition readFloat64 :: "endian \<Rightarrow> u8 view \<Rightarrow> u64 \<times> u8 view" where
  "readFloat64 en v = (if length v \<ge> 8 then (convert en 8 v, drop 8 v) else (0, v))"

definition readFloat32 :: "endian \<Rightarrow> u8 view \<Rightarrow> u32 \<times> u8 view" where
  "readFloat32 en v = (if length v \<ge> 4 then (convert en 4 v, drop 4 v) else (0, v))"

definition readFloat16 :: "endian \<Rightarrow> u8 view \<Rightarrow> u32 \<times> u8 view" where
  "readFloat16 en v = (let (h, v) = readUnsigned16 en v in (halffloat_decode h, v))"

text \<open>The null-terminated string: the loop stops at the end of the view too.\<close>

fun zero_offset :: "u8 view \<Rightarrow> nat" where
  "zero_offset [] = 0"
| "zero_offset (c # v) = (if c \<noteq> 0 then Suc (zero_offset v) else 0)"

definition readString :: "u8 view \<Rightarrow> u8 view \<times> u8 view" where
  "readString v =
     (let n = zero_offset v; ret = take n v; v = drop n v
      in (ret, if v \<noteq> [] \<and> v ! 0 = 0 then drop 1 v else v))"

definition readStringSize :: "nat \<Rightarrow> u8 view \<Rightarrow> u8 view \<times> u8 view" where
  "readStringSize s v = (let s = (if length v < s then length v else s) in (take s v, drop s v))"

definition readBytes :: "nat \<Rightarrow> u8 view \<Rightarrow> u8 view \<times> u8 view" where
  "readBytes s v = (let s = (if length v < s then length v else s) in (take s v, drop s v))"

section \<open>Comparisons\<close>

text \<open>\<^verbatim>\<open>std::lexicographical_compare\<close> with an arbitrary comparison.\<close>

fun lexicographical_compare :: "('c \<Rightarrow> 'c \<Rightarrow> bool) \<Rightarrow> 'c list \<Rightarrow> 'c list \<Rightarrow> bool" where
  "lexicographical_compare cmp l [] = False"
| "lexicographical_compare cmp [] (y # r) = True"
| "lexicographical_compare cmp (x # l) (y # r) =
     (if cmp x y then True else if cmp y x then False else lexicographical_compare cmp l r)"

definition bytes_eq :: "u8 view \<Rightarrow> u8 view \<Rightarrow> bool" where
  "bytes_eq l r \<longleftrightarrow> length l = length r \<and> l = r"

definition bytes_less :: "u8 view \<Rightarrow> u8 view \<Rightarrow> bool" where
  "bytes_less l r = lexicographical_compare (<) l r"

definition bytes_less_equal :: "u8 view \<Rightarrow> u8 view \<Rightarrow> bool" where
  "bytes_less_equal l r = lexicographical_compare (\<le>) l r"

definition bytes_greater :: "u8 view \<Rightarrow> u8 view \<Rightarrow> bool" where
  "bytes_greater l r = lexicographical_compare (>) l r"

definition bytes_greater_equal :: "u8 view \<Rightarrow> u8 view \<Rightarrow> bool" where
  "bytes_greater_equal l r = lexicographical_compare (\<ge>) l r"

section \<open>Lemmas\<close>

lemma load_le_simps [simp]: "load_le [] = 0" "load_le (b # bs) = push_bit 8 (load_le bs) OR ucast b"
  by (simp_all add: load_le_def)

lemma length_store_le [simp]: "length (store_le n w) = n"
  by (simp add: store_le_def)

lemma store_le_Suc: "store_le (Suc n) w = ucast w # store_le n (drop_bit 8 w)"
  by (simp add: store_le_def upt_conv_Cons map_Suc_upt [symmetric] del: upt_Suc) (simp add: o_def algebra_simps)

text \<open>Storing what was loaded gives the bytes back, loading what was stored the number.\<close>

lemma store_load:
  assumes "8 * length bs \<le> LENGTH('a)"
  shows "store_le (length bs) (load_le bs :: 'a::len word) = bs"
  using assms
proof (induction bs)
  case Nil
  then show ?case by (simp add: store_le_def)
next
  case (Cons b bs)
  let ?w = "load_le bs :: 'a word"
  have "ucast (push_bit 8 ?w OR ucast b) = b"
    by (rule bit_word_eqI) (use Cons.prems in \<open>auto simp: bit_simps\<close>)
  moreover have "drop_bit 8 (push_bit 8 ?w OR ucast b) = take_bit (LENGTH('a) - 8) ?w"
    by (rule bit_word_eqI) (auto simp: bit_simps)
  moreover have "store_le (length bs) (take_bit (LENGTH('a) - 8) ?w) = store_le (length bs) ?w"
    unfolding store_le_def
    by (rule map_cong) (use Cons.prems in \<open>auto intro!: bit_word_eqI simp: bit_simps\<close>)
  ultimately show ?case using Cons by (simp add: store_le_Suc)
qed

lemma load_store:
  assumes "8 * n = LENGTH('a)"
  shows "load_le (store_le n w) = (w :: 'a::len word)"
proof -
  have "load_le (store_le k v) = take_bit (8 * k) v" if "8 * k \<le> LENGTH('a)" for k and v :: "'a word"
    using that
  proof (induction k arbitrary: v)
    case 0
    then show ?case by (simp add: store_le_def)
  next
    case (Suc k)
    have "push_bit 8 (take_bit (8 * k) (drop_bit 8 v)) OR ucast (ucast v :: u8) = take_bit (8 * Suc k) v"
      by (rule bit_word_eqI) (use Suc.prems in \<open>auto simp: bit_simps\<close>)
    then show ?case using Suc by (simp add: store_le_Suc)
  qed
  from this [of n w] show ?thesis using assms by simp
qed

lemma convert_big:
  assumes "8 * n = LENGTH('a)" "length bs = n"
  shows "convert Endian_Big n (bs @ r) = (load_le (rev bs) :: 'a::len word)"
  using assms store_load [of bs, where ?'a = 'a] by (simp add: convert_def bswap_def)

text \<open>What \<^verbatim>\<open>HostToNetwork\<close> leaves in memory, and reading it in network order.\<close>

lemma network_bytes:
  assumes "8 * n = LENGTH('a)"
  shows "store_le n (HostToNetwork n (w :: 'a::len word)) = rev (store_le n w)"
  using assms store_load [of "rev (store_le n w)", where ?'a = 'a] by (simp add: HostToNetwork_def bswap_def)

lemma convert_network:
  assumes "8 * n = LENGTH('a)"
  shows "convert Endian_Big n (store_le n (HostToNetwork n (w :: 'a::len word)) @ r) = w"
  using convert_big [OF assms, of "rev (store_le n w)" r] assms by (simp add: network_bytes load_store)

lemma readString_zero: "0 \<notin> set s \<Longrightarrow> readString (s @ 0 # r) = (s, r)"
proof -
  assume "0 \<notin> set s"
  then have "zero_offset (s @ 0 # r) = length s" by (induction s) auto
  then show ?thesis by (simp add: readString_def)
qed

text \<open>The comparisons that are not strict are decided by the first byte.\<close>

lemma bytes_less_lexord: "bytes_less l r \<longleftrightarrow> ord_class.lexordp l r"
  unfolding bytes_less_def
  by (induction "(<) :: u8 \<Rightarrow> u8 \<Rightarrow> bool" l r rule: lexicographical_compare.induct) auto

lemma bytes_less_equal_first:
  "bytes_less_equal l r \<longleftrightarrow> r \<noteq> [] \<and> (l = [] \<or> hd l \<le> hd r)"
  "bytes_greater_equal l r \<longleftrightarrow> r \<noteq> [] \<and> (l = [] \<or> hd l \<ge> hd r)"
  by (cases l; cases r; auto simp: bytes_less_equal_def bytes_greater_equal_def)+

lemma bytes_greater_cases:
  "bytes_greater l r \<longleftrightarrow> (\<exists>p x y l' r'. l = p @ x # l' \<and> r = p @ y # r' \<and> y < x) \<or> (\<exists>s. s \<noteq> [] \<and> r = l @ s)"
    (is "_ \<longleftrightarrow> ?C l r")
  unfolding bytes_greater_def
proof (induction "(>) :: u8 \<Rightarrow> u8 \<Rightarrow> bool" l r rule: lexicographical_compare.induct)
  case (3 x l y r)
  consider "y < x" | "x < y" | "x = y" by fastforce
  then show ?case
  proof cases
    case 1
    then have "?C (x # l) (y # r)" by (intro disjI1 exI [of _ "[]"]) simp
    then show ?thesis using 1 by simp
  next
    case 2
    then have "\<not> ?C (x # l) (y # r)" by (auto simp: Cons_eq_append_conv)
    moreover have "\<not> y < x" using 2 by simp
    ultimately show ?thesis using 2 by simp
  next
    case 3
    have "?C (x # l) (x # r) \<longleftrightarrow> ?C l r"
    proof
      assume "?C (x # l) (x # r)"
      then show "?C l r" by (auto simp: Cons_eq_append_conv)
    next
      assume "?C l r"
      then show "?C (x # l) (x # r)" by (metis append_Cons)
    qed
    then show ?thesis using 3 "3.hyps" by simp
  qed
qed auto

section \<open>Properties\<close>

text \<open>
  Of the comparisons of byte views only \<^verbatim>\<open><\<close> is an order of byte strings. \<^verbatim>\<open><=\<close> and \<^verbatim>\<open>>=\<close> look at the
  first byte alone, and do not hold for two empty views; \<^verbatim>\<open>>\<close> puts a proper prefix above the longer string.
\<close>

theorem bytes_comparisons:
  "(bytes_less l r \<longleftrightarrow> ord_class.lexordp l r)
   \<and> (bytes_less_equal l r \<longleftrightarrow> r \<noteq> [] \<and> (l = [] \<or> hd l \<le> hd r))
   \<and> (bytes_greater_equal l r \<longleftrightarrow> r \<noteq> [] \<and> (l = [] \<or> hd r \<le> hd l))
   \<and> (bytes_greater l r \<longleftrightarrow> (\<exists>p x y l' r'. l = p @ x # l' \<and> r = p @ y # r' \<and> y < x) \<or> (\<exists>s. s \<noteq> [] \<and> r = l @ s))"
  by (intro conjI bytes_less_lexord bytes_less_equal_first bytes_greater_cases)

end
