(* ===== verification/DataValue.thy ===== *)
theory DataValue
  imports BytesView Base64
begin

text \<open>
  Models \<^verbatim>\<open>modules/data/SPDataValue.h\<close>: the dynamically typed \<^verbatim>\<open>data::Value\<close> that the JSON, CBOR and URL
  coders read and write.

  Integers are 64-bit words read as \<^verbatim>\<open>int64_t\<close>, doubles IEEE bit patterns. A dictionary is the ordered
  association list of its \<^verbatim>\<open>std::map\<close>: keys strictly ascending byte strings. Operations that return a
  reference are modelled by their effect; the shared \<^verbatim>\<open>Null\<close> object they fall back to is part of the state
  in the last section. Arithmetic on doubles is not modelled: the comparison of two doubles, the printing and
  the truncation of a double are arguments.
\<close>

section \<open>Values\<close>

datatype Value =
    EMPTY
  | INTEGER u64
  | DOUBLE u64
  | BOOLEAN bool
  | CHARSTRING "u8 list"
  | BYTESTRING "u8 list"
  | ARRAY "Value list"
  | DICTIONARY "(u8 list \<times> Value) list"
  | NONE

datatype ValueType = T_EMPTY | T_INTEGER | T_DOUBLE | T_BOOLEAN | T_CHARSTRING | T_BYTESTRING | T_ARRAY | T_DICTIONARY | T_NONE

fun getType :: "Value \<Rightarrow> ValueType" where
  "getType EMPTY = T_EMPTY"
| "getType (INTEGER _) = T_INTEGER"
| "getType (DOUBLE _) = T_DOUBLE"
| "getType (BOOLEAN _) = T_BOOLEAN"
| "getType (CHARSTRING _) = T_CHARSTRING"
| "getType (BYTESTRING _) = T_BYTESTRING"
| "getType (ARRAY _) = T_ARRAY"
| "getType (DICTIONARY _) = T_DICTIONARY"
| "getType NONE = T_NONE"

text \<open>The constructor from a type: \<^verbatim>\<open>NONE\<close> makes an empty value.\<close>

fun value_of_type :: "ValueType \<Rightarrow> Value" where
  "value_of_type T_NONE = EMPTY"
| "value_of_type T_EMPTY = EMPTY"
| "value_of_type T_BOOLEAN = BOOLEAN False"
| "value_of_type T_INTEGER = INTEGER 0"
| "value_of_type T_DOUBLE = DOUBLE 0"
| "value_of_type T_CHARSTRING = CHARSTRING []"
| "value_of_type T_BYTESTRING = BYTESTRING []"
| "value_of_type T_DICTIONARY = DICTIONARY []"
| "value_of_type T_ARRAY = ARRAY []"

definition isNull :: "Value \<Rightarrow> bool" where
  "isNull v \<longleftrightarrow> getType v = T_EMPTY \<or> getType v = T_NONE"

definition isBasicType :: "Value \<Rightarrow> bool" where
  "isBasicType v \<longleftrightarrow> getType v \<noteq> T_ARRAY \<and> getType v \<noteq> T_DICTIONARY"

fun value_clear :: "Value \<Rightarrow> Value" where
  "value_clear NONE = NONE"
| "value_clear _ = EMPTY"

text \<open>\<^verbatim>\<open>reset\<close> changes the type whatever it was.\<close>

definition value_reset :: "ValueType \<Rightarrow> Value \<Rightarrow> Value" where
  "value_reset t v = (if getType v = T_NONE \<and> getType v = t then v
     else if t = T_NONE then NONE else value_of_type t)"

text \<open>Assignment from another value.\<close>

definition value_assign :: "Value \<Rightarrow> Value \<Rightarrow> Value" where
  "value_assign v w = (if getType v = T_NONE then v else if getType w = T_NONE then EMPTY else w)"

section \<open>Conversions\<close>

definition double_zero :: "u64 \<Rightarrow> bool" where
  "double_zero d \<longleftrightarrow> d = 0 \<or> d = 0x8000000000000000"

fun asInteger :: "(u64 \<Rightarrow> u64) \<Rightarrow> Value \<Rightarrow> u64" where
  "asInteger trunc (INTEGER i) = i"
| "asInteger trunc (DOUBLE d) = trunc d"
| "asInteger trunc (BOOLEAN b) = (if b then 1 else 0)"
| "asInteger trunc (CHARSTRING s) = of_int (fst (strtoll (takeWhile (\<lambda>c. c \<noteq> 0) s) 0))"
| "asInteger trunc _ = 0"

fun asBool :: "Value \<Rightarrow> bool" where
  "asBool (INTEGER i) = (i \<noteq> 0)"
| "asBool (DOUBLE d) = (\<not> double_zero d)"
| "asBool (BOOLEAN b) = b"
| "asBool (CHARSTRING s) = (\<not> (s = [] \<or> s = ascii ''0'' \<or> s = ascii ''false''))"
| "asBool _ = False"

fun asString :: "(u64 \<Rightarrow> u8 list) \<Rightarrow> Value \<Rightarrow> u8 list" where
  "asString fmt (CHARSTRING s) = s"
| "asString fmt (INTEGER i) = to_decimal_signed i"
| "asString fmt (DOUBLE d) = fmt d"
| "asString fmt (BOOLEAN b) = (if b then ascii ''true'' else ascii ''false'')"
| "asString fmt (BYTESTRING s) = ascii ''BASE64:'' @ b64_encode s"
| "asString fmt _ = []"

fun asBytes :: "Value \<Rightarrow> u8 list" where
  "asBytes (BYTESTRING s) = s"
| "asBytes (INTEGER i) = store_le 8 i"
| "asBytes (DOUBLE d) = store_le 8 d"
| "asBytes (BOOLEAN b) = [if b then 1 else 0]"
| "asBytes (CHARSTRING s) = s"
| "asBytes _ = []"

fun value_size :: "Value \<Rightarrow> nat" where
  "value_size (DICTIONARY d) = length d"
| "value_size (ARRAY a) = length a"
| "value_size (CHARSTRING s) = length s"
| "value_size (BYTESTRING s) = length s"
| "value_size _ = 0"

fun value_empty :: "Value \<Rightarrow> bool" where
  "value_empty (DICTIONARY d) = (d = [])"
| "value_empty (ARRAY a) = (a = [])"
| "value_empty (CHARSTRING s) = (s = [])"
| "value_empty (BYTESTRING s) = (s = [])"
| "value_empty EMPTY = True"
| "value_empty _ = False"

section \<open>Arrays and dictionaries\<close>

text \<open>The operations of \<^verbatim>\<open>std::map\<close> on the ordered association list.\<close>

type_synonym dictionary = "(u8 list \<times> Value) list"

fun map_emplace :: "u8 list \<Rightarrow> 'v \<Rightarrow> (u8 list \<times> 'v) list \<Rightarrow> (u8 list \<times> 'v) list" where
  "map_emplace k v [] = [(k, v)]"
| "map_emplace k v ((k', v') # d) =
     (if k = k' then (k', v') # d else if bytes_less k k' then (k, v) # (k', v') # d else (k', v') # map_emplace k v d)"

fun map_modify :: "u8 list \<Rightarrow> ('v \<Rightarrow> 'v) \<Rightarrow> (u8 list \<times> 'v) list \<Rightarrow> (u8 list \<times> 'v) list" where
  "map_modify k f [] = []"
| "map_modify k f ((k', v') # d) = (if k = k' then (k', f v') # d else (k', v') # map_modify k f d)"

definition map_erase :: "u8 list \<Rightarrow> (u8 list \<times> 'v) list \<Rightarrow> (u8 list \<times> 'v) list" where
  "map_erase k d = filter (\<lambda>(k', _). k' \<noteq> k) d"

text \<open>The conversions return the changed value where the code returns \<^verbatim>\<open>true\<close>.\<close>

fun convertToDict :: "Value \<Rightarrow> dictionary option" where
  "convertToDict (DICTIONARY d) = Some d"
| "convertToDict EMPTY = Some []"
| "convertToDict _ = None"

definition convertToArray :: "int \<Rightarrow> Value \<Rightarrow> Value list option" where
  "convertToArray sz v =
     (if sz < 0 then (case v of ARRAY a \<Rightarrow> Some a | EMPTY \<Rightarrow> Some [] | _ \<Rightarrow> None)
      else (case v of
          ARRAY a \<Rightarrow> if sz = 0 \<or> int (length a) > sz then Some a else None
        | EMPTY \<Rightarrow> Some (replicate (nat sz + 1) EMPTY)
        | _ \<Rightarrow> None))"

text \<open>\<^verbatim>\<open>setValue\<close> by key and by index; \<^verbatim>\<open>at\<close> outside the array raises.\<close>

definition setValue_key :: "Value \<Rightarrow> u8 list \<Rightarrow> Value \<Rightarrow> Value" where
  "setValue_key w key v =
     (case convertToDict v of
        None \<Rightarrow> v
      | Some d \<Rightarrow> DICTIONARY (case map_of d key of
            Some old \<Rightarrow> map_modify key (\<lambda>old. value_assign old w) d
          | None \<Rightarrow> map_emplace key (value_assign EMPTY w) d))"

definition setValue_index :: "Value \<Rightarrow> int \<Rightarrow> Value \<Rightarrow> fault + Value" where
  "setValue_index w key v =
     (case convertToArray key v of
        None \<Rightarrow> Inr v
      | Some a \<Rightarrow> if 0 \<le> key \<and> nat key < length a then Inr (ARRAY (a[nat key := value_assign (a ! nat key) w])) else Inl OutOfBounds)"

definition addValue :: "Value \<Rightarrow> Value \<Rightarrow> Value" where
  "addValue w v = (case convertToArray (- 1) v of None \<Rightarrow> v | Some a \<Rightarrow> ARRAY (a @ [value_assign EMPTY w]))"

definition value_emplace :: "Value \<Rightarrow> Value" where
  "value_emplace v = (case convertToArray (- 1) v of None \<Rightarrow> v | Some a \<Rightarrow> ARRAY (a @ [EMPTY]))"

definition value_emplace_key :: "u8 list \<Rightarrow> Value \<Rightarrow> Value" where
  "value_emplace_key key v =
     (case convertToDict v of
        None \<Rightarrow> v
      | Some d \<Rightarrow> DICTIONARY (if map_of d key = None then map_emplace key EMPTY d else d))"

text \<open>Look-ups: \<open>None\<close> is the shared \<^verbatim>\<open>Null\<close>.\<close>

fun find_key :: "u8 list \<Rightarrow> Value \<Rightarrow> Value option" where
  "find_key key (DICTIONARY d) = map_of d key"
| "find_key key _ = None"

fun find_index :: "nat \<Rightarrow> Value \<Rightarrow> Value option" where
  "find_index key (ARRAY a) = (if key < length a then Some (a ! key) else None)"
| "find_index key _ = None"

definition hasValue_key :: "u8 list \<Rightarrow> Value \<Rightarrow> bool" where
  "hasValue_key key v \<longleftrightarrow> find_key key v \<noteq> None"

definition hasValue_index :: "nat \<Rightarrow> Value \<Rightarrow> bool" where
  "hasValue_index key v \<longleftrightarrow> find_index key v \<noteq> None"

definition getType_key :: "u8 list \<Rightarrow> Value \<Rightarrow> ValueType" where
  "getType_key key v = (case find_key key v of Some w \<Rightarrow> getType w | None \<Rightarrow> T_NONE)"

definition getType_index :: "nat \<Rightarrow> Value \<Rightarrow> ValueType" where
  "getType_index key v = (case find_index key v of Some w \<Rightarrow> getType w | None \<Rightarrow> T_NONE)"

definition erase_key :: "u8 list \<Rightarrow> Value \<Rightarrow> Value \<times> bool" where
  "erase_key key v =
     (case v of DICTIONARY d \<Rightarrow> (if map_of d key \<noteq> None then (DICTIONARY (map_erase key d), True) else (v, False)) | _ \<Rightarrow> (v, False))"

definition erase_index :: "nat \<Rightarrow> Value \<Rightarrow> Value \<times> bool" where
  "erase_index key v =
     (case v of ARRAY a \<Rightarrow> (if key < length a then (ARRAY (take key a @ drop (key + 1) a), True) else (v, False)) | _ \<Rightarrow> (v, False))"

text \<open>\<^verbatim>\<open>slice\<close>: \<^verbatim>\<open>start + count\<close> is compared as \<^verbatim>\<open>size_t\<close>; a start before the array is outside it.\<close>

definition slice :: "int \<Rightarrow> int \<Rightarrow> Value \<Rightarrow> fault + (Value \<times> Value)" where
  "slice start count v =
     (case v of
        ARRAY a \<Rightarrow>
          if start + count < 0 \<or> int (length a) < start + count then Inr (EMPTY, v)
          else if start < 0 \<or> count < 0 then Inl OutOfBounds
          else let s = nat start; n = nat count in
            Inr (fold (\<lambda>w ret. addValue w ret) (take n (drop s a)) EMPTY, ARRAY (take s a @ drop (s + n) a))
      | _ \<Rightarrow> Inr (EMPTY, v))"

section \<open>Equality\<close>

text \<open>\<^verbatim>\<open>operator==\<close>; two doubles are compared by \<open>deq\<close> (their difference is at most
  \<^verbatim>\<open>DBL_EPSILON\<close>), which is symmetric: the code swaps the operands in dictionaries.\<close>

fun value_eq :: "(u64 \<Rightarrow> u64 \<Rightarrow> bool) \<Rightarrow> Value \<Rightarrow> Value \<Rightarrow> bool"
and array_eq :: "(u64 \<Rightarrow> u64 \<Rightarrow> bool) \<Rightarrow> Value list \<Rightarrow> Value list \<Rightarrow> bool"
and dict_eq :: "(u64 \<Rightarrow> u64 \<Rightarrow> bool) \<Rightarrow> (u8 list \<times> Value) list \<Rightarrow> (u8 list \<times> Value) list \<Rightarrow> bool" where
  "value_eq deq (INTEGER x) v = (case v of INTEGER y \<Rightarrow> x = y | _ \<Rightarrow> False)"
| "value_eq deq (BOOLEAN x) v = (case v of BOOLEAN y \<Rightarrow> x = y | _ \<Rightarrow> False)"
| "value_eq deq (CHARSTRING x) v = (case v of CHARSTRING y \<Rightarrow> x = y | _ \<Rightarrow> False)"
| "value_eq deq (BYTESTRING x) v = (case v of BYTESTRING y \<Rightarrow> x = y | _ \<Rightarrow> False)"
| "value_eq deq (DOUBLE x) v = (case v of DOUBLE y \<Rightarrow> deq x y | _ \<Rightarrow> False)"
| "value_eq deq (ARRAY x) v = (case v of ARRAY y \<Rightarrow> length x = length y \<and> array_eq deq x y | _ \<Rightarrow> False)"
| "value_eq deq (DICTIONARY x) v = (case v of DICTIONARY y \<Rightarrow> length x = length y \<and> dict_eq deq x y | _ \<Rightarrow> False)"
| "value_eq deq EMPTY v = (v = EMPTY)"
| "value_eq deq NONE v = (v = NONE)"
| "array_eq deq [] ys = True"
| "array_eq deq (x # xs) ys = (case ys of [] \<Rightarrow> True | y # ys \<Rightarrow> if value_eq deq x y then array_eq deq xs ys else False)"
| "dict_eq deq [] d = True"
| "dict_eq deq ((k, x) # xs) d =
     (case map_of d k of None \<Rightarrow> False | Some y \<Rightarrow> if value_eq deq x y then dict_eq deq xs d else False)"

section \<open>Writing a value to a stream\<close>

text \<open>
  \<^verbatim>\<open>Value::encode\<close> writes through the stream's operations; an operation the stream does not have writes
  nothing, a stream without \<^verbatim>\<open>onKey\<close> writes a key as a string.
\<close>

record stream =
  write_null :: "u8 list"
  write_bool :: "bool \<Rightarrow> u8 list"
  write_int :: "u64 \<Rightarrow> u8 list"
  write_double :: "u64 \<Rightarrow> u8 list"
  write_str :: "u8 list \<Rightarrow> u8 list"
  write_bytes :: "u8 list \<Rightarrow> u8 list"
  on_begin_array :: "nat \<Rightarrow> u8 list"
  on_end_array :: "u8 list"
  on_begin_dict :: "nat \<Rightarrow> u8 list"
  on_end_dict :: "u8 list"
  on_next_value :: "u8 list"
  on_key :: "u8 list \<Rightarrow> u8 list"

fun value_encode :: "stream \<Rightarrow> Value \<Rightarrow> u8 list"
and encode_array :: "stream \<Rightarrow> bool \<Rightarrow> Value list \<Rightarrow> u8 list"
and encode_dict :: "stream \<Rightarrow> bool \<Rightarrow> (u8 list \<times> Value) list \<Rightarrow> u8 list" where
  "value_encode st EMPTY = write_null st"
| "value_encode st (BOOLEAN b) = write_bool st b"
| "value_encode st (INTEGER i) = write_int st i"
| "value_encode st (DOUBLE d) = write_double st d"
| "value_encode st (CHARSTRING s) = write_str st s"
| "value_encode st (BYTESTRING s) = write_bytes st s"
| "value_encode st (ARRAY a) = on_begin_array st (length a) @ encode_array st False a @ on_end_array st"
| "value_encode st (DICTIONARY d) = on_begin_dict st (length d) @ encode_dict st False d @ on_end_dict st"
| "value_encode st NONE = []"
| "encode_array st begin [] = []"
| "encode_array st begin (v # vs) = (if begin then on_next_value st else []) @ value_encode st v @ encode_array st True vs"
| "encode_dict st begin [] = []"
| "encode_dict st begin ((k, v) # d) =
     (if begin then on_next_value st else []) @ on_key st k @ value_encode st v @ encode_dict st True d"

section \<open>The shared null object\<close>

text \<open>
  A look-up that fails returns a reference to the constant \<^verbatim>\<open>Null\<close>, which was constructed from the type
  \<^verbatim>\<open>NONE\<close>. The state is a value and the object.
\<close>

definition Null_object :: Value where
  "Null_object = value_of_type T_NONE"

definition getValue_key :: "u8 list \<Rightarrow> Value \<times> Value \<Rightarrow> Value" where
  "getValue_key key s = (case find_key key (fst s) of Some w \<Rightarrow> w | None \<Rightarrow> snd s)"

text \<open>The typed getters, on a value and on what a key refers to.\<close>

definition getBool :: "Value \<Rightarrow> bool" where
  "getBool v = (if isBasicType v then asBool v else False)"

definition getInteger :: "(u64 \<Rightarrow> u64) \<Rightarrow> u64 \<Rightarrow> Value \<Rightarrow> u64" where
  "getInteger trunc def v = (if isBasicType v then asInteger trunc v else def)"

fun getString :: "Value \<Rightarrow> u8 list" where
  "getString (CHARSTRING s) = s"
| "getString _ = []"

fun getBytes :: "Value \<Rightarrow> u8 list" where
  "getBytes (BYTESTRING s) = s"
| "getBytes _ = []"

fun getArray :: "Value \<Rightarrow> Value list" where
  "getArray (ARRAY a) = a"
| "getArray _ = []"

fun getDict :: "Value \<Rightarrow> dictionary" where
  "getDict (DICTIONARY d) = d"
| "getDict _ = []"

definition getBool_key :: "u8 list \<Rightarrow> Value \<times> Value \<Rightarrow> bool" where
  "getBool_key key s = (let v = getValue_key key s in if \<not> isNull v then getBool v else False)"

definition getInteger_key :: "(u64 \<Rightarrow> u64) \<Rightarrow> u64 \<Rightarrow> u8 list \<Rightarrow> Value \<times> Value \<Rightarrow> u64" where
  "getInteger_key trunc def key s = (let v = getValue_key key s in if \<not> isNull v then getInteger trunc def v else def)"

definition getString_key :: "u8 list \<Rightarrow> Value \<times> Value \<Rightarrow> u8 list" where
  "getString_key key s = (let v = getValue_key key s in if \<not> isNull v then getString v else [])"

definition getBytes_key :: "u8 list \<Rightarrow> Value \<times> Value \<Rightarrow> u8 list" where
  "getBytes_key key s = (let v = getValue_key key s in if getType v = T_BYTESTRING then getBytes v else [])"

definition getArray_key :: "u8 list \<Rightarrow> Value \<times> Value \<Rightarrow> Value list" where
  "getArray_key key s = (let v = getValue_key key s in if \<not> isNull v then getArray v else [])"

definition getDict_key :: "u8 list \<Rightarrow> Value \<times> Value \<Rightarrow> dictionary" where
  "getDict_key key s = (let v = getValue_key key s in if \<not> isNull v then getDict v else [])"

text \<open>Assignment through the reference, \<^verbatim>\<open>v.getValue(key) = w\<close>.\<close>

definition assign_through :: "u8 list \<Rightarrow> Value \<Rightarrow> Value \<times> Value \<Rightarrow> Value \<times> Value" where
  "assign_through key w s =
     (case fst s of
        DICTIONARY d \<Rightarrow>
          (if map_of d key \<noteq> None then (DICTIONARY (map_modify key (\<lambda>old. value_assign old w) d), snd s)
           else (fst s, value_assign (snd s) w))
      | _ \<Rightarrow> (fst s, value_assign (snd s) w))"

section \<open>Lemmas\<close>

text \<open>Well-formed values: the keys of every dictionary are strictly ascending, and \<open>NONE\<close> does not occur.\<close>

definition keys_ascending :: "(u8 list \<times> 'v) list \<Rightarrow> bool" where
  "keys_ascending d \<longleftrightarrow> sorted_wrt bytes_less (map fst d)"

fun value_wf :: "Value \<Rightarrow> bool" where
  "value_wf (ARRAY a) = (\<forall>v\<in>set a. value_wf v)"
| "value_wf (DICTIONARY d) = (keys_ascending d \<and> (\<forall>kv\<in>set d. value_wf (snd kv)))"
| "value_wf NONE = False"
| "value_wf _ = True"

lemma bytes_less_simps [simp]: "\<not> bytes_less k k"
  by (induction k) (simp_all add: bytes_less_def)

lemma bytes_less_trans: "bytes_less a b \<Longrightarrow> bytes_less b c \<Longrightarrow> bytes_less a c"
  unfolding bytes_less_lexord by (rule lexordp_trans)

lemma bytes_less_linear: "a \<noteq> b \<Longrightarrow> bytes_less a b \<or> bytes_less b a"
  unfolding bytes_less_lexord using lexordp_linear [of a b] by blast

lemma ascending_distinct: "keys_ascending d \<Longrightarrow> distinct (map fst d)"
  unfolding keys_ascending_def by (induction d) auto

lemma map_emplace_map:
  "keys_ascending d \<Longrightarrow> map_of d k = None \<Longrightarrow> map_of (map_emplace k v d) = (map_of d)(k \<mapsto> v)"
  by (induction k v d rule: map_emplace.induct) (auto simp: keys_ascending_def split: if_splits)

lemma map_emplace_keys: "set (map fst (map_emplace k v d)) = insert k (set (map fst d))"
  by (induction k v d rule: map_emplace.induct) auto

lemma map_emplace_ascending:
  assumes "keys_ascending d"
  shows "keys_ascending (map_emplace k v d)"
  using assms
proof (induction k v d rule: map_emplace.induct)
  case (2 k v k' v' d)
  show ?case
  proof (cases "k = k' \<or> bytes_less k k'")
    case True
    then show ?thesis using 2 bytes_less_trans by (auto simp: keys_ascending_def)
  next
    case False
    then have "bytes_less k' k" "keys_ascending (map_emplace k v d)"
      using 2 bytes_less_linear [of k k'] by (auto simp: keys_ascending_def)
    then show ?thesis
      using 2(2) map_emplace_keys [of k v d] False by (auto simp: keys_ascending_def)
  qed
qed (simp add: keys_ascending_def)

lemma map_emplace_last: "\<forall>kv\<in>set d. bytes_less (fst kv) k \<Longrightarrow> map_emplace k v d = d @ [(k, v)]"
proof (induction d)
  case (Cons x d)
  obtain k' v' where x: "x = (k', v')" by (cases x)
  have "bytes_less k' k" using Cons.prems x by simp
  then have "\<not> bytes_less k k'" "k \<noteq> k'" using bytes_less_trans [of k k' k] by auto
  then show ?case using Cons x by simp
qed simp

lemma map_modify_map: "map_of (map_modify k f d) = (map_of d)(k := map_option f (map_of d k))"
  by (induction k f d rule: map_modify.induct) auto

lemma map_modify_keys: "map fst (map_modify k f d) = map fst d"
  by (induction k f d rule: map_modify.induct) auto

lemma map_modify_values: "kv \<in> set (map_modify k f d) \<Longrightarrow> kv \<in> set d \<or> (\<exists>old. (k, old) \<in> set d \<and> kv = (k, f old))"
  by (induction k f d rule: map_modify.induct) (auto split: if_splits)

lemma map_emplace_values: "kv \<in> set (map_emplace k v d) \<Longrightarrow> kv \<in> set d \<or> kv = (k, v)"
  by (induction k v d rule: map_emplace.induct) (auto split: if_splits)

lemma map_erase_map: "map_of (map_erase k d) = (map_of d)(k := None)"
  unfolding map_erase_def by (induction d) (auto simp: fun_eq_iff)

lemma map_erase_ascending: "keys_ascending d \<Longrightarrow> keys_ascending (map_erase k d)"
  unfolding keys_ascending_def map_erase_def by (induction d) auto

lemma value_assign_wf: "value_wf v \<Longrightarrow> value_wf w \<Longrightarrow> value_assign v w = w"
  by (cases v; cases w) (simp_all add: value_assign_def)

lemma value_assign_found:
  "map_of d k = Some old \<Longrightarrow> \<forall>kv\<in>set d. value_wf (snd kv) \<Longrightarrow> value_wf w \<Longrightarrow> value_assign old w = w"
  using map_of_SomeD [of d k old] by (intro value_assign_wf) auto

lemma setValue_key_dict:
  assumes "convertToDict v = Some d" "value_wf v" "value_wf w"
  obtains d' where "setValue_key w k v = DICTIONARY d'" "keys_ascending d'" "\<forall>kv\<in>set d'. value_wf (snd kv)" "map_of d' = (map_of d)(k \<mapsto> w)"
proof -
  have d: "keys_ascending d" "\<forall>kv\<in>set d. value_wf (snd kv)"
    using assms(1,2) by (cases v; auto simp: keys_ascending_def)+
  show ?thesis
  proof (cases "map_of d k")
    case None
    let ?d = "map_emplace k (value_assign EMPTY w) d"
    have w: "value_assign EMPTY w = w" using assms(3) by (intro value_assign_wf) simp_all
    have "\<forall>kv\<in>set (map_emplace k w d). value_wf (snd kv)" using map_emplace_values [of _ k w d] d(2) assms(3) by fastforce
    then show ?thesis
      using that [of ?d] None assms(1) map_emplace_ascending [OF d(1)] map_emplace_map [OF d(1) None] w
      by (simp add: setValue_key_def)
  next
    case (Some old)
    let ?d = "map_modify k (\<lambda>old. value_assign old w) d"
    have "\<forall>kv\<in>set ?d. value_wf (snd kv)"
    proof
      fix kv assume "kv \<in> set ?d"
      from map_modify_values [OF this] show "value_wf (snd kv)" using d(2) assms(3) value_assign_wf by fastforce
    qed
    moreover have "map_of ?d = (map_of d)(k \<mapsto> w)"
      using value_assign_found [OF Some d(2) assms(3)] Some by (simp add: map_modify_map)
    ultimately show ?thesis
      using that [of ?d] Some assms(1) d(1) by (simp add: setValue_key_def keys_ascending_def map_modify_keys)
  qed
qed

text \<open>Two ascending association lists with the same map are the same list.\<close>

lemma ascending_unique: "keys_ascending xs \<Longrightarrow> keys_ascending ys \<Longrightarrow> map_of xs = map_of ys \<Longrightarrow> xs = ys"
proof (induction xs arbitrary: ys)
  case Nil
  then show ?case by simp
next
  case (Cons x xs)
  obtain k v where x: "x = (k, v)" by (cases x)
  have "map_of ys k = Some v" using fun_cong [OF Cons.prems(3), of k] x by simp
  then obtain y ys' where y: "ys = y # ys'" by (cases ys) auto
  obtain l u where yy: "y = (l, u)" by (cases y)
  have kx: "\<forall>j\<in>fst ` set xs. bytes_less k j" and ky: "\<forall>j\<in>fst ` set ys'. bytes_less l j"
    using Cons.prems x y yy by (auto simp: keys_ascending_def)
  have m: "(map_of xs)(k \<mapsto> v) = (map_of ys')(l \<mapsto> u)" using Cons.prems(3) x y yy by (simp only: map_of.simps fst_conv snd_conv)
  have "dom ((map_of xs)(k \<mapsto> v)) = insert k (fst ` set xs)" "dom ((map_of ys')(l \<mapsto> u)) = insert l (fst ` set ys')"
    by (simp_all add: dom_map_of_conv_image_fst)
  then have dom: "insert k (fst ` set xs) = insert l (fst ` set ys')" using m by simp
  have l: "l = k"
  proof (rule ccontr)
    assume "l \<noteq> k"
    have "l \<in> insert k (fst ` set xs)" "k \<in> insert l (fst ` set ys')" using equalityD1 [OF dom] equalityD2 [OF dom] by blast+
    then have "bytes_less k l" "bytes_less l k" using kx ky \<open>l \<noteq> k\<close> by (simp_all only: insert_iff) auto
    then show False using bytes_less_trans [of k l k] by simp
  qed
  have "v = u" using l fun_cong [OF m, of k] by simp
  moreover have "map_of xs = map_of ys'"
  proof
    fix j
    show "map_of xs j = map_of ys' j"
    proof (cases "j = k")
      case True
      have "map_of xs k = None" "map_of ys' k = None"
        using kx ky l bytes_less_simps by (auto simp: map_of_eq_None_iff)
      then show ?thesis using True by simp
    next
      case False
      then show ?thesis using fun_cong [OF m, of j] l by simp
    qed
  qed
  moreover have "keys_ascending xs" "keys_ascending ys'" using Cons.prems y by (simp_all add: keys_ascending_def)
  ultimately show ?case using Cons.IH x y yy l by blast
qed

lemma map_le_card_eq:
  assumes "distinct (map fst xs)" "distinct (map fst ys)" "length xs = length ys" "\<forall>(k, v)\<in>set xs. map_of ys k = Some v"
  shows "map_of xs = map_of ys"
proof -
  have "map_of xs \<subseteq>\<^sub>m map_of ys" using assms(4) map_of_SomeD [of xs] by (fastforce simp: map_le_def)
  moreover have "dom (map_of xs) = dom (map_of ys)"
  proof (rule card_subset_eq)
    show "dom (map_of xs) \<subseteq> dom (map_of ys)" using calculation by (rule map_le_implies_dom_le)
    show "card (dom (map_of xs)) = card (dom (map_of ys))"
      using assms(1-3) by (simp add: dom_map_of_conv_image_fst) (metis distinct_card length_map set_map)
  qed (rule finite_dom_map_of)
  ultimately show ?thesis by (metis map_le_antisym map_le_def)
qed

text \<open>Equality of values whose doubles are compared exactly.\<close>

lemma value_eq_wf:
  "value_wf v \<Longrightarrow> value_wf w \<Longrightarrow> value_eq (=) v w \<longleftrightarrow> v = w"
  "\<forall>v\<in>set vs. value_wf v \<Longrightarrow> \<forall>w\<in>set ws. value_wf w \<Longrightarrow> length vs = length ws \<Longrightarrow> array_eq (=) vs ws \<longleftrightarrow> vs = ws"
  "\<forall>kv\<in>set xs. value_wf (snd kv) \<Longrightarrow> \<forall>kv\<in>set ys. value_wf (snd kv) \<Longrightarrow>
     dict_eq (=) xs ys \<longleftrightarrow> (\<forall>(k, v)\<in>set xs. map_of ys k = Some v)"
proof (induction "(=) :: u64 \<Rightarrow> u64 \<Rightarrow> bool" v w and "(=) :: u64 \<Rightarrow> u64 \<Rightarrow> bool" vs ws and "(=) :: u64 \<Rightarrow> u64 \<Rightarrow> bool" xs ys
    rule: value_eq_array_eq_dict_eq.induct)
  case (6 x v)
  then show ?case by (cases v) auto
next
  case (7 x v)
  show ?case
  proof (cases v)
    case (DICTIONARY y)
    have a: "keys_ascending x" "keys_ascending y" using 7(2,3) DICTIONARY by simp_all
    have "dict_eq (=) x y \<longleftrightarrow> (\<forall>(k, v)\<in>set x. map_of y k = Some v)"
      if "length x = length y" using 7 DICTIONARY that by simp
    moreover have "x = y" if "length x = length y" "\<forall>(k, v)\<in>set x. map_of y k = Some v"
      using ascending_unique [OF a] map_le_card_eq [OF _ _ that] ascending_distinct a by blast
    moreover have "\<forall>(k, v)\<in>set y. map_of y k = Some v" using ascending_distinct [OF a(2)] by auto
    ultimately show ?thesis using DICTIONARY by auto
  qed simp_all
next
  case (11 x xs ys)
  then show ?case by (cases ys) auto
next
  case (13 k x xs d)
  show ?case
  proof (cases "map_of d k")
    case (Some y)
    then have "value_wf y" using 13(4) map_of_SomeD by fastforce
    then show ?thesis using 13 Some by auto
  qed auto
qed (auto split: Value.split)

lemma erase_key_map:
  assumes "value_wf v"
  shows "value_wf (fst (erase_key k v))" "find_key j (fst (erase_key k v)) = (if j = k then None else find_key j v)"
    "snd (erase_key k v) \<longleftrightarrow> hasValue_key k v"
proof -
  have s: "set (map_erase k d) \<subseteq> set d" for d :: dictionary by (auto simp: map_erase_def)
  show "value_wf (fst (erase_key k v))"
  proof (cases v)
    case (DICTIONARY d)
    then have "\<forall>kv\<in>set (map_erase k d). value_wf (snd kv)" "keys_ascending (map_erase k d)"
      using assms s [of d] map_erase_ascending by auto
    then show ?thesis using assms DICTIONARY by (simp add: erase_key_def)
  qed (use assms in \<open>simp_all add: erase_key_def\<close>)
  show "find_key j (fst (erase_key k v)) = (if j = k then None else find_key j v)"
    by (cases v) (auto simp: erase_key_def map_erase_map)
  show "snd (erase_key k v) \<longleftrightarrow> hasValue_key k v"
    by (cases v) (auto simp: erase_key_def hasValue_key_def)
qed

lemma setValue_key_map:
  assumes "value_wf v" "value_wf w" "isBasicType v \<Longrightarrow> v = EMPTY" "getType v \<noteq> T_ARRAY"
  shows "value_wf (setValue_key w k v)" "find_key j (setValue_key w k v) = (if j = k then Some w else find_key j v)"
proof -
  obtain d where d: "convertToDict v = Some d" using assms(3,4) by (cases v) (auto simp: isBasicType_def)
  have f: "find_key j v = map_of d j" using d by (cases v) auto
  obtain d' where "setValue_key w k v = DICTIONARY d'" "keys_ascending d'" "\<forall>kv\<in>set d'. value_wf (snd kv)"
      "map_of d' = (map_of d)(k \<mapsto> w)"
    using setValue_key_dict [OF d assms(1,2)] by blast
  then show "value_wf (setValue_key w k v)" "find_key j (setValue_key w k v) = (if j = k then Some w else find_key j v)"
    using f by simp_all
qed

section \<open>Properties\<close>



text \<open>
  With doubles compared exactly, the recursive equality of values (arrays by position, dictionaries by
  look-up) is equality.
\<close>

theorem value_equality:
  assumes "value_wf v" "value_wf w"
  shows "value_eq (=) v w \<longleftrightarrow> v = w"
  by (rule value_eq_wf(1) [OF assms])

lemma value_equality_witness:
  "\<not> value_eq (=) (DICTIONARY [(ascii ''a'', ARRAY [])]) (DICTIONARY [(ascii ''a'', EMPTY)])"
proof -
  have "value_wf (DICTIONARY [(ascii ''a'', ARRAY [])])" "value_wf (DICTIONARY [(ascii ''a'', EMPTY)])"
    by (simp_all add: keys_ascending_def)
  from value_equality [OF this] show ?thesis by simp
qed

text \<open>
  The shared \<^verbatim>\<open>Null\<close> object is an ordinary empty value, so an assignment through a failed look-up
  leaves the value as it was and changes what every later failed look-up returns.
\<close>

theorem null_object_overwritten:
  assumes "find_key key v = None" "value_wf w" "find_key key' v' = None"
  shows "fst (assign_through key w (v, Null_object)) = v
    \<and> getValue_key key' (v', snd (assign_through key w (v, Null_object))) = w"
proof -
  have "value_assign Null_object w = w" using assms(2) by (intro value_assign_wf) (simp_all add: Null_object_def)
  then show ?thesis using assms(1,3) by (cases v) (simp_all add: assign_through_def getValue_key_def)
qed

lemma null_object_overwritten_witness:
  "getValue_key (ascii ''x'') (ARRAY [], snd (assign_through (ascii ''y'') (INTEGER 7) (DICTIONARY [], Null_object))) = INTEGER 7"
  using null_object_overwritten [of "ascii ''y''" "DICTIONARY []" "INTEGER 7" "ascii ''x''" "ARRAY []"] by simp

text \<open>Setting index 0 of an empty array raises: \<^verbatim>\<open>convertToArray(0)\<close> does not look at the size.\<close>

lemma setValue_index_empty: "setValue_index w 0 (ARRAY []) = Inl OutOfBounds"
  by (simp add: setValue_index_def convertToArray_def)

end
