(* ===== verification/Cbor.thy ===== *)
theory Cbor
  imports DataValue
begin

text \<open>
  Models \<^verbatim>\<open>modules/data/SPDataCbor.h\<close>, \<^verbatim>\<open>SPDataEncodeCbor.h\<close> and \<^verbatim>\<open>SPDataDecodeCbor.h\<close>: the CBOR writer and reader of
  \<^verbatim>\<open>data::Value\<close>.

  The writer returns the bytes it appends. The reader takes as fuel the depth of nesting it may
  enter: \<open>None\<close> is a value nested deeper; one level more than there are bytes is always enough. Memory for strings and containers is assumed to be
  there, so \<^verbatim>\<open>reserve\<close> does nothing.
\<close>

section \<open>Format\<close>

datatype MajorType = Unsigned | Negative | ByteString | CharString | Array | Map | Tag | Simple

fun major_code :: "MajorType \<Rightarrow> u8" where
  "major_code Unsigned = 0"
| "major_code Negative = 1"
| "major_code ByteString = 2"
| "major_code CharString = 3"
| "major_code Array = 4"
| "major_code Map = 5"
| "major_code Tag = 6"
| "major_code Simple = 7"

definition MajorTypeEncoded :: "MajorType \<Rightarrow> u8" where
  "MajorTypeEncoded m = push_bit 5 (major_code m)"

definition cbor_type :: "u8 \<Rightarrow> MajorType" where
  "cbor_type v =
     (let t = v AND 0xE0 in
      if t = MajorTypeEncoded Unsigned then Unsigned
      else if t = MajorTypeEncoded Negative then Negative
      else if t = MajorTypeEncoded ByteString then ByteString
      else if t = MajorTypeEncoded CharString then CharString
      else if t = MajorTypeEncoded Array then Array
      else if t = MajorTypeEncoded Map then Map
      else if t = MajorTypeEncoded Tag then Tag
      else if t = MajorTypeEncoded Simple then Simple
      else Unsigned)"

definition cbor_data :: "u8 \<Rightarrow> u8" where
  "cbor_data v = v AND 31"

definition UndefinedLength :: u8 where "UndefinedLength = 31"

section \<open>Writing\<close>

definition writeId :: "u8 list" where "writeId = [0xd9, 0xd9, 0xf7]"

definition writeNumeric :: "nat \<Rightarrow> 'a::len word \<Rightarrow> MajorType \<Rightarrow> u8 \<Rightarrow> u8 list" where
  "writeNumeric n v m f = (MajorTypeEncoded m OR f) # store_le n (HostToNetwork n v)"

definition writeInt :: "u64 \<Rightarrow> MajorType \<Rightarrow> u8 list" where
  "writeInt v m =
     (if v < 24 then [MajorTypeEncoded m OR ucast v]
      else if v \<le> 0xff then [MajorTypeEncoded m OR 24, ucast v]
      else if v \<le> 0xffff then writeNumeric 2 (ucast v :: u16) m 25
      else if v \<le> 0xffffffff then writeNumeric 4 (ucast v :: u32) m 26
      else writeNumeric 8 v m 27)"

definition writeFloatNaN :: "u8 list" where "writeFloatNaN = writeNumeric 2 half_nan Simple 25"
definition writeFloatPositiveInf :: "u8 list" where "writeFloatPositiveInf = writeNumeric 2 half_posinf Simple 25"
definition writeFloatNegativeInf :: "u8 list" where "writeFloatNegativeInf = writeNumeric 2 half_neginf Simple 25"
definition writeFloat16 :: "u16 \<Rightarrow> u8 list" where "writeFloat16 v = writeNumeric 2 v Simple 25"
definition writeFloat32 :: "u32 \<Rightarrow> u8 list" where "writeFloat32 v = writeNumeric 4 v Simple 26"
definition writeFloat64 :: "u64 \<Rightarrow> u8 list" where "writeFloat64 v = writeNumeric 8 v Simple 27"

definition writeArrayStart :: "nat \<Rightarrow> u8 list" where "writeArrayStart len = writeInt (of_nat len) Array"
definition writeMapStart :: "nat \<Rightarrow> u8 list" where "writeMapStart len = writeInt (of_nat len) Map"
definition writeNull :: "u8 list" where "writeNull = [MajorTypeEncoded Simple OR 22]"
definition writeBool :: "bool \<Rightarrow> u8 list" where "writeBool b = [MajorTypeEncoded Simple OR (if b then 21 else 20)]"

text \<open>\<^verbatim>\<open>int64_t\<close>: a negative number \<open>v\<close> is written as \<^verbatim>\<open>std::abs(v + 1)\<close>.\<close>

definition writeSignedInt :: "u64 \<Rightarrow> u8 list" where
  "writeSignedInt v =
     (if v = 0 then [MajorTypeEncoded Unsigned]
      else if 0 <s v then writeInt v Unsigned
      else writeInt (if v + 1 <s 0 then - (v + 1) else v + 1) Negative)"

definition writeFloat :: "u64 \<Rightarrow> u8 list" where
  "writeFloat d =
     (if double_isnan d then writeFloatNaN
      else if d = double_posinf then writeFloatPositiveInf
      else if d = double_neginf then writeFloatNegativeInf
      else case double_to_float d of
        Some f \<Rightarrow> (case half_of_float f of Some h \<Rightarrow> writeFloat16 h | None \<Rightarrow> writeFloat32 f)
      | None \<Rightarrow> writeFloat64 d)"

definition writeString :: "u8 list \<Rightarrow> u8 list" where
  "writeString str = writeInt (of_nat (length str)) CharString @ str"

definition writeBytes :: "u8 list \<Rightarrow> u8 list" where
  "writeBytes d = writeInt (of_nat (length d)) ByteString @ d"

definition cbor_stream :: stream where
  "cbor_stream = \<lparr> write_null = writeNull, write_bool = writeBool, write_int = writeSignedInt, write_double = writeFloat,
     write_str = writeString, write_bytes = writeBytes, on_begin_array = writeArrayStart, on_end_array = [],
     on_begin_dict = writeMapStart, on_end_dict = [], on_next_value = [], on_key = writeString \<rparr>"

definition cbor_write :: "Value \<Rightarrow> u8 list" where
  "cbor_write v = writeId @ value_encode cbor_stream v"

section \<open>Reading\<close>

definition readIntValue :: "u8 view \<Rightarrow> u8 \<Rightarrow> u64 \<times> u8 view" where
  "readIntValue r type =
     (if type < 24 then (ucast type, r)
      else if type = 24 then (let (v, r) = readUnsigned r in (ucast v, r))
      else if type = 25 then (let (v, r) = readUnsigned16 Endian_Big r in (ucast v, r))
      else if type = 26 then (let (v, r) = readUnsigned32 Endian_Big r in (ucast v, r))
      else if type = 27 then readUnsigned64 Endian_Big r
      else (0, r))"

text \<open>The two parts of the next byte; past the end it is 0, an unsigned zero.\<close>

definition read_header :: "u8 view \<Rightarrow> MajorType \<times> u8 \<times> u8 view" where
  "read_header r = (let (t, r) = readUnsigned r in (cbor_type t, cbor_data t, r))"

text \<open>The header of a container of \<open>size\<close> elements, or the end mark when there is none left.\<close>

definition next_header :: "nat \<Rightarrow> u8 view \<Rightarrow> MajorType \<times> u8 \<times> u8 view" where
  "next_header sz r = (if sz > 0 then read_header r else (Simple, UndefinedLength, r))"

lemma readIntValue_length: "length (snd (readIntValue r t)) \<le> length r"
  by (simp add: readIntValue_def readUnsigned_def readUnsigned16_def readUnsigned32_def readUnsigned64_def)

lemma read_header_rest: "snd (snd (read_header r)) = drop 1 r"
  by (simp add: read_header_def readUnsigned_def Let_def)

lemma read_header_nil: "read_header [] = (Unsigned, 0, [])"
  by (simp add: read_header_def readUnsigned_def cbor_type_def cbor_data_def MajorTypeEncoded_def)

text \<open>The chunks of a string of undefined length.\<close>

function decodeUndefinedLength :: "MajorType \<Rightarrow> u8 list \<Rightarrow> u8 view \<Rightarrow> u8 list \<times> u8 view" where
  "decodeUndefinedLength rootType buf r =
     (let h = read_header r; m = fst h; t = fst (snd h); r1 = snd (snd h) in
      if m \<noteq> rootType \<and> (m \<noteq> Simple \<or> t \<noteq> UndefinedLength) \<or> r = [] then (buf, r1)
      else
        let (s, r2) = readIntValue r1 t; sz = min (length r2) (unat s); buf = buf @ take sz r2; r3 = drop sz r2
        in if t \<noteq> UndefinedLength then decodeUndefinedLength rootType buf r3 else (buf, r3))"
  by pat_completeness auto
termination
proof (relation "measure (\<lambda>(rt, buf, r). length r)")
  fix rootType :: MajorType and buf :: "u8 list" and r :: "u8 view" and h m t r1 x s r2 sz buf' r3
  assume a: "h = read_header r" "m = fst h" "t = fst (snd h)" "r1 = snd (snd h)"
    "\<not> (m \<noteq> rootType \<and> (m \<noteq> Simple \<or> t \<noteq> UndefinedLength) \<or> r = [])" "x = readIntValue r1 t" "(s, r2) = x"
    "sz = min (length r2) (unat s)" "buf' = buf @ take sz r2" "r3 = drop sz r2"
  have "length r2 \<le> length r1" using readIntValue_length [of r1 t] a(6,7) by (metis snd_conv)
  moreover have "length r1 < length r" using a(1,4,5) read_header_rest [of r] by (cases r) simp_all
  ultimately show "((rootType, buf', r3), rootType, buf, r) \<in> measure (\<lambda>(rt, buf, r). length r)"
    by (simp add: a(10))
qed simp

declare decodeUndefinedLength.simps [simp del]

definition decodeString :: "MajorType \<Rightarrow> u8 \<Rightarrow> u8 view \<Rightarrow> u8 list \<times> u8 view" where
  "decodeString m type r =
     (if type \<noteq> UndefinedLength then
        (let (s, r) = readIntValue r type; sz = min (length r) (unat s) in (take sz r, offset sz r))
      else decodeUndefinedLength m [] r)"

definition decodeSimpleValue :: "u8 \<Rightarrow> u8 view \<Rightarrow> Value \<times> u8 view" where
  "decodeSimpleValue type r =
     (if type = 24 then (let (v, r) = readUnsigned r in (INTEGER (ucast v), r))
      else if type = 25 then (let (v, r) = readFloat16 Endian_Big r in (DOUBLE (float_to_double v), r))
      else if type = 26 then (let (v, r) = readFloat32 Endian_Big r in (DOUBLE (float_to_double v), r))
      else if type = 27 then (let (v, r) = readFloat64 Endian_Big r in (DOUBLE v, r))
      else if type = 22 \<or> type = 23 then (EMPTY, r)
      else if type = 21 then (BOOLEAN True, r)
      else if type = 20 then (BOOLEAN False, r)
      else (INTEGER (ucast type), r))"

text \<open>
  A key that is not a number or a string is decoded into the dictionary value itself. After that the value
  still holds a dictionary, or it is empty with its dictionary out of reach, or its pointer is not one
  to a dictionary any more, and the next pair is stored through it.
\<close>

datatype map_slot = In_dict dictionary | Hidden | Lost Value

fun slot_value :: "map_slot \<Rightarrow> Value" where
  "slot_value (In_dict d) = DICTIONARY d"
| "slot_value Hidden = EMPTY"
| "slot_value (Lost v) = v"

fun slot_after_key :: "map_slot \<Rightarrow> Value \<Rightarrow> map_slot" where
  "slot_after_key st (DICTIONARY d) = In_dict d"
| "slot_after_key st EMPTY = (case st of Lost v \<Rightarrow> Lost EMPTY | _ \<Rightarrow> Hidden)"
| "slot_after_key st v = Lost v"

fun slot_element :: "u8 list \<Rightarrow> map_slot \<Rightarrow> fault + Value" where
  "slot_element key (In_dict d) = Inr (case map_of d key of Some v \<Rightarrow> v | None \<Rightarrow> EMPTY)"
| "slot_element key Hidden = Inr EMPTY"
| "slot_element key (Lost v) = Inl OutOfBounds"

fun slot_store :: "u8 list \<Rightarrow> Value \<Rightarrow> map_slot \<Rightarrow> map_slot" where
  "slot_store key v (In_dict d) = In_dict (if map_of d key = None then map_emplace key v d else map_modify key (\<lambda>_. v) d)"
| "slot_store key v st = st"

definition container_size :: "u8 \<Rightarrow> u8 view \<Rightarrow> nat \<times> u8 view" where
  "container_size type r =
     (if type \<noteq> UndefinedLength then (let (s, r) = readIntValue r type in (unat s, r)) else (2 ^ 64 - 1, r))"

type_synonym 'a read = "(fault + 'a \<times> u8 view) option"
type_synonym decoder = "MajorType \<Rightarrow> u8 \<Rightarrow> Value \<Rightarrow> u8 view \<Rightarrow> Value read"

text \<open>The loops, over the reader of the nested values; \<open>sz\<close> counts down.\<close>

function array_loop :: "decoder \<Rightarrow> nat \<Rightarrow> MajorType \<Rightarrow> u8 \<Rightarrow> Value list \<Rightarrow> u8 view \<Rightarrow> Value read" where
  "array_loop dec sz m t arr r =
     (if (r \<noteq> [] \<or> (m = Unsigned \<or> m = Negative \<or> m = Simple) \<and> t < 24) \<and> sz > 0 \<and> \<not> (m = Simple \<and> t = UndefinedLength)
      then (case dec m t EMPTY r of
          None \<Rightarrow> None
        | Some (Inl e) \<Rightarrow> Some (Inl e)
        | Some (Inr vr) \<Rightarrow> (let h = next_header (sz - 1) (snd vr)
            in array_loop dec (sz - 1) (fst h) (fst (snd h)) (arr @ [fst vr]) (snd (snd h))))
      else Some (Inr (ARRAY arr, r)))"
  by pat_completeness auto
termination by (relation "measure (\<lambda>(dec, sz, _). sz)") auto

declare array_loop.simps [simp del]

definition map_key :: "decoder \<Rightarrow> MajorType \<Rightarrow> u8 \<Rightarrow> map_slot \<Rightarrow> u8 view \<Rightarrow> (u8 list \<times> map_slot) read" where
  "map_key dec m t st r =
     (if m = Unsigned then (let (v, r) = readIntValue r t in Some (Inr ((unsigned_to_decimal v, st), r)))
      else if m = Negative then (let (v, r) = readIntValue r t in Some (Inr ((to_decimal_signed (- 1 - v), st), r)))
      else if m = ByteString \<or> m = CharString then
        (if t = UndefinedLength then (let (s, r) = decodeUndefinedLength m [] r in Some (Inr ((s, st), r)))
         else (let (s, r) = readIntValue r t in Some (Inr ((take (unat s) r, st), offset (unat s) r))))
      else (case dec m t (slot_value st) r of
          None \<Rightarrow> None
        | Some (Inl e) \<Rightarrow> Some (Inl e)
        | Some (Inr (v, r)) \<Rightarrow> Some (Inr (([], slot_after_key st v), r))))"

text \<open>A pair with an empty key is read and left out. When the key ends the input, the loop ends.\<close>

definition map_value :: "decoder \<Rightarrow> u8 list \<Rightarrow> map_slot \<Rightarrow> MajorType \<Rightarrow> u8 \<Rightarrow> u8 view \<Rightarrow> map_slot read" where
  "map_value dec key st m t r =
     (case (if key = [] then Inr EMPTY else slot_element key st) of
        Inl e \<Rightarrow> Some (Inl e)
      | Inr old \<Rightarrow> (case dec m t old r of
          None \<Rightarrow> None
        | Some (Inl e) \<Rightarrow> Some (Inl e)
        | Some (Inr (v, r)) \<Rightarrow> Some (Inr (if key = [] then st else slot_store key v st, r))))"

function map_loop :: "decoder \<Rightarrow> nat \<Rightarrow> MajorType \<Rightarrow> u8 \<Rightarrow> map_slot \<Rightarrow> u8 view \<Rightarrow> Value read" where
  "map_loop dec sz m t st r =
     (if r \<noteq> [] \<and> sz > 0 \<and> \<not> (m = Simple \<and> t = UndefinedLength)
      then (case map_key dec m t st r of
          None \<Rightarrow> None
        | Some (Inl e) \<Rightarrow> Some (Inl e)
        | Some (Inr ((key, st), r)) \<Rightarrow>
            (if r = [] then Some (Inr (slot_value st, r))
             else let (m, t, r) = read_header r in
               if m = Simple \<and> t = UndefinedLength then Some (Inr (slot_value st, r))
               else (case map_value dec key st m t r of
                   None \<Rightarrow> None
                 | Some (Inl e) \<Rightarrow> Some (Inl e)
                 | Some (Inr (st, r)) \<Rightarrow>
                     (let h = next_header (sz - 1) r
                      in map_loop dec (sz - 1) (fst h) (fst (snd h)) st (snd (snd h))))))
      else Some (Inr (slot_value st, r)))"
  by pat_completeness auto
termination by (relation "measure (\<lambda>(dec, sz, _). sz)") auto

declare map_loop.simps [simp del]

definition decode_next :: "decoder \<Rightarrow> Value \<Rightarrow> u8 view \<Rightarrow> Value read" where
  "decode_next dec old r =
     (if r = [] then Some (Inr (old, r)) else let (m, t, r) = read_header r in dec m t old r)"

primrec cbor_decode :: "nat \<Rightarrow> decoder" where
  "cbor_decode 0 m type old r = None"
| "cbor_decode (Suc n) m type old r =
     (case m of
        Unsigned \<Rightarrow> (let (v, r) = readIntValue r type in Some (Inr (INTEGER v, r)))
      | Negative \<Rightarrow> (let (v, r) = readIntValue r type in Some (Inr (INTEGER (- 1 - v), r)))
      | ByteString \<Rightarrow> (let (s, r) = decodeString ByteString type r in Some (Inr (BYTESTRING s, r)))
      | CharString \<Rightarrow> (let (s, r) = decodeString CharString type r in Some (Inr (CHARSTRING s, r)))
      | Array \<Rightarrow> (let (sz, r) = container_size type r; (m, t, r) = next_header sz r in array_loop (cbor_decode n) sz m t [] r)
      | Map \<Rightarrow> (let (sz, r) = container_size type r; (m, t, r) = next_header sz r in map_loop (cbor_decode n) sz m t (In_dict []) r)
      | Tag \<Rightarrow> decode_next (cbor_decode n) old (snd (readIntValue r type))
      | Simple \<Rightarrow> Some (Inr (decodeSimpleValue type r)))"

definition cbor_read :: "nat \<Rightarrow> u8 view \<Rightarrow> Value read" where
  "cbor_read n d =
     (if length d \<le> 3 \<or> d ! 0 \<noteq> 0xd9 \<or> d ! 1 \<noteq> 0xd9 \<or> d ! 2 \<noteq> 0xf7 then Some (Inr (EMPTY, d))
      else decode_next (cbor_decode n) EMPTY (offset 3 d))"

section \<open>What is read back\<close>

text \<open>
  The value read from the text of a value: a NaN becomes the quiet NaN, a pair with the empty key is left out,
  and so is an empty string or container that is the last element of an array at the end of the input
  (\<open>fin\<close>): its header is all there is of it, and the loop takes the end of the input for the end of the array.
\<close>

definition canonical_double :: "u64 \<Rightarrow> u64" where
  "canonical_double d = (if double_isnan d then double_nan else d)"

definition header_only :: "Value \<Rightarrow> bool" where
  "header_only v \<longleftrightarrow> v = CHARSTRING [] \<or> v = BYTESTRING [] \<or> v = ARRAY [] \<or> v = DICTIONARY []"

fun image :: "bool \<Rightarrow> Value \<Rightarrow> Value"
and image_array :: "bool \<Rightarrow> Value list \<Rightarrow> Value list"
and image_dict :: "bool \<Rightarrow> (u8 list \<times> Value) list \<Rightarrow> (u8 list \<times> Value) list" where
  "image fin (DOUBLE d) = DOUBLE (canonical_double d)"
| "image fin (ARRAY xs) = ARRAY (image_array fin xs)"
| "image fin (DICTIONARY d) = DICTIONARY (image_dict fin d)"
| "image fin (INTEGER i) = INTEGER i"
| "image fin (BOOLEAN b) = BOOLEAN b"
| "image fin (CHARSTRING s) = CHARSTRING s"
| "image fin (BYTESTRING s) = BYTESTRING s"
| "image fin EMPTY = EMPTY"
| "image fin NONE = NONE"
| "image_array fin [] = []"
| "image_array fin (v # vs) =
     (if fin \<and> vs = [] \<and> header_only v then [] else [image (fin \<and> vs = []) v]) @ image_array fin vs"
| "image_dict fin [] = []"
| "image_dict fin ((k, v) # d) = (if k = [] then [] else [(k, image (fin \<and> d = []) v)]) @ image_dict fin d"

text \<open>Strings and containers whose length a \<^verbatim>\<open>size_t\<close> holds, and the depth of nesting.\<close>

fun lengths_ok :: "Value \<Rightarrow> bool" where
  "lengths_ok (CHARSTRING s) = (length s < 2 ^ 64)"
| "lengths_ok (BYTESTRING s) = (length s < 2 ^ 64)"
| "lengths_ok (ARRAY a) = (length a < 2 ^ 64 \<and> (\<forall>v\<in>set a. lengths_ok v))"
| "lengths_ok (DICTIONARY d) = (length d < 2 ^ 64 \<and> (\<forall>kv\<in>set d. length (fst kv) < 2 ^ 64 \<and> lengths_ok (snd kv)))"
| "lengths_ok _ = True"

fun depth_below :: "nat \<Rightarrow> Value \<Rightarrow> bool" where
  "depth_below n (ARRAY a) = (case n of 0 \<Rightarrow> False | Suc k \<Rightarrow> \<forall>v\<in>set a. depth_below k v)"
| "depth_below n (DICTIONARY d) = (case n of 0 \<Rightarrow> False | Suc k \<Rightarrow> \<forall>kv\<in>set d. depth_below k (snd kv))"
| "depth_below n _ = (n > 0)"

section \<open>Numbers\<close>

lemma header_byte:
  assumes "i < 32"
  shows "cbor_type (MajorTypeEncoded m OR i) = m" "cbor_data (MajorTypeEncoded m OR i) = i"
proof -
  have "i < 2 ^ 5" using assms by simp
  then have b: "\<not> bit i 5" "\<not> bit i 6" "\<not> bit i 7" using word_bit_less [of i 5] by fastforce+
  have "(MajorTypeEncoded m OR i) AND 0xE0 = MajorTypeEncoded m" "(MajorTypeEncoded m OR i) AND 31 = i"
    by (cases m; rule word8_eqI; simp add: MajorTypeEncoded_def bit_simps b)+
  then show "cbor_type (MajorTypeEncoded m OR i) = m" "cbor_data (MajorTypeEncoded m OR i) = i"
    by (cases m; simp add: cbor_type_def cbor_data_def MajorTypeEncoded_def Let_def)+
qed

lemma read_header_byte:
  "i < 32 \<Longrightarrow> read_header ((MajorTypeEncoded m OR i) # r) = (m, i, r)"
  by (simp add: read_header_def readUnsigned_def header_byte)

lemma ucast_narrow:
  "v \<le> 0xff \<Longrightarrow> ucast (ucast (v :: u64) :: u8) = v" "v \<le> 0xffff \<Longrightarrow> ucast (ucast v :: u16) = v"
  "v \<le> 0xffffffff \<Longrightarrow> ucast (ucast v :: u32) = v"
  by (simp_all add: word_uint_eq_iff unsigned_ucast_eq unsigned_take_bit_eq take_bit_int_eq_self word_le_def)

lemma store_le_nonempty: "0 < n \<Longrightarrow> store_le n w \<noteq> []"
  by (simp add: store_le_def)

lemma read_network:
  "readUnsigned16 Endian_Big (store_le 2 (HostToNetwork 2 h) @ r) = (h, r)"
  "readUnsigned32 Endian_Big (store_le 4 (HostToNetwork 4 w) @ r) = (w, r)"
  "readUnsigned64 Endian_Big (store_le 8 (HostToNetwork 8 d) @ r) = (d, r)"
  "readFloat16 Endian_Big (store_le 2 (HostToNetwork 2 h) @ r) = (halffloat_decode h, r)"
  "readFloat32 Endian_Big (store_le 4 (HostToNetwork 4 w) @ r) = (w, r)"
  "readFloat64 Endian_Big (store_le 8 (HostToNetwork 8 d) @ r) = (d, r)"
  by (simp_all add: readUnsigned16_def readUnsigned32_def readUnsigned64_def readFloat16_def readFloat32_def readFloat64_def
      convert_network)

text \<open>The header a number or a length is written with, and the bytes behind it.\<close>

lemma writeInt_read:
  obtains i bs where "writeInt v m = (MajorTypeEncoded m OR i) # bs" "i \<le> 27" "\<And>r. readIntValue (bs @ r) i = (v, r)"
    "bs = [] \<longleftrightarrow> i < 24" "i < 24 \<longrightarrow> i = ucast v"
proof -
  consider "v < 24" | "\<not> v < 24" "v \<le> 0xff" | "\<not> v \<le> 0xff" "v \<le> 0xffff" | "\<not> v \<le> 0xffff" "v \<le> 0xffffffff" | "\<not> v \<le> 0xffffffff"
    by blast
  then show ?thesis
  proof cases
    case 1
    then have "uint v < 24" by (simp add: word_less_def)
    then have "(ucast v :: u8) < 24" "ucast (ucast v :: u8) = v"
      by (simp_all add: word_less_def unsigned_ucast_eq unsigned_take_bit_eq take_bit_int_eq_self word_uint_eq_iff)
    moreover from this(1) have "(ucast v :: u8) \<le> 27" by (simp add: word_le_def word_less_def)
    ultimately show ?thesis using 1 that [of "ucast v" "[]"] by (simp add: writeInt_def readIntValue_def)
  next
    case 2
    then show ?thesis
      using that [of 24 "[ucast v]"] ucast_narrow(1) [of v] by (simp add: writeInt_def readIntValue_def readUnsigned_def)
  next
    case 3
    then have "\<not> v < 24" by (simp add: word_le_def word_less_def)
    then show ?thesis
      using 3 that [of 25 "store_le 2 (HostToNetwork 2 (ucast v :: u16))"] ucast_narrow(2) [of v]
      by (simp add: writeInt_def writeNumeric_def readIntValue_def read_network store_le_nonempty)
  next
    case 4
    then have "\<not> v < 24" "\<not> v \<le> 0xff" by (simp_all add: word_le_def word_less_def)
    then show ?thesis
      using 4 that [of 26 "store_le 4 (HostToNetwork 4 (ucast v :: u32))"] ucast_narrow(3) [of v]
      by (simp add: writeInt_def writeNumeric_def readIntValue_def read_network store_le_nonempty)
  next
    case 5
    then have "\<not> v < 24" "\<not> v \<le> 0xff" "\<not> v \<le> 0xffff" by (simp_all add: word_le_def word_less_def)
    then show ?thesis
      using 5 that [of 27 "store_le 8 (HostToNetwork 8 v)"]
      by (simp add: writeInt_def writeNumeric_def readIntValue_def read_network store_le_nonempty)
  qed
qed

lemma double_inf_number: "\<not> double_isnan double_posinf" "\<not> double_isnan double_neginf"
  by (simp_all add: double_isnan_def double_posinf_def double_neginf_def)

lemma writeFloat_read:
  obtains i bs where "writeFloat d = (MajorTypeEncoded Simple OR i) # bs" "25 \<le> i" "i \<le> 27" "bs \<noteq> []"
    "\<And>r. decodeSimpleValue i (bs @ r) = (DOUBLE (canonical_double d), r)"
proof -
  note goal = that
  have half: thesis if "writeFloat d = writeNumeric 2 h Simple 25" "float_to_double (halffloat_decode h) = canonical_double d" for h
    using that goal [of 25 "store_le 2 (HostToNetwork 2 h)"]
    by (simp add: writeNumeric_def decodeSimpleValue_def read_network store_le_nonempty)
  note half_goal = half
  consider "double_isnan d" | "d = double_posinf" | "d = double_neginf"
    | (half) f h where "\<not> double_isnan d" "d \<noteq> double_posinf" "d \<noteq> double_neginf" "double_to_float d = Some f" "half_of_float f = Some h"
    | (single) f where "\<not> double_isnan d" "d \<noteq> double_posinf" "d \<noteq> double_neginf" "double_to_float d = Some f" "half_of_float f = None"
    | (double) "\<not> double_isnan d" "d \<noteq> double_posinf" "d \<noteq> double_neginf" "double_to_float d = None"
    by (cases "double_to_float d"; cases "half_of_float (the (double_to_float d))") auto
  then show ?thesis
  proof cases
    case 1
    then show ?thesis
      using half [of half_nan] halffloat_specials by (simp add: writeFloat_def writeFloatNaN_def canonical_double_def)
  next
    case 2
    then show ?thesis
      using half [of half_posinf] halffloat_specials double_inf_number
      by (simp add: writeFloat_def writeFloatPositiveInf_def canonical_double_def)
  next
    case 3
    have "double_neginf \<noteq> double_posinf" by (simp add: double_neginf_def double_posinf_def)
    then show ?thesis
      using 3 half [of half_neginf] halffloat_specials double_inf_number
      by (simp add: writeFloat_def writeFloatNegativeInf_def canonical_double_def)
  next
    case (half f h)
    have "float_to_double (halffloat_decode h) = d"
      using double_to_float_exact [OF half(4)] half_of_float_exact [OF half(5)] by simp
    then show ?thesis
      using half half_goal [of h] by (simp add: writeFloat_def writeFloat16_def canonical_double_def)
  next
    case (single f)
    then show ?thesis
      using that [of 26 "store_le 4 (HostToNetwork 4 f)"] double_to_float_exact [OF single(4)]
      by (simp add: writeFloat_def writeFloat32_def writeNumeric_def decodeSimpleValue_def read_network store_le_nonempty canonical_double_def)
  next
    case double
    then show ?thesis
      using that [of 27 "store_le 8 (HostToNetwork 8 d)"]
      by (simp add: writeFloat_def writeFloat64_def writeNumeric_def decodeSimpleValue_def read_network store_le_nonempty canonical_double_def)
  qed
qed

lemma negative_successor:
  fixes v :: u64
  assumes "v \<noteq> 0" "\<not> 0 <s v"
  shows "- 1 - (if v + 1 <s 0 then - (v + 1) else v + 1) = v"
proof (cases "v + 1 <s 0")
  case False
  have "sint v < 0" using assms by (simp add: word_sless_alt signed_eq_0_iff less_le)
  then have u: "2 ^ 63 \<le> uint v" by (simp add: sint_by_uint split: if_splits)
  have "v = - 1"
  proof (rule ccontr)
    assume "v \<noteq> - 1"
    then have "uint v \<noteq> 2 ^ 64 - 1" by (simp add: word_uint_eq_iff unsigned_minus_1_eq_mask mask_eq_exp_minus_1)
    moreover have "uint v < 2 ^ 64" using unsigned_less [of v, where ?'a = int] by simp
    ultimately have "uint (v + 1) = uint v + 1" by (simp add: uint_word_ariths)
    then have "sint (v + 1) < 0" using u \<open>uint v < 2 ^ 64\<close> \<open>uint v \<noteq> 2 ^ 64 - 1\<close> by (simp add: sint_by_uint)
    then show False using False by (simp add: word_sless_alt)
  qed
  then show ?thesis by simp
qed simp

lemma writeSignedInt_read:
  obtains m i bs where "writeSignedInt v = (MajorTypeEncoded m OR i) # bs" "i \<le> 27" "m = Unsigned \<or> m = Negative"
    "bs = [] \<longleftrightarrow> i < 24" "\<And>n old r. cbor_decode (Suc n) m i old (bs @ r) = Some (Inr (INTEGER v, r))"
proof -
  consider (zero) "v = 0" | (pos) "0 <s v" | (neg) "v \<noteq> 0" "\<not> 0 <s v" by blast
  then show ?thesis
  proof cases
    case zero
    then show ?thesis using that [of Unsigned 0 "[]"] by (simp add: writeSignedInt_def readIntValue_def)
  next
    case pos
    then have "v \<noteq> 0" by auto
    obtain i bs where "writeInt v Unsigned = (MajorTypeEncoded Unsigned OR i) # bs" "i \<le> 27"
      "\<And>r. readIntValue (bs @ r) i = (v, r)" "bs = [] \<longleftrightarrow> i < 24" by (rule writeInt_read [of v Unsigned]) blast
    then show ?thesis using pos \<open>v \<noteq> 0\<close> that [of Unsigned i bs] by (simp add: writeSignedInt_def)
  next
    case neg
    define w where "w = (if v + 1 <s 0 then - (v + 1) else v + 1)"
    have w: "- 1 - w = v" unfolding w_def by (rule negative_successor [OF neg])
    obtain i bs where "writeInt w Negative = (MajorTypeEncoded Negative OR i) # bs" "i \<le> 27"
      "\<And>r. readIntValue (bs @ r) i = (w, r)" "bs = [] \<longleftrightarrow> i < 24" by (rule writeInt_read [of w Negative]) blast
    then show ?thesis using neg w that [of Negative i bs] by (simp add: writeSignedInt_def w_def [symmetric])
  qed
qed

section \<open>Values\<close>

text \<open>A decoder reads a value: from its encoding, whatever follows, it makes the image of the value.\<close>

definition reads :: "decoder \<Rightarrow> Value \<Rightarrow> bool" where
  "reads dec v \<longleftrightarrow> (\<exists>m i bs. value_encode cbor_stream v = (MajorTypeEncoded m OR i) # bs \<and> i \<le> 27
     \<and> (if header_only v then bs = [] \<and> m \<noteq> Unsigned \<and> m \<noteq> Negative \<and> m \<noteq> Simple
        else bs \<noteq> [] \<or> (m = Unsigned \<or> m = Negative \<or> m = Simple) \<and> i < 24)
     \<and> (\<forall>old r. dec m i old (bs @ r) = Some (Inr (image (r = []) v, r))))"

lemma info_less: "(i :: u8) \<le> 27 \<Longrightarrow> i < 32 \<and> i \<noteq> 31"
  by (auto simp: word_le_def word_less_def)

lemma encode_containers:
  "encode_array cbor_stream b vs = concat (map (value_encode cbor_stream) vs)"
  "encode_dict cbor_stream b d = concat (map (\<lambda>(k, v). writeString k @ value_encode cbor_stream v) d)"
  by (induction vs arbitrary: b; simp add: cbor_stream_def) (induction d arbitrary: b; auto simp: cbor_stream_def)

lemma reads_encode_nonempty: "reads dec v \<Longrightarrow> value_encode cbor_stream v \<noteq> []"
  by (auto simp: reads_def)

lemma array_loop_reads:
  assumes "\<forall>v\<in>set vs. reads dec v"
    and "next_header (length vs) (concat (map (value_encode cbor_stream) vs) @ r) = (m, t, r')"
  shows "array_loop dec (length vs) m t arr r' = Some (Inr (ARRAY (arr @ image_array (r = []) vs), r))"
  using assms
proof (induction vs arbitrary: m t r' arr)
  case Nil
  then show ?case by (auto simp: next_header_def array_loop.simps [of _ 0])
next
  case (Cons v vs)
  obtain m' i bs where v: "value_encode cbor_stream v = (MajorTypeEncoded m' OR i) # bs" "i \<le> 27"
      "if header_only v then bs = [] \<and> m' \<noteq> Unsigned \<and> m' \<noteq> Negative \<and> m' \<noteq> Simple
        else bs \<noteq> [] \<or> (m' = Unsigned \<or> m' = Negative \<or> m' = Simple) \<and> i < 24"
      "\<And>old r. dec m' i old (bs @ r) = Some (Inr (image (r = []) v, r))"
    using Cons.prems(1) unfolding reads_def by auto
  define rest where "rest = concat (map (value_encode cbor_stream) vs) @ r"
  have h: "m = m'" "t = i" "r' = bs @ rest"
    using Cons.prems(2) v(1) read_header_byte [of i m'] info_less [OF v(2)]
    by (simp_all add: next_header_def rest_def)
  have rest: "rest = [] \<longleftrightarrow> vs = [] \<and> r = []"
    using Cons.prems(1) reads_encode_nonempty by (cases vs) (auto simp: rest_def)
  show ?case
  proof (cases "header_only v \<and> vs = [] \<and> r = []")
    case True
    then show ?thesis using v(3) h rest by (simp add: array_loop.simps [of _ "Suc _"])
  next
    case False
    obtain m2 t2 r2 where n: "next_header (length vs) rest = (m2, t2, r2)" by (metis prod_cases3)
    have "array_loop dec (length (v # vs)) m t arr r' = array_loop dec (length vs) m2 t2 (arr @ [image (rest = []) v]) r2"
      using False v(3,4) rest info_less [OF v(2)] n h
      by (subst array_loop.simps) (auto simp: UndefinedLength_def split: if_splits)
    also have "\<dots> = Some (Inr (ARRAY ((arr @ [image (rest = []) v]) @ image_array (r = []) vs), r))"
      using Cons.prems(1) n by (intro Cons.IH) (simp_all add: rest_def)
    finally show ?thesis using False rest by (auto simp: conj_commute)
  qed
qed

lemma map_loop_reads:
  assumes "\<forall>kv\<in>set d. reads dec (snd kv) \<and> length (fst kv) < 2 ^ 64"
    and "next_header (length d) (concat (map (\<lambda>(k, v). writeString k @ value_encode cbor_stream v) d) @ r) = (m, t, r')"
    and "keys_ascending d" "\<forall>kv\<in>set acc. \<forall>kv'\<in>set d. bytes_less (fst kv) (fst kv')"
  shows "map_loop dec (length d) m t (In_dict acc) r' = Some (Inr (DICTIONARY (acc @ image_dict (r = []) d), r))"
  using assms
proof (induction d arbitrary: m t r' acc)
  case Nil
  then show ?case by (auto simp: next_header_def map_loop.simps [of _ 0])
next
  case (Cons kv d)
  obtain k v where kv: "kv = (k, v)" by (cases kv)
  obtain mv iv bv where v: "value_encode cbor_stream v = (MajorTypeEncoded mv OR iv) # bv" "iv \<le> 27"
      "\<And>old r. dec mv iv old (bv @ r) = Some (Inr (image (r = []) v, r))"
    using Cons.prems(1) kv unfolding reads_def by auto
  obtain i bs where k: "writeInt (of_nat (length k)) CharString = (MajorTypeEncoded CharString OR i) # bs" "i \<le> 27"
      "\<And>r. readIntValue (bs @ r) i = (of_nat (length k), r)"
    by (rule writeInt_read [of "of_nat (length k)" CharString]) blast
  have len: "unat (of_nat (length k) :: u64) = length k" using Cons.prems(1) kv by (simp add: unat_of_nat)
  define rest where "rest = concat (map (\<lambda>(k, v). writeString k @ value_encode cbor_stream v) d) @ r"
  have h: "m = CharString" "t = i" "r' = bs @ k @ (MajorTypeEncoded mv OR iv) # bv @ rest"
    using Cons.prems(2) k(1) v(1) read_header_byte [of i CharString] info_less [OF k(2)]
    by (simp_all add: kv next_header_def writeString_def rest_def)
  have rest: "rest = [] \<longleftrightarrow> d = [] \<and> r = []"
    using k(1) by (cases d) (auto simp: rest_def writeString_def writeInt_def writeNumeric_def split: if_splits)
  have key: "map_key dec m t st r' = Some (Inr ((k, st), (MajorTypeEncoded mv OR iv) # bv @ rest))" for st
    using info_less [OF k(2)] len k(3) by (simp add: map_key_def h UndefinedLength_def offset_def)
  define acc' where "acc' = (if k = [] then acc else acc @ [(k, image (rest = []) v)])"
  have less: "\<forall>x\<in>set acc. bytes_less (fst x) k" using Cons.prems(4) kv by simp
  have val: "map_value dec k (In_dict acc) mv iv (bv @ rest) = Some (Inr (In_dict acc', rest))"
  proof (cases "k = []")
    case False
    have "map_of acc k = None" using less bytes_less_simps by (auto simp: map_of_eq_None_iff)
    then show ?thesis using False v(3) map_emplace_last [OF less] by (simp add: map_value_def acc'_def)
  qed (simp add: map_value_def acc'_def v(3))
  obtain m2 t2 r2 where n: "next_header (length d) rest = (m2, t2, r2)" by (metis prod_cases3)
  have "map_loop dec (length (kv # d)) m t (In_dict acc) r' = map_loop dec (length d) m2 t2 (In_dict acc') r2"
    using key val n info_less [OF v(2)] read_header_byte [of iv mv] h
    by (subst map_loop.simps) (auto simp: UndefinedLength_def)
  also have "\<dots> = Some (Inr (DICTIONARY (acc' @ image_dict (r = []) d), r))"
  proof (rule Cons.IH)
    show "\<forall>kv\<in>set d. reads dec (snd kv) \<and> length (fst kv) < 2 ^ 64" using Cons.prems(1) by simp
    show "next_header (length d) (concat (map (\<lambda>(k, v). writeString k @ value_encode cbor_stream v) d) @ r) = (m2, t2, r2)"
      using n by (simp add: rest_def)
    show "keys_ascending d" using Cons.prems(3) by (simp add: keys_ascending_def)
    show "\<forall>kv\<in>set acc'. \<forall>kv'\<in>set d. bytes_less (fst kv) (fst kv')"
      using Cons.prems(3,4) kv by (auto simp: acc'_def keys_ascending_def)
  qed
  finally show ?case using rest kv by (auto simp: acc'_def conj_commute)
qed

lemma container_size_read:
  assumes "writeInt v m = (MajorTypeEncoded m OR i) # bs" "i \<le> 27" "\<And>r. readIntValue (bs @ r) i = (v, r)"
  shows "container_size i (bs @ r) = (unat v, r)"
  using assms(3) info_less [OF assms(2)] by (simp add: container_size_def UndefinedLength_def)

lemma decodeString_read:
  assumes "i \<le> 27" "\<And>r. readIntValue (bs @ r) i = (of_nat (length s), r)" "length s < 2 ^ 64"
  shows "decodeString m i (bs @ s @ r) = (s, r)"
proof -
  have "unat (of_nat (length s) :: u64) = length s" using assms(3) by (simp add: unat_of_nat)
  then show ?thesis using info_less [OF assms(1)] assms(2) by (simp add: decodeString_def UndefinedLength_def offset_def Let_def)
qed

lemma reads_string:
  assumes e: "value_encode cbor_stream v = writeInt (of_nat (length s)) m @ s" and m: "m = CharString \<or> m = ByteString"
    and s: "length s < 2 ^ 64" and h: "header_only v \<longleftrightarrow> s = []"
    and d: "\<And>i old r r'. decodeString m i r = (s, r') \<Longrightarrow> cbor_decode (Suc n) m i old r = Some (Inr (v, r'))"
    and im: "\<And>b. image b v = v"
  shows "reads (cbor_decode (Suc n)) v"
proof -
  obtain i bs where w: "writeInt (of_nat (length s)) m = (MajorTypeEncoded m OR i) # bs" "i \<le> 27"
      "\<And>r. readIntValue (bs @ r) i = (of_nat (length s), r)" "bs = [] \<longleftrightarrow> i < 24" "i < 24 \<longrightarrow> i = ucast (of_nat (length s) :: u64)"
    by (rule writeInt_read [of "of_nat (length s)" m]) blast
  have z: "bs = []" if "s = []"
    using w(1) that by (simp add: writeInt_def)
  have "cbor_decode (Suc n) m i old ((bs @ s) @ r) = Some (Inr (image (r = []) v, r))" for old r
    using d [OF decodeString_read [OF w(2,3) s]] im by simp
  then show ?thesis
    unfolding reads_def using e w(1,2) m h z
    by (intro exI [of _ m] exI [of _ i] exI [of _ "bs @ s"]) auto
qed

lemma reads_value:
  "value_wf v \<Longrightarrow> lengths_ok v \<Longrightarrow> depth_below n v \<Longrightarrow> reads (cbor_decode n) v"
proof (induction v arbitrary: n)
  case (CHARSTRING s)
  then obtain k where n: "n = Suc k" by (cases n) auto
  show ?case unfolding n
    by (rule reads_string [of _ s CharString]) (use CHARSTRING in \<open>auto simp: cbor_stream_def writeString_def header_only_def\<close>)
next
  case (BYTESTRING s)
  then obtain k where n: "n = Suc k" by (cases n) auto
  show ?case unfolding n
    by (rule reads_string [of _ s ByteString]) (use BYTESTRING in \<open>auto simp: cbor_stream_def writeBytes_def header_only_def\<close>)
next
  case EMPTY
  then obtain k where n: "n = Suc k" by (cases n) auto
  show ?case unfolding n reads_def
    by (intro exI [of _ Simple] exI [of _ 22] exI [of _ "[]"])
      (simp add: cbor_stream_def writeNull_def header_only_def decodeSimpleValue_def)
next
  case (BOOLEAN b)
  then obtain k where n: "n = Suc k" by (cases n) auto
  show ?case unfolding n reads_def
    by (intro exI [of _ Simple] exI [of _ "if b then 21 else 20"] exI [of _ "[]"])
      (simp add: cbor_stream_def writeBool_def header_only_def decodeSimpleValue_def)
next
  case (INTEGER i)
  then obtain k where n: "n = Suc k" by (cases n) auto
  obtain m j bs where "writeSignedInt i = (MajorTypeEncoded m OR j) # bs" "j \<le> 27" "m = Unsigned \<or> m = Negative"
    "bs = [] \<longleftrightarrow> j < 24" "\<And>n old r. cbor_decode (Suc n) m j old (bs @ r) = Some (Inr (INTEGER i, r))"
    by (rule writeSignedInt_read [of i]) blast
  then show ?case unfolding n reads_def
    by (intro exI [of _ m] exI [of _ j] exI [of _ bs]) (auto simp: cbor_stream_def header_only_def)
next
  case (DOUBLE d)
  then obtain k where n: "n = Suc k" by (cases n) auto
  obtain j bs where "writeFloat d = (MajorTypeEncoded Simple OR j) # bs" "25 \<le> j" "j \<le> 27" "bs \<noteq> []"
    "\<And>r. decodeSimpleValue j (bs @ r) = (DOUBLE (canonical_double d), r)"
    by (rule writeFloat_read [of d]) blast
  then show ?case unfolding n reads_def
    by (intro exI [of _ Simple] exI [of _ j] exI [of _ bs]) (auto simp: cbor_stream_def header_only_def)
next
  case (ARRAY a)
  obtain k where n: "n = Suc k" using ARRAY.prems(3) by (cases n) auto
  let ?l = "of_nat (length a) :: u64" and ?e = "concat (map (value_encode cbor_stream) a)"
  obtain i bs where w: "writeInt ?l Array = (MajorTypeEncoded Array OR i) # bs" "i \<le> 27"
      "\<And>r. readIntValue (bs @ r) i = (?l, r)" by (rule writeInt_read [of ?l Array]) blast
  have IH: "\<forall>v\<in>set a. reads (cbor_decode k) v" using ARRAY n by auto
  have l: "unat ?l = length a" using ARRAY.prems(2) by (simp add: unat_of_nat)
  have e: "value_encode cbor_stream (ARRAY a) = (MajorTypeEncoded Array OR i) # (bs @ ?e)"
    using w(1) by (simp add: encode_containers) (simp add: cbor_stream_def writeArrayStart_def)
  have "cbor_decode n Array i old ((bs @ ?e) @ r) = Some (Inr (image (r = []) (ARRAY a), r))" for old r
  proof -
    obtain m t r' where h: "next_header (length a) (?e @ r) = (m, t, r')" by (metis prod_cases3)
    from array_loop_reads [OF IH this, of "[]"] show ?thesis
      using container_size_read [OF w, of "?e @ r"] l h by (simp add: n)
  qed
  moreover have "bs = [] \<and> ?e = []" if "a = []" using w(1) that by (simp add: writeInt_def)
  moreover have "?e \<noteq> []" if "a \<noteq> []" using IH reads_encode_nonempty that by (cases a) auto
  ultimately show ?case unfolding reads_def
    using e w(2) by (intro exI [of _ Array] exI [of _ i] exI [of _ "bs @ ?e"]) (auto simp: header_only_def)
next
  case (DICTIONARY d)
  obtain k where n: "n = Suc k" using DICTIONARY.prems(3) by (cases n) auto
  let ?l = "of_nat (length d) :: u64"
    and ?e = "concat (map (\<lambda>(k, v). writeString k @ value_encode cbor_stream v) d)"
  obtain i bs where w: "writeInt ?l Map = (MajorTypeEncoded Map OR i) # bs" "i \<le> 27"
      "\<And>r. readIntValue (bs @ r) i = (?l, r)" by (rule writeInt_read [of ?l Map]) blast
  have IH: "\<forall>kv\<in>set d. reads (cbor_decode k) (snd kv) \<and> length (fst kv) < 2 ^ 64" using DICTIONARY n by fastforce
  have l: "unat ?l = length d" using DICTIONARY.prems(2) by (simp add: unat_of_nat)
  have e: "value_encode cbor_stream (DICTIONARY d) = (MajorTypeEncoded Map OR i) # (bs @ ?e)"
    using w(1) by (simp add: encode_containers) (simp add: cbor_stream_def writeMapStart_def)
  have "cbor_decode n Map i old ((bs @ ?e) @ r) = Some (Inr (image (r = []) (DICTIONARY d), r))" for old r
  proof -
    obtain m t r' where h: "next_header (length d) (?e @ r) = (m, t, r')" by (metis prod_cases3)
    from map_loop_reads [OF IH this, of "[]"] show ?thesis
      using container_size_read [OF w, of "?e @ r"] l h DICTIONARY.prems(1) by (simp add: n)
  qed
  moreover have "bs = [] \<and> ?e = []" if "d = []" using w(1) that by (simp add: writeInt_def)
  moreover have "?e \<noteq> []" if "d \<noteq> []" using IH reads_encode_nonempty that by (cases d) auto
  ultimately show ?case unfolding reads_def
    using e w(2) by (intro exI [of _ Map] exI [of _ i] exI [of _ "bs @ ?e"]) (auto simp: header_only_def)
qed simp

section \<open>Any input\<close>

text \<open>What a reader returns is well-formed and leaves no more input than there was.\<close>

definition sound_result :: "nat \<Rightarrow> Value read \<Rightarrow> bool" where
  "sound_result l x \<longleftrightarrow> (\<forall>v r. x = Some (Inr (v, r)) \<longrightarrow> value_wf v \<and> length r \<le> l)"

definition sound_decoder :: "decoder \<Rightarrow> bool" where
  "sound_decoder dec \<longleftrightarrow> (\<forall>m t old r. value_wf old \<longrightarrow> sound_result (length r) (dec m t old r))"

fun slot_wf :: "map_slot \<Rightarrow> bool" where
  "slot_wf (In_dict d) = value_wf (DICTIONARY d)"
| "slot_wf Hidden = True"
| "slot_wf (Lost v) = value_wf v"

lemma slot_value_wf: "slot_wf st \<Longrightarrow> value_wf (slot_value st)"
  by (cases st) simp_all

lemma slot_after_key_wf: "value_wf v \<Longrightarrow> slot_wf (slot_after_key st v)"
  by (cases v) (simp_all split: map_slot.split)

lemma slot_element_wf: "slot_wf st \<Longrightarrow> slot_element key st = Inr v \<Longrightarrow> value_wf v"
  by (cases st) (auto split: option.splits dest!: map_of_SomeD)

lemma slot_store_wf:
  assumes "slot_wf st" "value_wf v"
  shows "slot_wf (slot_store key v st)"
proof (cases st)
  case (In_dict d)
  have d: "keys_ascending d" "\<forall>kv\<in>set d. value_wf (snd kv)" using assms(1) In_dict by simp_all
  have "keys_ascending (map_modify key (\<lambda>_. v) d)" using d(1) by (simp add: keys_ascending_def map_modify_keys)
  moreover have "\<forall>kv\<in>set (map_modify key (\<lambda>_. v) d). value_wf (snd kv)" using d(2) assms(2) map_modify_values by fastforce
  moreover have "\<forall>kv\<in>set (map_emplace key v d). value_wf (snd kv)" using d(2) assms(2) map_emplace_values by fastforce
  ultimately show ?thesis using In_dict map_emplace_ascending [OF d(1)] by simp
qed (use assms in simp_all)

lemma readIntValue_shorter: "readIntValue r t = (v, r') \<Longrightarrow> length r' \<le> length r"
  using readIntValue_length [of r t] by simp

lemma undefinedLength_shorter: "length (snd (decodeUndefinedLength m buf r)) \<le> length r"
proof (induction "length r" arbitrary: buf r rule: less_induct)
  case less
  obtain m' t r1 where h: "read_header r = (m', t, r1)" by (metis prod_cases3)
  obtain s r2 where v: "readIntValue r1 t = (s, r2)" by fastforce
  have l: "length r1 = length r - 1" using read_header_rest [of r] h by simp
  define r3 where "r3 = drop (min (length r2) (unat s)) r2"
  have l3: "length r3 \<le> length r1" using readIntValue_shorter [OF v] by (simp add: r3_def)
  have "length (snd (decodeUndefinedLength m buf' r3)) \<le> length r" if "r \<noteq> []" for buf'
  proof -
    have "length (snd (decodeUndefinedLength m buf' r3)) \<le> length r3" using that l l3 by (intro less) (cases r; simp)
    then show ?thesis using l l3 by simp
  qed
  then show ?case
    using h v l l3 by (subst decodeUndefinedLength.simps) (auto simp: Let_def r3_def [symmetric])
qed

lemma decodeString_shorter: "length (snd (decodeString m t r)) \<le> length r"
proof -
  obtain s r2 where v: "readIntValue r t = (s, r2)" by fastforce
  show ?thesis using readIntValue_shorter [OF v] undefinedLength_shorter [of m "[]" r] v
    by (auto simp: decodeString_def Let_def offset_def)
qed

lemma decodeSimpleValue_sound: "value_wf (fst (decodeSimpleValue t r))" "length (snd (decodeSimpleValue t r)) \<le> length r"
  by (simp_all add: decodeSimpleValue_def readUnsigned_def readFloat16_def readUnsigned16_def readFloat32_def readFloat64_def Let_def)

lemma next_header_shorter: "length (snd (snd (next_header sz r))) \<le> length r"
  by (simp add: next_header_def read_header_rest)

lemma array_loop_sound:
  assumes "sound_decoder dec" "\<forall>v\<in>set arr. value_wf v"
  shows "sound_result (length r) (array_loop dec sz m t arr r)"
  using assms(2)
proof (induction sz arbitrary: m t arr r)
  case 0
  then show ?case by (simp add: array_loop.simps [of _ 0] sound_result_def)
next
  case (Suc sz)
  show ?case
  proof (cases "dec m t EMPTY r")
    case (Some x)
    show ?thesis
    proof (cases x)
      case (Inr vr)
      have v: "value_wf (fst vr)" "length (snd vr) \<le> length r"
        using assms(1) Some Inr unfolding sound_decoder_def sound_result_def by (metis prod.collapse value_wf.simps(4))+
      have "sound_result (length (snd (snd (next_header sz (snd vr)))))
          (array_loop dec sz m' t' (arr @ [fst vr]) (snd (snd (next_header sz (snd vr)))))" for m' t'
        using Suc.prems v(1) by (intro Suc.IH) simp
      then have "sound_result (length r) (array_loop dec sz m' t' (arr @ [fst vr]) (snd (snd (next_header sz (snd vr)))))" for m' t'
        using next_header_shorter [of sz "snd vr"] v(2) unfolding sound_result_def by (meson le_trans)
      then show ?thesis
        using Suc.prems Some Inr by (subst array_loop.simps) (simp add: Let_def sound_result_def)
    qed (use Suc.prems Some in \<open>subst array_loop.simps, simp add: sound_result_def\<close>)
  qed (use Suc.prems in \<open>subst array_loop.simps, simp add: sound_result_def\<close>)
qed

lemma map_key_sound:
  assumes "sound_decoder dec" "slot_wf st" "map_key dec m t st r = Some (Inr ((key, st'), r'))"
  shows "slot_wf st'" "length r' \<le> length r"
proof -
  obtain v r2 where v: "readIntValue r t = (v, r2)" by fastforce
  have u: "length (snd (decodeUndefinedLength m' [] r)) \<le> length r" for m' by (rule undefinedLength_shorter)
  have d: "value_wf w \<and> length r3 \<le> length r" if "dec m t (slot_value st) r = Some (Inr (w, r3))" for w r3
    using assms(1) slot_value_wf [OF assms(2)] that unfolding sound_decoder_def sound_result_def by blast
  show "slot_wf st'" "length r' \<le> length r"
    using assms(2,3) v readIntValue_shorter [OF v] u [of m] d slot_after_key_wf
    by (auto simp: map_key_def Let_def offset_def split: if_splits option.splits sum.splits prod.splits)
qed

lemma map_value_sound:
  assumes "sound_decoder dec" "slot_wf st" "map_value dec key st m t r = Some (Inr (st', r'))"
  shows "slot_wf st'" "length r' \<le> length r"
proof -
  obtain old where o: "(if key = [] then Inr EMPTY else slot_element key st) = (Inr old :: fault + Value)"
    using assms(3) by (auto simp: map_value_def split: sum.splits)
  have "value_wf old" using o slot_element_wf [OF assms(2), of key old] by (auto split: if_splits)
  then have d: "value_wf w \<and> length r3 \<le> length r" if "dec m t old r = Some (Inr (w, r3))" for w r3
    using assms(1) that unfolding sound_decoder_def sound_result_def by blast
  show "slot_wf st'" "length r' \<le> length r"
    using assms(2,3) d slot_store_wf [OF assms(2)] unfolding map_value_def o
    by (auto split: if_splits option.splits sum.splits prod.splits)
qed

lemma map_loop_sound:
  assumes "sound_decoder dec" "slot_wf st"
  shows "sound_result (length r) (map_loop dec sz m t st r)"
  using assms(2)
proof (induction sz arbitrary: m t st r)
  case 0
  then show ?case by (simp add: map_loop.simps [of _ 0] sound_result_def slot_value_wf)
next
  case (Suc sz)
  show ?case
  proof (cases "r \<noteq> [] \<and> \<not> (m = Simple \<and> t = UndefinedLength)")
    case True
    show ?thesis
    proof (cases "map_key dec m t st r")
      case (Some x)
      show ?thesis
      proof (cases x)
        case (Inr y)
        obtain key st1 r1 where y: "y = ((key, st1), r1)" by (metis prod.collapse)
        have k: "slot_wf st1" "length r1 \<le> length r"
          using map_key_sound [OF assms(1) Suc.prems] Some Inr y by blast+
        obtain m1 t1 r2 where h: "read_header r1 = (m1, t1, r2)" by (metis prod_cases3)
        have l2: "length r2 \<le> length r" using k(2) read_header_rest [of r1] h by simp
        show ?thesis
        proof (cases "r1 = [] \<or> m1 = Simple \<and> t1 = UndefinedLength")
          case True
          then show ?thesis
            using \<open>r \<noteq> [] \<and> _\<close> Some Inr y h k l2
            by (subst map_loop.simps) (auto simp: sound_result_def slot_value_wf)
        next
          case False
          show ?thesis
          proof (cases "map_value dec key st1 m1 t1 r2")
            case (Some z)
            note key = \<open>map_key dec m t st r = Some x\<close>
            show ?thesis
            proof (cases z)
              case (Inl e)
              then show ?thesis
                using \<open>r \<noteq> [] \<and> _\<close> False key \<open>x = Inr y\<close> y h Some
                by (subst map_loop.simps) (auto simp: sound_result_def)
            next
              case (Inr w)
              obtain st3 r3 where w: "w = (st3, r3)" by fastforce
              have v: "slot_wf st3" "length r3 \<le> length r2"
                using map_value_sound [OF assms(1) k(1)] Some Inr w by blast+
              define r4 where "r4 = snd (snd (next_header sz r3))"
              have "length r4 \<le> length r" using next_header_shorter [of sz r3] v(2) l2 by (simp add: r4_def)
              moreover have "sound_result (length r4) (map_loop dec sz m' t' st3 r4)" for m' t'
                by (rule Suc.IH [OF v(1)])
              ultimately have "sound_result (length r) (map_loop dec sz m' t' st3 r4)" for m' t'
                unfolding sound_result_def by (meson le_trans)
              then show ?thesis
                using \<open>r \<noteq> [] \<and> _\<close> False key \<open>x = Inr y\<close> y h Some Inr w
                by (subst map_loop.simps) (auto simp: Let_def r4_def sound_result_def slot_value_wf)
            qed
          next
            case None
            then show ?thesis
              using \<open>r \<noteq> [] \<and> _\<close> False \<open>map_key dec m t st r = Some x\<close> \<open>x = Inr y\<close> y h
              by (subst map_loop.simps) (auto simp: sound_result_def)
          qed
        qed
      qed (use True Some in \<open>subst map_loop.simps, simp add: sound_result_def\<close>)
    qed (use True in \<open>subst map_loop.simps, simp add: sound_result_def\<close>)
  qed (use Suc.prems in \<open>subst map_loop.simps, auto simp: sound_result_def slot_value_wf\<close>)
qed

lemma decode_next_sound:
  assumes "sound_decoder dec" "value_wf old"
  shows "sound_result (length r) (decode_next dec old r)"
proof -
  obtain m t r1 where h: "read_header r = (m, t, r1)" by (metis prod_cases3)
  have "length r1 \<le> length r" using read_header_rest [of r] h by simp
  moreover have "sound_result (length r1) (dec m t old r1)" using assms unfolding sound_decoder_def by blast
  ultimately have "sound_result (length r) (dec m t old r1)" unfolding sound_result_def by (meson le_trans)
  then show ?thesis using assms(2) h by (simp add: decode_next_def) (simp add: sound_result_def)
qed

lemma sound_result_mono: "sound_result l x \<Longrightarrow> l \<le> l' \<Longrightarrow> sound_result l' x"
  by (simp add: sound_result_def) (blast intro: le_trans)

lemma container_size_shorter: "length (snd (container_size t r)) \<le> length r"
  using readIntValue_length [of r t] by (auto simp: container_size_def split: prod.split)

lemma cbor_decode_sound: "sound_decoder (cbor_decode n)"
proof (induction n)
  case 0
  show ?case by (simp add: sound_decoder_def sound_result_def)
next
  case (Suc n)
  have "sound_result (length r) (cbor_decode (Suc n) m t old r)" if old: "value_wf old" for m t old r
  proof -
    obtain v r1 where v: "readIntValue r t = (v, r1)" by fastforce
    obtain sz r2 where c: "container_size t r = (sz, r2)" by fastforce
    obtain m' t' r3 where h: "next_header sz r2 = (m', t', r3)" by (metis prod_cases3)
    have l: "length r1 \<le> length r" "length r3 \<le> length r"
      using readIntValue_shorter [OF v] container_size_shorter [of t r] next_header_shorter [of sz r2] c h by simp_all
    have "sound_result (length r) (array_loop (cbor_decode n) sz m' t' [] r3)"
      by (rule sound_result_mono [OF array_loop_sound [OF Suc] l(2)]) simp
    moreover have "sound_result (length r) (map_loop (cbor_decode n) sz m' t' (In_dict []) r3)"
      by (rule sound_result_mono [OF map_loop_sound [OF Suc] l(2)]) (simp add: keys_ascending_def)
    moreover have "sound_result (length r) (decode_next (cbor_decode n) old r1)"
      by (rule sound_result_mono [OF decode_next_sound [OF Suc old] l(1)])
    moreover have "length (snd (decodeString m t r)) \<le> length r" by (rule decodeString_shorter)
    ultimately show ?thesis
      using v c h l decodeSimpleValue_sound [of t r]
      by (cases m) (auto simp: sound_result_def Let_def split: prod.split)
  qed
  then show ?case unfolding sound_decoder_def by blast
qed

section \<open>Enough fuel\<close>

text \<open>A level of nesting takes a byte, except that past the end of the input there are only zeros.\<close>

definition enters :: "nat \<Rightarrow> MajorType \<Rightarrow> u8 view \<Rightarrow> bool" where
  "enters n m r \<longleftrightarrow> length r < n \<and> (m = Array \<or> m = Map \<or> m = Tag \<longrightarrow> length r + 1 < n)"

definition answers :: "nat \<Rightarrow> decoder \<Rightarrow> bool" where
  "answers n dec \<longleftrightarrow> (\<forall>m t old r. value_wf old \<longrightarrow> enters n m r \<longrightarrow> dec m t old r \<noteq> None)"

lemma read_header_enters: "length r < n \<Longrightarrow> read_header r = (m, t, r') \<Longrightarrow> enters n m r'"
  using read_header_rest [of r] by (cases r) (auto simp: enters_def read_header_nil)

lemma next_header_enters: "length r < n \<Longrightarrow> next_header sz r = (m, t, r') \<Longrightarrow> enters n m r'"
  using read_header_enters [of r n m t r'] by (auto simp: next_header_def enters_def split: if_splits)

lemma array_loop_answers:
  assumes "answers n dec" "sound_decoder dec" "enters n m r"
  shows "array_loop dec sz m t arr r \<noteq> None"
  using assms(3)
proof (induction sz arbitrary: m t arr r)
  case 0
  then show ?case by (simp add: array_loop.simps [of _ 0])
next
  case (Suc sz)
  obtain x where x: "dec m t EMPTY r = Some x"
    using assms(1) Suc.prems unfolding answers_def by (metis option.exhaust value_wf.simps(4))
  show ?case
  proof (cases x)
    case (Inr vr)
    have "length (snd vr) \<le> length r"
      using assms(2) x Inr unfolding sound_decoder_def sound_result_def by (metis prod.collapse value_wf.simps(4))
    then have "length (snd vr) < n" using Suc.prems by (simp add: enters_def)
    then have "array_loop dec sz (fst (next_header sz (snd vr))) (fst (snd (next_header sz (snd vr)))) (arr @ [fst vr])
        (snd (snd (next_header sz (snd vr)))) \<noteq> None"
      using next_header_enters [of "snd vr" n sz] by (intro Suc.IH) (metis prod.collapse)
    then show ?thesis using x Inr by (subst array_loop.simps) (simp add: Let_def)
  qed (use x in \<open>subst array_loop.simps, simp\<close>)
qed

lemma map_key_answers:
  assumes "answers n dec" "slot_wf st" "enters n m r"
  shows "map_key dec m t st r \<noteq> None"
proof -
  have d: "dec m t (slot_value st) r \<noteq> None"
    using assms slot_value_wf unfolding answers_def by blast
  show ?thesis unfolding map_key_def Let_def using d by (cases "readIntValue r t") (auto split: option.split sum.split prod.split)
qed

lemma map_value_answers:
  assumes "answers n dec" "slot_wf st" "enters n m r"
  shows "map_value dec key st m t r \<noteq> None"
proof (cases "if key = [] then Inr EMPTY else slot_element key st")
  case (Inr old)
  then have "value_wf old" using slot_element_wf [OF assms(2), of key old] by (auto split: if_splits)
  then have "dec m t old r \<noteq> None" using assms unfolding answers_def by blast
  then show ?thesis unfolding map_value_def Inr by (auto split: option.split sum.split prod.split)
qed (simp add: map_value_def)

lemma map_loop_answers:
  assumes "answers n dec" "sound_decoder dec" "slot_wf st" "enters n m r"
  shows "map_loop dec sz m t st r \<noteq> None"
  using assms(3,4)
proof (induction sz arbitrary: m t st r)
  case 0
  then show ?case by (simp add: map_loop.simps [of _ 0])
next
  case (Suc sz)
  obtain x where x: "map_key dec m t st r = Some x" using map_key_answers [OF assms(1) Suc.prems] by blast
  show ?case
  proof (cases x)
    case (Inr y)
    obtain key st1 r1 where y: "y = ((key, st1), r1)" by (metis prod.collapse)
    have k: "slot_wf st1" "length r1 < n"
      using map_key_sound [OF assms(2) Suc.prems(1)] x Inr y Suc.prems(2) unfolding enters_def by (blast, fastforce)
    obtain m1 t1 r2 where h: "read_header r1 = (m1, t1, r2)" by (metis prod_cases3)
    have e: "enters n m1 r2" using read_header_enters [OF k(2) h] .
    obtain z where z: "map_value dec key st1 m1 t1 r2 = Some z" using map_value_answers [OF assms(1) k(1) e] by blast
    have "map_loop dec sz m' t' st3 r4 \<noteq> None" if "z = Inr (st3, r3)" "next_header sz r3 = (m', t', r4)" for st3 r3 m' t' r4
    proof -
      have "slot_wf st3" "length r3 \<le> length r2" using map_value_sound [OF assms(2) k(1)] z that(1) by blast+
      then show ?thesis using e by (intro Suc.IH next_header_enters [OF _ that(2)]) (auto simp: enters_def)
    qed
    then show ?thesis using x Inr y h z
      by (subst map_loop.simps) (auto simp: Let_def split: sum.split)
  qed (use x in \<open>subst map_loop.simps, simp\<close>)
qed

lemma decode_next_answers: "answers n dec \<Longrightarrow> value_wf old \<Longrightarrow> length r < n \<Longrightarrow> decode_next dec old r \<noteq> None"
  using read_header_enters [of r n] unfolding answers_def
  by (auto simp: decode_next_def split: prod.split)

lemma cbor_decode_answers: "answers n (cbor_decode n)"
proof (induction n)
  case 0
  show ?case by (simp add: answers_def enters_def)
next
  case (Suc n)
  note sound = cbor_decode_sound [of n]
  have "cbor_decode (Suc n) m t old r \<noteq> None" if old: "value_wf old" and e: "enters (Suc n) m r" for m t old r
  proof (cases "m = Array \<or> m = Map \<or> m = Tag")
    case True
    then have r: "length r < n" using e by (simp add: enters_def)
    obtain v r1 where v: "readIntValue r t = (v, r1)" by fastforce
    obtain sz r2 where c: "container_size t r = (sz, r2)" by fastforce
    obtain m' t' r3 where h: "next_header sz r2 = (m', t', r3)" by (metis prod_cases3)
    have "length r1 < n" using readIntValue_shorter [OF v] r by simp
    then have "decode_next (cbor_decode n) old r1 \<noteq> None" by (rule decode_next_answers [OF Suc old])
    moreover have e': "enters n m' r3" using container_size_shorter [of t r] c r by (intro next_header_enters [OF _ h]) simp
    moreover have "array_loop (cbor_decode n) sz m' t' [] r3 \<noteq> None" by (rule array_loop_answers [OF Suc sound e'])
    moreover have "map_loop (cbor_decode n) sz m' t' (In_dict []) r3 \<noteq> None"
      by (rule map_loop_answers [OF Suc sound _ e']) (simp add: keys_ascending_def)
    ultimately show ?thesis using True v c h by auto
  next
    case False
    then show ?thesis by (cases m) (simp_all split: prod.split)
  qed
  then show ?case unfolding answers_def by blast
qed

section \<open>Properties\<close>

lemma writeId_read: "bs \<noteq> [] \<Longrightarrow> cbor_read n (writeId @ bs) = decode_next (cbor_decode n) EMPTY bs"
  by (cases bs) (simp_all add: cbor_read_def writeId_def offset_def)

lemma array_loop_past_end:
  assumes "\<And>old. dec Unsigned 0 old [] = Some (Inr (INTEGER 0, []))" "next_header sz [] = (m, t, r)"
  shows "array_loop dec sz m t arr r = Some (Inr (ARRAY (arr @ replicate sz (INTEGER 0)), []))"
  using assms(2)
proof (induction sz arbitrary: m t r arr)
  case 0
  then show ?case by (auto simp: next_header_def array_loop.simps [of _ 0])
next
  case (Suc sz)
  have h: "m = Unsigned" "t = 0" "r = []" using Suc.prems by (simp_all add: next_header_def read_header_nil)
  obtain m2 t2 r2 where n: "next_header sz [] = (m2, t2, r2)" by (metis prod_cases3)
  show ?case using Suc.IH [OF n, of "arr @ [INTEGER 0]"] assms(1) n h by (subst array_loop.simps) simp
qed




text \<open>
  C4: A value that is written and read back is its image, with what follows it left unread: every number,
  string, array and dictionary at every depth, save that a NaN becomes the quiet NaN, a pair with the empty key
  is left out, and at the very end of the input an empty string or container that ends an array is lost.
\<close>

lemma cbor_roundtrip:
  assumes "value_wf v" "lengths_ok v" "depth_below n v"
  shows "cbor_read n (cbor_write v @ r) = Some (Inr (image (r = []) v, r))"
proof -
  obtain m i bs where b: "value_encode cbor_stream v = (MajorTypeEncoded m OR i) # bs" "i \<le> 27"
      "\<And>old r. cbor_decode n m i old (bs @ r) = Some (Inr (image (r = []) v, r))"
    using reads_value [OF assms] unfolding reads_def by auto
  then show ?thesis
    using info_less [OF b(2)] by (simp add: cbor_write_def writeId_read decode_next_def read_header_byte)
qed

lemma cbor_roundtrip_witness:
  "cbor_read 3 (cbor_write (DICTIONARY [([0x61], ARRAY [INTEGER (- 300), EMPTY]), ([0x62], BOOLEAN True)]))
   = Some (Inr (DICTIONARY [([0x61], ARRAY [INTEGER (- 300), EMPTY]), ([0x62], BOOLEAN True)], []))"
  using cbor_roundtrip [of "DICTIONARY [([0x61], ARRAY [INTEGER (- 300), EMPTY]), ([0x62], BOOLEAN True)]" 3 "[]"]
  by (simp add: keys_ascending_def bytes_less_def numeral_3_eq_3 header_only_def)

text \<open>
  Elements that are missing are read as zeros: an array whose header announces \<open>k\<close> elements with nothing
  behind it is an array of \<open>k\<close> zeros, and one of undefined length, of \<open>2 ^ 64 - 1\<close> zeros.
\<close>

lemma cbor_missing_elements:
  "cbor_read 2 (writeId @ writeInt k Array) = Some (Inr (ARRAY (replicate (unat k) (INTEGER 0)), []))
   \<and> cbor_read 2 (writeId @ [MajorTypeEncoded Array OR UndefinedLength])
     = Some (Inr (ARRAY (replicate (2 ^ 64 - 1) (INTEGER 0)), []))"
proof -
  have zeros: "array_loop (cbor_decode (Suc 0)) sz m t [] r = Some (Inr (ARRAY (replicate sz (INTEGER 0)), []))"
    if "next_header sz [] = (m, t, r)" for sz m t r
    using array_loop_past_end [OF _ that, of "cbor_decode (Suc 0)" "[]"] by (simp add: readIntValue_def)
  have array: "cbor_decode 2 Array i EMPTY bs = Some (Inr (ARRAY (replicate sz (INTEGER 0)), []))"
    if "container_size i bs = (sz, [])" for i bs sz
  proof -
    obtain m t r where h: "next_header sz [] = (m, t, r)" by (metis prod_cases3)
    show ?thesis using that zeros [OF h] h by (simp add: numeral_2_eq_2)
  qed
  obtain i bs where w: "writeInt k Array = (MajorTypeEncoded Array OR i) # bs" "i \<le> 27"
      "\<And>r. readIntValue (bs @ r) i = (k, r)" by (rule writeInt_read [of k Array]) blast
  have "cbor_read 2 (writeId @ writeInt k Array) = Some (Inr (ARRAY (replicate (unat k) (INTEGER 0)), []))"
    using array [of i bs "unat k"] container_size_read [OF w, of "[]"] info_less [OF w(2)] w(1)
    by (simp add: writeId_read decode_next_def read_header_byte)
  moreover have "container_size UndefinedLength [] = (2 ^ 64 - 1, [])" by (simp add: container_size_def)
  then have "cbor_read 2 (writeId @ [MajorTypeEncoded Array OR UndefinedLength])
      = Some (Inr (ARRAY (replicate (2 ^ 64 - 1) (INTEGER 0)), []))"
    using array [of UndefinedLength "[]" "2 ^ 64 - 1"] read_header_byte [of UndefinedLength Array "[]"]
    unfolding writeId_read [OF list.distinct(2)] decode_next_def by (simp add: UndefinedLength_def)
  ultimately show ?thesis ..
qed

end
