(* ===== verification/Json.thy ===== *)
theory Json
  imports DataValue DateFormat
begin

text \<open>
  Models \<^verbatim>\<open>modules/data/SPDataEncodeJson.h\<close> and \<^verbatim>\<open>SPDataDecodeJson.h\<close>: the JSON writers, compact and
  pretty, and the lenient JSON reader of \<^verbatim>\<open>data::Value\<close>.

  The writers return the text they put into the stream. What the standard library does with a double is an
  argument: \<open>fmt\<close> prints it with 17 digits, \<open>strtod\<close> reads one. The reader's stack of pointers is a
  list of the open containers, the innermost first. The reader looks at the byte behind its input in places;
  that byte is the argument \<open>z\<close>.
\<close>

section \<open>Writing\<close>

definition hex_digit :: "nat \<Rightarrow> u8" where
  "hex_digit n = (if n < 10 then of_nat (0x30 + n) else of_nat (0x61 + (n - 10)))"

text \<open>A control character is written as four hexadecimal digits.\<close>

definition hex4 :: "u8 \<Rightarrow> u8 list" where
  "hex4 i = [0x30, 0x30, hex_digit (unat i div 16), hex_digit (unat i mod 16)]"

definition encodeChar :: "u8 \<Rightarrow> u8 list" where
  "encodeChar i =
     (if i = 0x0a then [0x5c, 0x6e]
      else if i = 0x0d then [0x5c, 0x72]
      else if i = 0x09 then [0x5c, 0x74]
      else if i = 0x0c then [0x5c, 0x66]
      else if i = 0x08 then [0x5c, 0x62]
      else if i = 0x5c then [0x5c, 0x5c]
      else if i = 0x22 then [0x5c, 0x22]
      else if i = 0x20 then [0x20]
      else if i \<le> 0x20 then [0x5c, 0x75] @ hex4 i
      else [i])"

definition encodeString :: "u8 list \<Rightarrow> u8 list" where
  "encodeString str = 0x22 # concat (map encodeChar str) @ [0x22]"

definition json_null :: "u8 list" where "json_null = ascii ''null''"

definition json_bool :: "bool \<Rightarrow> u8 list" where
  "json_bool b = (if b then ascii ''true'' else ascii ''false'')"

definition json_bytes :: "u8 list \<Rightarrow> u8 list" where
  "json_bytes d = 0x22 # ascii ''BASE64:'' @ b64url_encode d @ [0x22]"

definition json_stream :: "(u64 \<Rightarrow> u8 list) \<Rightarrow> stream" where
  "json_stream fmt = \<lparr> write_null = json_null, write_bool = json_bool, write_int = to_decimal_signed, write_double = fmt,
     write_str = encodeString, write_bytes = json_bytes, on_begin_array = (\<lambda>_. [0x5b]), on_end_array = [0x5d],
     on_begin_dict = (\<lambda>_. [0x7b]), on_end_dict = [0x7d], on_next_value = [0x2c],
     on_key = (\<lambda>k. encodeString k @ [0x3a]) \<rparr>"

section \<open>Pretty writing\<close>

record pretty =
  depth :: nat
  popComplex :: bool
  offsetted :: bool
  lastKey :: "u8 list"
  bstack :: "bool list"

definition pretty_init :: pretty where
  "pretty_init = \<lparr> depth = 0, popComplex = False, offsetted = False, lastKey = [], bstack = [] \<rparr>"

definition indent :: "nat \<Rightarrow> u8 list" where
  "indent n = 0x0a # replicate n 0x09"

definition isObjectArray :: "Value list \<Rightarrow> bool" where
  "isObjectArray arr \<longleftrightarrow> list_all (\<lambda>v. getType v = T_DICTIONARY) arr"

text \<open>
  With \<^verbatim>\<open>timeMarkers\<close> a number of microseconds under a key that speaks of a time is followed by a comment
  with that time.
\<close>

definition time_key :: "u8 list \<Rightarrow> bool" where
  "time_key k \<longleftrightarrow> (\<exists>w\<in>set [''time'', ''Time'', ''TIME'', ''date'', ''Date'']. find_string (ascii w) 0 k \<noteq> None)"

definition pretty_int :: "bool \<Rightarrow> u64 \<Rightarrow> pretty \<Rightarrow> u8 list" where
  "pretty_int timeMarkers v p =
     to_decimal_signed v @
     (if timeMarkers \<and> time_key (lastKey p) \<and> 1000000000000000 <s v \<and> v <s 10000000000000000
      then ascii '' /* '' @ toRfc822 v @ ascii '' */'' else [])"

definition pretty_onValue :: "Value \<Rightarrow> pretty \<Rightarrow> u8 list \<times> pretty" where
  "pretty_onValue v p =
     (if depth p > 0 then
        (if popComplex p \<and> (getType v = T_ARRAY \<or> getType v = T_DICTIONARY) then ([0x20], p\<lparr> popComplex := False \<rparr>)
         else if \<not> offsetted p then (indent (depth p), p\<lparr> offsetted := True, popComplex := False \<rparr>)
         else ([], p\<lparr> popComplex := False \<rparr>))
      else ([], p))"

definition pretty_onBeginArray :: "Value list \<Rightarrow> pretty \<Rightarrow> u8 list \<times> pretty" where
  "pretty_onBeginArray arr p =
     ([0x5b], if \<not> isObjectArray arr then p\<lparr> depth := depth p + 1, bstack := bstack p @ [False], offsetted := False \<rparr>
        else p\<lparr> bstack := bstack p @ [True] \<rparr>)"

definition pretty_onEndArray :: "pretty \<Rightarrow> u8 list \<times> pretty" where
  "pretty_onEndArray p =
     (if bstack p \<noteq> [] then
        (if \<not> List.last (bstack p) then
           (indent (depth p - 1) @ [0x5d], p\<lparr> depth := depth p - 1, bstack := butlast (bstack p), popComplex := True \<rparr>)
         else ([0x5d], p\<lparr> bstack := butlast (bstack p), popComplex := True \<rparr>))
      else (indent (depth p - 1) @ [0x5d], p\<lparr> depth := depth p - 1, popComplex := True \<rparr>))"

definition pretty_onBeginDict :: "pretty \<Rightarrow> u8 list \<times> pretty" where
  "pretty_onBeginDict p = ([0x7b], p\<lparr> lastKey := [], depth := depth p + 1 \<rparr>)"

definition pretty_onEndDict :: "pretty \<Rightarrow> u8 list \<times> pretty" where
  "pretty_onEndDict p = (indent (depth p - 1) @ [0x7d], p\<lparr> lastKey := [], depth := depth p - 1, popComplex := True \<rparr>)"

definition pretty_onKey :: "u8 list \<Rightarrow> pretty \<Rightarrow> u8 list \<times> pretty" where
  "pretty_onKey str p = (indent (depth p) @ encodeString str @ [0x3a, 0x20], p\<lparr> lastKey := str, offsetted := True \<rparr>)"

definition pretty_onNextValue :: "pretty \<Rightarrow> u8 list \<times> pretty" where
  "pretty_onNextValue p = ([0x2c], p\<lparr> lastKey := [] \<rparr>)"

text \<open>\<^verbatim>\<open>Value::encode\<close> with the operations of the pretty encoder.\<close>

fun pretty_value :: "(u64 \<Rightarrow> u8 list) \<Rightarrow> bool \<Rightarrow> Value \<Rightarrow> pretty \<Rightarrow> u8 list \<times> pretty"
and pretty_array :: "(u64 \<Rightarrow> u8 list) \<Rightarrow> bool \<Rightarrow> bool \<Rightarrow> Value list \<Rightarrow> pretty \<Rightarrow> u8 list \<times> pretty"
and pretty_dict :: "(u64 \<Rightarrow> u8 list) \<Rightarrow> bool \<Rightarrow> bool \<Rightarrow> (u8 list \<times> Value) list \<Rightarrow> pretty \<Rightarrow> u8 list \<times> pretty" where
  "pretty_value fmt timeMarkers v p =
     (let (o1, p) = pretty_onValue v p in
      case v of
        EMPTY \<Rightarrow> (o1 @ json_null, p\<lparr> offsetted := False \<rparr>)
      | BOOLEAN b \<Rightarrow> (o1 @ json_bool b, p\<lparr> offsetted := False \<rparr>)
      | INTEGER i \<Rightarrow> (o1 @ pretty_int timeMarkers i p, p\<lparr> offsetted := False \<rparr>)
      | DOUBLE d \<Rightarrow> (o1 @ fmt d, p\<lparr> offsetted := False \<rparr>)
      | CHARSTRING s \<Rightarrow> (o1 @ encodeString s, p\<lparr> offsetted := False \<rparr>)
      | BYTESTRING s \<Rightarrow> (o1 @ json_bytes s, p\<lparr> offsetted := False \<rparr>)
      | ARRAY a \<Rightarrow>
          (let (o2, p) = pretty_onBeginArray a p; (o3, p) = pretty_array fmt timeMarkers False a p; (o4, p) = pretty_onEndArray p
           in (o1 @ o2 @ o3 @ o4, p))
      | DICTIONARY d \<Rightarrow>
          (let (o2, p) = pretty_onBeginDict p; (o3, p) = pretty_dict fmt timeMarkers False d p; (o4, p) = pretty_onEndDict p
           in (o1 @ o2 @ o3 @ o4, p))
      | NONE \<Rightarrow> (o1, p))"
| "pretty_array fmt timeMarkers begin [] p = ([], p)"
| "pretty_array fmt timeMarkers begin (v # vs) p =
     (let (o1, p) = (if begin then pretty_onNextValue p else ([], p));
          (o2, p) = pretty_value fmt timeMarkers v p; (o3, p) = pretty_array fmt timeMarkers True vs p
      in (o1 @ o2 @ o3, p))"
| "pretty_dict fmt timeMarkers begin [] p = ([], p)"
| "pretty_dict fmt timeMarkers begin ((k, v) # d) p =
     (let (o1, p) = (if begin then pretty_onNextValue p else ([], p)); (o2, p) = pretty_onKey k p;
          (o3, p) = pretty_value fmt timeMarkers v p; (o4, p) = pretty_dict fmt timeMarkers True d p
      in (o1 @ o2 @ o3 @ o4, p))"

definition json_write :: "(u64 \<Rightarrow> u8 list) \<Rightarrow> bool \<Rightarrow> bool \<Rightarrow> Value \<Rightarrow> u8 list" where
  "json_write fmt timeMarkers pretty val =
     (if pretty then fst (pretty_value fmt timeMarkers val pretty_init) else value_encode (json_stream fmt) val)"

section \<open>Reading\<close>

text \<open>The byte \<^verbatim>\<open>r[0]\<close>, which past the end is the one behind the input.\<close>

definition peek :: "u8 \<Rightarrow> u8 view \<Rightarrow> u8" where
  "peek z r = (if r = [] then z else r ! 0)"

definition number_char :: "u8 \<Rightarrow> bool" where
  "number_char c \<longleftrightarrow> 0x30 \<le> c \<and> c \<le> 0x39"

text \<open>The parts of a number: the first component is whether it makes the number a float.\<close>

definition skip_minus :: "u8 view \<Rightarrow> u8 view" where
  "skip_minus r = (if view_is 0x2d r then view_next r else r)"

definition skip_fraction :: "u8 view \<Rightarrow> bool \<times> u8 view" where
  "skip_fraction r = (if view_is 0x2e r then (True, skipChars number_char (view_next r)) else (False, r))"

definition skip_exponent :: "u8 view \<Rightarrow> bool \<times> u8 view" where
  "skip_exponent r =
     (if view_is 0x45 r \<or> view_is 0x65 r
      then (True, let r = view_next r; r = (if view_is 0x2b r \<or> view_is 0x2d r then view_next r else r) in skipChars number_char r)
      else (False, r))"

definition decodeNumber :: "u8 view \<Rightarrow> u8 view \<times> bool \<times> u8 view" where
  "decodeNumber tmp =
     (let (f, r) = skip_fraction (skipChars number_char (skip_minus tmp)); (e, r) = skip_exponent r
      in (take (length tmp - length r) tmp, f \<or> e, r))"

definition escape :: "u8 \<Rightarrow> u8" where
  "escape c =
     (if c = 0x22 then 0x22 else if c = 0x27 then 0x27 else if c = 0x2f then 0x2f else if c = 0x5c then 0x5c
      else if c = 0x62 then 0x08 else if c = 0x66 then 0x0c else if c = 0x6e then 0x0a else if c = 0x72 then 0x0d
      else if c = 0x74 then 0x09 else 0)"

definition string_end :: "u8 \<Rightarrow> bool" where
  "string_end c \<longleftrightarrow> c = 0x5c \<or> c = 0x22"

definition read_escape :: "u8 \<Rightarrow> u8 view \<Rightarrow> u8 list \<times> u8 view" where
  "read_escape z r =
     (if view_is 0x75 r then
        (let r = view_next r in
         if length r \<ge> 4
         then (utf8Encode (push_bit 8 (ucast (hexToChar (r ! 0) (r ! 1))) OR ucast (hexToChar (r ! 2) (r ! 3))), offset 4 r)
         else ([], []))
      else ([escape (peek z r)], view_next r))"

lemma read_escape_shorter: "length (snd (read_escape z r)) \<le> length r"
  by (auto simp: read_escape_def view_next_def offset_def Let_def)

function buffer_loop :: "u8 \<Rightarrow> u8 list \<Rightarrow> u8 view \<Rightarrow> u8 list \<times> u8 view" where
  "buffer_loop z ref r =
     (if r \<noteq> [] \<and> \<not> view_is 0x22 r then
        (let e = (if view_is 0x5c r then read_escape z (view_next r) else ([], r));
             s = readUntil string_end (snd e)
         in buffer_loop z (ref @ fst e @ fst s) (snd s))
      else (ref, if view_is 0x22 r then view_next r else r))"
  by pat_completeness auto
termination
proof (relation "measure (\<lambda>(z, ref, r). length r)")
  fix z :: u8 and ref :: "u8 list" and r :: "u8 view" and e s
  assume a: "r \<noteq> [] \<and> \<not> view_is 0x22 r" "e = (if view_is 0x5c r then read_escape z (view_next r) else ([], r))"
    "s = readUntil string_end (snd e)"
  obtain c cs where r: "r = c # cs" using a(1) by (cases r) auto
  have "length (snd s) < length r"
  proof (cases "c = 0x5c")
    case True
    then have "length (snd e) \<le> length cs" using a(2) r read_escape_shorter [of z cs] by (simp add: view_is_def view_next_def)
    then show ?thesis using length_dropWhile_le [of "\<lambda>c. \<not> string_end c" "snd e"] by (simp add: a(3) r read_eq)
  next
    case False
    then show ?thesis using a(1) length_dropWhile_le [of "\<lambda>c. \<not> string_end c" cs]
      by (simp add: a(2,3) r read_eq view_is_def string_end_def)
  qed
  then show "((z, ref @ fst e @ fst s, snd s), (z, ref, r)) \<in> measure (\<lambda>(z, ref, r). length r)" by simp
qed simp

declare buffer_loop.simps [simp del]

definition parseBufferString :: "u8 \<Rightarrow> u8 view \<Rightarrow> u8 list \<times> u8 view" where
  "parseBufferString z r =
     (let r = (if view_is 0x22 r then view_next r else r); (s, r) = readUntil string_end r in buffer_loop z s r)"

text \<open>An open container: an array, or a dictionary with the key of the value that is being read.\<close>

datatype frame = BackIsArray "Value list" | BackIsDict dictionary "u8 list"

datatype parsed = Scalar Value "u8 view" | Opened frame "u8 view"

definition parseJsonNumber :: "(u8 list \<Rightarrow> u64 \<times> nat) \<Rightarrow> Value \<Rightarrow> u8 view \<Rightarrow> Value \<times> u8 view" where
  "parseJsonNumber strtod old r =
     (let (value, isFloat, r) = decodeNumber r in
      if value = [] then (old, r)
      else if isFloat then (case fst (readDouble strtod value) of Some d \<Rightarrow> DOUBLE d | None \<Rightarrow> old, r)
      else (case fst (readInteger 0 value) of Some i \<Rightarrow> INTEGER (word_of_int i) | None \<Rightarrow> old, r))"

definition value_start :: "u8 \<Rightarrow> bool" where
  "value_start c \<longleftrightarrow> c \<in> set [0x22, 0x74, 0x66, 0x6e, 0x2b, 0x2d, 0x5b, 0x7b, 0x5d, 0x7d] \<or> number_char c"

definition parseValue :: "(u8 list \<Rightarrow> u64 \<times> nat) \<Rightarrow> u8 \<Rightarrow> Value \<Rightarrow> u8 view \<Rightarrow> parsed" where
  "parseValue strtod z old r =
     (let c = peek z r in
      if c = 0x22 then (let (s, r) = parseBufferString z r in Scalar (CHARSTRING s) r)
      else if c = 0x74 then Scalar (BOOLEAN True) (offset 4 r)
      else if c = 0x66 then Scalar (BOOLEAN False) (offset 5 r)
      else if number_char c \<or> c = 0x2b \<or> c = 0x2d then (let (v, r) = parseJsonNumber strtod old r in Scalar v r)
      else if c = 0x5b then Opened (BackIsArray []) (view_next r)
      else if c = 0x7b then Opened (BackIsDict [] []) (view_next r)
      else if c = 0x6e then
        (if prefix_of (ascii ''nan'') r then Scalar (DOUBLE double_nan) (offset 3 r) else Scalar old (offset 4 r))
      else Scalar old (skipUntil value_start r))"

text \<open>Closing a container stores it in the one around it; the outermost one is the result.\<close>

type_synonym parse_stack = "frame list \<times> Value"

fun frame_value :: "frame \<Rightarrow> Value" where
  "frame_value (BackIsArray vs) = ARRAY vs"
| "frame_value (BackIsDict d k) = DICTIONARY d"

definition map_put :: "u8 list \<Rightarrow> 'v \<Rightarrow> (u8 list \<times> 'v) list \<Rightarrow> (u8 list \<times> 'v) list" where
  "map_put k v d = (if map_of d k = None then map_emplace k v d else map_modify k (\<lambda>_. v) d)"

fun store :: "Value \<Rightarrow> parse_stack \<Rightarrow> parse_stack" where
  "store v ([], val) = ([], v)"
| "store v (BackIsArray vs # fs, val) = (BackIsArray (vs @ [v]) # fs, val)"
| "store v (BackIsDict d k # fs, val) = (BackIsDict (map_put k v d) k # fs, val)"

fun feed :: "parsed \<Rightarrow> parse_stack \<Rightarrow> parse_stack \<times> u8 view" where
  "feed (Scalar v r) st = (store v st, r)"
| "feed (Opened f r) (fs, val) = ((f # fs, val), r)"

definition json_space :: "u8 \<Rightarrow> bool" where
  "json_space c \<longleftrightarrow> c = 0x20 \<or> c = 0x0a \<or> c = 0x0d \<or> c = 0x09"

text \<open>The key of a pair and what separates it from its value; the first component is \<^verbatim>\<open>stop\<close>.\<close>

definition parse_key :: "u8 \<Rightarrow> bool \<Rightarrow> u8 view \<Rightarrow> bool \<times> u8 list \<times> u8 view" where
  "parse_key z validate r =
     (let (key, r) = parseBufferString z r in
      if validate then
        (let (tmp, r) = readChars (\<lambda>c. c = 0x3a \<or> json_space c) r; tmp = skipUntil (\<lambda>c. c = 0x3a) tmp
         in (\<not> view_is 0x3a tmp, key, r))
      else (False, key, skipChars (\<lambda>c. c = 0x3a \<or> json_space c) r))"

text \<open>One round of the loop; with it comes whether the reader is stopped.\<close>

fun json_step :: "(u8 list \<Rightarrow> u64 \<times> nat) \<Rightarrow> u8 \<Rightarrow> bool \<Rightarrow> parse_stack \<Rightarrow> u8 view \<Rightarrow> (parse_stack \<times> u8 view) \<times> bool" where
  "json_step strtod z validate ([], val) r = (feed (parseValue strtod z val r) ([], val), False)"
| "json_step strtod z validate (BackIsArray vs # fs, val) r =
     (let r = skipChars (\<lambda>c. json_space c \<or> c = 0x2c) r in
      if \<not> view_is 0x5d r then (feed (parseValue strtod z EMPTY r) (BackIsArray vs # fs, val), False)
      else ((store (ARRAY vs) (fs, val), view_next r), False))"
| "json_step strtod z validate (BackIsDict d k # fs, val) r =
     (let r = skipUntil (\<lambda>c. c = 0x22 \<or> c = 0x7d) r in
      if \<not> view_is 0x7d r then
        (let (stop, key, r) = parse_key z validate r in
         if stop then (((BackIsDict d k # fs, val), r), True)
         else (let old = (case map_of d key of Some v \<Rightarrow> v | None \<Rightarrow> EMPTY)
               in (feed (parseValue strtod z old r) (BackIsDict d key # fs, val), False)))
      else ((store (DICTIONARY d) (fs, val), view_next r), False))"

partial_function (option) json_loop ::
  "(u8 list \<Rightarrow> u64 \<times> nat) \<Rightarrow> u8 \<Rightarrow> bool \<Rightarrow> parse_stack \<Rightarrow> u8 view \<Rightarrow> (parse_stack \<times> u8 view) option" where
  "json_loop strtod z validate st r =
     (let x = json_step strtod z validate st r; st = fst (fst x); r = snd (fst x) in
      if r \<noteq> [] \<and> fst st \<noteq> [] \<and> \<not> snd x then json_loop strtod z validate st r else Some (st, r))"

declare json_loop.simps [code]

text \<open>At the end the containers that are still open are in the result as they are.\<close>

fun unwind :: "Value \<Rightarrow> frame list \<Rightarrow> Value" where
  "unwind v [] = v"
| "unwind v (BackIsArray vs # fs) = unwind (ARRAY (vs @ [v])) fs"
| "unwind v (BackIsDict d k # fs) = unwind (DICTIONARY (map_put k v d)) fs"

definition stack_value :: "parse_stack \<Rightarrow> Value" where
  "stack_value st = (case fst st of [] \<Rightarrow> snd st | f # fs \<Rightarrow> unwind (frame_value f) fs)"

definition json_read :: "(u8 list \<Rightarrow> u64 \<times> nat) \<Rightarrow> u8 \<Rightarrow> bool \<Rightarrow> u8 view \<Rightarrow> (Value \<times> u8 view) option" where
  "json_read strtod z validate n =
     (if n = [] \<or> n = ascii ''null'' then Some (EMPTY, n)
      else (case json_loop strtod z validate ([], EMPTY) (skipChars json_space n) of
          None \<Rightarrow> None
        | Some (st, r) \<Rightarrow> Some (stack_value st, r)))"

section \<open>Strings\<close>

lemma hex_digit_value: "\<forall>n<16. hexToChar1 (hex_digit n) = of_nat n"
  by code_simp

lemma hex_escape: "read_escape z (0x75 # hex4 i @ r) = (utf8Encode (ucast i), r)"
proof -
  have "hexToChar (hex_digit (unat i div 16)) (hex_digit (unat i mod 16))
      = push_bit 4 (of_nat (unat i div 16)) OR of_nat (unat i mod 16)"
    using hex_digit_value unat_u8_less [of i] by (simp add: hexToChar_def less_mult_imp_div_less)
  also have "\<dots> = i" by (rule nibbles_join)
  finally have "hexToChar (hex_digit (unat i div 16)) (hex_digit (unat i mod 16)) = i" .
  moreover have "hexToChar 0x30 0x30 = 0" by code_simp
  ultimately show ?thesis by (simp add: read_escape_def view_is_def view_next_def hex4_def offset_def)
qed

text \<open>The reader from where it looks for the next backslash or quotation mark.\<close>

definition read_rest :: "u8 \<Rightarrow> u8 list \<Rightarrow> u8 view \<Rightarrow> u8 list \<times> u8 view" where
  "read_rest z ref r = buffer_loop z (ref @ fst (readUntil string_end r)) (snd (readUntil string_end r))"

lemma parseBufferString_rest: "parseBufferString z (0x22 # r) = read_rest z [] r"
  by (simp add: parseBufferString_def read_rest_def view_is_def view_next_def split: prod.split)

lemma read_rest_plain: "\<not> string_end c \<Longrightarrow> read_rest z ref (c # r) = read_rest z (ref @ [c]) r"
  by (simp add: read_rest_def read_eq)

lemma read_rest_end: "read_rest z ref (0x22 # r) = (ref, r)"
  by (simp add: read_rest_def read_eq string_end_def buffer_loop.simps view_is_def view_next_def)

lemma read_rest_escape:
  "read_rest z ref (0x5c # r) = read_rest z (ref @ fst (read_escape z r)) (snd (read_escape z r))"
  unfolding read_rest_def
  by (subst buffer_loop.simps) (simp add: read_eq string_end_def view_is_def view_next_def Let_def)

lemma read_rest_char: "read_rest z ref (encodeChar c @ r) = read_rest z (ref @ [c]) r"
proof (cases "c \<le> 0x20 \<and> encodeChar c = [0x5c, 0x75] @ hex4 c")
  case True
  then have "uint c \<le> 32" by (simp add: word_le_def)
  then have "utf8Encode (ucast c) = [c]"
    by (simp add: utf8Encode_def word_less_def unsigned_ucast_eq unsigned_take_bit_eq take_bit_int_eq_self word_uint_eq_iff)
  then show ?thesis using True by (simp add: read_rest_escape hex_escape)
next
  case False
  then show ?thesis
    by (auto simp: encodeChar_def read_rest_escape read_rest_plain read_escape_def view_is_def view_next_def peek_def
        escape_def string_end_def split: if_splits)
qed

lemma read_rest_string: "read_rest z ref (concat (map encodeChar s) @ 0x22 # r) = (ref @ s, r)"
  by (induction s arbitrary: ref) (simp_all add: read_rest_end read_rest_char)

lemma parseBufferString_encoded: "parseBufferString z (encodeString s @ r) = (s, r)"
  by (simp add: encodeString_def parseBufferString_rest read_rest_string)

section \<open>Numbers\<close>

text \<open>What may stand behind a value.\<close>

definition delim :: "u8 view \<Rightarrow> bool" where
  "delim r \<longleftrightarrow> r = [] \<or> hd r = 0x2c \<or> hd r = 0x5d \<or> hd r = 0x7d \<or> json_space (hd r)"

lemma delim_char: "delim (c # r) \<Longrightarrow> c \<noteq> 0x2d \<and> c \<noteq> 0x2e \<and> c \<noteq> 0x45 \<and> c \<noteq> 0x65 \<and> c \<noteq> 0x2b \<and> \<not> number_char c"
  by (auto simp: delim_def json_space_def number_char_def)

lemma view_is_append: "delim r \<Longrightarrow> c \<in> {0x2d, 0x2e, 0x45, 0x65, 0x2b} \<Longrightarrow> view_is c (x @ r) = view_is c x"
  by (cases x; cases r) (auto simp: view_is_def dest: delim_char)

lemma view_next_append: "view_is c x \<Longrightarrow> view_next (x @ r) = view_next x @ r"
  by (cases x) (simp_all add: view_is_def view_next_def)

lemma skip_number_append: "delim r \<Longrightarrow> skipChars number_char (x @ r) = skipChars number_char x @ r"
  by (cases r) (auto simp: skip_eq dropWhile_append dest: delim_char split: if_splits)

lemma decodeNumber_append:
  assumes "delim r" "decodeNumber t = (t', f, u)"
  shows "decodeNumber (t @ r) = (t', f, u @ r)"
proof -
  note app = view_is_append [OF assms(1)] skip_number_append [OF assms(1)] view_next_append
  have 1: "skip_minus (x @ r) = skip_minus x @ r" for x by (simp add: skip_minus_def app)
  have 2: "skip_fraction (x @ r) = (fst (skip_fraction x), snd (skip_fraction x) @ r)" for x by (simp add: skip_fraction_def app)
  have 3: "skip_exponent (x @ r) = (fst (skip_exponent x), snd (skip_exponent x) @ r)" for x
    by (simp add: skip_exponent_def app Let_def)
  show ?thesis
    using assms(2) by (simp add: decodeNumber_def 1 2 3 skip_number_append [OF assms(1)] split: prod.splits) 
qed

lemma decodeNumber_digits:
  assumes "list_all number_char ds" "ds \<noteq> []"
  shows "decodeNumber ((if neg then [0x2d] else []) @ ds) = ((if neg then [0x2d] else []) @ ds, False, [])"
proof -
  obtain c cs where ds: "ds = c # cs" using assms(2) by (cases ds) auto
  have "c \<noteq> 0x2d" using assms(1) ds by (auto simp: number_char_def)
  then have 1: "skip_minus ((if neg then [0x2d] else []) @ ds) = ds"
    by (simp add: skip_minus_def view_is_def view_next_def ds)
  have 2: "skipChars number_char ds = []" using assms(1) by (simp add: skip_eq list_all_iff dropWhile_eq_Nil_conv)
  show ?thesis unfolding decodeNumber_def 1 2 by (simp add: skip_fraction_def skip_exponent_def view_is_def)
qed

lemma to_decimal_signed_chars:
  obtains neg ds where "to_decimal_signed i = (if neg then [0x2d] else []) @ ds" "list_all number_char ds" "ds \<noteq> []"
proof -
  have "list_all number_char (unsigned_to_decimal n)" "unsigned_to_decimal n \<noteq> []" for n
    using unsigned_to_decimal_chars [of n] decimal_digits_last [of n]
    by (simp_all add: number_char_def [abs_def] unsigned_to_decimal_def)
  then show ?thesis
    using that [of True "unsigned_to_decimal (- i)"] that [of False "unsigned_to_decimal i"]
    by (cases "i <s 0") (simp_all add: to_decimal_signed_def)
qed

section \<open>Texts of values\<close>

text \<open>
  A text denotes a value: JSON, with the doubles the library reads back, and more lenient than JSON in that the
  commas may be left out or repeated.
\<close>

definition double_text :: "(u8 list \<Rightarrow> u64 \<times> nat) \<Rightarrow> u64 \<Rightarrow> u8 list \<Rightarrow> bool" where
  "double_text strtod d t \<longleftrightarrow> t \<noteq> [] \<and> (number_char (hd t) \<or> hd t = 0x2d) \<and> decodeNumber t = (t, True, [])
     \<and> fst (readDouble strtod t) = Some d"

definition gap :: "u8 list \<Rightarrow> bool" where
  "gap w \<longleftrightarrow> list_all (\<lambda>c. json_space c \<or> c = 0x2c) w"

inductive json_text :: "(u8 list \<Rightarrow> u64 \<times> nat) \<Rightarrow> Value \<Rightarrow> u8 list \<Rightarrow> bool"
and json_items :: "(u8 list \<Rightarrow> u64 \<times> nat) \<Rightarrow> Value list \<Rightarrow> u8 list \<Rightarrow> bool"
and json_pairs :: "(u8 list \<Rightarrow> u64 \<times> nat) \<Rightarrow> (u8 list \<times> Value) list \<Rightarrow> u8 list \<Rightarrow> bool"
for strtod :: "u8 list \<Rightarrow> u64 \<times> nat" where
  text_null: "json_text strtod EMPTY json_null"
| text_bool: "json_text strtod (BOOLEAN b) (json_bool b)"
| text_int: "json_text strtod (INTEGER i) (to_decimal_signed i)"
| text_double: "double_text strtod d t \<Longrightarrow> json_text strtod (DOUBLE d) t"
| text_string: "json_text strtod (CHARSTRING s) (encodeString s)"
| text_array: "json_items strtod vs e \<Longrightarrow> json_text strtod (ARRAY vs) (0x5b # e @ [0x5d])"
| text_dict: "json_pairs strtod d e \<Longrightarrow> keys_ascending d \<Longrightarrow> json_text strtod (DICTIONARY d) (0x7b # e @ [0x7d])"
| items_end: "gap w \<Longrightarrow> json_items strtod [] w"
| items_next: "gap w \<Longrightarrow> json_text strtod v e \<Longrightarrow> json_items strtod vs es \<Longrightarrow> delim es
    \<Longrightarrow> json_items strtod (v # vs) (w @ e @ es)"
| pairs_end: "gap w \<Longrightarrow> json_pairs strtod [] w"
| pairs_next: "gap w \<Longrightarrow> list_all json_space s1 \<Longrightarrow> list_all json_space s2 \<Longrightarrow> json_text strtod v e
    \<Longrightarrow> json_pairs strtod d es \<Longrightarrow> delim es
    \<Longrightarrow> json_pairs strtod ((k, v) # d) (w @ encodeString k @ s1 @ 0x3a # s2 @ e @ es)"

section \<open>Reading texts\<close>

definition json_continue :: "(u8 list \<Rightarrow> u64 \<times> nat) \<Rightarrow> u8 \<Rightarrow> bool \<Rightarrow> parse_stack \<times> u8 view \<Rightarrow> (parse_stack \<times> u8 view) option" where
  "json_continue strtod z validate x =
     (if snd x \<noteq> [] \<and> fst (fst x) \<noteq> [] then json_loop strtod z validate (fst x) (snd x) else Some x)"

lemma json_loop_step:
  "json_loop strtod z validate st r =
     (let x = json_step strtod z validate st r in if snd x then Some (fst x) else json_continue strtod z validate (fst x))"
  by (subst json_loop.simps) (auto simp: json_continue_def Let_def prod_eq_iff)

lemma json_tokens:
  "json_null = [0x6e, 0x75, 0x6c, 0x6c]" "json_bool b = (if b then [0x74, 0x72, 0x75, 0x65] else [0x66, 0x61, 0x6c, 0x73, 0x65])"
  by (simp_all add: json_null_def json_bool_def ascii_def)

text \<open>The first character of a text.\<close>

lemma json_text_start:
  assumes "json_text strtod v e"
  shows "e \<noteq> []" "\<not> json_space (hd e)" "hd e \<noteq> 0x2c" "hd e \<noteq> 0x5d" "hd e \<noteq> 0x3a"
proof -
  have num: "\<not> json_space c \<and> c \<noteq> 0x2c \<and> c \<noteq> 0x5d \<and> c \<noteq> 0x3a" if "number_char c \<or> c = 0x2d" for c
    using that by (auto simp: number_char_def json_space_def)
  have int: "to_decimal_signed i \<noteq> [] \<and> (number_char (hd (to_decimal_signed i)) \<or> hd (to_decimal_signed i) = 0x2d)" for i
  proof -
    obtain neg ds where "to_decimal_signed i = (if neg then [0x2d] else []) @ ds" "list_all number_char ds" "ds \<noteq> []"
      by (rule to_decimal_signed_chars)
    then show ?thesis by (cases ds) auto
  qed
  from assms have "e \<noteq> [] \<and> \<not> json_space (hd e) \<and> hd e \<noteq> 0x2c \<and> hd e \<noteq> 0x5d \<and> hd e \<noteq> 0x3a"
  proof cases
    case (text_int i)
    then show ?thesis using int [of i] num [of "hd (to_decimal_signed i)"] by simp
  next
    case (text_double d)
    then show ?thesis using num [of "hd e"] by (simp add: double_text_def)
  qed (simp_all add: encodeString_def json_space_def json_tokens)
  then show "e \<noteq> []" "\<not> json_space (hd e)" "hd e \<noteq> 0x2c" "hd e \<noteq> 0x5d" "hd e \<noteq> 0x3a" by blast+
qed

definition reads_text :: "(u8 list \<Rightarrow> u64 \<times> nat) \<Rightarrow> Value \<Rightarrow> u8 list \<Rightarrow> bool" where
  "reads_text strtod v e \<longleftrightarrow> (\<forall>z va st rest. delim rest \<longrightarrow>
     json_continue strtod z va (feed (parseValue strtod z EMPTY (e @ rest)) st) = json_continue strtod z va (store v st, rest))"

lemma reads_scalar:
  "(\<And>z rest. delim rest \<Longrightarrow> parseValue strtod z EMPTY (e @ rest) = Scalar v rest) \<Longrightarrow> reads_text strtod v e"
  by (simp add: reads_text_def)

lemma parseValue_number:
  assumes "t \<noteq> []" "number_char (hd t) \<or> hd t = 0x2d" "decodeNumber t = (t, f, [])" "delim rest"
  shows "parseValue strtod z EMPTY (t @ rest) =
    Scalar (if f then (case fst (readDouble strtod t) of Some d \<Rightarrow> DOUBLE d | None \<Rightarrow> EMPTY)
      else (case fst (readInteger 0 t) of Some i \<Rightarrow> INTEGER (word_of_int i) | None \<Rightarrow> EMPTY)) rest"
proof -
  obtain c cs where t: "t = c # cs" using assms(1) by (cases t) auto
  have c: "c \<noteq> 0x22" "c \<noteq> 0x74" "c \<noteq> 0x66" "number_char c \<or> c = 0x2b \<or> c = 0x2d"
    using assms(2) by (auto simp: t number_char_def)
  have "parseValue strtod z EMPTY (t @ rest) = (let (v, r) = parseJsonNumber strtod EMPTY (t @ rest) in Scalar v r)"
    by (simp add: parseValue_def peek_def t c)
  then show ?thesis
    using decodeNumber_append [OF assms(4,3)] by (simp add: parseJsonNumber_def t)
qed

lemma json_array_gap: "gap w \<Longrightarrow> json_step strtod z va (BackIsArray vs # fs, val) (w @ r) = json_step strtod z va (BackIsArray vs # fs, val) r"
  by (simp add: skip_eq gap_def list_all_iff dropWhile_append2)

lemma json_dict_gap: "gap w \<Longrightarrow> json_step strtod z va (BackIsDict d k # fs, val) (w @ r) = json_step strtod z va (BackIsDict d k # fs, val) r"
proof -
  assume "gap w"
  then have "\<forall>c\<in>set w. c \<noteq> 0x22 \<and> c \<noteq> 0x7d" by (auto simp: gap_def list_all_iff json_space_def)
  then show ?thesis by (simp add: skip_eq dropWhile_append2)
qed

lemma parse_key_text:
  assumes "list_all json_space s1" "list_all json_space s2" "e \<noteq> []" "\<not> json_space (hd e)" "hd e \<noteq> 0x3a"
  shows "parse_key z va (encodeString k @ s1 @ 0x3a # s2 @ e @ r) = (False, k, e @ r)"
proof -
  have s: "\<forall>c\<in>set s1. json_space c \<and> c \<noteq> 0x3a" "\<forall>c\<in>set s2. json_space c"
    using assms(1,2) by (auto simp: list_all_iff json_space_def)
  have "dropWhile (\<lambda>c. c = 0x3a \<or> json_space c) (s1 @ 0x3a # s2 @ e @ r) = e @ r"
    "takeWhile (\<lambda>c. c = 0x3a \<or> json_space c) (s1 @ 0x3a # s2 @ e @ r) = s1 @ 0x3a # s2"
    using s assms(3-5) by (cases e; simp add: dropWhile_append2 takeWhile_append2)+
  moreover have "dropWhile (\<lambda>c. c \<noteq> 0x3a) (s1 @ 0x3a # s2) = 0x3a # s2" using s(1) by (simp add: dropWhile_append2)
  ultimately show ?thesis
    by (simp add: parse_key_def parseBufferString_encoded skip_eq read_eq view_is_def)
qed

lemma map_put_last: "\<forall>kv\<in>set (d :: dictionary). bytes_less (fst kv) k \<Longrightarrow> map_of d k = None \<and> map_put k v d = d @ [(k, v)]"
  using map_emplace_last [of d k v] bytes_less_simps by (auto simp: map_put_def map_of_eq_None_iff)

definition reads_items :: "(u8 list \<Rightarrow> u64 \<times> nat) \<Rightarrow> Value list \<Rightarrow> u8 list \<Rightarrow> bool" where
  "reads_items strtod vs e \<longleftrightarrow> (\<forall>z va acc fs val rest. json_loop strtod z va (BackIsArray acc # fs, val) (e @ 0x5d # rest)
     = json_continue strtod z va (store (ARRAY (acc @ vs)) (fs, val), rest))"

definition reads_pairs :: "(u8 list \<Rightarrow> u64 \<times> nat) \<Rightarrow> (u8 list \<times> Value) list \<Rightarrow> u8 list \<Rightarrow> bool" where
  "reads_pairs strtod d e \<longleftrightarrow> (\<forall>z va acc k fs val rest. keys_ascending d \<longrightarrow>
     (\<forall>x\<in>set acc. \<forall>y\<in>set d. bytes_less (fst x) (fst y)) \<longrightarrow>
     json_loop strtod z va (BackIsDict acc k # fs, val) (e @ 0x7d # rest)
       = json_continue strtod z va (store (DICTIONARY (acc @ d)) (fs, val), rest))"

lemma delim_append: "delim e \<Longrightarrow> delim r \<Longrightarrow> delim (e @ r)"
  by (cases e) (simp_all add: delim_def)

lemma reads_items_next:
  assumes "gap w" "json_text strtod v e" "reads_text strtod v e" "reads_items strtod vs es" "delim es"
  shows "reads_items strtod (v # vs) (w @ e @ es)"
  unfolding reads_items_def
proof (intro allI)
  fix z va acc fs val rest
  let ?r = "es @ 0x5d # rest"
  have e: "e \<noteq> []" "\<not> json_space (hd e)" "hd e \<noteq> 0x2c" "hd e \<noteq> 0x5d" using json_text_start [OF assms(2)] by blast+
  have step: "json_step strtod z va (BackIsArray acc # fs, val) (w @ e @ ?r)
      = (feed (parseValue strtod z EMPTY (e @ ?r)) (BackIsArray acc # fs, val), False)"
    unfolding json_array_gap [OF assms(1)] using e by (cases e) (simp_all add: skip_eq view_is_def)
  have "delim ?r" using assms(5) by (intro delim_append) (simp_all add: delim_def)
  then have "json_loop strtod z va (BackIsArray acc # fs, val) (w @ e @ ?r)
      = json_continue strtod z va (store v (BackIsArray acc # fs, val), ?r)"
    using assms(3) unfolding reads_text_def by (simp add: json_loop_step step del: json_step.simps store.simps)
  also have "\<dots> = json_loop strtod z va (BackIsArray (acc @ [v]) # fs, val) ?r" by (simp add: json_continue_def)
  also have "\<dots> = json_continue strtod z va (store (ARRAY (acc @ v # vs)) (fs, val), rest)"
    using assms(4) unfolding reads_items_def by simp
  finally show "json_loop strtod z va (BackIsArray acc # fs, val) ((w @ e @ es) @ 0x5d # rest)
      = json_continue strtod z va (store (ARRAY (acc @ v # vs)) (fs, val), rest)" by simp
qed

lemma reads_pairs_next:
  assumes "gap w" "list_all json_space s1" "list_all json_space s2" "json_text strtod v e" "reads_text strtod v e"
    "reads_pairs strtod d es" "delim es"
  shows "reads_pairs strtod ((k, v) # d) (w @ encodeString k @ s1 @ 0x3a # s2 @ e @ es)"
  unfolding reads_pairs_def
proof (intro allI impI)
  fix z va and acc :: dictionary and k' fs val rest
  assume asc: "keys_ascending ((k, v) # d)" and less: "\<forall>x\<in>set acc. \<forall>y\<in>set ((k, v) # d). bytes_less (fst x) (fst y)"
  let ?r = "es @ 0x7d # rest"
  have e: "e \<noteq> []" "\<not> json_space (hd e)" "hd e \<noteq> 0x3a" using json_text_start [OF assms(4)] by blast+
  have put: "map_of acc k = None" "map_put k v acc = acc @ [(k, v)]"
    using less map_put_last [of acc k v] by auto
  have key: "parse_key z va (encodeString k @ s1 @ 0x3a # s2 @ e @ ?r) = (False, k, e @ ?r)"
    by (rule parse_key_text [OF assms(2,3) e])
  have "json_step strtod z va (BackIsDict acc k' # fs, val) (w @ encodeString k @ s1 @ 0x3a # s2 @ e @ ?r)
      = (feed (parseValue strtod z EMPTY (e @ ?r)) (BackIsDict acc k # fs, val), False)"
    unfolding json_dict_gap [OF assms(1)] using key put(1)
    by (simp add: skip_eq view_is_def encodeString_def)
  moreover have "delim ?r" using assms(7) by (intro delim_append) (simp_all add: delim_def)
  ultimately have "json_loop strtod z va (BackIsDict acc k' # fs, val) (w @ encodeString k @ s1 @ 0x3a # s2 @ e @ ?r)
      = json_continue strtod z va (store v (BackIsDict acc k # fs, val), ?r)"
    using assms(5) unfolding reads_text_def by (simp add: json_loop_step del: json_step.simps store.simps)
  also have "\<dots> = json_loop strtod z va (BackIsDict (acc @ [(k, v)]) k # fs, val) ?r" by (simp add: json_continue_def put)
  also have "\<dots> = json_continue strtod z va (store (DICTIONARY (acc @ (k, v) # d)) (fs, val), rest)"
  proof -
    have "keys_ascending d" "\<forall>x\<in>set (acc @ [(k, v)]). \<forall>y\<in>set d. bytes_less (fst x) (fst y)"
      using asc less by (auto simp: keys_ascending_def)
    then show ?thesis using assms(6) unfolding reads_pairs_def by simp
  qed
  finally show "json_loop strtod z va (BackIsDict acc k' # fs, val)
      ((w @ encodeString k @ s1 @ 0x3a # s2 @ e @ es) @ 0x7d # rest)
      = json_continue strtod z va (store (DICTIONARY (acc @ (k, v) # d)) (fs, val), rest)" by simp
qed

lemma reads_json:
  "json_text strtod v e \<Longrightarrow> reads_text strtod v e"
  "json_items strtod vs e \<Longrightarrow> reads_items strtod vs e"
  "json_pairs strtod d e \<Longrightarrow> reads_pairs strtod d e"
proof (induction rule: json_text_json_items_json_pairs.inducts)
  case text_null
  show ?case by (rule reads_scalar) (simp add: json_tokens parseValue_def peek_def number_char_def prefix_of_def offset_def ascii_def)
next
  case (text_bool b)
  show ?case by (rule reads_scalar) (simp add: json_tokens parseValue_def peek_def offset_def)
next
  case (text_int i)
  obtain neg ds where t: "to_decimal_signed i = (if neg then [0x2d] else []) @ ds" "list_all number_char ds" "ds \<noteq> []"
    by (rule to_decimal_signed_chars)
  have "to_decimal_signed i \<noteq> []" "number_char (hd (to_decimal_signed i)) \<or> hd (to_decimal_signed i) = 0x2d"
    using t by (cases ds; simp)+
  moreover have "decodeNumber (to_decimal_signed i) = (to_decimal_signed i, False, [])"
    using decodeNumber_digits [OF t(2,3), of neg] t(1) by simp
  moreover have "readInteger 0 (to_decimal_signed i) = (Some (sint i), [])"
    using readInteger_decimal [of 0 "[]" i] by simp
  ultimately show ?case by (intro reads_scalar) (simp add: parseValue_number)
next
  case (text_double d t)
  then show ?case by (intro reads_scalar) (auto simp: double_text_def parseValue_number)
next
  case (text_string s)
  show ?case
  proof (rule reads_scalar)
    fix z :: u8 and rest :: "u8 list"
    have "peek z (encodeString s @ rest) = 0x22" by (simp add: peek_def encodeString_def)
    then show "parseValue strtod z EMPTY (encodeString s @ rest) = Scalar (CHARSTRING s) rest"
      by (simp add: parseValue_def parseBufferString_encoded)
  qed
next
  case (text_array vs e)
  show ?case unfolding reads_text_def
  proof (intro allI impI)
    fix z va and st :: parse_stack and rest
    obtain fs val where st: "st = (fs, val)" by fastforce
    have "parseValue strtod z EMPTY ((0x5b # e @ [0x5d]) @ rest) = Opened (BackIsArray []) (e @ 0x5d # rest)"
      by (simp add: parseValue_def peek_def view_next_def number_char_def)
    then show "json_continue strtod z va (feed (parseValue strtod z EMPTY ((0x5b # e @ [0x5d]) @ rest)) st)
        = json_continue strtod z va (store (ARRAY vs) st, rest)"
      using text_array.IH unfolding reads_items_def by (simp add: st) (simp add: json_continue_def)
  qed
next
  case (text_dict d e)
  show ?case unfolding reads_text_def
  proof (intro allI impI)
    fix z va and st :: parse_stack and rest
    obtain fs val where st: "st = (fs, val)" by fastforce
    have "parseValue strtod z EMPTY ((0x7b # e @ [0x7d]) @ rest) = Opened (BackIsDict [] []) (e @ 0x7d # rest)"
      by (simp add: parseValue_def peek_def view_next_def number_char_def)
    then show "json_continue strtod z va (feed (parseValue strtod z EMPTY ((0x7b # e @ [0x7d]) @ rest)) st)
        = json_continue strtod z va (store (DICTIONARY d) st, rest)"
      using text_dict.IH text_dict.hyps unfolding reads_pairs_def by (simp add: st) (simp add: json_continue_def)
  qed
next
  case (items_end w)
  then show ?case unfolding reads_items_def
    by (simp add: json_loop_step json_array_gap del: json_step.simps) (simp add: skip_eq view_is_def view_next_def json_space_def)
next
  case (items_next w v e vs es)
  then show ?case by (intro reads_items_next)
next
  case (pairs_end w)
  then show ?case unfolding reads_pairs_def
    by (simp add: json_loop_step json_dict_gap del: json_step.simps) (simp add: skip_eq view_is_def view_next_def)
next
  case (pairs_next w s1 s2 v e d es k)
  then show ?case by (intro reads_pairs_next)
qed

lemma json_text_null:
  assumes "json_text strtod v json_null"
  shows "v = EMPTY"
  using assms
proof cases
  case (text_int i)
  moreover obtain neg ds where "to_decimal_signed i = (if neg then [0x2d] else []) @ ds" "list_all number_char ds" "ds \<noteq> []"
    by (rule to_decimal_signed_chars)
  ultimately show ?thesis by (cases ds; cases neg) (simp_all add: json_tokens number_char_def)
next
  case (text_double d)
  then show ?thesis by (auto simp: double_text_def json_tokens number_char_def)
qed (simp_all add: json_tokens encodeString_def split: if_splits)

lemma json_read_text:
  assumes "json_text strtod v e" "list_all json_space w"
  shows "\<exists>r. json_read strtod z va (w @ e) = Some (v, r)"
proof (cases "w @ e = json_null")
  case True
  then have "w = []" using assms(2) by (cases w) (simp_all add: json_tokens json_space_def)
  then have "v = EMPTY" using True assms(1) json_text_null by simp
  then show ?thesis using True by (simp add: json_read_def json_null_def)
next
  case False
  have e: "e \<noteq> []" "\<not> json_space (hd e)" using json_text_start [OF assms(1)] by blast+
  have skip: "skipChars json_space (w @ e) = e"
    using assms(2) e by (cases e) (simp_all add: skip_eq list_all_iff dropWhile_append2)
  have "json_loop strtod z va ([], EMPTY) e = json_continue strtod z va (feed (parseValue strtod z EMPTY (e @ [])) ([], EMPTY))"
    by (simp add: json_loop_step)
  also have "\<dots> = json_continue strtod z va (store v ([], EMPTY), [])"
    using reads_json(1) [OF assms(1)] unfolding reads_text_def by (simp add: delim_def)
  also have "\<dots> = Some (([], v), [])" by (simp add: json_continue_def)
  finally show ?thesis using False e by (simp add: json_read_def skip stack_value_def json_null_def)
qed

section \<open>The writers write texts\<close>

text \<open>The value a text written stands for: bytes are written as a string.\<close>

fun json_image :: "Value \<Rightarrow> Value" where
  "json_image (BYTESTRING s) = CHARSTRING (ascii ''BASE64:'' @ b64url_encode s)"
| "json_image (ARRAY a) = ARRAY (map json_image a)"
| "json_image (DICTIONARY d) = DICTIONARY (map (\<lambda>kv. (fst kv, json_image (snd kv))) d)"
| "json_image v = v"

text \<open>The doubles of a value are printed as texts of theirs.\<close>

fun doubles_printed :: "(u64 \<Rightarrow> u8 list) \<Rightarrow> (u8 list \<Rightarrow> u64 \<times> nat) \<Rightarrow> Value \<Rightarrow> bool" where
  "doubles_printed fmt strtod (DOUBLE d) = double_text strtod d (fmt d)"
| "doubles_printed fmt strtod (ARRAY a) = (\<forall>v\<in>set a. doubles_printed fmt strtod v)"
| "doubles_printed fmt strtod (DICTIONARY d) = (\<forall>kv\<in>set d. doubles_printed fmt strtod (snd kv))"
| "doubles_printed fmt strtod v = True"

lemma encodeChar_base64: "unat k < 64 \<Longrightarrow> encodeChar (b64_char base64urlEncodeLookup k) = [b64_char base64urlEncodeLookup k]"
proof -
  have "\<forall>n<64. encodeChar (base64urlEncodeLookup ! n) = [base64urlEncodeLookup ! n]" by code_simp
  then show "unat k < 64 \<Longrightarrow> ?thesis" by (simp add: b64_char_def)
qed

lemma encodeString_base64: "concat (map encodeChar (b64url_make_encode s)) = b64url_make_encode s"
  by (induction s rule: b64url_make_encode.induct) (simp_all add: encodeChar_base64 b64_groups del: drop_bit_and push_bit_and)

lemma json_bytes_text: "json_bytes s = encodeString (ascii ''BASE64:'' @ b64url_encode s)"
proof -
  have "concat (map encodeChar (ascii ''BASE64:'')) = ascii ''BASE64:''" by code_simp
  then show ?thesis by (simp add: json_bytes_def encodeString_def b64_public encodeString_base64)
qed

lemma delim_next: "encode_array (json_stream fmt) True vs = [] \<or> hd (encode_array (json_stream fmt) True vs) = 0x2c"
  "encode_dict (json_stream fmt) True d = [] \<or> hd (encode_dict (json_stream fmt) True d) = 0x2c"
  by (cases vs; simp add: json_stream_def) (cases d; auto simp: json_stream_def)

lemma gap_simps [simp]: "gap []" "gap (c # w) \<longleftrightarrow> (json_space c \<or> c = 0x2c) \<and> gap w" "gap (w @ w') \<longleftrightarrow> gap w \<and> gap w'"
  by (simp_all add: gap_def)

lemma raw_items:
  assumes "\<forall>v\<in>set vs. json_text strtod (json_image v) (value_encode (json_stream fmt) v)"
  shows "json_items strtod (map json_image vs) (encode_array (json_stream fmt) b vs)"
  using assms
proof (induction vs arbitrary: b)
  case (Cons v vs)
  have "json_items strtod (json_image v # map json_image vs) ((if b then [0x2c] else []) @ value_encode (json_stream fmt) v
      @ encode_array (json_stream fmt) True vs)"
    using Cons delim_next(1) [of fmt vs] by (intro items_next) (auto simp: delim_def)
  then show ?case by (auto simp: json_stream_def)
qed (simp add: items_end)

lemma raw_pairs:
  assumes "\<forall>kv\<in>set d. json_text strtod (json_image (snd kv)) (value_encode (json_stream fmt) (snd kv))"
  shows "json_pairs strtod (map (\<lambda>kv. (fst kv, json_image (snd kv))) d) (encode_dict (json_stream fmt) b d)"
  using assms
proof (induction d arbitrary: b)
  case (Cons kv d)
  obtain k v where kv: "kv = (k, v)" by (cases kv)
  have "json_pairs strtod ((k, json_image v) # map (\<lambda>kv. (fst kv, json_image (snd kv))) d)
      ((if b then [0x2c] else []) @ encodeString k @ [] @ 0x3a # [] @ value_encode (json_stream fmt) v
        @ encode_dict (json_stream fmt) True d)"
    using Cons kv delim_next(2) [of fmt d] by (intro pairs_next) (auto simp: delim_def)
  then show ?case by (auto simp: kv json_stream_def)
qed (simp add: pairs_end)

lemma keys_ascending_image: "keys_ascending (map (\<lambda>kv. (fst kv, f (snd kv))) d) = keys_ascending d"
  by (simp add: keys_ascending_def comp_def)

lemma raw_text:
  "value_wf v \<Longrightarrow> doubles_printed fmt strtod v \<Longrightarrow> json_text strtod (json_image v) (value_encode (json_stream fmt) v)"
proof (induction v)
  case (ARRAY a)
  then have "json_items strtod (map json_image a) (encode_array (json_stream fmt) False a)" by (intro raw_items) auto
  from text_array [OF this] show ?case by (simp add: json_stream_def)
next
  case (DICTIONARY d)
  then have "\<forall>kv\<in>set d. json_text strtod (json_image (snd kv)) (value_encode (json_stream fmt) (snd kv))" by fastforce
  then have "json_pairs strtod (map (\<lambda>kv. (fst kv, json_image (snd kv))) d) (encode_dict (json_stream fmt) False d)"
    by (rule raw_pairs)
  from text_dict [OF this] show ?case using DICTIONARY.prems by (simp add: json_stream_def keys_ascending_image)
next
  case (BYTESTRING s)
  show ?case using text_string by (simp add: json_stream_def json_bytes_text)
qed (simp_all add: json_stream_def text_null text_bool text_int text_double text_string)

definition pretty_text :: "(u8 list \<Rightarrow> u64 \<times> nat) \<Rightarrow> Value \<Rightarrow> u8 list \<Rightarrow> bool" where
  "pretty_text strtod v t \<longleftrightarrow> (\<exists>w e. t = w @ e \<and> list_all json_space w \<and> json_text strtod (json_image v) e)"

lemma indent_space: "list_all json_space (indent n)"
  by (simp add: indent_def json_space_def list_all_iff)

lemma space_gap: "list_all json_space w \<Longrightarrow> gap w"
  by (auto simp: gap_def list_all_iff)

lemma onValue_space: "list_all json_space (fst (pretty_onValue v p))"
  by (simp add: pretty_onValue_def indent_space json_space_def)

lemma delim_gap: "gap w \<Longrightarrow> delim w"
  by (cases w) (auto simp: delim_def)

lemma delim_comma: "x = [] \<or> hd x = 0x2c \<Longrightarrow> gap w \<Longrightarrow> delim (x @ w)"
  using delim_gap by (cases x) (auto simp: delim_def)

lemma pretty_next:
  "fst (pretty_array fmt m True vs p) = [] \<or> hd (fst (pretty_array fmt m True vs p)) = 0x2c"
  "fst (pretty_dict fmt m True d p) = [] \<or> hd (fst (pretty_dict fmt m True d p)) = 0x2c"
  by (cases vs; simp add: pretty_onNextValue_def split: prod.split del: pretty_value.simps)
    (cases d; auto simp: pretty_onNextValue_def case_prod_unfold Let_def simp del: pretty_value.simps)

lemma pretty_items:
  assumes "\<forall>v\<in>set vs. \<forall>p. pretty_text strtod v (fst (pretty_value fmt False v p))" "gap w"
  shows "json_items strtod (map json_image vs) (fst (pretty_array fmt False b vs p) @ w)"
  using assms(1)
proof (induction vs arbitrary: b p)
  case (Cons v vs)
  obtain o1 p1 where 1: "(if b then pretty_onNextValue p else ([], p)) = (o1, p1)" by fastforce
  obtain o2 p2 where 2: "pretty_value fmt False v p1 = (o2, p2)" by fastforce
  obtain o3 p3 where 3: "pretty_array fmt False True vs p2 = (o3, p3)" by fastforce
  obtain w' e where v: "o2 = w' @ e" "list_all json_space w'" "json_text strtod (json_image v) e"
    using Cons.prems 2 unfolding pretty_text_def by (metis fst_conv list.set_intros(1))
  have "gap o1" using 1 by (auto simp: pretty_onNextValue_def split: if_splits)
  moreover have "json_items strtod (map json_image vs) (o3 @ w)" using Cons.IH [of True p2] Cons.prems 3 by simp
  moreover have "delim (o3 @ w)" using pretty_next(1) [of fmt False vs p2] 3 by (intro delim_comma assms(2)) simp
  ultimately have "json_items strtod (json_image v # map json_image vs) ((o1 @ w') @ e @ (o3 @ w))"
    using v space_gap by (intro items_next) simp_all
  then show ?case using 1 2 3 v(1) by simp
qed (simp add: items_end assms(2))

lemma pretty_pairs:
  assumes "\<forall>kv\<in>set d. \<forall>p. pretty_text strtod (snd kv) (fst (pretty_value fmt False (snd kv) p))" "gap w"
  shows "json_pairs strtod (map (\<lambda>kv. (fst kv, json_image (snd kv))) d) (fst (pretty_dict fmt False b d p) @ w)"
  using assms(1)
proof (induction d arbitrary: b p)
  case (Cons kv d)
  obtain k v where kv: "kv = (k, v)" by (cases kv)
  obtain o1 p1 where 1: "(if b then pretty_onNextValue p else ([], p)) = (o1, p1)" by fastforce
  obtain p2 where 2: "pretty_onKey k p1 = (indent (depth p1) @ encodeString k @ [0x3a, 0x20], p2)"
    by (simp add: pretty_onKey_def)
  obtain o3 p3 where 3: "pretty_value fmt False v p2 = (o3, p3)" by fastforce
  obtain o4 p4 where 4: "pretty_dict fmt False True d p3 = (o4, p4)" by fastforce
  obtain w' e where v: "o3 = w' @ e" "list_all json_space w'" "json_text strtod (json_image v) e"
    using Cons.prems 3 unfolding pretty_text_def kv by (metis fst_conv snd_conv list.set_intros(1))
  have "gap o1" using 1 by (auto simp: pretty_onNextValue_def split: if_splits)
  then have "gap (o1 @ indent (depth p1))" using space_gap [OF indent_space] by simp
  moreover have "json_pairs strtod (map (\<lambda>kv. (fst kv, json_image (snd kv))) d) (o4 @ w)"
    using Cons.IH [of True p3] Cons.prems 4 by simp
  moreover have "delim (o4 @ w)" using pretty_next(2) [of fmt False d p3] 4 by (intro delim_comma assms(2)) simp
  moreover have "list_all json_space (0x20 # w')" using v(2) by (simp add: json_space_def)
  ultimately have "json_pairs strtod ((k, json_image v) # map (\<lambda>kv. (fst kv, json_image (snd kv))) d)
      ((o1 @ indent (depth p1)) @ encodeString k @ [] @ 0x3a # (0x20 # w') @ e @ (o4 @ w))"
    using v(3) by (intro pairs_next) simp_all
  then show ?case using 1 2 3 4 v(1) by (simp add: kv)
qed (simp add: pairs_end assms(2))

lemma pretty_text_intro:
  "list_all json_space w \<Longrightarrow> json_text strtod (json_image v) e \<Longrightarrow> pretty_text strtod v (w @ e)"
  unfolding pretty_text_def by blast

lemma pretty_value_text:
  "value_wf v \<Longrightarrow> doubles_printed fmt strtod v \<Longrightarrow> pretty_text strtod v (fst (pretty_value fmt False v p))"
proof (induction v arbitrary: p)
  case (ARRAY a)
  obtain o1 p1 where 1: "pretty_onValue (ARRAY a) p = (o1, p1)" by fastforce
  obtain p2 where 2: "pretty_onBeginArray a p1 = ([0x5b], p2)" by (simp add: pretty_onBeginArray_def)
  obtain o3 p3 where 3: "pretty_array fmt False False a p2 = (o3, p3)" by fastforce
  obtain w p4 where 4: "pretty_onEndArray p3 = (w @ [0x5d], p4)" "gap w"
    using that [of "[]"] that [of "indent (depth p3 - 1)"] space_gap [OF indent_space]
    by (cases "bstack p3 = []"; cases "List.last (bstack p3)") (auto simp: pretty_onEndArray_def)
  have "json_items strtod (map json_image a) (o3 @ w)"
    using pretty_items [OF _ 4(2), of a strtod fmt False p2] ARRAY 3 by simp
  from text_array [OF this] have "pretty_text strtod (ARRAY a) (o1 @ 0x5b # (o3 @ w) @ [0x5d])"
    using onValue_space [of "ARRAY a" p] 1 by (intro pretty_text_intro) simp_all
  then show ?case using 1 2 3 4 by simp
next
  case (DICTIONARY d)
  obtain o1 p1 where 1: "pretty_onValue (DICTIONARY d) p = (o1, p1)" by fastforce
  obtain p2 where 2: "pretty_onBeginDict p1 = ([0x7b], p2)" by (simp add: pretty_onBeginDict_def)
  obtain o3 p3 where 3: "pretty_dict fmt False False d p2 = (o3, p3)" by fastforce
  obtain w p4 where 4: "pretty_onEndDict p3 = (w @ [0x7d], p4)" "gap w"
    using space_gap [OF indent_space] by (auto simp: pretty_onEndDict_def)
  have "\<forall>kv\<in>set d. \<forall>p. pretty_text strtod (snd kv) (fst (pretty_value fmt False (snd kv) p))" using DICTIONARY by fastforce
  from pretty_pairs [OF this 4(2), of False p2]
  have "json_pairs strtod (map (\<lambda>kv. (fst kv, json_image (snd kv))) d) (o3 @ w)" using 3 by simp
  from text_dict [OF this] have "pretty_text strtod (DICTIONARY d) (o1 @ 0x7b # (o3 @ w) @ [0x7d])"
    using DICTIONARY.prems onValue_space [of "DICTIONARY d" p] 1
    by (intro pretty_text_intro) (simp_all add: keys_ascending_image)
  then show ?case using 1 2 3 4 by simp
next
  case (BYTESTRING s)
  have "json_text strtod (json_image (BYTESTRING s)) (json_bytes s)" using text_string by (simp add: json_bytes_text)
  then show ?case using onValue_space [of "BYTESTRING s" p] by (auto intro: pretty_text_intro split: prod.split)
next
  case EMPTY
  show ?case using onValue_space [of EMPTY p] text_null by (auto intro: pretty_text_intro split: prod.split)
next
  case (INTEGER i)
  show ?case using onValue_space [of "INTEGER i" p] text_int by (auto simp: pretty_int_def intro: pretty_text_intro split: prod.split)
next
  case (DOUBLE d)
  then show ?case using onValue_space [of "DOUBLE d" p] text_double by (auto intro: pretty_text_intro split: prod.split)
next
  case (BOOLEAN b)
  show ?case using onValue_space [of "BOOLEAN b" p] text_bool by (auto intro: pretty_text_intro split: prod.split)
next
  case (CHARSTRING s)
  show ?case using onValue_space [of "CHARSTRING s" p] text_string by (auto intro: pretty_text_intro split: prod.split)
qed simp

section \<open>Properties\<close>



text \<open>A state the loop comes back to with one more element each time.\<close>

lemma json_loop_diverges:
  assumes "\<And>vs. json_step strtod z validate (BackIsArray vs # fs, val) r = (((BackIsArray (vs @ [v]) # fs, val), r), False)"
    "r \<noteq> []"
  shows "json_loop strtod z validate (BackIsArray vs # fs, val) r = None"
proof (rule ccontr)
  assume "json_loop strtod z validate (BackIsArray vs # fs, val) r \<noteq> None"
  then obtain y where y: "json_loop strtod z validate (BackIsArray vs # fs, val) r = Some y" by blast
  have "strtod = strtod \<and> z = z \<and> validate = validate \<and> r = r \<longrightarrow> (\<forall>us. (BackIsArray vs # fs, val) \<noteq> (BackIsArray us # fs, val))"
  proof (rule json_loop.raw_induct [where P = "\<lambda>s x w st r' y. s = strtod \<and> x = z \<and> w = validate \<and> r' = r
      \<longrightarrow> (\<forall>us. st \<noteq> (BackIsArray us # fs, val))", OF _ y])
    fix f s x w st r' y
    assume IH: "\<And>s x w st r' y. f s x w st r' = Some y \<Longrightarrow>
        s = strtod \<and> x = z \<and> w = validate \<and> r' = r \<longrightarrow> (\<forall>us. st \<noteq> (BackIsArray us # fs, val))"
      and eq: "(let q = json_step s x w st r'; st = fst (fst q); r' = snd (fst q)
        in if r' \<noteq> [] \<and> fst st \<noteq> [] \<and> \<not> snd q then f s x w st r' else Some (st, r')) = Some y"
    show "s = strtod \<and> x = z \<and> w = validate \<and> r' = r \<longrightarrow> (\<forall>us. st \<noteq> (BackIsArray us # fs, val))"
    proof (intro impI allI notI)
      fix us assume p: "s = strtod \<and> x = z \<and> w = validate \<and> r' = r" and st: "st = (BackIsArray us # fs, val)"
      then have "f strtod z validate (BackIsArray (us @ [v]) # fs, val) r = Some y"
        using eq assms by simp
      from IH [OF this] show False by simp
    qed
  qed
  then show False by simp
qed

text \<open>
  C21: The reader does not return on an array in which a plus sign or a closing brace stands where a value should
  begin: neither is a value, and neither is skipped, so the loop adds empty values for ever.
\<close>

lemma json_read_diverges:
  "json_read strtod z validate (ascii ''[+'' @ rest) = None \<and> json_read strtod z validate (ascii ''[}'' @ rest) = None"
proof -
  have tx: "ascii ''[+'' @ rest = 0x5b # 0x2b # rest" "ascii ''[}'' @ rest = 0x5b # 0x7d # rest" by (simp_all add: ascii_def)
  have "json_step strtod z validate (BackIsArray vs # fs, val) (0x2b # rest)
      = (((BackIsArray (vs @ [EMPTY]) # fs, val), 0x2b # rest), False)" for vs fs val
    by (simp add: skip_eq json_space_def view_is_def parseValue_def peek_def number_char_def parseJsonNumber_def decodeNumber_def
        skip_minus_def skip_fraction_def skip_exponent_def)
  from json_loop_diverges [OF this] have 1: "json_loop strtod z validate ([BackIsArray []], EMPTY) (0x2b # rest) = None" by simp
  have "json_step strtod z validate (BackIsArray vs # fs, val) (0x7d # rest)
      = (((BackIsArray (vs @ [EMPTY]) # fs, val), 0x7d # rest), False)" for vs fs val
    by (simp add: skip_eq json_space_def view_is_def parseValue_def peek_def number_char_def value_start_def)
  from json_loop_diverges [OF this] have 2: "json_loop strtod z validate ([BackIsArray []], EMPTY) (0x7d # rest) = None" by simp
  have "json_loop strtod z validate ([], EMPTY) (0x5b # c # rest) = json_loop strtod z validate ([BackIsArray []], EMPTY) (c # rest)" for c
    by (simp add: json_loop_step [of _ _ _ "([], EMPTY)"] parseValue_def peek_def view_next_def json_continue_def number_char_def)
  then show ?thesis
    unfolding tx using 1 2 by (simp_all add: json_read_def skip_eq json_space_def ascii_def)
qed

text \<open>A leading zero makes a number octal, and a null for a key that is there already keeps the old value.\<close>

lemma json_read_octal: "json_read strtod z validate (ascii ''[010]'') = Some (ARRAY [INTEGER 8], [])"
  by code_simp

lemma json_read_null_keeps: "json_read strtod z False (0x7b # encodeString [0x61] @ ascii '':1,'' @ encodeString [0x61] @ ascii '':null}'')
    = Some (DICTIONARY [([0x61], INTEGER 1)], [])"
  by code_simp

end
