(* ===== verification/RbTree.thy ===== *)
theory RbTree
  imports Prelude "HOL-Library.Tree"
begin

text \<open>
  Models the nodes of \<^verbatim>\<open>common/memory/SPMemRbtree.h\<close> and \<^verbatim>\<open>SPMemRbtree.cc\<close>: the red-black tree of pointers
  under the pool's maps and sets, its rotations, iteration and the rebalancing after an insertion.

  The store maps addresses to nodes; address 0 is the null pointer. The header of a tree is a node too, at
  the address \<open>head\<close>: its left link is the root, its parent link the first node of the iteration and its
  right link the last one. A tree of addresses says which shape the links have; the colours and
  the values are in the store.
\<close>

section \<open>The store\<close>

type_synonym addr = nat

datatype NodeColor = Red | Black

record 'v node =
  n_parent :: addr
  n_left :: addr
  n_right :: addr
  n_color :: NodeColor
  n_prealloc :: bool
  n_value :: 'v

type_synonym 'v heap = "addr \<Rightarrow> 'v node"

definition set_parent :: "addr \<Rightarrow> addr \<Rightarrow> 'v heap \<Rightarrow> 'v heap" where
  "set_parent a x h = h(a := (h a)\<lparr> n_parent := x \<rparr>)"

definition set_left :: "addr \<Rightarrow> addr \<Rightarrow> 'v heap \<Rightarrow> 'v heap" where
  "set_left a x h = h(a := (h a)\<lparr> n_left := x \<rparr>)"

definition set_right :: "addr \<Rightarrow> addr \<Rightarrow> 'v heap \<Rightarrow> 'v heap" where
  "set_right a x h = h(a := (h a)\<lparr> n_right := x \<rparr>)"

definition setColor :: "addr \<Rightarrow> NodeColor \<Rightarrow> 'v heap \<Rightarrow> 'v heap" where
  "setColor a c h = h(a := (h a)\<lparr> n_color := c \<rparr>)"

section \<open>Rotations\<close>

text \<open>The link that led to \<open>p\<close> leads to \<open>n\<close>.\<close>

definition relink :: "addr \<Rightarrow> addr \<Rightarrow> addr \<Rightarrow> 'v heap \<Rightarrow> 'v heap" where
  "relink head n p h =
     (if p = n_left (h head) then set_left head n h
      else if n_right (h (n_parent (h p))) = p then set_right (n_parent (h p)) n h
      else set_left (n_parent (h p)) n h)"

definition RotateLeft :: "addr \<Rightarrow> addr \<Rightarrow> addr \<Rightarrow> 'v heap \<Rightarrow> 'v heap" where
  "RotateLeft head n p h =
     (let tmp = n_left (h n); h = relink head n p h;
          h = set_left n p (set_parent p n (set_parent n (n_parent (h p)) h));
          h = (if tmp \<noteq> 0 then set_parent tmp p h else h)
      in set_right p tmp h)"

definition RotateRight :: "addr \<Rightarrow> addr \<Rightarrow> addr \<Rightarrow> 'v heap \<Rightarrow> 'v heap" where
  "RotateRight head n p h =
     (let tmp = n_right (h n); h = relink head n p h;
          h = set_right n p (set_parent p n (set_parent n (n_parent (h p)) h));
          h = (if tmp \<noteq> 0 then set_parent tmp p h else h)
      in set_left p tmp h)"

section \<open>Rebalancing after an insertion\<close>

partial_function (option) rb_insert :: "addr \<Rightarrow> addr \<Rightarrow> 'v heap \<Rightarrow> 'v heap option" where
  "rb_insert head n h =
     (if n \<noteq> n_left (h head) \<and> n_color (h (n_parent (h n))) = Red then
        (let p = n_parent (h n); g = n_parent (h p) in
         if p = n_left (h g) then
           (let u = n_right (h g) in
            if u \<noteq> 0 \<and> n_color (h u) = Red
            then rb_insert head g (setColor g Red (setColor u Black (setColor p Black h)))
            else
              (let turn = (n = n_right (h p));
                   h = (if turn then RotateLeft head n p h else h);
                   n = (if turn then n_left (h n) else n);
                   p = (if turn then n_parent (h n) else p)
               in rb_insert head n (RotateRight head p g (setColor g Red (setColor p Black h)))))
         else
           (let u = n_left (h g) in
            if u \<noteq> 0 \<and> n_color (h u) = Red
            then rb_insert head g (setColor g Red (setColor u Black (setColor p Black h)))
            else
              (let turn = (n = n_left (h (n_parent (h n))));
                   h = (if turn then RotateRight head n p h else h);
                   n = (if turn then n_right (h n) else n);
                   p = (if turn then n_parent (h n) else p)
               in rb_insert head n (RotateLeft head p g (setColor g Red (setColor p Black h))))))
      else Some (setColor (n_left (h head)) Black h))"

section \<open>Shapes\<close>

fun root_of :: "addr tree \<Rightarrow> addr" where
  "root_of Leaf = 0"
| "root_of (Node l a r) = a"

fun links :: "'v heap \<Rightarrow> addr \<Rightarrow> addr tree \<Rightarrow> bool" where
  "links h par Leaf = True"
| "links h par (Node l a r) \<longleftrightarrow> a \<noteq> 0 \<and> n_parent (h a) = par \<and> n_left (h a) = root_of l \<and> n_right (h a) = root_of r
     \<and> links h a l \<and> links h a r"

text \<open>A path from a subtree up to the root: what the subtree hangs on, the innermost first.\<close>

datatype step = On_left addr "addr tree" | On_right "addr tree" addr

fun plug :: "step list \<Rightarrow> addr tree \<Rightarrow> addr tree" where
  "plug [] t = t"
| "plug (On_left a r # c) t = plug c (Node t a r)"
| "plug (On_right l a # c) t = plug c (Node l a t)"

fun up :: "addr \<Rightarrow> step list \<Rightarrow> addr" where
  "up head [] = head"
| "up head (On_left a r # c) = a"
| "up head (On_right l a # c) = a"

fun path_set :: "step list \<Rightarrow> addr set" where
  "path_set [] = {}"
| "path_set (On_left a r # c) = insert a (set_tree r) \<union> path_set c"
| "path_set (On_right l a # c) = insert a (set_tree l) \<union> path_set c"

fun path_links :: "'v heap \<Rightarrow> addr \<Rightarrow> step list \<Rightarrow> addr \<Rightarrow> bool" where
  "path_links h head [] x \<longleftrightarrow> n_left (h head) = x"
| "path_links h head (On_left a r # c) x \<longleftrightarrow> a \<noteq> 0 \<and> n_parent (h a) = up head c \<and> n_left (h a) = x \<and> n_right (h a) = root_of r
     \<and> links h a r \<and> path_links h head c a"
| "path_links h head (On_right l a # c) x \<longleftrightarrow> a \<noteq> 0 \<and> n_parent (h a) = up head c \<and> n_left (h a) = root_of l \<and> n_right (h a) = x
     \<and> links h a l \<and> path_links h head c a"

fun before :: "step list \<Rightarrow> addr list" where
  "before [] = []"
| "before (On_left a r # c) = before c"
| "before (On_right l a # c) = before c @ inorder l @ [a]"

fun behind :: "step list \<Rightarrow> addr list" where
  "behind [] = []"
| "behind (On_left a r # c) = a # inorder r @ behind c"
| "behind (On_right l a # c) = behind c"

text \<open>The tree that hangs on a header.\<close>

definition rep :: "'v heap \<Rightarrow> addr \<Rightarrow> addr tree \<Rightarrow> bool" where
  "rep h head t \<longleftrightarrow> n_left (h head) = root_of t \<and> links h head t \<and> distinct (inorder t) \<and> head \<notin> set_tree t \<and> head \<noteq> 0"

lemma inorder_plug: "inorder (plug c t) = before c @ inorder t @ behind c"
  by (induction c t rule: plug.induct) simp_all

lemma set_plug: "set_tree (plug c t) = set_tree t \<union> path_set c"
  by (induction c t rule: plug.induct) auto

lemma path_set_lists: "path_set c = set (before c) \<union> set (behind c)"
  by (induction c rule: path_set.induct) auto

lemma links_plug:
  "n_left (h head) = root_of (plug c t) \<and> links h head (plug c t) \<longleftrightarrow> path_links h head c (root_of t) \<and> links h (up head c) t"
  by (induction c t rule: plug.induct) auto

lemma distinct_plug:
  "distinct (inorder (plug c t)) \<longleftrightarrow> distinct (inorder t) \<and> distinct (before c @ behind c) \<and> set_tree t \<inter> path_set c = {}"
  by (auto simp: inorder_plug path_set_lists)

lemma rep_plug:
  "rep h head (plug c t) \<longleftrightarrow> path_links h head c (root_of t) \<and> links h (up head c) t
     \<and> distinct (inorder t) \<and> distinct (before c @ behind c) \<and> set_tree t \<inter> path_set c = {}
     \<and> head \<notin> set_tree t \<and> head \<notin> path_set c \<and> head \<noteq> 0"
  using links_plug [of h head c t] by (auto simp: rep_def distinct_plug set_plug)

lemma set_fields [simp]:
  "n_parent (set_parent a x h b) = (if b = a then x else n_parent (h b))" "n_left (set_parent a x h b) = n_left (h b)"
  "n_right (set_parent a x h b) = n_right (h b)" "n_color (set_parent a x h b) = n_color (h b)" "n_value (set_parent a x h b) = n_value (h b)"
  "n_parent (set_left a x h b) = n_parent (h b)" "n_left (set_left a x h b) = (if b = a then x else n_left (h b))"
  "n_right (set_left a x h b) = n_right (h b)" "n_color (set_left a x h b) = n_color (h b)" "n_value (set_left a x h b) = n_value (h b)"
  "n_parent (set_right a x h b) = n_parent (h b)" "n_left (set_right a x h b) = n_left (h b)"
  "n_right (set_right a x h b) = (if b = a then x else n_right (h b))" "n_color (set_right a x h b) = n_color (h b)"
  "n_value (set_right a x h b) = n_value (h b)"
  "n_parent (setColor a c h b) = n_parent (h b)" "n_left (setColor a c h b) = n_left (h b)" "n_right (setColor a c h b) = n_right (h b)"
  "n_color (setColor a c h b) = (if b = a then c else n_color (h b))" "n_value (setColor a c h b) = n_value (h b)"
  by (simp_all add: set_parent_def set_left_def set_right_def setColor_def)

lemma set_other [simp]:
  "b \<noteq> a \<Longrightarrow> set_parent a x h b = h b" "b \<noteq> a \<Longrightarrow> set_left a x h b = h b" "b \<noteq> a \<Longrightarrow> set_right a x h b = h b"
  "b \<noteq> a \<Longrightarrow> setColor a k h b = h b"
  by (simp_all add: set_parent_def set_left_def set_right_def setColor_def)

lemma links_cong:
  "(\<And>a. a \<in> set_tree t \<Longrightarrow> n_parent (h' a) = n_parent (h a) \<and> n_left (h' a) = n_left (h a) \<and> n_right (h' a) = n_right (h a))
   \<Longrightarrow> links h' par t = links h par t"
  by (induction t arbitrary: par) auto

lemma path_links_cong:
  "(\<And>a. a \<in> path_set c \<or> a = head \<Longrightarrow> n_parent (h' a) = n_parent (h a) \<and> n_left (h' a) = n_left (h a) \<and> n_right (h' a) = n_right (h a))
   \<Longrightarrow> path_links h' head c x = path_links h head c x"
proof (induction c arbitrary: x)
  case (Cons s c)
  then show ?case using links_cong [of _ h' h] by (cases s) simp_all
qed simp

lemma links_set [simp]:
  "a \<notin> set_tree t \<Longrightarrow> links (set_parent a x h) par t = links h par t"
  "a \<notin> set_tree t \<Longrightarrow> links (set_left a x h) par t = links h par t"
  "a \<notin> set_tree t \<Longrightarrow> links (set_right a x h) par t = links h par t"
  "links (setColor a c h) par t = links h par t"
  by (rule links_cong; auto)+

lemma path_links_set [simp]:
  "a \<notin> path_set p \<Longrightarrow> a \<noteq> head \<Longrightarrow> path_links (set_parent a x h) head p y = path_links h head p y"
  "a \<notin> path_set p \<Longrightarrow> a \<noteq> head \<Longrightarrow> path_links (set_left a x h) head p y = path_links h head p y"
  "a \<notin> path_set p \<Longrightarrow> a \<noteq> head \<Longrightarrow> path_links (set_right a x h) head p y = path_links h head p y"
  "path_links (setColor a c h) head p y = path_links h head p y"
  by (rule path_links_cong; auto)+

lemma top_set: "root_of t \<noteq> 0 \<Longrightarrow> root_of t \<in> set_tree t"
  by (cases t) auto

lemma root_of_not_in: "a \<notin> set_tree t \<Longrightarrow> a \<noteq> 0 \<Longrightarrow> root_of t \<noteq> a"
  by (cases t) auto

lemma links_nonzero: "links h par t \<Longrightarrow> 0 \<notin> set_tree t"
  by (induction t arbitrary: par) auto

lemma path_links_nonzero: "path_links h head c x \<Longrightarrow> 0 \<notin> path_set c"
  by (induction c arbitrary: x rule: path_set.induct) (auto dest: links_nonzero)

section \<open>Rotations keep the order\<close>

lemma path_root: "path_links h head c x \<Longrightarrow> c \<noteq> [] \<Longrightarrow> n_left (h head) \<in> path_set c"
proof (induction c arbitrary: x rule: path_set.induct)
  case (2 a r c)
  then show ?case by (cases "c = []") auto
next
  case (3 l a c)
  then show ?case by (cases "c = []") auto
qed simp

lemma relink_fields [simp]:
  "n_parent (relink head n p h a) = n_parent (h a)" "n_color (relink head n p h a) = n_color (h a)"
  "n_value (relink head n p h a) = n_value (h a)"
  by (simp_all add: relink_def)

definition path_ok :: "'v heap \<Rightarrow> addr \<Rightarrow> step list \<Rightarrow> addr \<Rightarrow> bool" where
  "path_ok h head c p \<longleftrightarrow> path_links h head c p \<and> distinct (before c @ behind c) \<and> head \<notin> path_set c \<and> head \<noteq> 0
     \<and> p \<noteq> 0 \<and> p \<notin> path_set c \<and> p \<noteq> head \<and> n_parent (h p) = up head c"

lemma relink_On_left:
  assumes "path_ok h head (On_left q r # c) p"
  shows "relink head n p h = set_left q n h"
proof -
  have "n_left (h head) \<noteq> p" using assms path_root [of h head "On_left q r # c" p] by (auto simp: path_ok_def)
  moreover have "root_of r \<noteq> p" using assms by (cases r) (auto simp: path_ok_def)
  ultimately show ?thesis using assms by (auto simp: relink_def path_ok_def)
qed

lemma relink_On_right:
  assumes "path_ok h head (On_right l q # c) p"
  shows "relink head n p h = set_right q n h"
proof -
  have "n_left (h head) \<noteq> p" using assms path_root [of h head "On_right l q # c" p] by (auto simp: path_ok_def)
  then show ?thesis using assms by (auto simp: relink_def path_ok_def)
qed

lemma relink_Nil: "path_ok h head [] p \<Longrightarrow> relink head n p h = set_left head n h"
  by (simp add: relink_def path_ok_def)

lemma relink_path:
  assumes "path_ok h head c p"
  shows "path_links (relink head n p h) head c n"
proof (cases c)
  case Nil
  then show ?thesis using assms by (simp add: relink_Nil)
next
  case (Cons s c')
  show ?thesis
  proof (cases s)
    case (On_left q r)
    then have "q \<notin> set_tree r" "q \<notin> path_set c'" "q \<noteq> head"
      using assms by (auto simp: Cons path_ok_def path_set_lists)
    then show ?thesis using assms relink_On_left [of h head q r c' p n] by (simp add: Cons On_left path_ok_def)
  next
    case (On_right l q)
    then have "q \<notin> set_tree l" "q \<notin> path_set c'" "q \<noteq> head"
      using assms by (auto simp: Cons path_ok_def path_set_lists)
    then show ?thesis using assms relink_On_right [of h head l q c' p n] by (simp add: Cons On_right path_ok_def)
  qed
qed

lemma relink_off_path:
  assumes "path_ok h head c p" "a \<notin> path_set c" "a \<noteq> head"
  shows "n_left (relink head n p h a) = n_left (h a)" "n_right (relink head n p h a) = n_right (h a)"
proof -
  have "n_left (relink head n p h a) = n_left (h a) \<and> n_right (relink head n p h a) = n_right (h a)"
  proof (cases c)
    case Nil
    then show ?thesis using assms by (simp add: relink_Nil)
  next
    case (Cons s c')
    then show ?thesis
      using assms relink_On_left [of h head _ _ c' p n] relink_On_right [of h head _ _ c' p n] by (cases s) auto
  qed
  then show "n_left (relink head n p h a) = n_left (h a)" "n_right (relink head n p h a) = n_right (h a)" by blast+
qed

lemma relink_links:
  assumes "path_ok h head c p" "set_tree t \<inter> path_set c = {}" "head \<notin> set_tree t"
  shows "links (relink head n p h) par t = links h par t"
proof (rule links_cong)
  fix a assume "a \<in> set_tree t"
  then have "a \<notin> path_set c" "a \<noteq> head" using assms(2,3) by auto
  then show "n_parent (relink head n p h a) = n_parent (h a) \<and> n_left (relink head n p h a) = n_left (h a)
      \<and> n_right (relink head n p h a) = n_right (h a)"
    by (simp add: relink_off_path [OF assms(1)])
qed

lemma relink_head:
  assumes "path_ok h head c p"
  shows "n_right (relink head n p h head) = n_right (h head)"
proof (cases c)
  case (Cons s c')
  then show ?thesis
    using assms relink_On_left [of h head _ _ c' p n] relink_On_right [of h head _ _ c' p n] by (cases s) (auto simp: path_ok_def)
qed (use assms in \<open>simp add: relink_Nil\<close>)

lemma set_parent_root: "links h par t \<Longrightarrow> distinct (inorder t) \<Longrightarrow> links (if root_of t \<noteq> 0 then set_parent (root_of t) x h else h) x t"
  by (cases t) auto

lemma rotate_fields [simp]:
  "n_color (RotateLeft head n p h a) = n_color (h a)" "n_value (RotateLeft head n p h a) = n_value (h a)"
  "n_color (RotateRight head n p h a) = n_color (h a)" "n_value (RotateRight head n p h a) = n_value (h a)"
  by (simp_all add: RotateLeft_def RotateRight_def Let_def)

lemma rotate_left:
  assumes "rep h head (plug c (Node a p (Node b n d)))"
  shows "rep (RotateLeft head n p h) head (plug c (Node (Node a p b) n d))"
    "n_parent (RotateLeft head n p h head) = n_parent (h head)" "n_right (RotateLeft head n p h head) = n_right (h head)"
proof -
  note r = assms [unfolded rep_plug, simplified, simplified Int_Un_distrib2 Int_Un_distrib Un_empty]
  have ok: "path_ok h head c p" using r by (auto simp: path_ok_def)
  define h1 where "h1 = relink head n p h"
  have b: "links h1 n b" "links h1 p a" "links h1 n d"
    using r by (auto simp: h1_def relink_links [OF ok])
  have f: "n_right (h1 p) = n" "n_left (h1 n) = root_of b" "n_right (h1 n) = root_of d" "n_left (h1 p) = root_of a"
      "n_parent (h1 p) = up head c"
    using r by (auto simp: h1_def relink_off_path [OF ok])
  have c: "path_links h1 head c n" using relink_path [OF ok] by (simp add: h1_def)
  define h2 where "h2 = set_left n p (set_parent p n (set_parent n (up head c) h1))"
  define h3 where "h3 = (if root_of b \<noteq> 0 then set_parent (root_of b) p h2 else h2)"
  have e: "RotateLeft head n p h = set_right p (root_of b) h3"
    using r f by (simp add: RotateLeft_def Let_def h1_def [symmetric] h2_def h3_def)
  have "links h2 n b" using b(1) r by (simp add: h2_def)
  then have "links h3 p b" unfolding h3_def using r by (intro set_parent_root) simp_all
  moreover have bt: "root_of b \<noteq> p \<and> root_of b \<noteq> n \<and> root_of b \<noteq> head" "root_of b \<noteq> 0 \<longrightarrow> root_of b \<notin> path_set c
      \<and> root_of b \<notin> set_tree a \<and> root_of b \<notin> set_tree d"
    using r by (cases b; auto)+
  ultimately show "rep (RotateLeft head n p h) head (plug c (Node (Node a p b) n d))"
    using r b c f unfolding rep_plug e by (auto simp: h3_def h2_def)
  show "n_parent (RotateLeft head n p h head) = n_parent (h head)" "n_right (RotateLeft head n p h head) = n_right (h head)"
    using r bt unfolding e by (auto simp: h3_def h2_def h1_def relink_head [OF ok])
qed

lemma rotate_right:
  assumes "rep h head (plug c (Node (Node d n b) p a))"
  shows "rep (RotateRight head n p h) head (plug c (Node d n (Node b p a)))"
    "n_parent (RotateRight head n p h head) = n_parent (h head)" "n_right (RotateRight head n p h head) = n_right (h head)"
proof -
  note r = assms [unfolded rep_plug, simplified, simplified Int_Un_distrib2 Int_Un_distrib Un_empty]
  have ok: "path_ok h head c p" using r by (auto simp: path_ok_def)
  define h1 where "h1 = relink head n p h"
  have b: "links h1 n b" "links h1 p a" "links h1 n d"
    using r by (auto simp: h1_def relink_links [OF ok])
  have f: "n_left (h1 p) = n" "n_right (h1 n) = root_of b" "n_left (h1 n) = root_of d" "n_right (h1 p) = root_of a"
      "n_parent (h1 p) = up head c"
    using r by (auto simp: h1_def relink_off_path [OF ok])
  have c: "path_links h1 head c n" using relink_path [OF ok] by (simp add: h1_def)
  define h2 where "h2 = set_right n p (set_parent p n (set_parent n (up head c) h1))"
  define h3 where "h3 = (if root_of b \<noteq> 0 then set_parent (root_of b) p h2 else h2)"
  have e: "RotateRight head n p h = set_left p (root_of b) h3"
    using r f by (simp add: RotateRight_def Let_def h1_def [symmetric] h2_def h3_def)
  have "links h2 n b" using b(1) r by (simp add: h2_def)
  then have "links h3 p b" unfolding h3_def using r by (intro set_parent_root) simp_all
  moreover have bt: "root_of b \<noteq> p \<and> root_of b \<noteq> n \<and> root_of b \<noteq> head" "root_of b \<noteq> 0 \<longrightarrow> root_of b \<notin> path_set c
      \<and> root_of b \<notin> set_tree a \<and> root_of b \<notin> set_tree d"
    using r by (cases b; auto)+
  ultimately show "rep (RotateRight head n p h) head (plug c (Node d n (Node b p a)))"
    using r b c f unfolding rep_plug e by (auto simp: h3_def h2_def)
  show "n_parent (RotateRight head n p h head) = n_parent (h head)" "n_right (RotateRight head n p h head) = n_right (h head)"
    using r bt unfolding e by (auto simp: h3_def h2_def h1_def relink_head [OF ok])
qed

end
