(* ===== verification/RbInsert.thy ===== *)
theory RbInsert
  imports RbTree
begin

text \<open>
  The rebalancing of \<^verbatim>\<open>NodeBase::insert\<close> restores the red-black tree: the colours of the nodes on the links,
  and the loop step by step.
\<close>

section \<open>Colours\<close>

fun red :: "'v heap \<Rightarrow> addr tree \<Rightarrow> bool" where
  "red h Leaf = False"
| "red h (Node l a r) = (n_color (h a) = Red)"

fun bh :: "'v heap \<Rightarrow> addr tree \<Rightarrow> nat" where
  "bh h Leaf = 0"
| "bh h (Node l a r) = bh h l + (if n_color (h a) = Black then 1 else 0)"

fun invh :: "'v heap \<Rightarrow> addr tree \<Rightarrow> bool" where
  "invh h Leaf = True"
| "invh h (Node l a r) = (invh h l \<and> invh h r \<and> bh h l = bh h r)"

fun invc :: "'v heap \<Rightarrow> addr tree \<Rightarrow> bool" where
  "invc h Leaf = True"
| "invc h (Node l a r) = (invc h l \<and> invc h r \<and> (n_color (h a) = Red \<longrightarrow> \<not> red h l \<and> \<not> red h r))"

text \<open>A red-black tree: the root is black, no red node has a red child, and every path has as many black nodes.\<close>

definition rb_tree :: "'v heap \<Rightarrow> addr tree \<Rightarrow> bool" where
  "rb_tree h t \<longleftrightarrow> invh h t \<and> invc h t \<and> \<not> red h t"

text \<open>The same of what surrounds a subtree of black height \<open>n\<close>, and of which \<open>b\<close> is whether its root is red.\<close>

fun path_invh :: "'v heap \<Rightarrow> step list \<Rightarrow> nat \<Rightarrow> bool" where
  "path_invh h [] n = True"
| "path_invh h (On_left a r # c) n = (invh h r \<and> bh h r = n \<and> path_invh h c (n + (if n_color (h a) = Black then 1 else 0)))"
| "path_invh h (On_right l a # c) n = (invh h l \<and> bh h l = n \<and> path_invh h c (n + (if n_color (h a) = Black then 1 else 0)))"

fun path_invc :: "'v heap \<Rightarrow> step list \<Rightarrow> bool \<Rightarrow> bool" where
  "path_invc h [] b = True"
| "path_invc h (On_left a r # c) b = (invc h r \<and> (n_color (h a) = Red \<longrightarrow> \<not> b \<and> \<not> red h r) \<and> path_invc h c (n_color (h a) = Red))"
| "path_invc h (On_right l a # c) b = (invc h l \<and> (n_color (h a) = Red \<longrightarrow> \<not> b \<and> \<not> red h l) \<and> path_invc h c (n_color (h a) = Red))"

lemma invh_plug: "invh h (plug c t) \<longleftrightarrow> invh h t \<and> path_invh h c (bh h t)"
  by (induction c t rule: plug.induct) auto

lemma invc_plug: "invc h (plug c t) \<longleftrightarrow> invc h t \<and> path_invc h c (red h t)"
  by (induction c t rule: plug.induct) auto

lemma path_invc_mono: "path_invc h c True \<Longrightarrow> path_invc h c b"
  by (cases c rule: path_set.cases) auto

lemma colour_cong:
  assumes "\<And>a. a \<in> set_tree t \<Longrightarrow> n_color (h' a) = n_color (h a)"
  shows "bh h' t = bh h t" "invh h' t = invh h t" "red h' t = red h t" "invc h' t = invc h t"
proof -
  have "bh h' t = bh h t \<and> invh h' t = invh h t \<and> red h' t = red h t \<and> invc h' t = invc h t"
    using assms by (induction t) auto
  then show "bh h' t = bh h t" "invh h' t = invh h t" "red h' t = red h t" "invc h' t = invc h t" by blast+
qed

lemma path_colour_cong:
  assumes "\<And>a. a \<in> path_set c \<Longrightarrow> n_color (h' a) = n_color (h a)"
  shows "path_invh h' c n = path_invh h c n" "path_invc h' c b = path_invc h c b"
  using assms colour_cong [of _ h' h] by (induction c arbitrary: n b rule: path_set.induct) auto

lemma colour_set [simp]:
  "a \<notin> set_tree t \<Longrightarrow> bh (setColor a k h) t = bh h t" "a \<notin> set_tree t \<Longrightarrow> invh (setColor a k h) t = invh h t"
  "a \<notin> set_tree t \<Longrightarrow> red (setColor a k h) t = red h t" "a \<notin> set_tree t \<Longrightarrow> invc (setColor a k h) t = invc h t"
  "a \<notin> path_set c \<Longrightarrow> path_invh (setColor a k h) c n = path_invh h c n"
  "a \<notin> path_set c \<Longrightarrow> path_invc (setColor a k h) c b = path_invc h c b"
  by (rule colour_cong path_colour_cong; auto)+

lemma colour_rotate [simp]:
  "bh (RotateLeft head x y h) t = bh h t" "invh (RotateLeft head x y h) t = invh h t"
  "red (RotateLeft head x y h) t = red h t" "invc (RotateLeft head x y h) t = invc h t"
  "path_invh (RotateLeft head x y h) c n = path_invh h c n" "path_invc (RotateLeft head x y h) c b = path_invc h c b"
  "bh (RotateRight head x y h) t = bh h t" "invh (RotateRight head x y h) t = invh h t"
  "red (RotateRight head x y h) t = red h t" "invc (RotateRight head x y h) t = invc h t"
  "path_invh (RotateRight head x y h) c n = path_invh h c n" "path_invc (RotateRight head x y h) c b = path_invc h c b"
  by (rule colour_cong path_colour_cong; simp)+

lemma rep_colour [simp]: "rep (setColor a k h) head t = rep h head t"
  by (simp add: rep_def)

lemma setColor_same: "n_color (h a) = k \<Longrightarrow> setColor a k h = h"
  by (auto simp: setColor_def)

lemma root_red: "c \<noteq> [] \<Longrightarrow> red h (plug c t) = red h (plug c t')"
proof (induction c arbitrary: t t')
  case (Cons s c)
  then show ?case by (cases "c = []"; cases s) auto
qed simp

section \<open>The loop\<close>

text \<open>
  What the loop is given: a red node whose subtree is in order, in a tree that is in order but for the colour of
  the node's parent. What it gives: the same sequence of nodes, with the same values, as a red-black tree.
\<close>

definition insert_inv :: "'v heap \<Rightarrow> addr \<Rightarrow> step list \<Rightarrow> addr tree \<Rightarrow> bool" where
  "insert_inv h head c t \<longleftrightarrow> rep h head (plug c t) \<and> red h t \<and> invh h (plug c t) \<and> invc h t \<and> path_invc h c False
     \<and> (c \<noteq> [] \<longrightarrow> \<not> red h (plug c t))"

definition rebalanced :: "'v heap \<Rightarrow> addr \<Rightarrow> addr list \<Rightarrow> 'v heap \<Rightarrow> bool" where
  "rebalanced h head ns h' \<longleftrightarrow> (\<exists>t. rep h' head t \<and> rb_tree h' t \<and> inorder t = ns)
     \<and> (\<forall>a. n_value (h' a) = n_value (h a)) \<and> n_parent (h' head) = n_parent (h head) \<and> n_right (h' head) = n_right (h head)"

lemma rebalanced_trans:
  "rebalanced h' head ns h'' \<Longrightarrow> (\<And>a. n_value (h' a) = n_value (h a)) \<Longrightarrow> n_parent (h' head) = n_parent (h head)
    \<Longrightarrow> n_right (h' head) = n_right (h head) \<Longrightarrow> rebalanced h head ns h''"
  by (simp add: rebalanced_def)

lemma rb_insert_stop:
  assumes "n = n_left (h head) \<or> n_color (h (n_parent (h n))) = Black"
  shows "rb_insert head n h = Some (setColor (n_left (h head)) Black h)"
  using assms by (subst rb_insert.simps) auto

lemma blacken_root:
  assumes "rep h head t" "invh h t" "invc h t" "t \<noteq> Leaf"
  shows "rebalanced h head (inorder t) (setColor (n_left (h head)) Black h)"
proof -
  obtain l a r where t: "t = Node l a r" using assms(4) by (cases t) auto
  have "n_left (h head) = a" "a \<notin> set_tree l" "a \<notin> set_tree r" using assms(1) by (auto simp: rep_def t)
  then have "rb_tree (setColor (n_left (h head)) Black h) t" using assms(2,3) by (simp add: rb_tree_def t)
  then show ?thesis using assms(1) unfolding rebalanced_def by auto
qed

lemma rep_root: "rep h head t \<Longrightarrow> n_left (h head) = root_of t"
  by (simp add: rep_def)

lemma insert_rotated:
  assumes "rep h' head t'" "invh h' t'" "invc h' t'" "t' \<noteq> Leaf" "n_color (h' (n_parent (h' n))) = Black"
  shows "\<exists>h''. rb_insert head n h' = Some h'' \<and> rebalanced h' head (inorder t') h''"
  using blacken_root [OF assms(1-4)] rb_insert_stop [of n h' head] assms(5) by blast

lemma plug_not_Leaf: "plug c (Node l a r) \<noteq> Leaf"
  by (induction c "Node l a r" arbitrary: l a r rule: plug.induct) auto

text \<open>A red node with a red parent and a black uncle on the other side: one rotation, and the loop stops.\<close>

lemma insert_outer_left:
  assumes rp: "rep h head (plug c (Node (Node t p w) g u))" and t: "red h t" "invc h t" and w: "\<not> red h w" "invc h w"
    and u: "\<not> red h u" "invc h u" and ih: "invh h (plug c (Node (Node t p w) g u))" and pc: "path_invc h c False"
    and col: "n_color (h p) = Red" "n_color (h g) = Black"
  shows "\<exists>h''. rb_insert head (root_of t) (RotateRight head p g (setColor g Red (setColor p Black h))) = Some h''
    \<and> rebalanced h head (inorder (plug c (Node (Node t p w) g u))) h''"
proof -
  define h1 where "h1 = setColor g Red (setColor p Black h)"
  define h2 where "h2 = RotateRight head p g h1"
  let ?t = "plug c (Node t p (Node w g u))"
  note r = rp [unfolded rep_plug, simplified, simplified Int_Un_distrib2 Int_Un_distrib Un_empty]
  have rp1: "rep h1 head (plug c (Node (Node t p w) g u))" using rp by (simp add: h1_def)
  have rp2: "rep h2 head ?t" unfolding h2_def by (rule rotate_right(1) [OF rp1])
  have ih2: "invh h2 ?t" using ih r col by (auto simp: h2_def h1_def invh_plug)
  have ic2: "invc h2 ?t" using t w u pc r by (auto simp: h2_def h1_def invc_plug)
  obtain a n b where tn: "t = Node a n b" using t(1) by (cases t) auto
  have "n_parent (h2 n) = p" using rp2 by (auto simp: rep_plug tn)
  moreover have "p \<noteq> g" using r by auto
  ultimately have "n_color (h2 (n_parent (h2 (root_of t)))) = Black" by (simp add: tn h2_def h1_def)
  then obtain h'' where h'': "rb_insert head (root_of t) h2 = Some h''" "rebalanced h2 head (inorder ?t) h''"
    using insert_rotated [OF rp2 ih2 ic2 plug_not_Leaf] by blast
  have "rebalanced h head (inorder ?t) h''"
    by (rule rebalanced_trans [OF h''(2)]) (simp_all add: h2_def rotate_right(2,3) [OF rp1], simp_all add: h1_def)
  then show ?thesis using h''(1) by (simp add: h2_def h1_def inorder_plug)
qed

text \<open>The same for a node on the inner side of its parent, which is turned to the outer side first.\<close>

lemma insert_inner_left:
  assumes rp: "rep h head (plug c (Node (Node w p (Node a n b)) g u))" and t: "n_color (h n) = Red" "invc h (Node a n b)"
    and w: "\<not> red h w" "invc h w" and u: "\<not> red h u" "invc h u"
    and ih: "invh h (plug c (Node (Node w p (Node a n b)) g u))" and pc: "path_invc h c False"
    and col: "n_color (h p) = Red" "n_color (h g) = Black"
  shows "\<exists>h''. rb_insert head p (RotateRight head n g (setColor g Red (setColor n Black (RotateLeft head n p h)))) = Some h''
    \<and> rebalanced h head (inorder (plug c (Node (Node w p (Node a n b)) g u))) h''"
proof -
  define h1 where "h1 = RotateLeft head n p h"
  have rp0: "rep h head (plug (On_left g u # c) (Node w p (Node a n b)))" using rp by simp
  have "rep h1 head (plug c (Node (Node (Node w p a) n b) g u))" using rotate_left(1) [OF rp0] by (simp add: h1_def)
  moreover have "invh h1 (plug c (Node (Node (Node w p a) n b) g u))" using ih t(1) col by (auto simp: h1_def invh_plug)
  ultimately obtain h'' where h'': "rb_insert head (root_of (Node w p a)) (RotateRight head n g (setColor g Red (setColor n Black h1))) = Some h''"
      "rebalanced h1 head (inorder (plug c (Node (Node (Node w p a) n b) g u))) h''"
    using insert_outer_left [of h1 head c "Node w p a" n b g u] t w u pc col by (auto simp: h1_def)
  have "rebalanced h head (inorder (plug c (Node (Node (Node w p a) n b) g u))) h''"
    by (rule rebalanced_trans [OF h''(2)]) (simp_all add: h1_def rotate_left(2,3) [OF rp0])
  then show ?thesis using h''(1) by (simp add: h1_def inorder_plug)
qed

text \<open>The mirror images.\<close>

lemma insert_outer_right:
  assumes rp: "rep h head (plug c (Node u g (Node w p t)))" and t: "red h t" "invc h t" and w: "\<not> red h w" "invc h w"
    and u: "\<not> red h u" "invc h u" and ih: "invh h (plug c (Node u g (Node w p t)))" and pc: "path_invc h c False"
    and col: "n_color (h p) = Red" "n_color (h g) = Black"
  shows "\<exists>h''. rb_insert head (root_of t) (RotateLeft head p g (setColor g Red (setColor p Black h))) = Some h''
    \<and> rebalanced h head (inorder (plug c (Node u g (Node w p t)))) h''"
proof -
  define h1 where "h1 = setColor g Red (setColor p Black h)"
  define h2 where "h2 = RotateLeft head p g h1"
  let ?t = "plug c (Node (Node u g w) p t)"
  note r = rp [unfolded rep_plug, simplified, simplified Int_Un_distrib2 Int_Un_distrib Un_empty]
  have rp1: "rep h1 head (plug c (Node u g (Node w p t)))" using rp by (simp add: h1_def)
  have rp2: "rep h2 head ?t" unfolding h2_def by (rule rotate_left(1) [OF rp1])
  have ih2: "invh h2 ?t" using ih r col by (auto simp: h2_def h1_def invh_plug)
  have ic2: "invc h2 ?t" using t w u pc r by (auto simp: h2_def h1_def invc_plug)
  obtain a n b where tn: "t = Node a n b" using t(1) by (cases t) auto
  have "n_parent (h2 n) = p" using rp2 by (auto simp: rep_plug tn)
  moreover have "p \<noteq> g" using r by auto
  ultimately have "n_color (h2 (n_parent (h2 (root_of t)))) = Black" by (simp add: tn h2_def h1_def)
  then obtain h'' where h'': "rb_insert head (root_of t) h2 = Some h''" "rebalanced h2 head (inorder ?t) h''"
    using insert_rotated [OF rp2 ih2 ic2 plug_not_Leaf] by blast
  have "rebalanced h head (inorder ?t) h''"
    by (rule rebalanced_trans [OF h''(2)]) (simp_all add: h2_def rotate_left(2,3) [OF rp1], simp_all add: h1_def)
  then show ?thesis using h''(1) by (simp add: h2_def h1_def inorder_plug)
qed

lemma insert_inner_right:
  assumes rp: "rep h head (plug c (Node u g (Node (Node a n b) p w)))" and t: "n_color (h n) = Red" "invc h (Node a n b)"
    and w: "\<not> red h w" "invc h w" and u: "\<not> red h u" "invc h u"
    and ih: "invh h (plug c (Node u g (Node (Node a n b) p w)))" and pc: "path_invc h c False"
    and col: "n_color (h p) = Red" "n_color (h g) = Black"
  shows "\<exists>h''. rb_insert head p (RotateLeft head n g (setColor g Red (setColor n Black (RotateRight head n p h)))) = Some h''
    \<and> rebalanced h head (inorder (plug c (Node u g (Node (Node a n b) p w)))) h''"
proof -
  define h1 where "h1 = RotateRight head n p h"
  have rp0: "rep h head (plug (On_right u g # c) (Node (Node a n b) p w))" using rp by simp
  have "rep h1 head (plug c (Node u g (Node a n (Node b p w))))" using rotate_right(1) [OF rp0] by (simp add: h1_def)
  moreover have "invh h1 (plug c (Node u g (Node a n (Node b p w))))" using ih t(1) col by (auto simp: h1_def invh_plug)
  ultimately obtain h'' where h'': "rb_insert head (root_of (Node b p w)) (RotateLeft head n g (setColor g Red (setColor n Black h1))) = Some h''"
      "rebalanced h1 head (inorder (plug c (Node u g (Node a n (Node b p w))))) h''"
    using insert_outer_right [of h1 head c u g a n "Node b p w"] t w u pc col by (auto simp: h1_def)
  have "rebalanced h head (inorder (plug c (Node u g (Node a n (Node b p w))))) h''"
    by (rule rebalanced_trans [OF h''(2)]) (simp_all add: h1_def rotate_right(2,3) [OF rp0])
  then show ?thesis using h''(1) by (simp add: h1_def inorder_plug)
qed

text \<open>The loop on a path: what hangs next to a step, and the grandparent's subtree when the uncle is red.\<close>

fun step_node :: "step \<Rightarrow> addr" where
  "step_node (On_left a r) = a"
| "step_node (On_right l a) = a"

fun step_other :: "step \<Rightarrow> addr tree" where
  "step_other (On_left a r) = r"
| "step_other (On_right l a) = l"

lemma red_root: "links h par u \<Longrightarrow> root_of u \<noteq> 0 \<and> n_color (h (root_of u)) = Red \<longleftrightarrow> red h u"
  by (cases u) auto

lemma insert_stop:
  assumes "insert_inv h head c t" "c = [] \<or> n_color (h (step_node (hd c))) = Black"
  shows "\<exists>h'. rb_insert head (root_of t) h = Some h' \<and> rebalanced h head (inorder (plug c t)) h'"
proof -
  obtain a n b where t: "t = Node a n b" using assms(1) by (cases t) (auto simp: insert_inv_def)
  have r: "rep h head (plug c t)" "invh h (plug c t)" using assms(1) by (auto simp: insert_inv_def)
  have ic: "invc h (plug c t)" using assms by (cases c rule: path_set.cases) (auto simp: insert_inv_def invc_plug)
  have "root_of t = n_left (h head) \<or> n_color (h (n_parent (h (root_of t)))) = Black"
  proof (cases "c = []")
    case True
    then show ?thesis using rep_root [OF r(1)] by simp
  next
    case False
    then show ?thesis using assms(2) r(1) by (cases c rule: path_set.cases) (auto simp: rep_plug t)
  qed
  then show ?thesis using rb_insert_stop blacken_root [OF r ic] plug_not_Leaf by (auto simp: t)
qed

lemma recolour_left:
  assumes rp: "rep h head (plug c (Node (Node a p b) g (Node l q r)))"
    and ih: "invh h (plug c (Node (Node a p b) g (Node l q r)))" and pc: "path_invc h c False"
    and ic: "invc h a" "invc h b" "invc h (Node l q r)"
    and col: "n_color (h p) = Red" "n_color (h q) = Red" "n_color (h g) = Black"
    and rt: "c \<noteq> [] \<Longrightarrow> \<not> red h (plug c (Node (Node a p b) g (Node l q r)))"
  shows "insert_inv (setColor g Red (setColor q Black (setColor p Black h))) head c (Node (Node a p b) g (Node l q r))"
proof -
  let ?t = "Node (Node a p b) g (Node l q r)"
  define h' where "h' = setColor g Red (setColor q Black (setColor p Black h))"
  note r = rp [unfolded rep_plug, simplified, simplified Int_Un_distrib2 Int_Un_distrib Un_empty]
  have o: "invh h' a \<and> invh h' b \<and> invh h' l \<and> invh h' r \<and> bh h' a = bh h a \<and> bh h' b = bh h b \<and> bh h' l = bh h l \<and> bh h' r = bh h r
      \<and> invc h' a \<and> invc h' b \<and> invc h' l \<and> invc h' r"
    using r ih ic by (auto simp: h'_def invh_plug)
  have p: "path_invh h' c n = path_invh h c n" "path_invc h' c False = path_invc h c False" for n
    using r by (simp_all add: h'_def)
  have k: "n_color (h' p) = Black" "n_color (h' q) = Black" "n_color (h' g) = Red" using r by (auto simp: h'_def)
  have "\<not> red h' (plug c ?t)" if "c \<noteq> []"
  proof -
    have "root_of (plug c ?t) \<in> path_set c" using that path_root [of h head c g] r rep_root [OF rp] by auto
    then have "n_color (h' (root_of (plug c ?t))) = n_color (h (root_of (plug c ?t)))" using r by (auto simp: h'_def)
    then show ?thesis using rt [OF that] by (cases "plug c ?t") auto
  qed
  moreover have "rep h' head (plug c ?t)" using rp by (simp add: h'_def)
  moreover have "bh h' ?t = bh h ?t" using k col o ih by (auto simp: invh_plug)
  ultimately have "insert_inv h' head c ?t" using o k p pc ih col by (auto simp: insert_inv_def invh_plug)
  then show ?thesis by (simp add: h'_def)
qed

lemma recolour_right:
  assumes rp: "rep h head (plug c (Node (Node l q r) g (Node a p b)))"
    and ih: "invh h (plug c (Node (Node l q r) g (Node a p b)))" and pc: "path_invc h c False"
    and ic: "invc h a" "invc h b" "invc h (Node l q r)"
    and col: "n_color (h p) = Red" "n_color (h q) = Red" "n_color (h g) = Black"
    and rt: "c \<noteq> [] \<Longrightarrow> \<not> red h (plug c (Node (Node l q r) g (Node a p b)))"
  shows "insert_inv (setColor g Red (setColor q Black (setColor p Black h))) head c (Node (Node l q r) g (Node a p b))"
proof -
  let ?t = "Node (Node l q r) g (Node a p b)"
  define h' where "h' = setColor g Red (setColor q Black (setColor p Black h))"
  note r = rp [unfolded rep_plug, simplified, simplified Int_Un_distrib2 Int_Un_distrib Un_empty]
  have o: "invh h' a \<and> invh h' b \<and> invh h' l \<and> invh h' r \<and> bh h' a = bh h a \<and> bh h' b = bh h b \<and> bh h' l = bh h l \<and> bh h' r = bh h r
      \<and> invc h' a \<and> invc h' b \<and> invc h' l \<and> invc h' r"
    using r ih ic by (auto simp: h'_def invh_plug)
  have p: "path_invh h' c n = path_invh h c n" "path_invc h' c False = path_invc h c False" for n
    using r by (simp_all add: h'_def)
  have k: "n_color (h' p) = Black" "n_color (h' q) = Black" "n_color (h' g) = Red" using r by (auto simp: h'_def)
  have "\<not> red h' (plug c ?t)" if "c \<noteq> []"
  proof -
    have "root_of (plug c ?t) \<in> path_set c" using that path_root [of h head c g] r rep_root [OF rp] by auto
    then have "n_color (h' (root_of (plug c ?t))) = n_color (h (root_of (plug c ?t)))" using r by (auto simp: h'_def)
    then show ?thesis using rt [OF that] by (cases "plug c ?t") auto
  qed
  moreover have "rep h' head (plug c ?t)" using rp by (simp add: h'_def)
  moreover have "bh h' ?t = bh h ?t" using k col o ih by (auto simp: invh_plug)
  ultimately have "insert_inv h' head c ?t" using o k p pc ih col by (auto simp: insert_inv_def invh_plug)
  then show ?thesis by (simp add: h'_def)
qed

text \<open>One round of the loop, below a left and below a right child.\<close>

lemma insert_round_left:
  assumes "n \<noteq> n_left (h head)" "n_parent (h n) = p" "n_color (h p) = Red" "n_parent (h p) = g" "n_left (h g) = p"
    "links h g u" "n_right (h g) = root_of u"
  shows "red h u \<Longrightarrow> rb_insert head n h = rb_insert head g (setColor g Red (setColor (root_of u) Black (setColor p Black h)))"
    "\<not> red h u \<Longrightarrow> n_right (h p) \<noteq> n \<Longrightarrow> rb_insert head n h = rb_insert head n (RotateRight head p g (setColor g Red (setColor p Black h)))"
    "\<not> red h u \<Longrightarrow> n_right (h p) = n \<Longrightarrow> n_left (RotateLeft head n p h n) = p \<Longrightarrow> n_parent (RotateLeft head n p h p) = n \<Longrightarrow>
      rb_insert head n h = rb_insert head p (RotateRight head n g (setColor g Red (setColor n Black (RotateLeft head n p h))))"
proof -
  have u: "(root_of u \<noteq> 0 \<and> n_color (h (root_of u)) = Red) = red h u" by (rule red_root [OF assms(6)])
  note unroll = rb_insert.simps [of head n h, unfolded Let_def assms(2,4,5,7) u]
  show "red h u \<Longrightarrow> rb_insert head n h = rb_insert head g (setColor g Red (setColor (root_of u) Black (setColor p Black h)))"
    using assms(1,3) by (simp add: unroll)
  show "\<not> red h u \<Longrightarrow> n_right (h p) \<noteq> n \<Longrightarrow> rb_insert head n h = rb_insert head n (RotateRight head p g (setColor g Red (setColor p Black h)))"
    using assms(1,3) by (subst unroll) auto
  show "\<not> red h u \<Longrightarrow> n_right (h p) = n \<Longrightarrow> n_left (RotateLeft head n p h n) = p \<Longrightarrow> n_parent (RotateLeft head n p h p) = n \<Longrightarrow>
      rb_insert head n h = rb_insert head p (RotateRight head n g (setColor g Red (setColor n Black (RotateLeft head n p h))))"
    using assms(1,3) by (subst unroll) simp
qed

lemma insert_round_right:
  assumes "n \<noteq> n_left (h head)" "n_parent (h n) = p" "n_color (h p) = Red" "n_parent (h p) = g" "n_left (h g) \<noteq> p"
    "links h g u" "n_left (h g) = root_of u"
  shows "red h u \<Longrightarrow> rb_insert head n h = rb_insert head g (setColor g Red (setColor (root_of u) Black (setColor p Black h)))"
    "\<not> red h u \<Longrightarrow> n_left (h p) \<noteq> n \<Longrightarrow> rb_insert head n h = rb_insert head n (RotateLeft head p g (setColor g Red (setColor p Black h)))"
    "\<not> red h u \<Longrightarrow> n_left (h p) = n \<Longrightarrow> n_right (RotateRight head n p h n) = p \<Longrightarrow> n_parent (RotateRight head n p h p) = n \<Longrightarrow>
      rb_insert head n h = rb_insert head p (RotateLeft head n g (setColor g Red (setColor n Black (RotateRight head n p h))))"
proof -
  have u: "(root_of u \<noteq> 0 \<and> n_color (h (root_of u)) = Red) = red h u" by (rule red_root [OF assms(6)])
  note unroll = rb_insert.simps [of head n h, unfolded Let_def assms(2,4,7) u]
  show "red h u \<Longrightarrow> rb_insert head n h = rb_insert head g (setColor g Red (setColor (root_of u) Black (setColor p Black h)))"
    using assms(1,3,5,7) by (simp add: unroll)
  show "\<not> red h u \<Longrightarrow> n_left (h p) \<noteq> n \<Longrightarrow> rb_insert head n h = rb_insert head n (RotateLeft head p g (setColor g Red (setColor p Black h)))"
    using assms(1,3,5,7) by (subst unroll) auto
  show "\<not> red h u \<Longrightarrow> n_left (h p) = n \<Longrightarrow> n_right (RotateRight head n p h n) = p \<Longrightarrow> n_parent (RotateRight head n p h p) = n \<Longrightarrow>
      rb_insert head n h = rb_insert head p (RotateLeft head n g (setColor g Red (setColor n Black (RotateRight head n p h))))"
    using assms(1,3,5,7) by (subst unroll) simp
qed

lemma insert_step_left:
  fixes h :: "'v heap"
  assumes inv: "insert_inv h head (s # On_left g u # c) (Node a n b)" and p: "n_color (h (step_node s)) = Red"
    and IH: "\<And>(h :: 'v heap) t. insert_inv h head c t \<Longrightarrow> \<exists>h'. rb_insert head (root_of t) h = Some h' \<and> rebalanced h head (inorder (plug c t)) h'"
  shows "\<exists>h'. rb_insert head n h = Some h' \<and> rebalanced h head (inorder (plug (s # On_left g u # c) (Node a n b))) h'"
proof -
  define p where "p = step_node s"
  have rp: "rep h head (plug (s # On_left g u # c) (Node a n b))" using inv by (simp add: insert_inv_def)
  note r = rp [unfolded rep_plug, simplified, simplified Int_Un_distrib2 Int_Un_distrib Un_empty]
  have root: "n \<noteq> n_left (h head)" using path_root [of h head "s # On_left g u # c" n] r by auto
  have l: "n_parent (h n) = p" "n_parent (h p) = g" "n_left (h g) = p" "links h g u" "n_right (h g) = root_of u"
    using r by (cases s; auto simp: p_def)+
  note round = insert_round_left [OF root l(1) p [folded p_def] l(2-)]
  obtain v w where T: "plug [s] (Node a n b) = Node v p w" by (cases s) (auto simp: p_def)
  have T': "plug (s # On_left g u # c) (Node a n b) = plug c (Node (Node v p w) g u)" using T by (cases s) (auto simp: p_def)
  have o: "path_invc h c False" "n_color (h g) = Black" "invc h u" "invc h v" "invc h w" "invc h (Node a n b)" "n_color (h n) = Red"
    "c \<noteq> [] \<Longrightarrow> \<not> red h (plug c (Node (Node v p w) g u))" "invh h (plug c (Node (Node v p w) g u))"
    using inv T p by (cases s; auto simp: p_def insert_inv_def intro: NodeColor.exhaust)+
  show ?thesis
  proof (cases "red h u")
    case True
    then obtain x q y where u: "u = Node x q y" by (cases u) auto
    let ?h = "setColor g Red (setColor q Black (setColor p Black h))"
    have keep: "n_parent (?h a) = n_parent (h a)" "n_right (?h a) = n_right (h a)" "n_value (?h a) = n_value (h a)" for a by simp_all
    have "insert_inv ?h head c (Node (Node v p w) g u)"
      using recolour_left [of h head c v p w g x q y] rp [unfolded T'] o p True by (simp add: u p_def)
    from IH [OF this] obtain h' where h': "rb_insert head g ?h = Some h'" "rebalanced ?h head (inorder (plug c (Node (Node v p w) g u))) h'"
      by auto
    have "rebalanced h head (inorder (plug c (Node (Node v p w) g u))) h'" by (rule rebalanced_trans [OF h'(2)]) (simp_all only: keep)
    then show ?thesis using h'(1) round(1) [OF True] unfolding T' by (simp add: u)
  next
    case False
    show ?thesis
    proof (cases s)
      case (On_left p' w')
      then have "v = Node a n b" "w = w'" "p' = p" using T by (simp_all add: p_def)
      moreover have "\<not> red h w" "n_right (h p) \<noteq> n"
        using inv p r root_of_not_in [of n w'] by (auto simp: insert_inv_def On_left \<open>w = w'\<close> \<open>p' = p\<close>)
      ultimately show ?thesis
        using insert_outer_left [of h head c "Node a n b" p w g u] o rp False p round(2) [OF False] unfolding T'
        by (simp add: p_def)
    next
      case (On_right w' p')
      then have e: "w = Node a n b" "v = w'" "p' = p" using T by (simp_all add: p_def)
      have w: "\<not> red h v" "n_right (h p) = n" using inv p r by (auto simp: insert_inv_def On_right e)
      have "rep (RotateLeft head n p h) head (plug (On_left g u # c) (Node (Node v p a) n b))"
        by (rule rotate_left(1)) (use rp T' e in simp)
      then have "n_left (RotateLeft head n p h n) = p" "n_parent (RotateLeft head n p h p) = n" by (simp_all add: rep_plug)
      then show ?thesis
        using insert_inner_left [of h head c v p a n b g u] o rp False p w round(3) [OF False w(2)] unfolding T'
        by (simp add: e p_def)
    qed
  qed
qed

lemma insert_step_right:
  fixes h :: "'v heap"
  assumes inv: "insert_inv h head (s # On_right u g # c) (Node a n b)" and p: "n_color (h (step_node s)) = Red"
    and IH: "\<And>(h :: 'v heap) t. insert_inv h head c t \<Longrightarrow> \<exists>h'. rb_insert head (root_of t) h = Some h' \<and> rebalanced h head (inorder (plug c t)) h'"
  shows "\<exists>h'. rb_insert head n h = Some h' \<and> rebalanced h head (inorder (plug (s # On_right u g # c) (Node a n b))) h'"
proof -
  define p where "p = step_node s"
  have rp: "rep h head (plug (s # On_right u g # c) (Node a n b))" using inv by (simp add: insert_inv_def)
  note r = rp [unfolded rep_plug, simplified, simplified Int_Un_distrib2 Int_Un_distrib Un_empty]
  have root: "n \<noteq> n_left (h head)" using path_root [of h head "s # On_right u g # c" n] r by auto
  have l: "n_parent (h n) = p" "n_parent (h p) = g" "n_left (h g) \<noteq> p" "links h g u" "n_left (h g) = root_of u"
    using r root_of_not_in [of p u] by (cases s; auto simp: p_def)+
  note round = insert_round_right [OF root l(1) p [folded p_def] l(2-)]
  obtain v w where T: "plug [s] (Node a n b) = Node v p w" by (cases s) (auto simp: p_def)
  have T': "plug (s # On_right u g # c) (Node a n b) = plug c (Node u g (Node v p w))" using T by (cases s) (auto simp: p_def)
  have o: "path_invc h c False" "n_color (h g) = Black" "invc h u" "invc h v" "invc h w" "invc h (Node a n b)" "n_color (h n) = Red"
    "c \<noteq> [] \<Longrightarrow> \<not> red h (plug c (Node u g (Node v p w)))" "invh h (plug c (Node u g (Node v p w)))"
    using inv T p by (cases s; auto simp: p_def insert_inv_def intro: NodeColor.exhaust)+
  show ?thesis
  proof (cases "red h u")
    case True
    then obtain x q y where u: "u = Node x q y" by (cases u) auto
    let ?h = "setColor g Red (setColor q Black (setColor p Black h))"
    have keep: "n_parent (?h a) = n_parent (h a)" "n_right (?h a) = n_right (h a)" "n_value (?h a) = n_value (h a)" for a by simp_all
    have "insert_inv ?h head c (Node u g (Node v p w))"
      using recolour_right [of h head c x q y g v p w] rp [unfolded T'] o p True by (simp add: u p_def)
    from IH [OF this] obtain h' where h': "rb_insert head g ?h = Some h'" "rebalanced ?h head (inorder (plug c (Node u g (Node v p w)))) h'"
      by auto
    have "rebalanced h head (inorder (plug c (Node u g (Node v p w)))) h'" by (rule rebalanced_trans [OF h'(2)]) (simp_all only: keep)
    then show ?thesis using h'(1) round(1) [OF True] unfolding T' by (simp add: u)
  next
    case False
    show ?thesis
    proof (cases s)
      case (On_right w' p')
      then have "w = Node a n b" "v = w'" "p' = p" using T by (simp_all add: p_def)
      moreover have "\<not> red h v" "n_left (h p) \<noteq> n"
        using inv p r root_of_not_in [of n w'] by (auto simp: insert_inv_def On_right \<open>v = w'\<close> \<open>p' = p\<close>)
      ultimately show ?thesis
        using insert_outer_right [of h head c u g v p "Node a n b"] o rp False p round(2) [OF False] unfolding T'
        by (simp add: p_def)
    next
      case (On_left p' w')
      then have e: "v = Node a n b" "w = w'" "p' = p" using T by (simp_all add: p_def)
      have w: "\<not> red h w" "n_left (h p) = n" using inv p r by (auto simp: insert_inv_def On_left e)
      have "rep (RotateRight head n p h) head (plug (On_right u g # c) (Node a n (Node b p w)))"
        by (rule rotate_right(1)) (use rp T' e in simp)
      then have "n_right (RotateRight head n p h n) = p" "n_parent (RotateRight head n p h p) = n" by (simp_all add: rep_plug)
      then show ?thesis
        using insert_inner_right [of h head c u g a n b p w] o rp False p w round(3) [OF False w(2)] unfolding T'
        by (simp add: e p_def)
    qed
  qed
qed

text \<open>The loop ends, and what it leaves is a red-black tree of the same nodes in the same order.\<close>

lemma rb_insert_rebalances:
  fixes h :: "'v heap"
  shows "insert_inv h head c t \<Longrightarrow> \<exists>h'. rb_insert head (root_of t) h = Some h' \<and> rebalanced h head (inorder (plug c t)) h'"
proof (induction c arbitrary: h t rule: measure_induct_rule [of length])
  case (less c)
  obtain a n b where t: "t = Node a n b" using less.prems by (cases t) (auto simp: insert_inv_def)
  show ?case
  proof (cases "c = [] \<or> n_color (h (step_node (hd c))) = Black")
    case True
    then show ?thesis by (rule insert_stop [OF less.prems])
  next
    case False
    then obtain s c1 where c1: "c = s # c1" "n_color (h (step_node s)) = Red"
      by (cases c) (auto intro: NodeColor.exhaust)
    have "c1 \<noteq> []" using less.prems c1 by (cases s) (auto simp: insert_inv_def)
    then obtain s' c' where c: "c = s # s' # c'" using c1 by (cases c1) auto
    have IH: "\<exists>h'. rb_insert head (root_of t) h = Some h' \<and> rebalanced h head (inorder (plug c' t)) h'"
      if "insert_inv h head c' t" for h :: "'v heap" and t
      by (rule less.IH [OF _ that]) (simp add: c)
    show ?thesis
      using insert_step_left [of h head s _ _ c' a n b, OF _ c1(2) IH] insert_step_right [of h head s _ _ c' a n b, OF _ c1(2) IH]
        less.prems by (cases s') (auto simp: c t)
  qed
qed

end
