(* ===== verification/RbRemove.thy ===== *)
theory RbRemove
  imports RbInsert
begin

text \<open>
  Models the rebalancing before a black node leaves the red-black tree (\<^verbatim>\<open>NodeBase::remove\<close> in
  \<^verbatim>\<open>common/memory/SPMemRbtree.cc\<close>): the node stays linked while the loop climbs from it, and what surrounds it
  ends with one black node less on every path.
\<close>

section \<open>The loop\<close>

text \<open>The tests of a link's colour: \<^verbatim>\<open>!x || x->getColor() == Black\<close> and \<^verbatim>\<open>x && x->getColor() == Red\<close>.\<close>

definition black_at :: "addr \<Rightarrow> 'v heap \<Rightarrow> bool" where
  "black_at a h \<longleftrightarrow> a = 0 \<or> n_color (h a) = Black"

definition red_at :: "addr \<Rightarrow> 'v heap \<Rightarrow> bool" where
  "red_at a h \<longleftrightarrow> a \<noteq> 0 \<and> n_color (h a) = Red"

text \<open>The black sibling without red children: with the store comes whether the loop is left.\<close>

definition recolour_sibling :: "addr \<Rightarrow> 'v heap \<Rightarrow> 'v heap \<times> bool" where
  "recolour_sibling s h =
     (let h = setColor s Red h in
      if n_color (h (n_parent (h s))) = Red then (setColor (n_parent (h s)) Black h, True) else (h, False))"

text \<open>The loop below a left child: a near red child is turned outwards, and a last rotation.\<close>

definition turn_left :: "addr \<Rightarrow> addr \<Rightarrow> addr \<Rightarrow> 'v heap \<Rightarrow> 'v heap \<times> addr" where
  "turn_left head n s h =
     (if black_at (n_right (h s)) h \<and> red_at (n_left (h s)) h then
        (let h = RotateRight head (n_left (h s)) s (setColor (n_left (h s)) Black (setColor s Red h))
         in (h, n_right (h (n_parent (h n)))))
      else (h, s))"

definition finish_left :: "addr \<Rightarrow> addr \<Rightarrow> addr \<Rightarrow> 'v heap \<Rightarrow> 'v heap" where
  "finish_left head n s h =
     (let h = setColor (n_parent (h n)) Black (setColor s (n_color (h (n_parent (h n)))) h);
          h = (if n_right (h s) \<noteq> 0 then setColor (n_right (h s)) Black h else h)
      in RotateLeft head s (n_parent (h n)) h)"

definition sibling_left :: "addr \<Rightarrow> addr \<Rightarrow> addr \<Rightarrow> 'v heap \<Rightarrow> 'v heap \<times> bool" where
  "sibling_left head n s h =
     (if n_color (h s) = Black \<and> black_at (n_left (h s)) h \<and> black_at (n_right (h s)) h then recolour_sibling s h
      else (let (h, s) = turn_left head n s h in (finish_left head n s h, True)))"

definition remove_left :: "addr \<Rightarrow> addr \<Rightarrow> 'v heap \<Rightarrow> 'v heap \<times> bool" where
  "remove_left head n h =
     (let s = n_right (h (n_parent (h n)));
          (h, s) = (if red_at s h then
              (let h = RotateLeft head s (n_parent (h n)) (setColor s Black (setColor (n_parent (h n)) Red h))
               in (h, n_right (h (n_parent (h n)))))
            else (h, s))
      in if s \<noteq> 0 then sibling_left head n s h else (h, True))"

text \<open>The same below a right child.\<close>

definition turn_right :: "addr \<Rightarrow> addr \<Rightarrow> addr \<Rightarrow> 'v heap \<Rightarrow> 'v heap \<times> addr" where
  "turn_right head n s h =
     (if black_at (n_left (h s)) h \<and> red_at (n_right (h s)) h then
        (let h = RotateLeft head (n_right (h s)) s (setColor (n_right (h s)) Black (setColor s Red h))
         in (h, n_left (h (n_parent (h n)))))
      else (h, s))"

definition finish_right :: "addr \<Rightarrow> addr \<Rightarrow> addr \<Rightarrow> 'v heap \<Rightarrow> 'v heap" where
  "finish_right head n s h =
     (let h = setColor (n_parent (h n)) Black (setColor s (n_color (h (n_parent (h n)))) h);
          h = (if n_left (h s) \<noteq> 0 then setColor (n_left (h s)) Black h else h)
      in RotateRight head s (n_parent (h n)) h)"

definition sibling_right :: "addr \<Rightarrow> addr \<Rightarrow> addr \<Rightarrow> 'v heap \<Rightarrow> 'v heap \<times> bool" where
  "sibling_right head n s h =
     (if n_color (h s) = Black \<and> black_at (n_left (h s)) h \<and> black_at (n_right (h s)) h then recolour_sibling s h
      else (let (h, s) = turn_right head n s h in (finish_right head n s h, True)))"

definition remove_right :: "addr \<Rightarrow> addr \<Rightarrow> 'v heap \<Rightarrow> 'v heap \<times> bool" where
  "remove_right head n h =
     (let s = n_left (h (n_parent (h n)));
          (h, s) = (if red_at s h then
              (let h = RotateRight head s (n_parent (h n)) (setColor s Black (setColor (n_parent (h n)) Red h))
               in (h, n_left (h (n_parent (h n)))))
            else (h, s))
      in if s \<noteq> 0 then sibling_right head n s h else (h, True))"

partial_function (option) rb_remove :: "addr \<Rightarrow> addr \<Rightarrow> 'v heap \<Rightarrow> 'v heap option" where
  "rb_remove head n h =
     (if n \<noteq> n_left (h head) \<and> n_color (h n) = Black then
        (let x = (if n = n_left (h (n_parent (h n))) then remove_left head n h else remove_right head n h)
         in if snd x then Some (setColor n Black (fst x)) else rb_remove head (n_parent (fst x n)) (fst x))
      else Some (setColor n Black h))"

section \<open>What the loop keeps\<close>

text \<open>
  The subtree \<open>t\<close> at the node of the loop is short of one black node: what surrounds it expects \<open>k + 1\<close> on a path
  and gets \<open>k\<close>. The loop changes only what surrounds it, until it expects \<open>k\<close>.
\<close>

definition remove_inv :: "'v heap \<Rightarrow> addr \<Rightarrow> step list \<Rightarrow> addr tree \<Rightarrow> nat \<Rightarrow> bool" where
  "remove_inv h head c t k \<longleftrightarrow> rep h head (plug c t) \<and> t \<noteq> Leaf \<and> \<not> red h t \<and> path_invh h c (k + 1) \<and> path_invc h c False
     \<and> (c \<noteq> [] \<longrightarrow> \<not> red h (plug c t))"

definition outcome :: "'v heap \<Rightarrow> addr \<Rightarrow> step list \<Rightarrow> addr tree \<Rightarrow> nat \<Rightarrow> 'v heap \<Rightarrow> bool" where
  "outcome h head c t k h' \<longleftrightarrow>
     (\<exists>c'. rep h' head (plug c' t) \<and> path_invh h' c' k \<and> path_invc h' c' False \<and> (c' \<noteq> [] \<longrightarrow> \<not> red h' (plug c' t))
        \<and> before c' = before c \<and> behind c' = behind c)
     \<and> (\<forall>a. n_value (h' a) = n_value (h a)) \<and> (\<forall>a\<in>set_tree t. n_color (h' a) = n_color (h a))
     \<and> n_parent (h' head) = n_parent (h head) \<and> n_right (h' head) = n_right (h head)"

lemma plug_top: "c \<noteq> [] \<Longrightarrow> \<exists>a\<in>path_set c. \<forall>t. \<exists>l r. plug c t = Node l a r"
proof (induction c rule: path_set.induct)
  case (2 a r c)
  show ?case
  proof (cases "c = []")
    case False
    then obtain b where "b \<in> path_set c" "\<forall>t. \<exists>l r. plug c t = Node l b r" using 2 by blast
    then show ?thesis by (intro bexI [of _ b]) auto
  qed simp
next
  case (3 l a c)
  show ?case
  proof (cases "c = []")
    case False
    then obtain b where "b \<in> path_set c" "\<forall>t. \<exists>l r. plug c t = Node l b r" using 3 by blast
    then show ?thesis by (intro bexI [of _ b]) auto
  qed simp
qed simp

text \<open>The colour at the root where the outer path keeps its colours.\<close>

lemma root_black:
  assumes "c \<noteq> []" "\<not> red h (plug c t)" "\<And>a. a \<in> path_set c \<Longrightarrow> n_color (h' a) = n_color (h a)"
  shows "\<not> red h' (plug c t')"
proof -
  obtain a where a: "a \<in> path_set c" "\<And>t. \<exists>l r. plug c t = Node l a r" using plug_top [OF assms(1)] by blast
  show ?thesis using a(2) [of t] a(2) [of t'] assms(2) assms(3) [OF a(1)] by auto
qed

text \<open>A black sibling whose far child is red: one rotation.\<close>

lemma remove_final_left:
  assumes rp: "rep h head (plug (On_left p (Node x s (Node y1 q y2)) # c) t)" and t: "t \<noteq> Leaf" "\<not> red h t"
    and ih: "path_invh h (On_left p (Node x s (Node y1 q y2)) # c) (k + 1)"
    and ic: "path_invc h (On_left p (Node x s (Node y1 q y2)) # c) False"
    and rt: "\<not> red h (plug (On_left p (Node x s (Node y1 q y2)) # c) t)"
    and col: "n_color (h s) = Black" "n_color (h q) = Red"
  shows "outcome h head (On_left p (Node x s (Node y1 q y2)) # c) t k
    (RotateLeft head s p (setColor q Black (setColor p Black (setColor s (n_color (h p)) h))))"
proof -
  define h1 where "h1 = setColor q Black (setColor p Black (setColor s (n_color (h p)) h))"
  define h2 where "h2 = RotateLeft head s p h1"
  let ?y = "Node y1 q y2"
  note r = rp [unfolded rep_plug, simplified, simplified Int_Un_distrib2 Int_Un_distrib Un_empty]
  have rp1: "rep h1 head (plug c (Node t p (Node x s ?y)))" using rp by (simp add: h1_def)
  let ?c = "On_left p x # On_left s ?y # c"
  have rp2: "rep h2 head (plug ?c t)" using rotate_left(1) [OF rp1] by (simp add: h2_def)
  have d: "p \<notin> path_set c" "s \<notin> path_set c" "q \<notin> path_set c" using r by (auto simp: path_set_lists)
  have off: "n_color (h2 a) = n_color (h a)" if "a \<noteq> p" "a \<noteq> s" "a \<noteq> q" for a using that by (simp add: h2_def h1_def)
  have k: "n_color (h2 p) = Black" "n_color (h2 s) = n_color (h p)" "n_color (h2 q) = Black"
    using r by (auto simp: h2_def h1_def)
  have o: "invh h2 x = invh h x" "invh h2 y1 = invh h y1" "invh h2 y2 = invh h y2" "bh h2 x = bh h x" "bh h2 y1 = bh h y1"
    "bh h2 y2 = bh h y2" "invc h2 x = invc h x" "invc h2 y1 = invc h y1" "invc h2 y2 = invc h y2" "red h2 x = red h x"
    "path_invh h2 c = path_invh h c" "path_invc h2 c = path_invc h c"
    using r d by (auto intro!: colour_cong path_colour_cong off ext)
  have "path_invh h2 ?c k" using ih k o col by (auto split: if_splits)
  moreover have "path_invc h2 ?c False" using ic k o col by (auto split: if_splits)
  moreover have "\<not> red h2 (plug ?c t)"
  proof (cases "c = []")
    case True
    then show ?thesis using rt k by simp
  next
    case False
    have "n_color (h2 a) = n_color (h a)" if "a \<in> path_set c" for a using that d by (intro off) auto
    moreover have "\<not> red h (plug c (Node t p (Node x s ?y)))" using rt by simp
    ultimately show ?thesis using root_black [OF False, of h "Node t p (Node x s ?y)" h2] by simp
  qed
  ultimately have "outcome h head (On_left p (Node x s ?y) # c) t k h2"
    using rp2 r off rotate_left(2,3) [OF rp1] unfolding outcome_def
    by (intro conjI exI [of _ ?c] allI ballI) (auto simp: h2_def h1_def)
  then show ?thesis by (simp add: h2_def h1_def)
qed

lemma outcome_trans:
  assumes "outcome h' head c' t k h''" "before c' = before c" "behind c' = behind c" "\<And>a. n_value (h' a) = n_value (h a)"
    "\<And>a. a \<in> set_tree t \<Longrightarrow> n_color (h' a) = n_color (h a)" "n_parent (h' head) = n_parent (h head)" "n_right (h' head) = n_right (h head)"
  shows "outcome h head c t k h''"
  using assms by (simp add: outcome_def)

text \<open>A black sibling whose near child is red: it is turned outwards first.\<close>

lemma remove_turn_left:
  assumes rp: "rep h head (plug (On_left p (Node (Node x1 l x2) s y) # c) t)" and t: "t \<noteq> Leaf" "\<not> red h t"
    and ih: "path_invh h (On_left p (Node (Node x1 l x2) s y) # c) (k + 1)"
    and ic: "path_invc h (On_left p (Node (Node x1 l x2) s y) # c) False"
    and rt: "\<not> red h (plug (On_left p (Node (Node x1 l x2) s y) # c) t)"
    and col: "n_color (h s) = Black" "n_color (h l) = Red" "\<not> red h y"
  defines "h2 \<equiv> RotateRight head l s (setColor l Black (setColor s Red h))"
  shows "n_parent (h2 (root_of t)) = p" "n_right (h2 p) = l" "n_right (h2 l) = s"
    "outcome h head (On_left p (Node (Node x1 l x2) s y) # c) t k
      (RotateLeft head l p (setColor s Black (setColor p Black (setColor l (n_color (h2 p)) h2))))"
proof -
  define h1 where "h1 = setColor l Black (setColor s Red h)"
  have h2: "h2 = RotateRight head l s h1" by (simp add: h2_def h1_def)
  note r = rp [unfolded rep_plug, simplified, simplified Int_Un_distrib2 Int_Un_distrib Un_empty]
  have rp1: "rep h1 head (plug (On_right t p # c) (Node (Node x1 l x2) s y))" using rp by (simp add: h1_def)
  let ?c = "On_left p (Node x1 l (Node x2 s y)) # c"
  have rp2: "rep h2 head (plug ?c t)" using rotate_right(1) [OF rp1] by (simp add: h2)
  show "n_parent (h2 (root_of t)) = p" "n_right (h2 p) = l" "n_right (h2 l) = s"
    using rp2 t(1) by (cases t; simp add: rep_plug)+
  have d: "l \<notin> path_set c" "s \<notin> path_set c" using r by (auto simp: path_set_lists)
  have off: "n_color (h2 a) = n_color (h a)" if "a \<noteq> l" "a \<noteq> s" for a using that by (simp add: h2 h1_def)
  have k: "n_color (h2 l) = Black" "n_color (h2 s) = Red" using r by (auto simp: h2 h1_def)
  have o: "invh h2 x1 = invh h x1" "invh h2 x2 = invh h x2" "invh h2 y = invh h y" "bh h2 x1 = bh h x1" "bh h2 x2 = bh h x2"
    "bh h2 y = bh h y" "invc h2 x1 = invc h x1" "invc h2 x2 = invc h x2" "invc h2 y = invc h y" "red h2 x1 = red h x1"
    "red h2 x2 = red h x2" "red h2 y = red h y" "red h2 t = red h t" "n_color (h2 p) = n_color (h p)"
    "path_invh h2 c = path_invh h c" "path_invc h2 c = path_invc h c"
    using r d by (auto intro!: colour_cong path_colour_cong off ext)
  have ih2: "path_invh h2 ?c (k + 1)" using ih k o col by (auto split: if_splits)
  have ic2: "path_invc h2 ?c False" using ic k o col by (auto split: if_splits)
  have rt2: "\<not> red h2 (plug ?c t)"
  proof (cases "c = []")
    case True
    then show ?thesis using rt o by simp
  next
    case False
    have "n_color (h2 a) = n_color (h a)" if "a \<in> path_set c" for a using that d by (intro off) auto
    moreover have "\<not> red h (plug c (Node t p (Node (Node x1 l x2) s y)))" using rt by simp
    ultimately show ?thesis using root_black [OF False, of h "Node t p (Node (Node x1 l x2) s y)" h2] by simp
  qed
  have out: "outcome h2 head ?c t k (RotateLeft head l p (setColor s Black (setColor p Black (setColor l (n_color (h2 p)) h2))))"
    by (rule remove_final_left [OF rp2 t(1) _ ih2 ic2 rt2 k]) (use t o in simp)
  show "outcome h head (On_left p (Node (Node x1 l x2) s y) # c) t k
      (RotateLeft head l p (setColor s Black (setColor p Black (setColor l (n_color (h2 p)) h2))))"
  proof (rule outcome_trans [OF out])
    show "n_color (h2 a) = n_color (h a)" if "a \<in> set_tree t" for a using that r by (intro off) auto
    show "n_parent (h2 head) = n_parent (h head)" "n_right (h2 head) = n_right (h head)"
      by (simp_all add: h2 rotate_right(2,3) [OF rp1]) (simp_all add: h1_def)
  qed (simp_all add: h2 h1_def)
qed

text \<open>A black sibling without a red child becomes red; below a red parent that is all.\<close>

lemma remove_recolour_left:
  assumes inv: "remove_inv h head (On_left p (Node x s y) # c) t k" and col: "n_color (h s) = Black" "\<not> red h x" "\<not> red h y"
  shows "n_color (h p) = Red \<Longrightarrow> outcome h head (On_left p (Node x s y) # c) t k (setColor p Black (setColor s Red h))"
    "n_color (h p) = Black \<Longrightarrow> remove_inv (setColor s Red h) head c (Node t p (Node x s y)) (k + 1)"
    "n_color (h p) = Black \<Longrightarrow> outcome (setColor s Red h) head c (Node t p (Node x s y)) (k + 1) h'
      \<Longrightarrow> outcome h head (On_left p (Node x s y) # c) t k h'"
proof -
  define h1 where "h1 = setColor s Red h"
  let ?w = "Node x s y"
  have rp: "rep h head (plug (On_left p ?w # c) t)" using inv by (simp add: remove_inv_def)
  note r = rp [unfolded rep_plug, simplified, simplified Int_Un_distrib2 Int_Un_distrib Un_empty]
  have d: "p \<notin> path_set c" "s \<notin> path_set c" using r by (auto simp: path_set_lists)
  note inv' = inv [unfolded remove_inv_def, simplified]
  have o: "invh h1 ?w" "bh h1 ?w = k" "invc h1 ?w" "red h1 ?w"
    using r inv' col by (auto simp: h1_def)
  have rt: "\<not> red h' (plug c t')" if "c \<noteq> []" "\<And>a. a \<in> path_set c \<Longrightarrow> n_color (h' a) = n_color (h a)" for h' t'
    using root_black [OF that(1), of h "Node t p ?w" h' t'] that inv' by simp
  show "outcome h head (On_left p ?w # c) t k (setColor p Black (setColor s Red h))" if p: "n_color (h p) = Red"
  proof -
    define h2 where "h2 = setColor p Black h1"
    have o2: "invh h2 ?w" "bh h2 ?w = k" "invc h2 ?w" "n_color (h2 p) = Black"
      "path_invh h2 c (k + 1)" "path_invc h2 c False"
      using o r d inv' p by (auto simp: h2_def h1_def intro: path_invc_mono)
    have cne: "c \<noteq> []" using inv' p by auto
    have "n_color (h2 a) = n_color (h a)" if "a \<in> path_set c" for a using that d by (auto simp: h2_def h1_def)
    then have "\<not> red h2 (plug c (Node t p ?w))" using rt [OF cne] by blast
    then have "outcome h head (On_left p ?w # c) t k h2"
      using o2 rp r unfolding outcome_def
      by (intro conjI exI [of _ "On_left p ?w # c"] allI ballI) (auto simp: h2_def h1_def)
    then show ?thesis by (simp add: h2_def h1_def)
  qed
  have "remove_inv h1 head c (Node t p ?w) (k + 1)" if "n_color (h p) = Black"
  proof -
    have "c \<noteq> [] \<longrightarrow> \<not> red h1 (plug c (Node t p ?w))"
    proof
      assume "c \<noteq> []"
      then show "\<not> red h1 (plug c (Node t p ?w))" by (rule rt) (use d in \<open>auto simp: h1_def\<close>)
    qed
    moreover have "path_invh h1 c (k + 1 + 1)" "path_invc h1 c False" "n_color (h1 p) = Black"
      using r d inv' that by (auto simp: h1_def)
    ultimately show ?thesis using rp by (simp add: remove_inv_def h1_def)
  qed
  then show "n_color (h p) = Black \<Longrightarrow> remove_inv (setColor s Red h) head c (Node t p ?w) (k + 1)" by (simp add: h1_def)
  show "outcome h head (On_left p ?w # c) t k h'" if p: "n_color (h p) = Black"
    and out: "outcome (setColor s Red h) head c (Node t p ?w) (k + 1) h'"
  proof -
    obtain c' where c': "rep h' head (plug c' (Node t p ?w))" "path_invh h' c' (k + 1)" "path_invc h' c' False"
        "c' \<noteq> [] \<longrightarrow> \<not> red h' (plug c' (Node t p ?w))" "before c' = before c" "behind c' = behind c"
      and keep: "\<And>a. a \<in> set_tree (Node t p ?w) \<Longrightarrow> n_color (h' a) = n_color (h1 a)"
      using out unfolding outcome_def h1_def by auto
    have "invh h' ?w = invh h1 ?w" "bh h' ?w = bh h1 ?w" "invc h' ?w = invc h1 ?w"
      by (rule colour_cong, rule keep, force)+
    moreover have pc: "n_color (h' p) = Black" using keep [of p] p r by (auto simp: h1_def)
    moreover have "\<not> red h' (plug c' (Node t p ?w))" using c'(4) pc by (cases "c' = []") auto
    ultimately show ?thesis using c' o out keep r unfolding outcome_def
      by (intro conjI exI [of _ "On_left p ?w # c'"] allI ballI) (auto simp: h1_def)
  qed
qed

text \<open>A red sibling: after a rotation the sibling is black and the parent red.\<close>

lemma remove_red_left:
  assumes inv: "remove_inv h head (On_left p (Node x s y) # c) t k" and col: "n_color (h s) = Red"
  defines "h2 \<equiv> RotateLeft head s p (setColor s Black (setColor p Red h))"
  shows "remove_inv h2 head (On_left p x # On_left s y # c) t k" "n_color (h2 p) = Red" "\<not> red h2 x" "x \<noteq> Leaf"
    "outcome h2 head (On_left p x # On_left s y # c) t k h' \<Longrightarrow> outcome h head (On_left p (Node x s y) # c) t k h'"
proof -
  let ?w = "Node x s y" and ?c = "On_left p x # On_left s y # c"
  define h1 where "h1 = setColor s Black (setColor p Red h)"
  have h2: "h2 = RotateLeft head s p h1" by (simp add: h2_def h1_def)
  have rp: "rep h head (plug (On_left p ?w # c) t)" using inv by (simp add: remove_inv_def)
  note r = rp [unfolded rep_plug, simplified, simplified Int_Un_distrib2 Int_Un_distrib Un_empty]
  have d: "p \<notin> path_set c" "s \<notin> path_set c" using r by (auto simp: path_set_lists)
  note inv' = inv [unfolded remove_inv_def, simplified]
  have rp1: "rep h1 head (plug c (Node t p ?w))" using rp by (simp add: h1_def)
  have rp2: "rep h2 head (plug ?c t)" using rotate_left(1) [OF rp1] by (simp add: h2)
  have off: "n_color (h2 a) = n_color (h a)" if "a \<noteq> p" "a \<noteq> s" for a using that by (simp add: h2 h1_def)
  have k: "n_color (h2 p) = Red" "n_color (h2 s) = Black" using r by (auto simp: h2 h1_def)
  show "n_color (h2 p) = Red" by (rule k)
  have o: "invh h2 x = invh h x" "invh h2 y = invh h y" "bh h2 x = bh h x" "bh h2 y = bh h y" "invc h2 x = invc h x"
    "invc h2 y = invc h y" "red h2 x = red h x" "red h2 y = red h y" "red h2 t = red h t"
    "path_invh h2 c = path_invh h c" "path_invc h2 c = path_invc h c"
    using r d by (auto intro!: colour_cong path_colour_cong off ext)
  show "\<not> red h2 x" "x \<noteq> Leaf" using inv' col o by auto
  have pb: "n_color (h p) = Black" using inv' col by (auto intro: NodeColor.exhaust)
  have rt: "\<not> red h2 (plug ?c t)"
  proof (cases "c = []")
    case True
    then show ?thesis using k by simp
  next
    case False
    have "n_color (h2 a) = n_color (h a)" if "a \<in> path_set c" for a using that d by (intro off) auto
    then show ?thesis using root_black [OF False, of h "Node t p ?w" h2] inv' by simp
  qed
  show "remove_inv h2 head ?c t k"
    using rp2 rt inv' o k pb col by (simp add: remove_inv_def)
  assume out: "outcome h2 head ?c t k h'"
  show "outcome h head (On_left p ?w # c) t k h'"
  proof (rule outcome_trans [OF out])
    show "n_color (h2 a) = n_color (h a)" if "a \<in> set_tree t" for a using that r by (intro off) auto
    show "n_parent (h2 head) = n_parent (h head)" "n_right (h2 head) = n_right (h head)"
      by (simp_all add: h2 rotate_left(2,3) [OF rp1]) (simp_all add: h1_def)
  qed (simp_all add: h2 h1_def)
qed

text \<open>The round of the loop in the four situations.\<close>

lemma red_at_root: "links h par x \<Longrightarrow> red_at (root_of x) h = red h x" "links h par x \<Longrightarrow> black_at (root_of x) h = (\<not> red h x)"
  using red_root [of h par x] by (auto simp: red_at_def black_at_def intro: NodeColor.exhaust)

lemma remove_left_black:
  assumes "n_parent (h n) = p" "n_right (h p) = s" "s \<noteq> 0" "n_color (h s) = Black"
  shows "remove_left head n h = sibling_left head n s h"
  using assms by (simp add: remove_left_def red_at_def)

lemma remove_left_red:
  assumes "n_parent (h n) = p" "n_right (h p) = s" "s \<noteq> 0" "n_color (h s) = Red"
    and "h2 = RotateLeft head s p (setColor s Black (setColor p Red h))"
    and "n_parent (h2 n) = p" "n_right (h2 p) = s'" "s' \<noteq> 0" "n_color (h2 s') = Black"
  shows "remove_left head n h = remove_left head n h2"
proof -
  have "remove_left head n h = sibling_left head n s' h2"
    using assms by (simp add: remove_left_def red_at_def Let_def)
  then show ?thesis using remove_left_black [OF assms(6-9)] by simp
qed

lemma recolour_round:
  assumes "n_color (h s) = Black" "n_left (h s) = root_of x" "n_right (h s) = root_of y" "links h s x" "links h s y"
    "n_parent (h s) = p" "p \<noteq> s" "\<not> red h x" "\<not> red h y"
  shows "sibling_left head n s h = (if n_color (h p) = Red then (setColor p Black (setColor s Red h), True) else (setColor s Red h, False))"
    "sibling_right head n s h = (if n_color (h p) = Red then (setColor p Black (setColor s Red h), True) else (setColor s Red h, False))"
  using assms by (simp_all add: sibling_left_def sibling_right_def red_at_root recolour_sibling_def)

lemma final_round_left:
  assumes "n_parent (h n) = p" "n_left (h s) = root_of x" "n_right (h s) = q" "links h s x" "p \<noteq> s" "q \<noteq> 0" "n_color (h q) = Red"
  shows "sibling_left head n s h = (RotateLeft head s p (setColor q Black (setColor p Black (setColor s (n_color (h p)) h))), True)"
  using assms by (simp add: sibling_left_def turn_left_def finish_left_def black_at_def)

lemma turn_round_left:
  assumes "n_parent (h n) = p" "n_left (h s) = l" "n_right (h s) = root_of y" "links h s y" "\<not> red h y" "l \<noteq> 0" "n_color (h l) = Red"
    and h2: "h2 = RotateRight head l s (setColor l Black (setColor s Red h))"
    and "n_parent (h2 n) = p" "n_right (h2 p) = l" "n_right (h2 l) = s" "s \<noteq> 0" "p \<noteq> l"
  shows "sibling_left head n s h = (RotateLeft head l p (setColor s Black (setColor p Black (setColor l (n_color (h2 p)) h2))), True)"
proof -
  have "turn_left head n s h = (h2, l)" using assms by (simp add: turn_left_def red_at_root red_at_def Let_def)
  moreover have "\<not> black_at (n_left (h s)) h" using assms by (simp add: black_at_def)
  ultimately show ?thesis using assms(9-) by (simp add: sibling_left_def finish_left_def)
qed

text \<open>A round of the loop: it either ends it or leaves the same task at the parent.\<close>

definition round_result :: "'v heap \<Rightarrow> addr \<Rightarrow> step \<Rightarrow> step list \<Rightarrow> addr tree \<Rightarrow> nat \<Rightarrow> 'v heap \<times> bool \<Rightarrow> bool" where
  "round_result h head s c t k x \<longleftrightarrow>
     (if snd x then outcome h head (s # c) t k (fst x)
      else n_color (h (step_node s)) = Black \<and> n_parent (fst x (root_of t)) = step_node s \<and> remove_inv (fst x) head c (plug [s] t) (k + 1)
        \<and> (\<forall>h'. outcome (fst x) head c (plug [s] t) (k + 1) h' \<longrightarrow> outcome h head (s # c) t k h'))"

lemma sibling_step_left:
  assumes inv: "remove_inv h head (On_left p (Node x s y) # c) t k" and col: "n_color (h s) = Black"
  shows "round_result h head (On_left p (Node x s y)) c t k (sibling_left head (root_of t) s h)"
proof -
  have rp: "rep h head (plug (On_left p (Node x s y) # c) t)" using inv by (simp add: remove_inv_def)
  note r = rp [unfolded rep_plug, simplified, simplified Int_Un_distrib2 Int_Un_distrib Un_empty]
  note inv' = inv [unfolded remove_inv_def]
  have l: "n_parent (h (root_of t)) = p" "n_left (h s) = root_of x" "n_right (h s) = root_of y" "links h s x" "links h s y"
    "n_parent (h s) = p" "p \<noteq> s" "s \<noteq> 0"
    using r inv' by (cases t; auto)+
  show ?thesis
  proof (cases "red h y")
    case True
    then obtain y1 q y2 where y: "y = Node y1 q y2" by (cases y) auto
    have q: "q \<noteq> 0" "n_color (h q) = Red" using True l(5) by (auto simp: y)
    have "outcome h head (On_left p (Node x s (Node y1 q y2)) # c) t k
        (RotateLeft head s p (setColor q Black (setColor p Black (setColor s (n_color (h p)) h))))"
      by (rule remove_final_left) (use inv' col q in \<open>simp_all add: y\<close>)
    then show ?thesis
      using final_round_left [OF l(1,2) _ l(4,7) q] l(3) by (simp add: round_result_def y)
  next
    case False
    show ?thesis
    proof (cases "red h x")
      case True
      then obtain x1 m x2 where x: "x = Node x1 m x2" by (cases x) auto
      have m: "m \<noteq> 0" "n_color (h m) = Red" "p \<noteq> m" using True l(4) r by (auto simp: x)
      note turn = remove_turn_left [of h head p x1 m x2 s y c t k]
      show ?thesis 
        using turn inv' col False m turn_round_left [OF l(1) _ l(3,5) False m(1,2) refl _ _ _ l(8) m(3)] l(2)
        by (simp add: round_result_def x)
    next
      case f: False
      show ?thesis
        using recolour_round(1) [OF col l(2-7) f False] remove_recolour_left [OF inv col f False] l(1,6,7)
        by (cases "n_color (h p)") (auto simp: round_result_def)
    qed
  qed
qed

lemma remove_step_left:
  assumes inv: "remove_inv h head (On_left p w # c) t k"
  shows "round_result h head (On_left p w) c t k (remove_left head (root_of t) h)"
proof -
  have rp: "rep h head (plug (On_left p w # c) t)" using inv by (simp add: remove_inv_def)
  have "bh h w = k + 1" using inv by (simp add: remove_inv_def)
  then obtain x s y where w: "w = Node x s y" by (cases w) auto
  note r = rp [unfolded rep_plug w, simplified]
  have l: "n_parent (h (root_of t)) = p" "n_right (h p) = s" "s \<noteq> 0"
    using r inv [unfolded remove_inv_def] by (cases t; auto)+
  show ?thesis
  proof (cases "n_color (h s) = Black")
    case True
    show ?thesis
      using sibling_step_left [OF inv [unfolded w] True] remove_left_black [OF l True] by (simp add: w)
  next
    case False
    then have red: "n_color (h s) = Red" by (auto intro: NodeColor.exhaust)
    define h2 where "h2 = RotateLeft head s p (setColor s Black (setColor p Red h))"
    note r2 = remove_red_left [OF inv [unfolded w] red, folded h2_def]
    obtain x1 m x2 where x: "x = Node x1 m x2" using r2(4) by (cases x) auto
    have m: "n_color (h2 m) = Black" using r2(3) by (auto simp: x intro: NodeColor.exhaust)
    have rp2: "rep h2 head (plug (On_left p x # On_left s y # c) t)" using r2(1) by (simp add: remove_inv_def)
    have l2: "n_parent (h2 (root_of t)) = p" "n_right (h2 p) = m" "m \<noteq> 0"
      using rp2 inv by (cases t; auto simp: rep_plug x remove_inv_def)+
    have "round_result h2 head (On_left p x) (On_left s y # c) t k (remove_left head (root_of t) h2)"
      using sibling_step_left [OF r2(1) [unfolded x] m] remove_left_black [OF l2 m] by (simp add: x)
    then have "outcome h2 head (On_left p x # On_left s y # c) t k (fst (remove_left head (root_of t) h2))"
      "snd (remove_left head (root_of t) h2)" using r2(2) by (auto simp: round_result_def split: if_splits)
    then show ?thesis
      using r2(5) remove_left_red [OF l red h2_def l2 m] by (simp add: round_result_def w)
  qed
qed

end
