(* ===== verification/RbRemoveRight.thy ===== *)
theory RbRemoveRight
  imports RbRemove
begin

text \<open>
  The rounds of \<^verbatim>\<open>NodeBase::remove\<close> below a right child, the mirror images of those below a left child, and the
  loop as a whole.
\<close>

section \<open>Below a right child\<close>

lemma remove_final_right:
  assumes rp: "rep h head (plug (On_right (Node (Node y2 q y1) s x) p # c) t)" and t: "t \<noteq> Leaf" "\<not> red h t"
    and ih: "path_invh h (On_right (Node (Node y2 q y1) s x) p # c) (k + 1)"
    and ic: "path_invc h (On_right (Node (Node y2 q y1) s x) p # c) False"
    and rt: "\<not> red h (plug (On_right (Node (Node y2 q y1) s x) p # c) t)"
    and col: "n_color (h s) = Black" "n_color (h q) = Red"
  shows "outcome h head (On_right (Node (Node y2 q y1) s x) p # c) t k
    (RotateRight head s p (setColor q Black (setColor p Black (setColor s (n_color (h p)) h))))"
proof -
  define h1 where "h1 = setColor q Black (setColor p Black (setColor s (n_color (h p)) h))"
  define h2 where "h2 = RotateRight head s p h1"
  let ?y = "Node y2 q y1"
  note r = rp [unfolded rep_plug, simplified, simplified Int_Un_distrib2 Int_Un_distrib Un_empty]
  have rp1: "rep h1 head (plug c (Node (Node ?y s x) p t))" using rp by (simp add: h1_def)
  let ?c = "On_right x p # On_right ?y s # c"
  have rp2: "rep h2 head (plug ?c t)" using rotate_right(1) [OF rp1] by (simp add: h2_def)
  have d: "p \<notin> path_set c" "s \<notin> path_set c" "q \<notin> path_set c" using r by (auto simp: path_set_lists)
  have off: "n_color (h2 a) = n_color (h a)" if "a \<noteq> p" "a \<noteq> s" "a \<noteq> q" for a using that by (simp add: h2_def h1_def)
  have k: "n_color (h2 p) = Black" "n_color (h2 s) = n_color (h p)" "n_color (h2 q) = Black"
    using r by (auto simp: h2_def h1_def)
  have o: "invh h2 x = invh h x" "invh h2 y1 = invh h y1" "invh h2 y2 = invh h y2" "bh h2 x = bh h x" "bh h2 y1 = bh h y1"
    "bh h2 y2 = bh h y2" "invc h2 x = invc h x" "invc h2 y1 = invc h y1" "invc h2 y2 = invc h y2" "red h2 x = red h x"
    "path_invh h2 c = path_invh h c" "path_invc h2 c = path_invc h c"
    using r d by (auto intro!: colour_cong path_colour_cong off ext)
  have "path_invh h2 ?c k" using ih k o col by (auto split: if_splits)
  moreover have "path_invc h2 ?c False" using ic k o col by (auto split: if_splits)
  moreover have "\<not> red h2 (plug ?c t)"
  proof (cases "c = []")
    case True
    then show ?thesis using rt k by simp
  next
    case False
    have "n_color (h2 a) = n_color (h a)" if "a \<in> path_set c" for a using that d by (intro off) auto
    moreover have "\<not> red h (plug c (Node (Node ?y s x) p t))" using rt by simp
    ultimately show ?thesis using root_black [OF False, of h "Node (Node ?y s x) p t" h2] by simp
  qed
  ultimately have "outcome h head (On_right (Node ?y s x) p # c) t k h2"
    using rp2 r off rotate_right(2,3) [OF rp1] unfolding outcome_def
    by (intro conjI exI [of _ ?c] allI ballI) (auto simp: h2_def h1_def)
  then show ?thesis by (simp add: h2_def h1_def)
qed

lemma remove_turn_right:
  assumes rp: "rep h head (plug (On_right (Node y s (Node x2 l x1)) p # c) t)" and t: "t \<noteq> Leaf" "\<not> red h t"
    and ih: "path_invh h (On_right (Node y s (Node x2 l x1)) p # c) (k + 1)"
    and ic: "path_invc h (On_right (Node y s (Node x2 l x1)) p # c) False"
    and rt: "\<not> red h (plug (On_right (Node y s (Node x2 l x1)) p # c) t)"
    and col: "n_color (h s) = Black" "n_color (h l) = Red" "\<not> red h y"
  defines "h2 \<equiv> RotateLeft head l s (setColor l Black (setColor s Red h))"
  shows "n_parent (h2 (root_of t)) = p" "n_left (h2 p) = l" "n_left (h2 l) = s"
    "outcome h head (On_right (Node y s (Node x2 l x1)) p # c) t k
      (RotateRight head l p (setColor s Black (setColor p Black (setColor l (n_color (h2 p)) h2))))"
proof -
  define h1 where "h1 = setColor l Black (setColor s Red h)"
  have h2: "h2 = RotateLeft head l s h1" by (simp add: h2_def h1_def)
  note r = rp [unfolded rep_plug, simplified, simplified Int_Un_distrib2 Int_Un_distrib Un_empty]
  have rp1: "rep h1 head (plug (On_left p t # c) (Node y s (Node x2 l x1)))" using rp by (simp add: h1_def)
  let ?c = "On_right (Node (Node y s x2) l x1) p # c"
  have rp2: "rep h2 head (plug ?c t)" using rotate_left(1) [OF rp1] by (simp add: h2)
  show "n_parent (h2 (root_of t)) = p" "n_left (h2 p) = l" "n_left (h2 l) = s"
    using rp2 t(1) by (cases t; simp add: rep_plug)+
  have d: "l \<notin> path_set c" "s \<notin> path_set c" using r by (auto simp: path_set_lists)
  have off: "n_color (h2 a) = n_color (h a)" if "a \<noteq> l" "a \<noteq> s" for a using that by (simp add: h2 h1_def)
  have k: "n_color (h2 l) = Black" "n_color (h2 s) = Red" using r by (auto simp: h2 h1_def)
  have o: "invh h2 x1 = invh h x1" "invh h2 x2 = invh h x2" "invh h2 y = invh h y" "bh h2 x1 = bh h x1" "bh h2 x2 = bh h x2"
    "bh h2 y = bh h y" "invc h2 x1 = invc h x1" "invc h2 x2 = invc h x2" "invc h2 y = invc h y" "red h2 x1 = red h x1"
    "red h2 x2 = red h x2" "red h2 y = red h y" "red h2 t = red h t" "n_color (h2 p) = n_color (h p)"
    "path_invh h2 c = path_invh h c" "path_invc h2 c = path_invc h c"
    using r d by (auto intro!: colour_cong path_colour_cong off ext)
  have ih2: "path_invh h2 ?c (k + 1)" using ih k o col by (auto split: if_splits)
  have ic2: "path_invc h2 ?c False" using ic k o col by (auto split: if_splits)
  have rt2: "\<not> red h2 (plug ?c t)"
  proof (cases "c = []")
    case True
    then show ?thesis using rt o by simp
  next
    case False
    have "n_color (h2 a) = n_color (h a)" if "a \<in> path_set c" for a using that d by (intro off) auto
    moreover have "\<not> red h (plug c (Node (Node y s (Node x2 l x1)) p t))" using rt by simp
    ultimately show ?thesis using root_black [OF False, of h "Node (Node y s (Node x2 l x1)) p t" h2] by simp
  qed
  have out: "outcome h2 head ?c t k (RotateRight head l p (setColor s Black (setColor p Black (setColor l (n_color (h2 p)) h2))))"
    by (rule remove_final_right [OF rp2 t(1) _ ih2 ic2 rt2 k]) (use t o in simp)
  show "outcome h head (On_right (Node y s (Node x2 l x1)) p # c) t k
      (RotateRight head l p (setColor s Black (setColor p Black (setColor l (n_color (h2 p)) h2))))"
  proof (rule outcome_trans [OF out])
    show "n_color (h2 a) = n_color (h a)" if "a \<in> set_tree t" for a using that r by (intro off) auto
    show "n_parent (h2 head) = n_parent (h head)" "n_right (h2 head) = n_right (h head)"
      by (simp_all add: h2 rotate_left(2,3) [OF rp1]) (simp_all add: h1_def)
  qed (simp_all add: h2 h1_def)
qed

lemma remove_recolour_right:
  assumes inv: "remove_inv h head (On_right (Node y s x) p # c) t k" and col: "n_color (h s) = Black" "\<not> red h x" "\<not> red h y"
  shows "n_color (h p) = Red \<Longrightarrow> outcome h head (On_right (Node y s x) p # c) t k (setColor p Black (setColor s Red h))"
    "n_color (h p) = Black \<Longrightarrow> remove_inv (setColor s Red h) head c (Node (Node y s x) p t) (k + 1)"
    "n_color (h p) = Black \<Longrightarrow> outcome (setColor s Red h) head c (Node (Node y s x) p t) (k + 1) h'
      \<Longrightarrow> outcome h head (On_right (Node y s x) p # c) t k h'"
proof -
  define h1 where "h1 = setColor s Red h"
  let ?w = "Node y s x"
  have rp: "rep h head (plug (On_right ?w p # c) t)" using inv by (simp add: remove_inv_def)
  note r = rp [unfolded rep_plug, simplified, simplified Int_Un_distrib2 Int_Un_distrib Un_empty]
  have d: "p \<notin> path_set c" "s \<notin> path_set c" using r by (auto simp: path_set_lists)
  note inv' = inv [unfolded remove_inv_def, simplified]
  have o: "invh h1 ?w" "bh h1 ?w = k" "invc h1 ?w" "red h1 ?w"
    using r inv' col by (auto simp: h1_def)
  have rt: "\<not> red h' (plug c t')" if "c \<noteq> []" "\<And>a. a \<in> path_set c \<Longrightarrow> n_color (h' a) = n_color (h a)" for h' t'
    using root_black [OF that(1), of h "Node ?w p t" h' t'] that inv' by simp
  show "outcome h head (On_right ?w p # c) t k (setColor p Black (setColor s Red h))" if p: "n_color (h p) = Red"
  proof -
    define h2 where "h2 = setColor p Black h1"
    have o2: "invh h2 ?w" "bh h2 ?w = k" "invc h2 ?w" "n_color (h2 p) = Black"
      "path_invh h2 c (k + 1)" "path_invc h2 c False"
      using o r d inv' p by (auto simp: h2_def h1_def intro: path_invc_mono)
    have cne: "c \<noteq> []" using inv' p by auto
    have "n_color (h2 a) = n_color (h a)" if "a \<in> path_set c" for a using that d by (auto simp: h2_def h1_def)
    then have "\<not> red h2 (plug c (Node ?w p t))" using rt [OF cne] by blast
    then have "outcome h head (On_right ?w p # c) t k h2"
      using o2 rp r unfolding outcome_def
      by (intro conjI exI [of _ "On_right ?w p # c"] allI ballI) (auto simp: h2_def h1_def)
    then show ?thesis by (simp add: h2_def h1_def)
  qed
  have "remove_inv h1 head c (Node ?w p t) (k + 1)" if "n_color (h p) = Black"
  proof -
    have "c \<noteq> [] \<longrightarrow> \<not> red h1 (plug c (Node ?w p t))"
    proof
      assume "c \<noteq> []"
      then show "\<not> red h1 (plug c (Node ?w p t))" by (rule rt) (use d in \<open>auto simp: h1_def\<close>)
    qed
    moreover have "path_invh h1 c (k + 1 + 1)" "path_invc h1 c False" "n_color (h1 p) = Black"
      using r d inv' that by (auto simp: h1_def)
    ultimately show ?thesis using rp by (simp add: remove_inv_def h1_def)
  qed
  then show "n_color (h p) = Black \<Longrightarrow> remove_inv (setColor s Red h) head c (Node ?w p t) (k + 1)" by (simp add: h1_def)
  show "outcome h head (On_right ?w p # c) t k h'" if p: "n_color (h p) = Black"
    and out: "outcome (setColor s Red h) head c (Node ?w p t) (k + 1) h'"
  proof -
    obtain c' where c': "rep h' head (plug c' (Node ?w p t))" "path_invh h' c' (k + 1)" "path_invc h' c' False"
        "c' \<noteq> [] \<longrightarrow> \<not> red h' (plug c' (Node ?w p t))" "before c' = before c" "behind c' = behind c"
      and keep: "\<And>a. a \<in> set_tree (Node ?w p t) \<Longrightarrow> n_color (h' a) = n_color (h1 a)"
      using out unfolding outcome_def h1_def by auto
    have "invh h' ?w = invh h1 ?w" "bh h' ?w = bh h1 ?w" "invc h' ?w = invc h1 ?w"
      by (rule colour_cong, rule keep, force)+
    moreover have pc: "n_color (h' p) = Black" using keep [of p] p r by (auto simp: h1_def)
    moreover have "\<not> red h' (plug c' (Node ?w p t))" using c'(4) pc by (cases "c' = []") auto
    ultimately show ?thesis using c' o out keep r unfolding outcome_def
      by (intro conjI exI [of _ "On_right ?w p # c'"] allI ballI) (auto simp: h1_def)
  qed
qed

lemma remove_red_right:
  assumes inv: "remove_inv h head (On_right (Node y s x) p # c) t k" and col: "n_color (h s) = Red"
  defines "h2 \<equiv> RotateRight head s p (setColor s Black (setColor p Red h))"
  shows "remove_inv h2 head (On_right x p # On_right y s # c) t k" "n_color (h2 p) = Red" "\<not> red h2 x" "x \<noteq> Leaf"
    "outcome h2 head (On_right x p # On_right y s # c) t k h' \<Longrightarrow> outcome h head (On_right (Node y s x) p # c) t k h'"
proof -
  let ?w = "Node y s x" and ?c = "On_right x p # On_right y s # c"
  define h1 where "h1 = setColor s Black (setColor p Red h)"
  have h2: "h2 = RotateRight head s p h1" by (simp add: h2_def h1_def)
  have rp: "rep h head (plug (On_right ?w p # c) t)" using inv by (simp add: remove_inv_def)
  note r = rp [unfolded rep_plug, simplified, simplified Int_Un_distrib2 Int_Un_distrib Un_empty]
  have d: "p \<notin> path_set c" "s \<notin> path_set c" using r by (auto simp: path_set_lists)
  note inv' = inv [unfolded remove_inv_def, simplified]
  have rp1: "rep h1 head (plug c (Node ?w p t))" using rp by (simp add: h1_def)
  have rp2: "rep h2 head (plug ?c t)" using rotate_right(1) [OF rp1] by (simp add: h2)
  have off: "n_color (h2 a) = n_color (h a)" if "a \<noteq> p" "a \<noteq> s" for a using that by (simp add: h2 h1_def)
  have k: "n_color (h2 p) = Red" "n_color (h2 s) = Black" using r by (auto simp: h2 h1_def)
  show "n_color (h2 p) = Red" by (rule k)
  have o: "invh h2 x = invh h x" "invh h2 y = invh h y" "bh h2 x = bh h x" "bh h2 y = bh h y" "invc h2 x = invc h x"
    "invc h2 y = invc h y" "red h2 x = red h x" "red h2 y = red h y" "red h2 t = red h t"
    "path_invh h2 c = path_invh h c" "path_invc h2 c = path_invc h c"
    using r d by (auto intro!: colour_cong path_colour_cong off ext)
  show "\<not> red h2 x" "x \<noteq> Leaf" using inv' col o by auto
  have pb: "n_color (h p) = Black" using inv' col by (auto intro: NodeColor.exhaust)
  have rt: "\<not> red h2 (plug ?c t)"
  proof (cases "c = []")
    case True
    then show ?thesis using k by simp
  next
    case False
    have "n_color (h2 a) = n_color (h a)" if "a \<in> path_set c" for a using that d by (intro off) auto
    then show ?thesis using root_black [OF False, of h "Node ?w p t" h2] inv' by simp
  qed
  show "remove_inv h2 head ?c t k"
    using rp2 rt inv' o k pb col by (simp add: remove_inv_def)
  assume out: "outcome h2 head ?c t k h'"
  show "outcome h head (On_right ?w p # c) t k h'"
  proof (rule outcome_trans [OF out])
    show "n_color (h2 a) = n_color (h a)" if "a \<in> set_tree t" for a using that r by (intro off) auto
    show "n_parent (h2 head) = n_parent (h head)" "n_right (h2 head) = n_right (h head)"
      by (simp_all add: h2 rotate_right(2,3) [OF rp1]) (simp_all add: h1_def)
  qed (simp_all add: h2 h1_def)
qed

lemma remove_right_black:
  assumes "n_parent (h n) = p" "n_left (h p) = s" "s \<noteq> 0" "n_color (h s) = Black"
  shows "remove_right head n h = sibling_right head n s h"
  using assms by (simp add: remove_right_def red_at_def)

lemma remove_right_red:
  assumes "n_parent (h n) = p" "n_left (h p) = s" "s \<noteq> 0" "n_color (h s) = Red"
    and "h2 = RotateRight head s p (setColor s Black (setColor p Red h))"
    and "n_parent (h2 n) = p" "n_left (h2 p) = s'" "s' \<noteq> 0" "n_color (h2 s') = Black"
  shows "remove_right head n h = remove_right head n h2"
proof -
  have "remove_right head n h = sibling_right head n s' h2"
    using assms by (simp add: remove_right_def red_at_def Let_def)
  then show ?thesis using remove_right_black [OF assms(6-9)] by simp
qed

lemma final_round_right:
  assumes "n_parent (h n) = p" "n_right (h s) = root_of x" "n_left (h s) = q" "links h s x" "p \<noteq> s" "q \<noteq> 0" "n_color (h q) = Red"
  shows "sibling_right head n s h = (RotateRight head s p (setColor q Black (setColor p Black (setColor s (n_color (h p)) h))), True)"
  using assms by (simp add: sibling_right_def turn_right_def finish_right_def black_at_def)

lemma turn_round_right:
  assumes "n_parent (h n) = p" "n_right (h s) = l" "n_left (h s) = root_of y" "links h s y" "\<not> red h y" "l \<noteq> 0" "n_color (h l) = Red"
    and h2: "h2 = RotateLeft head l s (setColor l Black (setColor s Red h))"
    and "n_parent (h2 n) = p" "n_left (h2 p) = l" "n_left (h2 l) = s" "s \<noteq> 0" "p \<noteq> l"
  shows "sibling_right head n s h = (RotateRight head l p (setColor s Black (setColor p Black (setColor l (n_color (h2 p)) h2))), True)"
proof -
  have "turn_right head n s h = (h2, l)" using assms by (simp add: turn_right_def red_at_root red_at_def Let_def)
  moreover have "\<not> black_at (n_right (h s)) h" using assms by (simp add: black_at_def)
  ultimately show ?thesis using assms(9-) by (simp add: sibling_right_def finish_right_def)
qed

lemma sibling_step_right:
  assumes inv: "remove_inv h head (On_right (Node y s x) p # c) t k" and col: "n_color (h s) = Black"
  shows "round_result h head (On_right (Node y s x) p) c t k (sibling_right head (root_of t) s h)"
proof -
  have rp: "rep h head (plug (On_right (Node y s x) p # c) t)" using inv by (simp add: remove_inv_def)
  note r = rp [unfolded rep_plug, simplified, simplified Int_Un_distrib2 Int_Un_distrib Un_empty]
  note inv' = inv [unfolded remove_inv_def]
  have l: "n_parent (h (root_of t)) = p" "n_right (h s) = root_of x" "n_left (h s) = root_of y" "links h s x" "links h s y"
    "n_parent (h s) = p" "p \<noteq> s" "s \<noteq> 0"
    using r inv' by (cases t; auto)+
  show ?thesis
  proof (cases "red h y")
    case True
    then obtain y1 q y2 where y: "y = Node y2 q y1" by (cases y) auto
    have q: "q \<noteq> 0" "n_color (h q) = Red" using True l(5) by (auto simp: y)
    have "outcome h head (On_right (Node (Node y2 q y1) s x) p # c) t k
        (RotateRight head s p (setColor q Black (setColor p Black (setColor s (n_color (h p)) h))))"
      by (rule remove_final_right) (use inv' col q in \<open>simp_all add: y\<close>)
    then show ?thesis
      using final_round_right [OF l(1,2) _ l(4,7) q] l(3) by (simp add: round_result_def y)
  next
    case False
    show ?thesis
    proof (cases "red h x")
      case True
      then obtain x1 m x2 where x: "x = Node x2 m x1" by (cases x) auto
      have m: "m \<noteq> 0" "n_color (h m) = Red" "p \<noteq> m" using True l(4) r by (auto simp: x)
      note turn = remove_turn_right [of h head y s x2 m x1 p c t k]
      show ?thesis 
        using turn inv' col False m turn_round_right [OF l(1) _ l(3,5) False m(1,2) refl _ _ _ l(8) m(3)] l(2)
        by (simp add: round_result_def x)
    next
      case f: False
      show ?thesis
        using recolour_round(2) [OF col l(3,2,5,4,6,7) False f] remove_recolour_right [OF inv col f False] l(1,6,7)
        by (cases "n_color (h p)") (auto simp: round_result_def)
    qed
  qed
qed

lemma remove_step_right:
  assumes inv: "remove_inv h head (On_right w p # c) t k"
  shows "round_result h head (On_right w p) c t k (remove_right head (root_of t) h)"
proof -
  have rp: "rep h head (plug (On_right w p # c) t)" using inv by (simp add: remove_inv_def)
  have "bh h w = k + 1" using inv by (simp add: remove_inv_def)
  then obtain x s y where w: "w = Node y s x" by (cases w) auto
  note r = rp [unfolded rep_plug w, simplified]
  have l: "n_parent (h (root_of t)) = p" "n_left (h p) = s" "s \<noteq> 0"
    using r inv [unfolded remove_inv_def] by (cases t; auto)+
  show ?thesis
  proof (cases "n_color (h s) = Black")
    case True
    show ?thesis
      using sibling_step_right [OF inv [unfolded w] True] remove_right_black [OF l True] by (simp add: w)
  next
    case False
    then have red: "n_color (h s) = Red" by (auto intro: NodeColor.exhaust)
    define h2 where "h2 = RotateRight head s p (setColor s Black (setColor p Red h))"
    note r2 = remove_red_right [OF inv [unfolded w] red, folded h2_def]
    obtain x1 m x2 where x: "x = Node x2 m x1" using r2(4) by (cases x) auto
    have m: "n_color (h2 m) = Black" using r2(3) by (auto simp: x intro: NodeColor.exhaust)
    have rp2: "rep h2 head (plug (On_right x p # On_right y s # c) t)" using r2(1) by (simp add: remove_inv_def)
    have l2: "n_parent (h2 (root_of t)) = p" "n_left (h2 p) = m" "m \<noteq> 0"
      using rp2 inv by (cases t; auto simp: rep_plug x remove_inv_def)+
    have "round_result h2 head (On_right x p) (On_right y s # c) t k (remove_right head (root_of t) h2)"
      using sibling_step_right [OF r2(1) [unfolded x] m] remove_right_black [OF l2 m] by (simp add: x)
    then have "outcome h2 head (On_right x p # On_right y s # c) t k (fst (remove_right head (root_of t) h2))"
      "snd (remove_right head (root_of t) h2)" using r2(2) by (auto simp: round_result_def split: if_splits)
    then show ?thesis
      using r2(5) remove_right_red [OF l red h2_def l2 m] by (simp add: round_result_def w)
  qed
qed

section \<open>The loop ends\<close>

text \<open>
  The loop ends, with the same sequence of nodes; the subtree it was called for is as it was, and now nothing is
  missing around it.
\<close>

lemma rb_remove_rebalances:
  fixes h :: "'v heap"
  shows "remove_inv h head c t k \<Longrightarrow> \<exists>h'. rb_remove head (root_of t) h = Some h' \<and> outcome h head c t k h'"
proof (induction c arbitrary: h t k)
  case Nil
  obtain a n b where t: "t = Node a n b" using Nil.prems by (cases t) (auto simp: remove_inv_def)
  have "rep h head t" "n_color (h n) = Black"
    using Nil.prems by (auto simp: remove_inv_def t intro: NodeColor.exhaust)
  then have "rb_remove head (root_of t) h = Some h"
    using rep_root [of h head t] by (subst rb_remove.simps) (simp add: t setColor_same)
  moreover have "outcome h head [] t k h" using Nil.prems by (auto simp: outcome_def remove_inv_def intro: exI [of _ "[]"])
  ultimately show ?case by blast
next
  case (Cons s c)
  obtain a n b where t: "t = Node a n b" using Cons.prems by (cases t) (auto simp: remove_inv_def)
  have rp: "rep h head (plug (s # c) t)" and black: "n_color (h n) = Black"
    using Cons.prems by (auto simp: remove_inv_def t intro: NodeColor.exhaust)
  note r = rp [unfolded rep_plug, simplified]
  have root: "n \<noteq> n_left (h head)" using path_root [of h head "s # c" n] r by (auto simp: t)
  define x where "x = (if n = n_left (h (n_parent (h n))) then remove_left head n h else remove_right head n h)"
  have x: "round_result h head s c t k x"
  proof (cases s)
    case (On_left p w)
    then have "n = n_left (h (n_parent (h n)))" using r by (auto simp: t)
    then show ?thesis using remove_step_left [OF Cons.prems [unfolded On_left]] by (simp add: x_def On_left t)
  next
    case (On_right w p)
    then have "n \<noteq> n_left (h (n_parent (h n)))" using r root_of_not_in [of n w] by (auto simp: t)
    then show ?thesis using remove_step_right [OF Cons.prems [unfolded On_right]] by (simp add: x_def On_right t)
  qed
  have loop: "rb_remove head n h = (if snd x then Some (setColor n Black (fst x)) else rb_remove head (n_parent (fst x n)) (fst x))"
    using root black by (subst rb_remove.simps) (simp add: x_def Let_def)
  show ?case
  proof (cases "snd x")
    case True
    then have out: "outcome h head (s # c) t k (fst x)" using x by (simp add: round_result_def)
    then have "n_color (fst x n) = Black" using black by (simp add: outcome_def t)
    then show ?thesis using out True loop by (simp add: t setColor_same)
  next
    case False
    then have a: "n_parent (fst x n) = step_node s" "remove_inv (fst x) head c (plug [s] t) (k + 1)"
      "\<And>h'. outcome (fst x) head c (plug [s] t) (k + 1) h' \<Longrightarrow> outcome h head (s # c) t k h'"
      using x by (auto simp: round_result_def t)
    have "root_of (plug [s] t) = step_node s" by (cases s) simp_all
    then show ?thesis using Cons.IH [OF a(2)] a(3) loop False by (auto simp: t a(1))
  qed
qed

end
