(* ===== verification/RbWalk.thy ===== *)
theory RbWalk
  imports RbTree
begin

text \<open>
  Models the iteration over the nodes of a tree (\<^verbatim>\<open>NodeBase::increment\<close>, \<^verbatim>\<open>decrement\<close>, \<^verbatim>\<open>min\<close> and \<^verbatim>\<open>max\<close> of
  \<^verbatim>\<open>common/memory/SPMemRbtree.cc\<close> and \<^verbatim>\<open>SPMemRbtree.h\<close>): from a node to the next one in the order of the tree,
  and from the last one to the header.
\<close>

section \<open>The loops\<close>

partial_function (option) leftmost :: "addr \<Rightarrow> 'v heap \<Rightarrow> addr option" where
  "leftmost x h = (if n_left (h x) \<noteq> 0 then leftmost (n_left (h x)) h else Some x)"

partial_function (option) rightmost :: "addr \<Rightarrow> 'v heap \<Rightarrow> addr option" where
  "rightmost x h = (if n_right (h x) \<noteq> 0 then rightmost (n_right (h x)) h else Some x)"

partial_function (option) climb_right :: "addr \<Rightarrow> 'v heap \<Rightarrow> addr option" where
  "climb_right c h =
     (if n_parent (h c) \<noteq> 0 \<and> n_right (h (n_parent (h c))) = c then climb_right (n_parent (h c)) h else Some (n_parent (h c)))"

partial_function (option) climb_left :: "addr \<Rightarrow> 'v heap \<Rightarrow> addr option" where
  "climb_left c h =
     (if n_parent (h c) \<noteq> 0 \<and> n_left (h (n_parent (h c))) = c then climb_left (n_parent (h c)) h else Some (n_parent (h c)))"

text \<open>The null pointer is the result where there is no node to go to.\<close>

definition increment :: "addr \<Rightarrow> 'v heap \<Rightarrow> addr option" where
  "increment c h =
     (if n_right (h c) \<noteq> 0 then leftmost (n_right (h c)) h
      else if n_parent (h c) \<noteq> 0 then
        (if n_left (h (n_parent (h c))) = c then Some (n_parent (h c)) else climb_right c h)
      else Some 0)"

definition decrement :: "addr \<Rightarrow> 'v heap \<Rightarrow> addr option" where
  "decrement c h =
     (if n_left (h c) \<noteq> 0 then rightmost (n_left (h c)) h
      else if n_parent (h c) \<noteq> 0 then
        (if n_right (h (n_parent (h c))) = c then Some (n_parent (h c)) else climb_left c h)
      else Some 0)"

section \<open>Where they lead\<close>

lemma leftmost_tree: "links h par t \<Longrightarrow> t \<noteq> Leaf \<Longrightarrow> leftmost (root_of t) h = Some (hd (inorder t))"
proof (induction t arbitrary: par)
  case (Node l a r)
  then show ?case by (cases l) (auto simp: leftmost.simps [of a] hd_append)
qed simp

lemma rightmost_tree: "links h par t \<Longrightarrow> t \<noteq> Leaf \<Longrightarrow> rightmost (root_of t) h = Some (last (inorder t))"
proof (induction t arbitrary: par)
  case (Node l a r)
  then show ?case by (cases r) (auto simp: rightmost.simps [of a])
qed simp

text \<open>A node of a tree stands at the end of a path.\<close>

lemma tree_at: "a \<in> set_tree t \<Longrightarrow> \<exists>c l r. t = plug c (Node l a r)"
proof (induction t)
  case (Node l b r)
  have ext: "\<exists>c'. plug c' t = Node (plug c t) b r" "\<exists>c'. plug c' t = Node l b (plug c t)" for c t
    by (rule exI [of _ "c @ [On_left b r]"], induction c t rule: plug.induct, simp_all)
      (rule exI [of _ "c @ [On_right l b]"], induction c t rule: plug.induct, simp_all)
  consider "a = b" | "a \<in> set_tree l" | "a \<in> set_tree r" using Node.prems by auto
  then show ?case
  proof cases
    case 1
    then show ?thesis by (intro exI [of _ "[]"]) simp
  next
    case 2
    then show ?thesis using Node.IH(1) ext(1) by metis
  next
    case 3
    then show ?thesis using Node.IH(2) ext(2) by metis
  qed
qed simp

lemma climb_right_path:
  "path_links h head c x \<Longrightarrow> n_parent (h x) = up head c \<Longrightarrow> head \<noteq> 0 \<Longrightarrow> x \<notin> path_set c \<Longrightarrow> distinct (before c @ behind c) \<Longrightarrow> x \<noteq> 0
   \<Longrightarrow> (behind c = [] \<Longrightarrow> n_right (h head) \<notin> insert x (path_set c))
   \<Longrightarrow> climb_right x h = Some (if behind c = [] then head else hd (behind c))"
proof (induction c arbitrary: x rule: path_set.induct)
  case 1
  then show ?case by (simp add: climb_right.simps [of x])
next
  case (2 a r c)
  have "root_of r \<noteq> x" using "2.prems"(4,6) by (cases r) auto
  then show ?case using "2.prems" by (simp add: climb_right.simps [of x])
next
  case (3 l a c)
  have "climb_right a h = Some (if behind c = [] then head else hd (behind c))"
    by (rule "3.IH") (use "3.prems" in \<open>auto simp: path_set_lists\<close>)
  then show ?case using "3.prems" by (simp add: climb_right.simps [of x])
qed

lemma climb_left_path:
  "path_links h head c x \<Longrightarrow> n_parent (h x) = up head c \<Longrightarrow> x \<notin> path_set c \<Longrightarrow> distinct (before c @ behind c) \<Longrightarrow> x \<noteq> 0
   \<Longrightarrow> before c \<noteq> [] \<Longrightarrow> climb_left x h = Some (last (before c))"
proof (induction c arbitrary: x rule: path_set.induct)
  case (2 a r c)
  have "climb_left a h = Some (last (before c))"
    by (rule "2.IH") (use "2.prems" in \<open>auto simp: path_set_lists\<close>)
  then show ?case using "2.prems" by (simp add: climb_left.simps [of x])
next
  case (3 l a c)
  have "root_of l \<noteq> x" using "3.prems"(3,5) by (cases l) auto
  then show ?case using "3.prems" by (simp add: climb_left.simps [of x])
qed simp

text \<open>The next node, and the header behind the last one, to which the right link of the header leads.\<close>

lemma increment_next:
  assumes rp: "rep h head (plug c (Node l a r))" and last: "n_right (h head) = last (inorder (plug c (Node l a r)))"
  shows "increment a h = Some (case inorder r @ behind c of [] \<Rightarrow> head | b # bs \<Rightarrow> b)"
proof (cases "r = Leaf")
  case False
  then obtain r1 b r2 where r: "r = Node r1 b r2" by (cases r) auto
  have "links h a r" "n_right (h a) = root_of r" "b \<noteq> 0" using rp by (auto simp: rep_plug r)
  then have "increment a h = Some (hd (inorder r))" using leftmost_tree [of h a r] False by (simp add: increment_def r)
  then show ?thesis by (cases "inorder r") (simp_all add: r)
next
  case True
  note p = rp [unfolded rep_plug, simplified]
  have par: "n_right (h a) = 0" "n_parent (h a) = up head c" using p True by auto
  show ?thesis
  proof (cases c)
    case Nil
    then show ?thesis using p par True by (simp add: increment_def)
  next
    case (Cons s c')
    show ?thesis
    proof (cases s)
      case (On_left q w)
      then show ?thesis using p par True Cons by (simp add: increment_def)
    next
      case (On_right w q)
      have w: "root_of w \<noteq> a" "q \<noteq> 0" using p Cons On_right by (cases w; auto)+
      have l: "behind c' = [] \<Longrightarrow> n_right (h head) = a" using last by (simp add: inorder_plug True Cons On_right)
      have "climb_right a h = climb_right q h"
        using p par Cons On_right by (simp add: climb_right.simps [of a])
      also have "\<dots> = Some (if behind c' = [] then head else hd (behind c'))"
        by (rule climb_right_path [of _ head]) (use p Cons On_right l in \<open>auto simp: path_set_lists\<close>)
      finally show ?thesis using p par True Cons On_right w by (cases "behind c'") (simp_all add: increment_def)
    qed
  qed
qed

lemma decrement_previous:
  assumes rp: "rep h head (plug c (Node l a r))" and ne: "before c @ inorder l \<noteq> []"
  shows "decrement a h = Some (last (before c @ inorder l))"
proof (cases "l = Leaf")
  case False
  then obtain l1 b l2 where l: "l = Node l1 b l2" by (cases l) auto
  have "links h a l" "n_left (h a) = root_of l" "b \<noteq> 0" using rp by (auto simp: rep_plug l)
  then show ?thesis using rightmost_tree [of h a l] False by (simp add: decrement_def l)
next
  case True
  note p = rp [unfolded rep_plug, simplified]
  have par: "n_left (h a) = 0" "n_parent (h a) = up head c" using p True by auto
  show ?thesis
  proof (cases c)
    case Nil
    then show ?thesis using ne True by simp
  next
    case (Cons s c')
    show ?thesis
    proof (cases s)
      case (On_right w q)
      then show ?thesis using p par True Cons by (simp add: decrement_def)
    next
      case (On_left q w)
      have w: "root_of w \<noteq> a" "q \<noteq> 0" using p Cons On_left by (cases w; auto)+
      have "climb_left a h = Some (last (before c))"
        by (rule climb_left_path [of _ head]) (use p ne True in \<open>auto simp: path_set_lists\<close>)
      then show ?thesis using p par True Cons On_left w by (simp add: decrement_def)
    qed
  qed
qed

text \<open>From the header backwards comes the last node.\<close>

lemma decrement_end: "rep h head t \<Longrightarrow> t \<noteq> Leaf \<Longrightarrow> decrement head h = Some (last (inorder t))"
  using rightmost_tree [of h head t] top_set [of t] links_nonzero [of h head t]
  by (cases t) (auto simp: decrement_def rep_def)

end
