(* ===== verification/RbErase.thy ===== *)
theory RbErase
  imports RbRemoveRight RbWalk
begin

text \<open>
  Models the removal of a node from the tree: \<^verbatim>\<open>NodeBase::replace\<close> of \<^verbatim>\<open>common/memory/SPMemRbtree.cc\<close> and the
  unlinking in \<^verbatim>\<open>Tree::deleteNode\<close> of \<^verbatim>\<open>SPMemRbtree.h\<close>.
\<close>

section \<open>The operations\<close>

text \<open>The header takes no link to itself: the ends of an empty tree are null.\<close>

definition setleft :: "addr \<Rightarrow> addr \<Rightarrow> 'v heap \<Rightarrow> 'v heap" where
  "setleft head n h = set_parent head (if n = head then 0 else n) h"

definition setright :: "addr \<Rightarrow> addr \<Rightarrow> 'v heap \<Rightarrow> 'v heap" where
  "setright head n h = set_right head (if n = head then 0 else n) h"

text \<open>\<^verbatim>\<open>NodeBase::replace\<close>: the node \<open>n\<close> takes the place of \<open>old\<close>.\<close>

definition take_place :: "addr \<Rightarrow> addr \<Rightarrow> 'v heap \<Rightarrow> 'v heap" where
  "take_place old n h =
     (let h = set_left n (n_left (h old)) h; h = set_right n (n_right (h old)) h; h = setColor n (n_color (h old)) h
      in set_parent n (n_parent (h old)) h)"

definition link_parent :: "addr \<Rightarrow> addr \<Rightarrow> 'v heap \<Rightarrow> 'v heap" where
  "link_parent old n h =
     (if n_parent (h old) \<noteq> 0 then
        (if n_left (h (n_parent (h old))) = old then set_left (n_parent (h old)) n h else set_right (n_parent (h old)) n h)
      else h)"

definition link_left :: "addr \<Rightarrow> addr \<Rightarrow> 'v heap \<Rightarrow> 'v heap" where
  "link_left old n h =
     (if n_left (h old) \<noteq> 0 \<and> n_left (h old) \<noteq> n then set_parent (n_left (h old)) n h
      else if n_left (h old) = n then set_left n 0 h else h)"

definition link_right :: "addr \<Rightarrow> addr \<Rightarrow> 'v heap \<Rightarrow> 'v heap" where
  "link_right old n h =
     (if n_right (h old) \<noteq> 0 \<and> n_right (h old) \<noteq> n then set_parent (n_right (h old)) n h
      else if n_right (h old) = n then set_right n 0 h else h)"

definition replace :: "addr \<Rightarrow> addr \<Rightarrow> 'v heap \<Rightarrow> 'v heap" where
  "replace old n h = link_right old n (link_left old n (link_parent old n (take_place old n h)))"

text \<open>The link that leads from \<open>q\<close> to \<open>y\<close> is set to \<open>x\<close>.\<close>

definition child_link :: "addr \<Rightarrow> addr \<Rightarrow> addr \<Rightarrow> 'v heap \<Rightarrow> 'v heap" where
  "child_link q y x h = (if y = n_left (h q) then set_left q x h else set_right q x h)"

text \<open>
  The node that leaves its place: \<open>z\<close> itself where a child is missing, and then the ends of the tree may move,
  or else the one before it.
\<close>

definition delete_right_end :: "addr \<Rightarrow> addr \<Rightarrow> 'v heap \<Rightarrow> 'v heap option" where
  "delete_right_end head z h =
     (if z = n_right (h head) then
        (if z = n_parent (h head) then Some (setright head 0 h) else map_option (\<lambda>d. setright head d h) (decrement z h))
      else Some h)"

definition delete_left_end :: "addr \<Rightarrow> addr \<Rightarrow> 'v heap \<Rightarrow> 'v heap option" where
  "delete_left_end head z h = (if z = n_parent (h head) then map_option (\<lambda>i. setleft head i h) (increment z h) else Some h)"

definition delete_place :: "addr \<Rightarrow> addr \<Rightarrow> 'v heap \<Rightarrow> (addr \<times> 'v heap) option" where
  "delete_place head z h =
     (if n_left (h z) = 0 \<or> n_right (h z) = 0
      then map_option (\<lambda>h. (z, h)) (Option.bind (delete_right_end head z h) (delete_left_end head z))
      else map_option (\<lambda>y. (y, h)) (rightmost (n_left (h z)) h))"

text \<open>A node without a child is rebalanced while it is still linked, then unlinked.\<close>

definition delete_leaf :: "addr \<Rightarrow> addr \<Rightarrow> addr \<Rightarrow> 'v heap \<Rightarrow> 'v heap option" where
  "delete_leaf head z y h =
     map_option (\<lambda>h. let h = child_link (n_parent (h y)) y 0 h in if y \<noteq> z then replace z y h else h)
       (if n_color (h y) = Black then rb_remove head y h else Some h)"

definition delete_single :: "addr \<Rightarrow> addr \<Rightarrow> addr \<Rightarrow> addr \<Rightarrow> 'v heap \<Rightarrow> 'v heap option" where
  "delete_single head z y x h =
     (let h = set_parent x (n_parent (h y)) h;
          h = child_link (n_parent (h y)) y x h;
          h = (if y \<noteq> z then replace z y h else setColor y Red h)
      in if n_color (h y) = Black then rb_remove head x h else Some (setColor x Black h))"

definition delete_links :: "addr \<Rightarrow> addr \<Rightarrow> 'v heap \<Rightarrow> 'v heap option" where
  "delete_links head z h =
     Option.bind (delete_place head z h) (\<lambda>(y, h).
       let x = (if n_left (h y) \<noteq> 0 then n_left (h y) else n_right (h y))
       in if x = 0 then delete_leaf head z y h else delete_single head z y x h)"

section \<open>Links\<close>

lemma child_link_fields [simp]:
  "n_parent (child_link q y x h a) = n_parent (h a)" "n_color (child_link q y x h a) = n_color (h a)"
  "n_value (child_link q y x h a) = n_value (h a)"
  by (simp_all add: child_link_def)

lemma child_link_path:
  assumes "path_links h head c y" "distinct (before c @ behind c)" "head \<notin> path_set c" "y \<noteq> 0" "y \<notin> path_set c"
  shows "path_links (child_link (up head c) y x h) head c x"
    "a \<notin> path_set c \<Longrightarrow> a \<noteq> head \<Longrightarrow> child_link (up head c) y x h a = h a"
    "n_right (child_link (up head c) y x h head) = n_right (h head)"
proof -
  have "path_links (child_link (up head c) y x h) head c x \<and>
      (a \<notin> path_set c \<longrightarrow> a \<noteq> head \<longrightarrow> child_link (up head c) y x h a = h a) \<and>
      n_right (child_link (up head c) y x h head) = n_right (h head)"
  proof (cases c)
    case Nil
    then show ?thesis using assms by (simp add: child_link_def)
  next
    case (Cons s c')
    show ?thesis
    proof (cases s)
      case (On_left q r)
      then have "q \<notin> set_tree r" "q \<notin> path_set c'" "q \<noteq> head" using assms by (auto simp: Cons path_set_lists)
      then show ?thesis using assms by (auto simp: Cons On_left child_link_def)
    next
      case (On_right l q)
      then have "q \<notin> set_tree l" "q \<notin> path_set c'" "q \<noteq> head" "root_of l \<noteq> y"
        using assms root_of_not_in [of y l] by (auto simp: Cons path_set_lists)
      then show ?thesis using assms by (auto simp: Cons On_right child_link_def)
    qed
  qed
  then show "path_links (child_link (up head c) y x h) head c x"
    "a \<notin> path_set c \<Longrightarrow> a \<noteq> head \<Longrightarrow> child_link (up head c) y x h a = h a"
    "n_right (child_link (up head c) y x h head) = n_right (h head)" by blast+
qed

text \<open>A node with at most one child gives its place to that child's subtree.\<close>

lemma splice:
  assumes rp: "rep h head (plug c t)" and t: "t = Node u y Leaf \<or> t = Node Leaf y u"
  defines "h1 \<equiv> (if u = Leaf then h else set_parent (root_of u) (n_parent (h y)) h)"
  shows "rep (child_link (n_parent (h1 y)) y (root_of u) h1) head (plug c u)"
    "n_right (child_link (n_parent (h1 y)) y (root_of u) h1 head) = n_right (h head)"
    "n_parent (child_link (n_parent (h1 y)) y (root_of u) h1 head) = n_parent (h head)"
proof -
  define h2 where "h2 = child_link (n_parent (h1 y)) y (root_of u) h1"
  note r = rp [unfolded rep_plug]
  have y: "y \<noteq> 0" "y \<noteq> head" "y \<notin> path_set c" "y \<notin> set_tree u" "n_parent (h y) = up head c" "links h y u" "distinct (inorder u)"
    "set_tree u \<inter> path_set c = {}" "head \<notin> set_tree u" "path_links h head c y"
    using r t by auto
  have ru: "u \<noteq> Leaf \<Longrightarrow> root_of u \<in> set_tree u" using y(6) by (cases u) auto
  then have ru': "u \<noteq> Leaf \<Longrightarrow> root_of u \<noteq> head \<and> root_of u \<notin> path_set c \<and> root_of u \<noteq> y" using y by auto
  have par: "n_parent (h1 y) = up head c" using y ru' by (auto simp: h1_def)
  have p1: "path_links h1 head c y" using y(10) ru' by (simp add: h1_def)
  have u1: "links h1 (up head c) u" using y(5-7) by (cases u) (auto simp: h1_def)
  have dc: "distinct (before c @ behind c)" "head \<notin> path_set c" "head \<noteq> 0" using r by auto
  note link = child_link_path [OF p1 dc(1,2) y(1,3), where x = "root_of u", folded par, folded h2_def]
  have "links h2 (up head c) u"
  proof -
    have "h2 a = h1 a" if "a \<in> set_tree u" for a using that y(8,9) by (intro link(2)) auto
    then show ?thesis using u1 links_cong [of u h2 h1] by simp
  qed
  then show "rep h2 head (plug c u)" using link(1) y dc by (simp add: rep_plug)
  show "n_right (h2 head) = n_right (h head)" using link(3) by (simp add: h1_def)
  show "n_parent (h2 head) = n_parent (h head)" using ru' by (auto simp: h2_def h1_def)
qed

lemma link_fields [simp]:
  "n_color (link_right z y h a) = n_color (h a)" "n_value (link_right z y h a) = n_value (h a)"
  "n_color (link_left z y h a) = n_color (h a)" "n_value (link_left z y h a) = n_value (h a)"
  "n_color (link_parent z y h a) = n_color (h a)" "n_value (link_parent z y h a) = n_value (h a)"
  by (simp_all add: link_right_def link_left_def link_parent_def)

lemma replace_fields [simp]:
  "n_color (replace z y h a) = (if a = y then n_color (h z) else n_color (h a))" "n_value (replace z y h a) = n_value (h a)"
  by (simp_all add: replace_def take_place_def)

lemma adopt_other: "a \<notin> set_tree t \<Longrightarrow> (if root_of t \<noteq> 0 then set_parent (root_of t) y h else h) a = h a"
  using top_set [of t] set_other(1) [of a "root_of t" y h] by (cases "a = root_of t") auto

text \<open>Another node takes the place of a node.\<close>

lemma replace_rep:
  assumes rp: "rep h head (plug c (Node l z r))" and y: "y \<notin> set_tree (plug c (Node l z r))" "y \<noteq> 0" "y \<noteq> head"
  shows "rep (replace z y h) head (plug c (Node l y r))" "n_right (replace z y h head) = n_right (h head)"
    "n_parent (replace z y h head) = n_parent (h head)"
proof -
  note p = rp [unfolded rep_plug, simplified]
  have y': "y \<notin> path_set c" "y \<noteq> z" "y \<notin> set_tree l" "y \<notin> set_tree r" using y(1) by (auto simp: set_plug)
  have roots: "root_of l \<noteq> y" "root_of r \<noteq> y" using y' y(2) root_of_not_in by blast+
  define h1 where "h1 = take_place z y h"
  define h2 where "h2 = child_link (up head c) z y h1"
  define h3 where "h3 = (if root_of l \<noteq> 0 then set_parent (root_of l) y h2 else h2)"
  have up: "up head c \<noteq> 0" "n_parent (h z) = up head c" using p by (cases c rule: path_set.cases; simp)+
  have p1: "path_links h1 head c z" "links h1 z l" "links h1 z r" using p y y' by (simp_all add: h1_def take_place_def)
  have dc: "distinct (before c @ behind c)" "head \<notin> path_set c" "z \<noteq> 0" "z \<notin> path_set c" "z \<noteq> head" "z \<notin> set_tree l" "z \<notin> set_tree r"
    "set_tree l \<inter> set_tree r = {}" "set_tree l \<inter> path_set c = {}" "set_tree r \<inter> path_set c = {}" "head \<notin> set_tree l" "head \<notin> set_tree r"
    "distinct (inorder l)" "distinct (inorder r)" "head \<noteq> 0"
    using p by auto
  note link = child_link_path [OF p1(1) dc(1-4), where x = y, folded h2_def]
  have z2: "n_left (h2 z) = root_of l" "n_right (h2 z) = root_of r" using link(2) [of z] p y' dc by (simp_all add: h1_def take_place_def)
  have y2: "n_left (h2 y) = root_of l" "n_right (h2 y) = root_of r" "n_parent (h2 y) = up head c"
    using link(2) [of y] p y' y(3) by (simp_all add: h1_def take_place_def)
  have "link_parent z y h1 = h2"
    using up y' by (simp add: link_parent_def h2_def child_link_def h1_def take_place_def)
  moreover have "link_left z y h2 = h3" using z2 roots y(2) by (simp add: link_left_def h3_def)
  moreover have "link_right z y h3 = (if root_of r \<noteq> 0 then set_parent (root_of r) y h3 else h3)"
    using z2 roots y(2) by (simp add: link_right_def h3_def)
  ultimately have e: "replace z y h = (if root_of r \<noteq> 0 then set_parent (root_of r) y h3 else h3)"
    by (simp add: replace_def h1_def)
  define h4 where "h4 = (if root_of r \<noteq> 0 then set_parent (root_of r) y h3 else h3)"
  have off: "h4 a = h2 a" if "a \<notin> set_tree l" "a \<notin> set_tree r" for a
    using adopt_other [OF that(2), of y h3] adopt_other [OF that(1), of y h2] unfolding h4_def [symmetric] h3_def [symmetric] by simp
  have "path_links h4 head c y"
  proof -
    have "h4 a = h2 a" if "a \<in> path_set c \<or> a = head" for a using that dc by (intro off) auto
    then show ?thesis using link(1) path_links_cong [of c head h4 h2] by simp
  qed
  moreover have "links h4 y l"
  proof -
    have "h2 a = h1 a" if "a \<in> set_tree l" for a using that dc by (intro link(2)) auto
    then have "links h2 z l" using p1(2) links_cong [of l h2 h1] by simp
    then have "links h3 y l" unfolding h3_def using dc by (intro set_parent_root)
    moreover have "h4 a = h3 a" if "a \<in> set_tree l" for a
    proof -
      have "a \<notin> set_tree r" using that dc by auto
      then show ?thesis using adopt_other [of a r y h3] unfolding h4_def [symmetric] by simp
    qed
    ultimately show ?thesis using links_cong [of l h4 h3] by simp
  qed
  moreover have "links h4 y r"
  proof -
    have "h3 a = h1 a" if "a \<in> set_tree r" for a
    proof -
      have "h2 a = h1 a" using that dc by (intro link(2)) auto
      moreover have "a \<notin> set_tree l" using that dc by auto
      ultimately show ?thesis using adopt_other [of a l y h2] unfolding h3_def [symmetric] by simp
    qed
    then have "links h3 z r" using p1(3) links_cong [of r h3 h1] by simp
    then show ?thesis unfolding h4_def using dc by (intro set_parent_root)
  qed
  ultimately have "rep h4 head (plug c (Node l y r))"
    using p y y' off [of y] y2 by (simp add: rep_plug)
  then show "rep (replace z y h) head (plug c (Node l y r))" by (simp add: e h4_def)
  have "h4 head = h2 head" using dc by (intro off) auto
  then show "n_right (replace z y h head) = n_right (h head)" "n_parent (replace z y h head) = n_parent (h head)"
    using link(3) y(3) unfolding e h4_def [symmetric] by (simp_all add: h1_def h2_def take_place_def)
qed

text \<open>A node of the tree, and what stands before and behind it.\<close>

lemma node_at:
  assumes "distinct (inorder t)" "inorder t = xs @ z # ys"
  shows "\<exists>c l r. t = plug c (Node l z r) \<and> before c @ inorder l = xs \<and> inorder r @ behind c = ys"
proof -
  have "z \<in> set_tree t" using assms(2) by (simp flip: set_inorder)
  then obtain c l r where t: "t = plug c (Node l z r)" using tree_at by blast
  have eq: "(before c @ inorder l) @ z # (inorder r @ behind c) = xs @ z # ys" using assms(2) by (simp add: t inorder_plug)
  have "distinct ((before c @ inorder l) @ z # (inorder r @ behind c))" using assms by (simp only: eq)
  then have "z \<notin> set (before c @ inorder l)" "z \<notin> set (inorder r @ behind c)" by auto
  from append_Cons_eq_iff [OF this, of xs ys] eq t show ?thesis by blast
qed

section \<open>The ends of the tree\<close>

text \<open>The links of the header to the first and the last node; an empty tree has none.\<close>

definition ends :: "'v heap \<Rightarrow> addr \<Rightarrow> addr list \<Rightarrow> bool" where
  "ends h head ns \<longleftrightarrow> n_parent (h head) = (if ns = [] then 0 else hd ns) \<and> n_right (h head) = (if ns = [] then 0 else last ns)"

lemma path_ends: "before c = [] \<Longrightarrow> behind c = [] \<Longrightarrow> c = []"
  by (cases c rule: path_set.cases) auto

lemma delete_place_end:
  assumes rp: "rep h head (plug c (Node l z r))" and e: "ends h head (inorder (plug c (Node l z r)))" and s: "l = Leaf \<or> r = Leaf"
  shows "\<exists>h'. delete_place head z h = Some (z, h') \<and> ends h' head (before c @ inorder l @ inorder r @ behind c)
    \<and> (\<forall>a. a \<noteq> head \<longrightarrow> h' a = h a) \<and> n_left (h' head) = n_left (h head) \<and> (\<forall>a. n_value (h' a) = n_value (h a))"
proof -
  define xs where "xs = before c @ inorder l"
  define ys where "ys = inorder r @ behind c"
  have io: "inorder (plug c (Node l z r)) = xs @ z # ys" by (simp add: inorder_plug xs_def ys_def)
  have d: "distinct (xs @ z # ys)" "0 \<notin> set (xs @ z # ys)" "head \<notin> set (xs @ z # ys)" "head \<noteq> 0"
    using rp links_nonzero [of h head "plug c (Node l z r)"] unfolding io [symmetric] by (auto simp: rep_def)
  have fst: "n_parent (h head) = z \<longleftrightarrow> xs = []" using e d unfolding ends_def io by (cases xs) auto
  have lst: "n_right (h head) = z \<longleftrightarrow> ys = []" using e d unfolding ends_def io by (cases ys rule: rev_cases) auto
  have z: "n_left (h z) = 0 \<or> n_right (h z) = 0" "z \<noteq> head" using rp s by (auto simp: rep_plug)
  define h1 where "h1 = (if ys = [] then set_right head (if xs = [] then 0 else last xs) h else h)"
  have h1: "delete_right_end head z h = Some h1"
  proof (cases "ys = []")
    case True
    show ?thesis
    proof (cases "xs = []")
      case False
      have "decrement z h = Some (last xs)" using decrement_previous [OF rp] False by (simp add: xs_def)
      moreover have "last xs \<noteq> head" using d(3) False by (metis UnCI last_in_set set_append)
      ultimately show ?thesis using True False fst lst by (simp add: delete_right_end_def h1_def setright_def)
    qed (use True fst lst in \<open>simp add: delete_right_end_def h1_def setright_def\<close>)
  qed (use lst in \<open>simp add: delete_right_end_def h1_def\<close>)
  have rp1: "rep h1 head (plug c (Node l z r))"
    using rp by (simp add: h1_def rep_def)
  have off1: "h1 a = h a" if "a \<noteq> head" for a using that by (simp add: h1_def)
  define h2 where "h2 = (if xs = [] then set_parent head (if ys = [] then 0 else hd ys) h1 else h1)"
  have h2: "delete_left_end head z h1 = Some h2"
  proof (cases "xs = []")
    case True
    have i: "increment z h1 = Some (case ys of [] \<Rightarrow> head | b # bs \<Rightarrow> b)" 
    proof (cases "ys = []")
      case False
      then have "h1 = h" by (simp add: h1_def)
      moreover have "n_right (h head) = last (inorder (plug c (Node l z r)))" using e by (simp add: ends_def io)
      ultimately show ?thesis using increment_next [OF rp] by (simp add: ys_def)
    next
      case y: True
      then have c: "c = []" "r = Leaf" "l = Leaf" using True by (auto simp: xs_def ys_def path_ends)
      then show ?thesis using rp1 y by (simp add: increment_def rep_def)
    qed
    show ?thesis
    proof (cases ys)
      case Nil
      then show ?thesis using True i fst by (simp add: delete_left_end_def h2_def h1_def setleft_def)
    next
      case (Cons b bs)
      then have "b \<noteq> head" using d(3) by auto
      then show ?thesis using True i fst Cons by (simp add: delete_left_end_def h2_def h1_def setleft_def)
    qed
  qed (use fst in \<open>simp add: delete_left_end_def h2_def h1_def\<close>)
  have "delete_place head z h = Some (z, h2)" using z h1 h2 by (simp add: delete_place_def)
  moreover have "ends h2 head (xs @ ys)"
    using e unfolding ends_def io by (auto simp: h2_def h1_def)
  moreover have "h2 a = h a" if "a \<noteq> head" for a using that off1 by (simp add: h2_def)
  moreover have "n_left (h2 head) = n_left (h head)" "\<And>a. n_value (h2 a) = n_value (h a)" by (simp_all add: h2_def h1_def)
  ultimately show ?thesis by (auto simp: xs_def ys_def)
qed

section \<open>A node is gone\<close>

lemma path_append: "plug (d @ c) t = plug c (plug d t)" "before (d @ c) = before c @ before d" "behind (d @ c) = behind d @ behind c"
  by (induction d t rule: plug.induct) simp_all

lemma rightmost_split: "t \<noteq> Leaf \<Longrightarrow> \<exists>d l y. t = plug d (Node l y Leaf) \<and> behind d = []"
proof (induction t)
  case (Node l a r)
  show ?case
  proof (cases "r = Leaf")
    case True
    then show ?thesis by (intro exI [of _ "[]"]) simp
  next
    case False
    then obtain d l' y where d: "r = plug d (Node l' y Leaf)" "behind d = []" using Node.IH(2) by blast
    have "Node l a r = plug (d @ [On_right l a]) (Node l' y Leaf)" "behind (d @ [On_right l a]) = []"
      using d by (simp_all add: path_append)
    then show ?thesis by blast
  qed
qed simp

lemma setColor_commute:
  "setColor x k (set_parent a b h) = set_parent a b (setColor x k h)" "setColor x k (set_left a b h) = set_left a b (setColor x k h)"
  "setColor x k (set_right a b h) = set_right a b (setColor x k h)"
  "x \<noteq> a \<Longrightarrow> setColor x k (setColor a c h) = setColor a c (setColor x k h)"
  by (auto simp: setColor_def set_parent_def set_left_def set_right_def fun_eq_iff)

lemma link_colour:
  "setColor x k (link_right z y h) = link_right z y (setColor x k h)" "setColor x k (link_left z y h) = link_left z y (setColor x k h)"
  "setColor x k (link_parent z y h) = link_parent z y (setColor x k h)"
  by (simp_all add: link_right_def link_left_def link_parent_def setColor_commute(1-3))

lemma replace_colour:
  assumes "x \<noteq> z" "x \<noteq> y"
  shows "setColor x k (replace z y h) = replace z y (setColor x k h)"
proof -
  have "setColor x k (take_place z y h) = take_place z y (setColor x k h)"
    using assms by (simp add: take_place_def setColor_commute(1-3) setColor_commute(4) [of x y])
  then show ?thesis by (simp add: replace_def link_colour)
qed

lemma rb_cong: "(\<And>a. a \<in> set_tree t \<Longrightarrow> n_color (h' a) = n_color (h a)) \<Longrightarrow> rb_tree h' t = rb_tree h t"
  using colour_cong [of t h' h] by (simp add: rb_tree_def)

lemma leaf_gone:
  assumes rp: "rep h head (plug c (Node Leaf y Leaf))" and rb: "rb_tree h (plug c (Node Leaf y Leaf))"
  shows "\<exists>h1. (if n_color (h y) = Black then rb_remove head y h else Some h) = Some h1
    \<and> rebalanced h head (before c @ behind c) (child_link (n_parent (h1 y)) y 0 h1)"
proof -
  let ?t = "Node Leaf y Leaf"
  have "\<exists>h1. (if n_color (h y) = Black then rb_remove head y h else Some h) = Some h1 \<and> outcome h head c ?t 0 h1"
  proof (cases "n_color (h y) = Black")
    case True
    have "remove_inv h head c ?t 0"
      using rp rb True by (auto simp: remove_inv_def rb_tree_def invh_plug invc_plug)
    then show ?thesis using rb_remove_rebalances [of h head c ?t 0] True by auto
  next
    case False
    then have "n_color (h y) = Red" by (auto intro: NodeColor.exhaust)
    then have "outcome h head c ?t 0 h"
      using rp rb unfolding outcome_def rb_tree_def invh_plug invc_plug
      by (intro conjI exI [of _ c]) (auto intro: path_invc_mono)
    then show ?thesis using False by auto
  qed
  then obtain h1 c' where h1: "(if n_color (h y) = Black then rb_remove head y h else Some h) = Some h1"
      "rep h1 head (plug c' ?t)" "path_invh h1 c' 0" "path_invc h1 c' False" "c' \<noteq> [] \<longrightarrow> \<not> red h1 (plug c' ?t)"
      "before c' = before c" "behind c' = behind c" "\<And>a. n_value (h1 a) = n_value (h a)"
      "n_parent (h1 head) = n_parent (h head)" "n_right (h1 head) = n_right (h head)"
    unfolding outcome_def by auto
  define h2 where "h2 = child_link (n_parent (h1 y)) y 0 h1"
  have rp2: "rep h2 head (plug c' Leaf)" "n_right (h2 head) = n_right (h1 head)" "n_parent (h2 head) = n_parent (h1 head)"
    using splice [OF h1(2), of Leaf y] by (simp_all add: h2_def)
  have "\<not> red h1 (plug c' Leaf)"
  proof (cases "c' = []")
    case False
    then show ?thesis using root_red [of c' h1 Leaf ?t] h1(5) by simp
  qed simp
  then have "rb_tree h1 (plug c' Leaf)" using h1(3,4) by (simp add: rb_tree_def invh_plug invc_plug)
  then have "rb_tree h2 (plug c' Leaf)" using rb_cong [of "plug c' Leaf" h2 h1] by (simp add: h2_def)
  then have "rebalanced h head (before c @ behind c) h2"
    using rp2 h1(6-10) unfolding rebalanced_def by (intro conjI exI [of _ "plug c' Leaf"]) (simp_all add: inorder_plug, simp add: h2_def)
  then show ?thesis using h1(1) by (auto simp: h2_def)
qed

lemma replaced:
  assumes "rebalanced h head (xs @ z # ys) h2" "y \<notin> set (xs @ z # ys)" "y \<noteq> 0" "y \<noteq> head"
  shows "rebalanced h head (xs @ y # ys) (replace z y h2)"
proof -
  obtain t where t: "rep h2 head t" "rb_tree h2 t" "inorder t = xs @ z # ys" using assms(1) by (auto simp: rebalanced_def)
  obtain c l r where c: "t = plug c (Node l z r)" and sp: "before c @ inorder l = xs" "inorder r @ behind c = ys"
    using node_at [of t xs z ys] t(1,3) by (auto simp: rep_def)
  have y: "y \<notin> set_tree (plug c (Node l z r))" using assms(2) t(3) by (simp add: c flip: set_inorder)
  note rp = replace_rep [OF t(1) [unfolded c] y assms(3,4)]
  let ?t = "plug c (Node l y r)"
  have nin: "y \<notin> path_set c" "y \<notin> set_tree l" "y \<notin> set_tree r" using y by (auto simp: set_plug)
  have same: "n_color (replace z y h2 a) = n_color (h2 a)" if "a \<noteq> y" for a using that by simp
  have ch: "bh (replace z y h2) l = bh h2 l" "invh (replace z y h2) l = invh h2 l" "red (replace z y h2) l = red h2 l"
    "invc (replace z y h2) l = invc h2 l" "bh (replace z y h2) r = bh h2 r" "invh (replace z y h2) r = invh h2 r"
    "red (replace z y h2) r = red h2 r" "invc (replace z y h2) r = invc h2 r"
    "path_invh (replace z y h2) c n = path_invh h2 c n" "path_invc (replace z y h2) c b = path_invc h2 c b" for n b
    using nin by (auto intro!: colour_cong path_colour_cong same)
  have "red (replace z y h2) ?t = red h2 t"
  proof (cases "c = []")
    case False
    obtain a where a: "a \<in> path_set c" "\<And>t. \<exists>l r. plug c t = Node l a r" using plug_top [OF False] by blast
    then have "a \<noteq> y" using nin by auto
    then show ?thesis using a(2) [of "Node l z r"] a(2) [of "Node l y r"] by (auto simp: c)
  qed (simp add: c)
  then have "rb_tree (replace z y h2) ?t" using t(2) by (auto simp: c rb_tree_def invh_plug invc_plug ch split: if_splits)
  then show ?thesis
    using rp assms(1) sp unfolding rebalanced_def by (intro conjI exI [of _ ?t]) (auto simp: inorder_plug)
qed

lemma single_gone:
  assumes rp: "rep h head (plug c t)" and t: "t = Node u y Leaf \<or> t = Node Leaf y u" and u: "u \<noteq> Leaf"
    and rb: "rb_tree h (plug c t)"
  defines "h1 \<equiv> set_parent (root_of u) (n_parent (h y)) h"
  shows "n_color (h (root_of u)) = Red"
    "rebalanced h head (before c @ inorder u @ behind c) (setColor (root_of u) Black (child_link (n_parent (h1 y)) y (root_of u) h1))"
proof -
  define h2 where "h2 = setColor (root_of u) Black (child_link (n_parent (h1 y)) y (root_of u) h1)"
  obtain u1 x u2 where ux: "u = Node u1 x u2" using u by (cases u) auto
  have ih: "invh h t" "invc h t" "path_invh h c (bh h t)" "path_invc h c (red h t)" "\<not> red h (plug c t)"
    using rb by (auto simp: rb_tree_def invh_plug invc_plug)
  have x: "n_color (h x) = Red" "bh h u = 0" using ih(1) t by (cases "n_color (h x)"; auto simp: ux split: if_splits)+
  then show "n_color (h (root_of u)) = Red" by (simp add: ux)
  have y: "n_color (h y) = Black" using ih(2) t x by (cases "n_color (h y)") (auto simp: ux)
  have rp2: "rep h2 head (plug c u)" "n_right (h2 head) = n_right (h head)" "n_parent (h2 head) = n_parent (h head)"
    using splice [OF rp t] u by (simp_all add: h2_def h1_def)
  have nin: "x \<notin> path_set c" "x \<notin> set_tree u1" "x \<notin> set_tree u2" using rp t by (auto simp: rep_plug ux)
  have same: "n_color (h2 a) = n_color (h a)" if "a \<noteq> x" for a using that by (simp add: h2_def h1_def ux)
  have k: "n_color (h2 x) = Black" by (simp add: h2_def ux)
  have ch: "bh h2 u1 = bh h u1" "invh h2 u1 = invh h u1" "red h2 u1 = red h u1" "invc h2 u1 = invc h u1"
    "bh h2 u2 = bh h u2" "invh h2 u2 = invh h u2" "red h2 u2 = red h u2" "invc h2 u2 = invc h u2"
    "path_invh h2 c n = path_invh h c n" "path_invc h2 c b = path_invc h c b" for n b
    using nin by (auto intro!: colour_cong path_colour_cong same)
  have "\<not> red h2 (plug c u)"
  proof (cases "c = []")
    case True
    then show ?thesis using k by (simp add: ux)
  next
    case False
    have "n_color (h2 a) = n_color (h a)" if "a \<in> path_set c" for a using that nin by (intro same) auto
    then show ?thesis using root_black [OF False, of h t h2 u] ih(5) by simp
  qed
  moreover have "invh h2 (plug c u)" "invc h2 (plug c u)"
    using ih x y t k by (auto simp: invh_plug invc_plug ux ch split: if_splits)
  ultimately have "rb_tree h2 (plug c u)" by (simp add: rb_tree_def)
  then show "rebalanced h head (before c @ inorder u @ behind c) (setColor (root_of u) Black (child_link (n_parent (h1 y)) y (root_of u) h1))"
    using rp2 unfolding rebalanced_def h2_def [symmetric]
    by (intro conjI exI [of _ "plug c u"]) (simp_all add: inorder_plug, simp add: h2_def h1_def)
qed

section \<open>Deletion\<close>

lemma rebalanced_outside: "rebalanced h head ns h' \<Longrightarrow> y \<notin> set ns \<Longrightarrow> rebalanced h head ns (setColor y k h')"
proof -
  assume r: "rebalanced h head ns h'" and y: "y \<notin> set ns"
  then obtain t where t: "rep h' head t" "rb_tree h' t" "inorder t = ns" by (auto simp: rebalanced_def)
  have "y \<notin> set_tree t" using y t(3) by (simp flip: set_inorder)
  then have "rb_tree (setColor y k h') t" using t(2) by (simp add: rb_tree_def)
  then show ?thesis using r t unfolding rebalanced_def by auto
qed

lemma delete_leaf_result:
  assumes rp: "rep h head (plug c (Node Leaf y Leaf))" and rb: "rb_tree h (plug c (Node Leaf y Leaf))"
  shows "\<exists>h'. delete_leaf head y y h = Some h' \<and> rebalanced h head (before c @ behind c) h'"
    "behind c = z # ys \<Longrightarrow> \<exists>h'. delete_leaf head z y h = Some h' \<and> rebalanced h head (before c @ y # ys) h'"
proof -
  obtain h1 where h1: "(if n_color (h y) = Black then rb_remove head y h else Some h) = Some h1"
      "rebalanced h head (before c @ behind c) (child_link (n_parent (h1 y)) y 0 h1)"
    using leaf_gone [OF assms] by blast
  then show "\<exists>h'. delete_leaf head y y h = Some h' \<and> rebalanced h head (before c @ behind c) h'"
    by (simp add: delete_leaf_def Let_def)
  assume z: "behind c = z # ys"
  have y: "y \<noteq> z" "y \<notin> set (before c @ z # ys)" "y \<noteq> 0" "y \<noteq> head" using rp z by (auto simp: rep_plug path_set_lists)
  then show "\<exists>h'. delete_leaf head z y h = Some h' \<and> rebalanced h head (before c @ y # ys) h'"
    using h1 replaced [OF h1(2) [unfolded z] y(2-)] by (simp add: delete_leaf_def Let_def)
qed

lemma delete_single_result:
  assumes rp: "rep h head (plug c t)" and t: "t = Node u y Leaf \<or> t = Node Leaf y u" and u: "u \<noteq> Leaf"
    and rb: "rb_tree h (plug c t)"
  shows "\<exists>h'. delete_single head y y (root_of u) h = Some h' \<and> rebalanced h head (before c @ inorder u @ behind c) h'"
    "behind c = z # ys \<Longrightarrow> \<exists>h'. delete_single head z y (root_of u) h = Some h' \<and> rebalanced h head (before c @ inorder u @ y # ys) h'"
proof -
  define h1 where "h1 = set_parent (root_of u) (n_parent (h y)) h"
  define h2 where "h2 = child_link (n_parent (h1 y)) y (root_of u) h1"
  have x: "n_color (h (root_of u)) = Red" and rb2: "rebalanced h head (before c @ inorder u @ behind c) (setColor (root_of u) Black h2)"
    using single_gone [OF assms] by (simp_all add: h1_def h2_def)
  have ru: "root_of u \<in> set_tree u" using u by (cases u) auto
  have y: "y \<notin> set (before c @ inorder u @ behind c)" "y \<noteq> 0" "y \<noteq> head" "root_of u \<noteq> y"
    using rp t ru by (auto simp: rep_plug path_set_lists)
  have e: "delete_single head z' y (root_of u) h =
      (let h = (if y \<noteq> z' then replace z' y h2 else setColor y Red h2)
       in if n_color (h y) = Black then rb_remove head (root_of u) h else Some (setColor (root_of u) Black h))" for z'
    by (simp add: delete_single_def h1_def h2_def)
  have "delete_single head y y (root_of u) h = Some (setColor y Red (setColor (root_of u) Black h2))"
    using y(4) by (simp add: e setColor_commute(4))
  then show "\<exists>h'. delete_single head y y (root_of u) h = Some h' \<and> rebalanced h head (before c @ inorder u @ behind c) h'"
    using rebalanced_outside [OF rb2 y(1)] by blast
  assume z: "behind c = z # ys"
  have zx: "root_of u \<noteq> z" using rp t ru z by (auto simp: rep_plug path_set_lists)
  have yz: "y \<noteq> z" using y(1) z by auto
  have "n_color (replace z y h2 (root_of u)) = Red" using x y(4) by (simp add: h1_def h2_def)
  then have "delete_single head z y (root_of u) h = Some (replace z y (setColor (root_of u) Black h2))"
    using yz rb_remove.simps [of head "root_of u" "replace z y h2"] replace_colour [OF zx y(4), of Black h2]
    by (simp add: e Let_def del: replace_fields)
  moreover have "rebalanced h head ((before c @ inorder u) @ y # ys) (replace z y (setColor (root_of u) Black h2))"
    by (rule replaced) (use rb2 y z in simp_all)
  ultimately show "\<exists>h'. delete_single head z y (root_of u) h = Some h' \<and> rebalanced h head (before c @ inorder u @ y # ys) h'"
    by simp
qed

text \<open>The deletion ends; what it leaves is the red-black tree of the other nodes.\<close>

lemma delete_links_result:
  assumes rp: "rep h head t" and rb: "rb_tree h t" and e: "ends h head (inorder t)" and ns: "inorder t = xs @ z # ys"
  shows "\<exists>h'. delete_links head z h = Some h' \<and> (\<exists>t'. rep h' head t' \<and> rb_tree h' t' \<and> inorder t' = xs @ ys)
    \<and> ends h' head (xs @ ys) \<and> (\<forall>a. n_value (h' a) = n_value (h a))"
proof -
  obtain c l r where t: "t = plug c (Node l z r)" and sp: "before c @ inorder l = xs" "inorder r @ behind c = ys"
    using node_at [OF _ ns] rp by (auto simp: rep_def)
  note rp' = rp [unfolded t]
  have lr: "n_left (h z) = root_of l" "n_right (h z) = root_of r" "links h z l" "links h z r" "z \<noteq> head"
    using rp' by (auto simp: rep_plug)
  show ?thesis
  proof (cases "l = Leaf \<or> r = Leaf")
    case True
    then obtain h1 where h1: "delete_place head z h = Some (z, h1)" "ends h1 head (xs @ ys)" "\<And>a. a \<noteq> head \<Longrightarrow> h1 a = h a"
        "n_left (h1 head) = n_left (h head)" "\<And>a. n_value (h1 a) = n_value (h a)"
      using delete_place_end [OF rp' e [unfolded t]] sp by auto
    have off: "h1 a = h a" if "a \<in> set_tree t" for a
      by (rule h1(3)) (use that rp in \<open>auto simp: rep_def\<close>)
    have rp1: "rep h1 head (plug c (Node l z r))"
      using rp' h1(4) links_cong [of t h1 h] off by (simp add: rep_def t)
    have rb1: "rb_tree h1 (plug c (Node l z r))" using rb rb_cong [of t h1 h] off by (simp add: t)
    define x where "x = (if l = Leaf then r else l)"
    have lk: "(if n_left (h1 z) \<noteq> 0 then n_left (h1 z) else n_right (h1 z)) = root_of x"
      using lr h1(3) [of z] True links_nonzero [OF lr(3)] links_nonzero [OF lr(4)] by (cases l; cases r) (auto simp: x_def)
    have "inorder l @ inorder r = inorder x" using True by (auto simp: x_def)
    then have lst: "before c @ inorder x @ behind c = xs @ ys" using sp by (metis append.assoc)
    have one: "Node l z r = Node x z Leaf \<or> Node l z r = Node Leaf z x" using True by (auto simp: x_def)
    have "\<exists>h'. delete_links head z h = Some h' \<and> rebalanced h1 head (xs @ ys) h'"
    proof (cases "x = Leaf")
      case x: True
      then have "l = Leaf" "r = Leaf" using one by auto
      then show ?thesis
        using delete_leaf_result(1) [of h1 head c z] rp1 rb1 sp h1(1) lk x by (simp add: delete_links_def)
    next
      case False
      then have "root_of x \<noteq> 0" using lr links_nonzero [OF lr(3)] links_nonzero [OF lr(4)] by (cases x) (auto simp: x_def split: if_splits)
      then show ?thesis
        using delete_single_result(1) [OF rp1 one False rb1, unfolded lst] h1(1) lk by (auto simp: delete_links_def Let_def)
    qed
    then obtain h' where "delete_links head z h = Some h'" "rebalanced h1 head (xs @ ys) h'" by blast
    moreover have "n_value (h1 a) = n_value (h a)" for a by (rule h1(5))
    ultimately show ?thesis using h1(2) by (auto simp: rebalanced_def ends_def)
  next
    case False
    then obtain f l1 y where l: "l = plug f (Node l1 y Leaf)" "behind f = []" using rightmost_split by blast
    have y: "rightmost (root_of l) h = Some y"
      using rightmost_tree [OF lr(3)] False l by (simp add: inorder_plug)
    let ?c = "f @ On_left z r # c"
    have tc: "plug c (Node l z r) = plug ?c (Node l1 y Leaf)" by (simp add: path_append l)
    have bc: "xs = before ?c @ inorder l1 @ [y]" "behind ?c = z # ys"
      using sp l by (auto simp: path_append inorder_plug)
    note rpc = rp' [unfolded tc] and rbc = rb [unfolded t tc]
    have place: "delete_place head z h = Some (y, h)"
      using lr False y links_nonzero [OF lr(3)] links_nonzero [OF lr(4)] by (cases l; cases r) (auto simp: delete_place_def)
    have ly: "n_left (h y) = root_of l1" "n_right (h y) = 0" "links h y l1" using rpc by (auto simp: rep_plug)
    have sum: "before ?c @ inorder l1 @ y # ys = xs @ ys" by (simp add: bc(1))
    have "\<exists>h'. delete_links head z h = Some h' \<and> rebalanced h head (xs @ ys) h'"
    proof (cases "l1 = Leaf")
      case True
      then have s: "before ?c @ y # ys = xs @ ys" using sum by simp
      show ?thesis
        using delete_leaf_result(2) [OF rpc [unfolded True] rbc [unfolded True] bc(2), unfolded s] place ly True by (simp add: delete_links_def)
    next
      case l1: False
      then have "root_of l1 \<noteq> 0" using links_nonzero [OF ly(3)] by (cases l1) auto
      then show ?thesis
        using delete_single_result(2) [OF rpc _ l1 rbc bc(2), of y, unfolded sum] place ly by (auto simp: delete_links_def Let_def)
    qed
    then obtain h' where h': "delete_links head z h = Some h'" "rebalanced h head (xs @ ys) h'" by blast
    have "ys \<noteq> []" using sp False by (cases r) auto
    moreover have "xs \<noteq> []" using bc(1) by simp
    ultimately have "ends h head (xs @ ys)" using e by (simp add: ends_def ns hd_append)
    then show ?thesis using h' by (auto simp: rebalanced_def ends_def)
  qed
qed

end
