(* ===== verification/RbMap.thy ===== *)
theory RbMap
  imports RbErase MapSpec
begin

text \<open>
  Models the ordered containers of the pool: \<^verbatim>\<open>rbtree::Tree\<close> (\<^verbatim>\<open>common/memory/SPMemRbtree.h\<close>) and the map on top of
  it (\<^verbatim>\<open>SPMemMap.h\<close>).

  A value holds its key, which \<open>ext\<close> extracts: the first component of a pair in a map, the value itself in a set.
  The comparator is the order of the keys. The saved nodes, a chain through their parent links in the code, are
  a list of addresses, and the counters of the header's flags are words of their width; \<open>t_brk\<close> is the first address
  that the pool has not yet handed out.
\<close>

section \<open>The tree\<close>

record 'v rbtree =
  t_heap :: "'v heap"
  t_size :: nat
  t_tmp :: "addr list"
  t_spare :: "32 word"
  t_persistent :: bool
  t_index :: "30 word"
  t_brk :: addr

definition header :: addr where
  "header = 1"

definition Tree_make :: "'v \<Rightarrow> 'v rbtree" where
  "Tree_make v = \<lparr> t_heap = (\<lambda>a. \<lparr> n_parent = 0, n_left = 0, n_right = 0, n_color = Black, n_prealloc = False, n_value = v \<rparr>),
     t_size = 0, t_tmp = [], t_spare = 0, t_persistent = False, t_index = 0, t_brk = 2 \<rparr>"

abbreviation tree_root :: "'v rbtree \<Rightarrow> addr" where
  "tree_root t \<equiv> n_left (t_heap t header)"

abbreviation tree_left :: "'v rbtree \<Rightarrow> addr" where
  "tree_left t \<equiv> n_parent (t_heap t header)"

abbreviation tree_right :: "'v rbtree \<Rightarrow> addr" where
  "tree_right t \<equiv> n_right (t_heap t header)"

subsection \<open>Nodes\<close>

definition allocateNode :: "'v rbtree \<Rightarrow> addr \<times> 'v rbtree" where
  "allocateNode t =
     (case t_tmp t of
        a # as \<Rightarrow> (a, t\<lparr> t_tmp := as, t_spare := t_spare t - 1 \<rparr>)
      | [] \<Rightarrow> (t_brk t, t\<lparr> t_brk := t_brk t + 1, t_heap := (t_heap t)(t_brk t := (t_heap t (t_brk t))\<lparr> n_prealloc := False \<rparr>) \<rparr>))"

definition destroyNode :: "addr \<Rightarrow> 'v rbtree \<Rightarrow> 'v rbtree" where
  "destroyNode n t =
     (if t_tmp t = [] \<or> n_prealloc (t_heap t n) \<or> t_persistent t
      then t\<lparr> t_tmp := n # t_tmp t, t_spare := t_spare t + 1 \<rparr> else t)"

definition constructNode :: "'v \<Rightarrow> 'v rbtree \<Rightarrow> addr \<times> 'v rbtree" where
  "constructNode v t =
     (let (n, t) = allocateNode t; h = t_heap t
      in (n, t\<lparr> t_heap := h(n := (h n)\<lparr> n_parent := 0, n_left := 0, n_right := 0, n_color := Red, n_value := v \<rparr>) \<rparr>))"

definition allocateTmp :: "nat \<Rightarrow> 'v rbtree \<Rightarrow> 'v rbtree" where
  "allocateTmp count t =
     (let ns = map (\<lambda>i. t_brk t + i) [0..<count] in
      t\<lparr> t_index := t_index t + 1, t_spare := t_spare t + word_of_nat count, t_tmp := ns @ t_tmp t, t_brk := t_brk t + count,
         t_heap := (\<lambda>a. if a \<in> set ns then (t_heap t a)\<lparr> n_prealloc := True \<rparr> else t_heap t a) \<rparr>)"

definition Tree_reserve :: "nat \<Rightarrow> 'v rbtree \<Rightarrow> 'v rbtree" where
  "Tree_reserve c t = (if c > t_size t + unat (t_spare t) then allocateTmp (c - t_size t) t else t)"

text \<open>Saved nodes that were allocated one by one are released; those of a block only when the tree is empty.\<close>

definition releaseTmp :: "'v rbtree \<Rightarrow> 'v rbtree" where
  "releaseTmp t =
     (if t_size t \<noteq> 0
      then t\<lparr> t_tmp := filter (\<lambda>n. n_prealloc (t_heap t n)) (t_tmp t),
              t_spare := t_spare t - word_of_nat (length (filter (\<lambda>n. \<not> n_prealloc (t_heap t n)) (t_tmp t))) \<rparr>
      else t\<lparr> t_tmp := [], t_spare := t_spare t - word_of_nat (length (t_tmp t)) \<rparr>)"

subsection \<open>Where a key belongs\<close>

record insert_data =
  d_current :: addr
  d_parent :: addr
  d_isLeft :: bool

text \<open>With the position comes what the functions return: whether the search is over, or whether the key is new.\<close>

partial_function (option) position_search ::
  "('v \<Rightarrow> 'k :: linorder) \<Rightarrow> 'v heap \<Rightarrow> 'k \<Rightarrow> insert_data \<Rightarrow> (bool \<times> insert_data) option" where
  "position_search ext h k d =
     (if d_current d \<noteq> 0 then
        (if k < ext (n_value (h (d_current d)))
         then position_search ext h k (d\<lparr> d_parent := d_current d, d_isLeft := True, d_current := n_left (h (d_current d)) \<rparr>)
         else if \<not> ext (n_value (h (d_current d))) < k then Some (False, d\<lparr> d_parent := d_current d \<rparr>)
         else position_search ext h k (d\<lparr> d_parent := d_current d, d_isLeft := False, d_current := n_right (h (d_current d)) \<rparr>))
      else Some (True, d))"

definition position_tryRoot :: "'v rbtree \<Rightarrow> insert_data \<Rightarrow> bool \<times> insert_data" where
  "position_tryRoot t d = (if t_size t = 0 then (True, \<lparr> d_current = 0, d_parent = 0, d_isLeft = True \<rparr>) else (False, d))"

definition position_tryHint :: "('v \<Rightarrow> 'k :: linorder) \<Rightarrow> 'k \<Rightarrow> 'v rbtree \<Rightarrow> insert_data \<Rightarrow> (bool \<times> insert_data) option" where
  "position_tryHint ext k t d =
     (let h = t_heap t; c = d_current d in
      if c = 0 then Some (False, d)
      else if c = tree_left t \<or> c = header then Some (False, d\<lparr> d_current := 0 \<rparr>)
      else if k < ext (n_value (h c)) then
        Option.bind (decrement c h) (\<lambda>p.
          if ext (n_value (h p)) < k
          then map_option (\<lambda>x. (True, snd x)) (position_search ext h k \<lparr> d_current = n_left (h c), d_parent = c, d_isLeft = True \<rparr>)
          else Some (False, d\<lparr> d_current := 0 \<rparr>))
      else if ext (n_value (h c)) < k then
        Option.bind (increment c h) (\<lambda>p.
          if p = header then Some (True, \<lparr> d_current = n_right (h c), d_parent = c, d_isLeft = False \<rparr>)
          else if k < ext (n_value (h p))
          then map_option (\<lambda>x. (True, snd x)) (position_search ext h k \<lparr> d_current = n_right (h c), d_parent = c, d_isLeft = False \<rparr>)
          else Some (False, d\<lparr> d_current := 0 \<rparr>))
      else Some (True, d))"

definition position_tryLeft :: "('v \<Rightarrow> 'k :: linorder) \<Rightarrow> 'k \<Rightarrow> 'v rbtree \<Rightarrow> insert_data \<Rightarrow> bool \<times> insert_data" where
  "position_tryLeft ext k t d =
     (let l = tree_left t; key = ext (n_value (t_heap t l)) in
      if l \<noteq> 0 \<and> k < key then (True, \<lparr> d_current = 0, d_parent = l, d_isLeft = True \<rparr>)
      else if l \<noteq> 0 \<and> \<not> key < k then (True, d\<lparr> d_current := l \<rparr>)
      else (False, d))"

definition position_tryRight :: "('v \<Rightarrow> 'k :: linorder) \<Rightarrow> 'k \<Rightarrow> 'v rbtree \<Rightarrow> insert_data \<Rightarrow> bool \<times> insert_data" where
  "position_tryRight ext k t d =
     (let r = tree_right t; key = ext (n_value (t_heap t r)) in
      if r \<noteq> 0 \<and> key < k then (True, \<lparr> d_current = 0, d_parent = r, d_isLeft = False \<rparr>)
      else if r \<noteq> 0 \<and> \<not> k < key then (True, d\<lparr> d_current := r \<rparr>)
      else (False, d))"

definition position_scan :: "('v \<Rightarrow> 'k :: linorder) \<Rightarrow> 'k \<Rightarrow> 'v rbtree \<Rightarrow> insert_data \<Rightarrow> (bool \<times> insert_data) option" where
  "position_scan ext k t d =
     position_search ext (t_heap t) k (if d_current d = 0 then d\<lparr> d_current := tree_root t \<rparr> else d)"

text \<open>Whether the key is new, and where it belongs; if it is not, the current node has it.\<close>

definition getInsertPositionUnique ::
  "('v \<Rightarrow> 'k :: linorder) \<Rightarrow> 'k \<Rightarrow> 'v rbtree \<Rightarrow> insert_data \<Rightarrow> (bool \<times> insert_data) option" where
  "getInsertPositionUnique ext k t d =
     (let (done, d) = position_tryRoot t d in
      if done then Some (d_current d = 0, d)
      else Option.bind (position_tryHint ext k t d) (\<lambda>(done, d).
        if done then Some (d_current d = 0, d)
        else let (done, d) = position_tryLeft ext k t d in
          if done then Some (d_current d = 0, d)
          else let (done, d) = position_tryRight ext k t d in
            if done then Some (d_current d = 0, d) else position_scan ext k t d))"

subsection \<open>Insertion\<close>

definition insert_links :: "addr \<Rightarrow> addr \<Rightarrow> bool \<Rightarrow> 'v heap \<Rightarrow> 'v heap" where
  "insert_links n parent isLeft h =
     (let h = set_parent n parent h in
      if parent \<noteq> 0 then
        (if isLeft then set_left parent n (if parent = n_parent (h header) then setleft header n h else h)
         else set_right parent n (if parent = n_right (h header) then setright header n h else h))
      else set_parent n header (set_left header n (setright header n (setleft header n h))))"

definition makeInsert :: "addr \<Rightarrow> addr \<Rightarrow> bool \<Rightarrow> 'v rbtree \<Rightarrow> 'v rbtree option" where
  "makeInsert n parent isLeft t =
     map_option (\<lambda>h. t\<lparr> t_heap := h, t_size := t_size t + 1 \<rparr>) (rb_insert header n (insert_links n parent isLeft (t_heap t)))"

definition no_hint :: insert_data where
  "no_hint = \<lparr> d_current = 0, d_parent = 0, d_isLeft = False \<rparr>"

text \<open>
  \<^verbatim>\<open>emplace\<close> makes the node first and gives it back when the key is not new; \<^verbatim>\<open>try_emplace\<close> makes it only then. The
  hint is the node it stands at, null where there is none. With the tree come the node and whether it is new.
\<close>

definition insertNodeUniqueHint :: "('v \<Rightarrow> 'k :: linorder) \<Rightarrow> addr \<Rightarrow> 'v \<Rightarrow> 'v rbtree \<Rightarrow> ('v rbtree \<times> addr \<times> bool) option" where
  "insertNodeUniqueHint ext hint v t =
     (let (n, t) = constructNode v t in
      Option.bind (getInsertPositionUnique ext (ext v) t (no_hint\<lparr> d_current := hint \<rparr>)) (\<lambda>(new, d).
        if \<not> new then Some (destroyNode n t, d_current d, False)
        else map_option (\<lambda>t. (t, n, True)) (makeInsert n (d_parent d) (d_isLeft d) t)))"

definition insertNodeUnique :: "('v \<Rightarrow> 'k :: linorder) \<Rightarrow> 'v \<Rightarrow> 'v rbtree \<Rightarrow> ('v rbtree \<times> addr \<times> bool) option" where
  "insertNodeUnique ext v t = insertNodeUniqueHint ext 0 v t"

definition tryInsertNodeUniqueHint :: "('v \<Rightarrow> 'k :: linorder) \<Rightarrow> addr \<Rightarrow> 'v \<Rightarrow> 'v rbtree \<Rightarrow> ('v rbtree \<times> addr \<times> bool) option" where
  "tryInsertNodeUniqueHint ext hint v t =
     Option.bind (getInsertPositionUnique ext (ext v) t (no_hint\<lparr> d_current := hint \<rparr>)) (\<lambda>(new, d).
       if \<not> new then Some (t, d_current d, False)
       else let (n, t) = constructNode v t in map_option (\<lambda>t. (t, n, True)) (makeInsert n (d_parent d) (d_isLeft d) t))"

definition tryInsertNodeUnique :: "('v \<Rightarrow> 'k :: linorder) \<Rightarrow> 'v \<Rightarrow> 'v rbtree \<Rightarrow> ('v rbtree \<times> addr \<times> bool) option" where
  "tryInsertNodeUnique ext v t = tryInsertNodeUniqueHint ext 0 v t"

subsection \<open>Removal\<close>

definition deleteNode :: "addr \<Rightarrow> 'v rbtree \<Rightarrow> 'v rbtree option" where
  "deleteNode z t =
     (if z = 0 then Some t
      else map_option (\<lambda>h. let t = destroyNode z (t\<lparr> t_heap := h \<rparr>) in t\<lparr> t_size := t_size t - 1 \<rparr>) (delete_links header z (t_heap t)))"

partial_function (option) clear_visit :: "addr \<Rightarrow> 'v rbtree \<Rightarrow> 'v rbtree option" where
  "clear_visit a t =
     (let l = n_left (t_heap t a) in
      Option.bind (if l \<noteq> 0 then clear_visit l t else Some t) (\<lambda>t.
        let r = n_right (t_heap t a) in
        Option.bind (if r \<noteq> 0 then clear_visit r t else Some t) (\<lambda>t. Some (destroyNode a t))))"

definition Tree_clear :: "'v rbtree \<Rightarrow> 'v rbtree option" where
  "Tree_clear t =
     map_option (\<lambda>t. t\<lparr> t_heap := set_parent header 0 (set_right header 0 (set_left header 0 (t_heap t))), t_size := 0 \<rparr>)
       (if tree_root t \<noteq> 0 then clear_visit (tree_root t) t else Some t)"

subsection \<open>Look-up and iteration\<close>

partial_function (option) find_node_from :: "('v \<Rightarrow> 'k :: linorder) \<Rightarrow> 'v heap \<Rightarrow> 'k \<Rightarrow> addr \<Rightarrow> addr option" where
  "find_node_from ext h x current =
     (if current \<noteq> 0 then
        (if x < ext (n_value (h current)) then find_node_from ext h x (n_left (h current))
         else if \<not> ext (n_value (h current)) < x then Some current
         else find_node_from ext h x (n_right (h current)))
      else Some 0)"

definition find_impl :: "('v \<Rightarrow> 'k :: linorder) \<Rightarrow> 'k \<Rightarrow> 'v rbtree \<Rightarrow> addr option" where
  "find_impl ext x t = find_node_from ext (t_heap t) x (tree_root t)"

partial_function (option) lower_from :: "('v \<Rightarrow> 'k :: linorder) \<Rightarrow> 'v heap \<Rightarrow> 'k \<Rightarrow> addr \<Rightarrow> addr \<Rightarrow> addr option" where
  "lower_from ext h x current saved =
     (if current \<noteq> 0 then
        (if \<not> ext (n_value (h current)) < x then lower_from ext h x (n_left (h current)) current
         else lower_from ext h x (n_right (h current)) saved)
      else Some saved)"

partial_function (option) upper_from :: "('v \<Rightarrow> 'k :: linorder) \<Rightarrow> 'v heap \<Rightarrow> 'k \<Rightarrow> addr \<Rightarrow> addr \<Rightarrow> addr option" where
  "upper_from ext h x current saved =
     (if current \<noteq> 0 then
        (if x < ext (n_value (h current)) then upper_from ext h x (n_left (h current)) current
         else upper_from ext h x (n_right (h current)) saved)
      else Some saved)"

text \<open>\<^verbatim>\<open>lower_bound_ptr\<close> starts with no node saved, \<^verbatim>\<open>upper_bound_ptr\<close> with the root.\<close>

definition lower_bound_ptr :: "('v \<Rightarrow> 'k :: linorder) \<Rightarrow> 'k \<Rightarrow> 'v rbtree \<Rightarrow> addr option" where
  "lower_bound_ptr ext x t = lower_from ext (t_heap t) x (tree_root t) 0"

definition upper_bound_ptr :: "('v \<Rightarrow> 'k :: linorder) \<Rightarrow> 'k \<Rightarrow> 'v rbtree \<Rightarrow> addr option" where
  "upper_bound_ptr ext x t = upper_from ext (t_heap t) x (tree_root t) (tree_root t)"

text \<open>An iterator is the node it stands at; the end is the header.\<close>

definition or_end :: "addr \<Rightarrow> addr" where
  "or_end a = (if a \<noteq> 0 then a else header)"

definition Tree_begin :: "'v rbtree \<Rightarrow> addr" where
  "Tree_begin t = (if tree_root t \<noteq> 0 then tree_left t else header)"

definition Tree_find :: "('v \<Rightarrow> 'k :: linorder) \<Rightarrow> 'k \<Rightarrow> 'v rbtree \<Rightarrow> addr option" where
  "Tree_find ext x t = map_option or_end (find_impl ext x t)"

definition Tree_lower_bound :: "('v \<Rightarrow> 'k :: linorder) \<Rightarrow> 'k \<Rightarrow> 'v rbtree \<Rightarrow> addr option" where
  "Tree_lower_bound ext x t = map_option or_end (lower_bound_ptr ext x t)"

definition Tree_upper_bound :: "('v \<Rightarrow> 'k :: linorder) \<Rightarrow> 'k \<Rightarrow> 'v rbtree \<Rightarrow> addr option" where
  "Tree_upper_bound ext x t = map_option or_end (upper_bound_ptr ext x t)"

definition Tree_empty :: "'v rbtree \<Rightarrow> bool" where
  "Tree_empty t \<longleftrightarrow> tree_root t = 0"

definition Tree_capacity :: "'v rbtree \<Rightarrow> nat" where
  "Tree_capacity t = t_size t + unat (t_spare t)"

text \<open>The values a loop from \<^verbatim>\<open>begin()\<close> to \<^verbatim>\<open>end()\<close> visits.\<close>

partial_function (option) visited :: "'v heap \<Rightarrow> addr \<Rightarrow> 'v list option" where
  "visited h a =
     (if a = header then Some []
      else Option.bind (increment a h) (\<lambda>b. Option.bind (visited h b) (\<lambda>vs. Some (n_value (h a) # vs))))"

definition erase_unique :: "('v \<Rightarrow> 'k :: linorder) \<Rightarrow> 'k \<Rightarrow> 'v rbtree \<Rightarrow> ('v rbtree \<times> nat) option" where
  "erase_unique ext key t =
     Option.bind (find_impl ext key t) (\<lambda>node.
       if node \<noteq> 0 then map_option (\<lambda>t. (t, 1)) (deleteNode node t) else Some (t, 0))"

definition erase_pos :: "addr \<Rightarrow> 'v rbtree \<Rightarrow> ('v rbtree \<times> addr) option" where
  "erase_pos pos t =
     (if pos \<noteq> header
      then Option.bind (increment pos (t_heap t)) (\<lambda>next. map_option (\<lambda>t. (t, next)) (deleteNode pos t))
      else Some (t, pos))"

section \<open>What a tree stands for\<close>

abbreviation node_key :: "('v \<Rightarrow> 'k) \<Rightarrow> 'v heap \<Rightarrow> addr \<Rightarrow> 'k" where
  "node_key ext h a \<equiv> ext (n_value (h a))"

text \<open>
  The links of the header form the red-black tree of addresses \<open>s\<close>, its keys ascend, and the saved nodes are apart
  from it.
\<close>

definition tree_of :: "('v \<Rightarrow> 'k :: linorder) \<Rightarrow> 'v rbtree \<Rightarrow> addr tree \<Rightarrow> bool" where
  "tree_of ext t s \<longleftrightarrow> rep (t_heap t) header s \<and> rb_tree (t_heap t) s \<and> ends (t_heap t) header (inorder s)
     \<and> sorted_wrt (\<lambda>a b. node_key ext (t_heap t) a < node_key ext (t_heap t) b) (inorder s)
     \<and> t_size t = length (inorder s) \<and> distinct (t_tmp t)
     \<and> set (t_tmp t) \<inter> insert 0 (insert header (set_tree s)) = {}
     \<and> (\<forall>a\<in>insert header (set_tree s \<union> set (t_tmp t)). a < t_brk t)"

definition tree_wf :: "('v \<Rightarrow> 'k :: linorder) \<Rightarrow> 'v rbtree \<Rightarrow> bool" where
  "tree_wf ext t \<longleftrightarrow> (\<exists>s. tree_of ext t s)"

text \<open>The capacity counter is that of the saved nodes, at its width.\<close>

definition spare_counted :: "'v rbtree \<Rightarrow> bool" where
  "spare_counted t \<longleftrightarrow> t_spare t = word_of_nat (length (t_tmp t))"

text \<open>The values in the order of iteration.\<close>

definition tree_values :: "'v rbtree \<Rightarrow> 'v list" where
  "tree_values t = (case visited (t_heap t) (Tree_begin t) of Some vs \<Rightarrow> vs | None \<Rightarrow> [])"

lemma Tree_make_wf: "tree_of ext (Tree_make v) Leaf"
  by (simp add: tree_of_def Tree_make_def rep_def rb_tree_def ends_def header_def)

lemma increment_at:
  assumes rp: "rep h header s" and e: "ends h header (inorder s)" and ns: "inorder s = xs @ a # ys"
  shows "increment a h = Some (if ys = [] then header else hd ys)" "a \<noteq> header"
proof -
  obtain c l r where s: "s = plug c (Node l a r)" and sp: "inorder r @ behind c = ys"
    using node_at [of s xs a ys] rp ns by (auto simp: rep_def)
  have "n_right (h header) = last (inorder (plug c (Node l a r)))" using e by (auto simp: ends_def s inorder_plug)
  then show "increment a h = Some (if ys = [] then header else hd ys)"
    using increment_next [of h header c l a r] rp sp by (cases ys) (auto simp: s)
  show "a \<noteq> header" using rp by (auto simp: rep_def s set_plug)
qed

lemma visited_from:
  assumes rp: "rep h header s" and e: "ends h header (inorder s)" and ns: "inorder s = xs @ ys"
  shows "visited h (if ys = [] then header else hd ys) = Some (map (\<lambda>a. n_value (h a)) ys)"
  using ns
proof (induction ys arbitrary: xs)
  case Nil
  then show ?case by (simp add: visited.simps)
next
  case (Cons a ys)
  then show ?case using Cons.IH [of "xs @ [a]"] increment_at [OF rp e Cons.prems] by (subst visited.simps) simp
qed

text \<open>A loop over the container ends, and visits the values of the nodes in order.\<close>

lemma visited_all:
  assumes "tree_of ext t s"
  shows "visited (t_heap t) (Tree_begin t) = Some (map (\<lambda>a. n_value (t_heap t a)) (inorder s))"
    "tree_values t = map (\<lambda>a. n_value (t_heap t a)) (inorder s)"
proof -
  have rp: "rep (t_heap t) header s" and e: "ends (t_heap t) header (inorder s)" using assms by (auto simp: tree_of_def)
  have "Tree_begin t = (if inorder s = [] then header else hd (inorder s))"
    using rp e links_nonzero [of "t_heap t" header s] by (cases s) (auto simp: Tree_begin_def rep_def ends_def)
  then show "visited (t_heap t) (Tree_begin t) = Some (map (\<lambda>a. n_value (t_heap t a)) (inorder s))"
    using visited_from [OF rp e, of "[]"] by simp
  then show "tree_values t = map (\<lambda>a. n_value (t_heap t a)) (inorder s)" by (simp add: tree_values_def)
qed

section \<open>Searching\<close>

lemma find_node_from_tree:
  "links h par s \<Longrightarrow> sorted_wrt (\<lambda>a b. node_key ext h a < node_key ext h b) (inorder s) \<Longrightarrow>
   \<exists>a. find_node_from ext h x (root_of s) = Some a \<and> (if x \<in> node_key ext h ` set_tree s then a \<in> set_tree s \<and> node_key ext h a = x else a = 0)"
proof (induction s arbitrary: par)
  case Leaf
  then show ?case by (simp add: find_node_from.simps)
next
  case (Node l b r)
  let ?k = "node_key ext h"
  have s: "\<forall>a\<in>set_tree l. ?k a < ?k b" "\<forall>a\<in>set_tree r. ?k b < ?k a" "b \<noteq> 0" "links h b l" "links h b r"
    "sorted_wrt (\<lambda>a b. ?k a < ?k b) (inorder l)" "sorted_wrt (\<lambda>a b. ?k a < ?k b) (inorder r)"
    using Node.prems by (auto simp: sorted_wrt_append)
  consider "x < ?k b" | "x = ?k b" | "?k b < x" by force
  then show ?case
  proof cases
    case 1
    then have "x \<in> ?k ` set_tree (Node l b r) \<longleftrightarrow> x \<in> ?k ` set_tree l" using s(2) by auto
    moreover have "find_node_from ext h x (root_of (Node l b r)) = find_node_from ext h x (root_of l)"
      using 1 s(3) Node.prems(1) by (subst find_node_from.simps) simp
    ultimately show ?thesis using Node.IH(1) [OF s(4,6)] by (cases "x \<in> ?k ` set_tree l") (simp, blast, simp)
  next
    case 2
    then show ?thesis using s(3) by (subst find_node_from.simps) auto
  next
    case 3
    then have "x \<in> ?k ` set_tree (Node l b r) \<longleftrightarrow> x \<in> ?k ` set_tree r" using s(1) by auto
    moreover have "find_node_from ext h x (root_of (Node l b r)) = find_node_from ext h x (root_of r)"
      using 3 leD [OF less_imp_le [OF 3]] s(3) Node.prems(1) by (subst find_node_from.simps) simp
    ultimately show ?thesis using Node.IH(2) [OF s(5,7)] by (cases "x \<in> ?k ` set_tree r") (simp, blast, simp)
  qed
qed

text \<open>The search for a position: the node with the key, or the path to the place where it belongs.\<close>

fun path_parent :: "addr \<Rightarrow> step list \<Rightarrow> addr" where
  "path_parent p [] = p"
| "path_parent p (s # c) = step_node s"

fun path_isLeft :: "bool \<Rightarrow> step list \<Rightarrow> bool" where
  "path_isLeft b [] = b"
| "path_isLeft b (On_left a r # c) = True"
| "path_isLeft b (On_right l a # c) = False"

definition gap_at :: "('v \<Rightarrow> 'k :: linorder) \<Rightarrow> 'v heap \<Rightarrow> 'k \<Rightarrow> step list \<Rightarrow> bool" where
  "gap_at ext h k c \<longleftrightarrow> (\<forall>a\<in>set (before c). node_key ext h a < k) \<and> (\<forall>a\<in>set (behind c). k < node_key ext h a)"

lemma gap_append: "gap_at ext h k (d @ c) \<longleftrightarrow> gap_at ext h k c \<and> gap_at ext h k d"
  by (auto simp: gap_at_def path_append)

lemma path_parent_append: "path_parent p (d @ c) = path_parent (path_parent p c) d" "path_isLeft b (d @ c) = path_isLeft (path_isLeft b c) d"
proof -
  show "path_parent p (d @ c) = path_parent (path_parent p c) d" by (cases d) simp_all
  show "path_isLeft b (d @ c) = path_isLeft (path_isLeft b c) d" by (cases d rule: path_set.cases) simp_all
qed

definition found :: "('v \<Rightarrow> 'k :: linorder) \<Rightarrow> 'v heap \<Rightarrow> 'k \<Rightarrow> addr tree \<Rightarrow> bool \<times> insert_data \<Rightarrow> bool" where
  "found ext h k s x \<longleftrightarrow> \<not> fst x \<and> d_current (snd x) \<in> set_tree s \<and> node_key ext h (d_current (snd x)) = k"

definition placed_at :: "('v \<Rightarrow> 'k :: linorder) \<Rightarrow> 'v heap \<Rightarrow> 'k \<Rightarrow> addr tree \<Rightarrow> addr \<Rightarrow> bool \<Rightarrow> bool \<times> insert_data \<Rightarrow> bool" where
  "placed_at ext h k s p b x \<longleftrightarrow>
     (\<exists>c. plug c Leaf = s \<and> gap_at ext h k c \<and> x = (True, \<lparr> d_current = 0, d_parent = path_parent p c, d_isLeft = path_isLeft b c \<rparr>))"

lemma position_search_tree:
  "links h par s \<Longrightarrow> sorted_wrt (\<lambda>a b. node_key ext h a < node_key ext h b) (inorder s) \<Longrightarrow>
   \<exists>x. position_search ext h k \<lparr> d_current = root_of s, d_parent = p, d_isLeft = b \<rparr> = Some x
     \<and> (found ext h k s x \<or> placed_at ext h k s p b x)"
proof (induction s arbitrary: par p b)
  case Leaf
  have "placed_at ext h k Leaf p b (True, \<lparr> d_current = 0, d_parent = p, d_isLeft = b \<rparr>)"
    unfolding placed_at_def by (intro exI [of _ "[]"]) (simp add: gap_at_def)
  then show ?case by (subst position_search.simps) simp
next
  case (Node l a r)
  let ?k = "node_key ext h"
  have s: "\<forall>b\<in>set_tree l. ?k b < ?k a" "\<forall>b\<in>set_tree r. ?k a < ?k b" "a \<noteq> 0" "n_left (h a) = root_of l" "n_right (h a) = root_of r"
    "links h a l" "links h a r" "sorted_wrt (\<lambda>a b. ?k a < ?k b) (inorder l)" "sorted_wrt (\<lambda>a b. ?k a < ?k b) (inorder r)"
    using Node.prems by (auto simp: sorted_wrt_append)
  consider "k < ?k a" | "k = ?k a" | "?k a < k" by force
  then show ?case
  proof cases
    case 1
    obtain x where x: "position_search ext h k \<lparr> d_current = root_of l, d_parent = a, d_isLeft = True \<rparr> = Some x"
        "found ext h k l x \<or> placed_at ext h k l a True x"
      using Node.IH(1) [OF s(6,8)] by blast
    have "placed_at ext h k (Node l a r) p b x" if pl: "placed_at ext h k l a True x"
    proof -
      obtain c where c: "plug c Leaf = l" "gap_at ext h k c" "x = (True, \<lparr> d_current = 0, d_parent = path_parent a c, d_isLeft = path_isLeft True c \<rparr>)"
        using pl unfolding placed_at_def by blast
      have "gap_at ext h k [On_left a r]" using 1 s(2) by (auto simp: gap_at_def)
      then show ?thesis
        using c unfolding placed_at_def by (intro exI [of _ "c @ [On_left a r]"]) (simp add: path_append path_parent_append gap_append)
    qed
    then have "found ext h k (Node l a r) x \<or> placed_at ext h k (Node l a r) p b x" using x(2) by (auto simp: found_def)
    moreover have "position_search ext h k \<lparr> d_current = root_of (Node l a r), d_parent = p, d_isLeft = b \<rparr> = Some x"
      using 1 s x(1) by (subst position_search.simps) simp
    ultimately show ?thesis by blast
  next
    case 2
    have "position_search ext h k \<lparr> d_current = root_of (Node l a r), d_parent = p, d_isLeft = b \<rparr>
        = Some (False, \<lparr> d_current = a, d_parent = a, d_isLeft = b \<rparr>)"
      using 2 s(3) by (subst position_search.simps) simp
    then show ?thesis using 2 by (auto simp: found_def)
  next
    case 3
    obtain x where x: "position_search ext h k \<lparr> d_current = root_of r, d_parent = a, d_isLeft = False \<rparr> = Some x"
        "found ext h k r x \<or> placed_at ext h k r a False x"
      using Node.IH(2) [OF s(7,9)] by blast
    have "placed_at ext h k (Node l a r) p b x" if pl: "placed_at ext h k r a False x"
    proof -
      obtain c where c: "plug c Leaf = r" "gap_at ext h k c" "x = (True, \<lparr> d_current = 0, d_parent = path_parent a c, d_isLeft = path_isLeft False c \<rparr>)"
        using pl unfolding placed_at_def by blast
      have "gap_at ext h k [On_right l a]" using 3 s(1) by (auto simp: gap_at_def)
      then show ?thesis
        using c unfolding placed_at_def by (intro exI [of _ "c @ [On_right l a]"]) (simp add: path_append path_parent_append gap_append)
    qed
    then have "found ext h k (Node l a r) x \<or> placed_at ext h k (Node l a r) p b x" using x(2) by (auto simp: found_def)
    moreover have "position_search ext h k \<lparr> d_current = root_of (Node l a r), d_parent = p, d_isLeft = b \<rparr> = Some x"
      using 3 leD [OF less_imp_le [OF 3]] s x(1) by (subst position_search.simps) simp
    ultimately show ?thesis by blast
  qed
qed

text \<open>The result of the search for a position, with or without a hint.\<close>

definition position_ok :: "('v \<Rightarrow> 'k :: linorder) \<Rightarrow> 'v heap \<Rightarrow> 'k \<Rightarrow> addr tree \<Rightarrow> bool \<times> insert_data \<Rightarrow> bool" where
  "position_ok ext h k s x \<longleftrightarrow> found ext h k s x \<or> (\<exists>b. placed_at ext h k s 0 b x)"

lemma position_found: "a \<in> set_tree s \<Longrightarrow> node_key ext h a = k \<Longrightarrow> d_current d = a \<Longrightarrow> a \<noteq> 0 \<Longrightarrow> position_ok ext h k s (d_current d = 0, d)"
  by (simp add: position_ok_def found_def)

lemma position_placed:
  "plug (x # c) Leaf = s \<Longrightarrow> gap_at ext h k (x # c) \<Longrightarrow> b = path_isLeft False (x # c) \<Longrightarrow>
   position_ok ext h k s (True, \<lparr> d_current = 0, d_parent = step_node x, d_isLeft = b \<rparr>)"
  by (auto simp: position_ok_def placed_at_def)

text \<open>A search in the subtree next to the hint.\<close>

lemma position_beside:
  assumes s: "s = plug (x # c) u" and g: "gap_at ext h k (x # c)" and l: "links h par u" and z: "0 \<notin> set_tree s"
    and o: "sorted_wrt (\<lambda>a b. node_key ext h a < node_key ext h b) (inorder u)"
  shows "\<exists>y. map_option (\<lambda>x. (True, snd x)) (position_search ext h k
      \<lparr> d_current = root_of u, d_parent = step_node x, d_isLeft = path_isLeft False (x # c) \<rparr>) = Some (True, y)
    \<and> position_ok ext h k s (d_current y = 0, y)"
proof -
  obtain y where y: "position_search ext h k \<lparr> d_current = root_of u, d_parent = step_node x, d_isLeft = path_isLeft False (x # c) \<rparr> = Some y"
      "found ext h k u y \<or> placed_at ext h k u (step_node x) (path_isLeft False (x # c)) y"
    using position_search_tree [OF l o] by blast
  from y(2) have "position_ok ext h k s (d_current (snd y) = 0, snd y)"
  proof
    assume f: "found ext h k u y"
    then have "d_current (snd y) \<in> set_tree s" by (auto simp: found_def s set_plug)
    then show ?thesis using f z by (auto simp: position_ok_def found_def)
  next
    assume "placed_at ext h k u (step_node x) (path_isLeft False (x # c)) y"
    then obtain d where d: "plug d Leaf = u" "gap_at ext h k d"
        "y = (True, \<lparr> d_current = 0, d_parent = path_parent (step_node x) d, d_isLeft = path_isLeft (path_isLeft False (x # c)) d \<rparr>)"
      unfolding placed_at_def by blast
    have "placed_at ext h k s 0 False y"
      unfolding placed_at_def using d g
      by (intro exI [of _ "d @ x # c"]) (simp add: path_append(1) gap_append path_parent_append s)
    then show ?thesis using d(3) by (auto simp: position_ok_def)
  qed
  then show ?thesis using y(1) by simp
qed

lemma tree_of_node:
  assumes "tree_of ext t s" "a \<in> set_tree s"
  shows "\<exists>c l r. s = plug c (Node l a r) \<and> links (t_heap t) a l \<and> links (t_heap t) a r
    \<and> n_left (t_heap t a) = root_of l \<and> n_right (t_heap t a) = root_of r
    \<and> sorted_wrt (\<lambda>a b. node_key ext (t_heap t) a < node_key ext (t_heap t) b) ((before c @ inorder l) @ a # inorder r @ behind c)"
proof -
  obtain c l r where s: "s = plug c (Node l a r)" using tree_at [OF assms(2)] by blast
  have rp: "rep (t_heap t) header (plug c (Node l a r))"
    and o: "sorted_wrt (\<lambda>a b. node_key ext (t_heap t) a < node_key ext (t_heap t) b) (inorder (plug c (Node l a r)))"
    using assms(1) by (simp_all only: tree_of_def s)
  have "links (t_heap t) a l" "links (t_heap t) a r" "n_left (t_heap t a) = root_of l" "n_right (t_heap t a) = root_of r"
    using rp by (simp_all add: rep_plug)
  moreover have "sorted_wrt (\<lambda>a b. node_key ext (t_heap t) a < node_key ext (t_heap t) b) ((before c @ inorder l) @ a # inorder r @ behind c)"
    using o by (simp only: inorder_plug inorder.simps append.assoc append_Cons append_Nil)
  ultimately show ?thesis using s by blast
qed

lemma tryHint_result:
  assumes t: "tree_of ext t s" and c: "d_current d = 0 \<or> d_current d = header \<or> d_current d \<in> set_tree s"
  shows "\<exists>x. position_tryHint ext k t d = Some x
    \<and> (if fst x then position_ok ext (t_heap t) k s (d_current (snd x) = 0, snd x) else d_current (snd x) = 0)"
proof (cases "d_current d = 0 \<or> d_current d = header \<or> d_current d = tree_left t")
  case True
  show ?thesis
  proof (cases "d_current d = 0")
    case False
    then have "position_tryHint ext k t d = Some (False, d\<lparr> d_current := 0 \<rparr>)"
      using True by (auto simp only: position_tryHint_def Let_def simp_thms if_True if_False)
    then show ?thesis by simp
  qed (simp add: position_tryHint_def)
next
  case False
  let ?h = "t_heap t" and ?k = "node_key ext (t_heap t)"
  define a where "a = d_current d"
  have a: "a \<in> set_tree s" "a \<noteq> 0" "a \<noteq> header" "a \<noteq> tree_left t" using c False by (auto simp: a_def)
  have rp: "rep ?h header s" and e: "ends ?h header (inorder s)" using t by (auto simp: tree_of_def)
  obtain c l r where s: "s = plug c (Node l a r)" "links ?h a l" "links ?h a r" "n_left (?h a) = root_of l" "n_right (?h a) = root_of r"
      and o: "sorted_wrt (\<lambda>a b. ?k a < ?k b) ((before c @ inorder l) @ a # inorder r @ behind c)"
    using tree_of_node [OF t a(1)] by blast
  have z: "0 \<notin> set_tree s" using rp links_nonzero by (auto simp: rep_def)
  have ba: "\<And>b. b \<in> set (before c @ inorder l) \<Longrightarrow> ?k b < ?k a" and af: "\<And>b. b \<in> set (inorder r @ behind c) \<Longrightarrow> ?k a < ?k b"
    and sub: "sorted_wrt (\<lambda>a b. ?k a < ?k b) (inorder l)" "sorted_wrt (\<lambda>a b. ?k a < ?k b) (inorder r)"
    using o by (auto simp: sorted_wrt_append)
  consider "k < ?k a" | "?k a = k" | "?k a < k" by force
  then show ?thesis
  proof cases
    case 1
    have ne: "before c @ inorder l \<noteq> []"
      using e a(4) by (cases "before c @ inorder l") (auto simp: ends_def s inorder_plug)
    define p where "p = last (before c @ inorder l)"
    have dec: "decrement a ?h = Some p" using decrement_previous [OF rp [unfolded s(1)] ne] by (simp add: p_def)
    show ?thesis
    proof (cases "?k p < k")
      case True
      have le: "?k b \<le> ?k p" if "b \<in> set (before c @ inorder l)" for b
      proof (cases "b = p")
        case False
        obtain xs where xs: "before c @ inorder l = xs @ [p]" using ne unfolding p_def by (metis append_butlast_last_id)
        then show ?thesis using o that False unfolding xs by (auto simp: sorted_wrt_append less_imp_le)
      qed simp
      have "?k b < k" if "b \<in> set (before c)" for b
        by (rule le_less_trans [OF le True]) (use that in simp)
      then have g: "gap_at ext ?h k (On_left a r # c)"
        using 1 less_trans [OF 1 af] by (auto simp: gap_at_def)
      show ?thesis
        using position_beside [OF _ g s(2) z sub(1)] s(1,4) dec True False 1
        by (auto simp: position_tryHint_def Let_def a_def)
    next
      case f: False
      then show ?thesis using dec False 1 by (auto simp: position_tryHint_def Let_def a_def)
    qed
  next
    case 2
    then show ?thesis using False position_found [of a s ext ?h k d, OF a(1) 2 a_def [symmetric] a(2)] by (auto simp: position_tryHint_def Let_def a_def)
  next
    case 3
    then have n3: "\<not> k < ?k a" by simp
    have inc: "increment a ?h = Some (case inorder r @ behind c of [] \<Rightarrow> header | b # bs \<Rightarrow> b)"
      using increment_next [OF rp [unfolded s(1)]] e by (auto simp: ends_def s(1) inorder_plug)
    show ?thesis
    proof (cases "inorder r @ behind c")
      case Nil
      have g: "gap_at ext ?h k (On_right l a # c)" using 3 less_trans [OF ba 3] Nil by (auto simp: gap_at_def)
      have "position_ok ext ?h k s (True, \<lparr> d_current = 0, d_parent = a, d_isLeft = False \<rparr>)"
        using position_placed [OF _ g, where s = s and b = False] s(1) Nil by simp
      then show ?thesis using inc Nil False 3 n3 s(5) by (auto simp: position_tryHint_def Let_def a_def)
    next
      case (Cons b bs)
      have "b \<in> set (inorder r @ behind c)" unfolding Cons by simp
      then have "b \<in> set_tree s" by (auto simp: s(1) set_plug path_set_lists)
      then have b: "b \<noteq> header" using rp by (auto simp: rep_def)
      show ?thesis
      proof (cases "k < ?k b")
        case True
        have "k < ?k x" if "x \<in> set (inorder r @ behind c)" for x
          using that True o less_trans [OF True] unfolding Cons by (auto simp: sorted_wrt_append)
        then have g: "gap_at ext ?h k (On_right l a # c)" using 3 less_trans [OF ba 3] by (auto simp: gap_at_def)
        show ?thesis
          using position_beside [OF _ g s(3) z sub(2)] s(1,5) inc True False 3 n3 Cons b
          by (auto simp: position_tryHint_def Let_def a_def)
      next
        case f: False
        then show ?thesis using inc False 3 n3 Cons b by (auto simp: position_tryHint_def Let_def a_def)
      qed
    qed
  qed
qed

lemma undone_same:
  "\<not> fst (if c then (True, a) else if c' then (True, b) else (False, d)) \<Longrightarrow>
   snd (if c then (True, a) else if c' then (True, b) else (False, d)) = d"
  by (auto split: if_split_asm)

lemma position_try_same:
  "\<not> fst (position_tryLeft ext k t d) \<Longrightarrow> snd (position_tryLeft ext k t d) = d"
  "\<not> fst (position_tryRight ext k t d) \<Longrightarrow> snd (position_tryRight ext k t d) = d"
  unfolding position_tryLeft_def position_tryRight_def Let_def by (rule undone_same, assumption)+

lemma placed_at_tree: "placed_at ext h k s p b x \<Longrightarrow> s \<noteq> Leaf \<Longrightarrow> placed_at ext h k s 0 b x"
proof -
  assume "placed_at ext h k s p b x" and s: "s \<noteq> Leaf"
  then obtain c where c: "plug c Leaf = s" "gap_at ext h k c"
      "x = (True, \<lparr> d_current = 0, d_parent = path_parent p c, d_isLeft = path_isLeft b c \<rparr>)"
    unfolding placed_at_def by blast
  then have "path_parent p c = path_parent 0 c" using s by (cases c) auto
  then show ?thesis using c unfolding placed_at_def by (intro exI [of _ c]) simp
qed

lemma tree_of_order: "tree_of ext t s \<Longrightarrow> sorted_wrt (\<lambda>a b. node_key ext (t_heap t) a < node_key ext (t_heap t) b) (inorder s)"
  by (simp add: tree_of_def)

lemma position_result:
  assumes t: "tree_of ext t s" and c: "d_current d = 0 \<or> d_current d = header \<or> d_current d \<in> set_tree s"
  shows "\<exists>x. getInsertPositionUnique ext k t d = Some x \<and> position_ok ext (t_heap t) k s x"
proof (cases "s = Leaf")
  case True
  then have "t_size t = 0" using t by (simp add: tree_of_def)
  moreover have "position_ok ext (t_heap t) k s (True, \<lparr> d_current = 0, d_parent = 0, d_isLeft = True \<rparr>)"
    unfolding position_ok_def placed_at_def True by (intro disjI2 exI [of _ True] exI [of _ "[]"]) (simp add: gap_at_def)
  ultimately show ?thesis by (simp add: getInsertPositionUnique_def position_tryRoot_def)
next
  case False
  let ?h = "t_heap t" and ?k = "node_key ext (t_heap t)"
  have rp: "rep ?h header s" and e: "ends ?h header (inorder s)" using t by (auto simp: tree_of_def)
  have size: "t_size t \<noteq> 0" using t False by (cases s) (auto simp: tree_of_def)
  have z: "0 \<notin> set_tree s" using rp links_nonzero by (auto simp: rep_def)
  have ne: "inorder s \<noteq> []" using False by (cases s) auto
  obtain x1 where hint: "position_tryHint ext k t d = Some x1"
      "if fst x1 then position_ok ext ?h k s (d_current (snd x1) = 0, snd x1) else d_current (snd x1) = 0"
    using tryHint_result [OF t c] by blast
  define l where "l = hd (inorder s)"
  define r where "r = last (inorder s)"
  have lr: "tree_left t = l" "tree_right t = r" "l \<in> set_tree s" "r \<in> set_tree s"
    using e ne by (auto simp: ends_def l_def r_def simp flip: set_inorder)
  then have nz: "l \<noteq> 0" "r \<noteq> 0" using z by metis+
  have tl: "position_ok ext ?h k s (d_current (snd x) = 0, snd x)"
    if "x = position_tryLeft ext k t d'" "fst x" for x d'
  proof (cases "k < ?k l")
    case True
    obtain xs where xs: "inorder s = [] @ l # xs" using ne by (cases "inorder s") (auto simp: l_def)
    obtain c l' r' where s: "s = plug c (Node l' l r')" "before c @ inorder l' = []" "inorder r' @ behind c = xs"
      using node_at [OF _ xs] rp by (auto simp: rep_def)
    have "\<forall>b\<in>set xs. ?k l < ?k b" using tree_of_order [OF t] by (simp add: xs)
    then have "gap_at ext ?h k (On_left l r' # c)"
      using True s(2,3) less_trans [OF True] by (auto simp: gap_at_def)
    then have "position_ok ext ?h k s (True, \<lparr> d_current = 0, d_parent = l, d_isLeft = True \<rparr>)"
      using position_placed [of "On_left l r'" c s] s(1,2) by simp
    then show ?thesis using that True nz lr by (simp add: position_tryLeft_def)
  next
    case f: False
    show ?thesis
    proof (cases "?k l < k")
      case True
      then show ?thesis using that f nz lr by (simp add: position_tryLeft_def)
    next
      case False
      then have "?k l = k" using f by simp
      then show ?thesis using that f False nz lr by (simp add: position_tryLeft_def position_ok_def found_def)
    qed
  qed
  have tr: "position_ok ext ?h k s (d_current (snd x) = 0, snd x)"
    if "x = position_tryRight ext k t d'" "fst x" for x d'
  proof (cases "?k r < k")
    case True
    obtain xs where xs: "inorder s = xs @ r # []" using ne by (cases "inorder s" rule: rev_cases) (auto simp: r_def)
    obtain c l' r' where s: "s = plug c (Node l' r r')" "before c @ inorder l' = xs" "inorder r' @ behind c = []"
      using node_at [OF _ xs] rp by (auto simp: rep_def)
    have "\<And>b. b \<in> set xs \<Longrightarrow> ?k b < ?k r" using tree_of_order [OF t] by (simp add: xs sorted_wrt_append)
    then have "gap_at ext ?h k (On_right l' r # c)"
      using True s(2,3) less_trans [OF _ True] by (auto simp: gap_at_def)
    then have "position_ok ext ?h k s (True, \<lparr> d_current = 0, d_parent = r, d_isLeft = False \<rparr>)"
      using position_placed [where x = "On_right l' r" and c = c and s = s and b = False] s(1,3) by simp
    then show ?thesis using that True nz lr by (simp add: position_tryRight_def)
  next
    case f: False
    show ?thesis
    proof (cases "k < ?k r")
      case True
      then show ?thesis using that f nz lr by (simp add: position_tryRight_def)
    next
      case False
      then have "?k r = k" using f by simp
      then show ?thesis using that f False nz lr by (simp add: position_tryRight_def position_ok_def found_def)
    qed
  qed
  define x2 where "x2 = position_tryLeft ext k t (snd x1)"
  define x3 where "x3 = position_tryRight ext k t (snd x2)"
  have unroll: "getInsertPositionUnique ext k t d =
      (if fst x1 then Some (d_current (snd x1) = 0, snd x1) else if fst x2 then Some (d_current (snd x2) = 0, snd x2)
       else if fst x3 then Some (d_current (snd x3) = 0, snd x3) else position_scan ext k t (snd x3))"
    using size hint(1) by (simp add: getInsertPositionUnique_def position_tryRoot_def x2_def x3_def case_prod_unfold Let_def)
  show ?thesis
  proof (cases "fst x1 \<or> fst x2 \<or> fst x3")
    case True
    then show ?thesis using unroll hint(2) tl [OF x2_def] tr [OF x3_def] by (auto split: if_splits)
  next
    case f: False
    then have "snd x2 = snd x1" by (simp add: x2_def position_try_same)
    then have same: "snd x3 = snd x1" "d_current (snd x3) = 0" using f hint(2) by (simp_all add: x3_def position_try_same)
    have "position_scan ext k t (snd x3) =
        position_search ext ?h k \<lparr> d_current = root_of s, d_parent = d_parent (snd x3), d_isLeft = d_isLeft (snd x3) \<rparr>"
      using same(2) rep_root [OF rp] by (cases "snd x3") (simp add: position_scan_def)
    moreover have lk: "links ?h header s" using rp by (simp add: rep_def)
    moreover obtain y where y: "position_search ext ?h k
        \<lparr> d_current = root_of s, d_parent = d_parent (snd x3), d_isLeft = d_isLeft (snd x3) \<rparr> = Some y"
        "found ext ?h k s y \<or> placed_at ext ?h k s (d_parent (snd x3)) (d_isLeft (snd x3)) y"
      using position_search_tree [of ?h header s ext k "d_parent (snd x3)" "d_isLeft (snd x3)", OF lk tree_of_order [OF t]] by blast
    moreover have "position_ok ext ?h k s y"
      using y(2) placed_at_tree [of ext ?h k s "d_parent (snd x3)" "d_isLeft (snd x3)" y] False unfolding position_ok_def by blast
    ultimately show ?thesis using unroll f by simp
  qed
qed

section \<open>Insertion\<close>

lemma path_links_header [simp]:
  "head \<notin> path_set c \<Longrightarrow> path_links (set_parent head x h) head c y = path_links h head c y"
  "head \<notin> path_set c \<Longrightarrow> path_links (set_right head x h) head c y = path_links h head c y"
  by (induction c arbitrary: y rule: path_set.induct) auto

text \<open>The new node is linked where the search ended.\<close>

lemma insert_links_result:
  assumes rp: "rep h header (plug c Leaf)" and e: "ends h header (inorder (plug c Leaf))"
    and n: "n \<noteq> 0" "n \<noteq> header" "n \<notin> path_set c" "n_left (h n) = 0" "n_right (h n) = 0"
    and b: "c \<noteq> [] \<longrightarrow> b = path_isLeft False c"
  defines "h' \<equiv> insert_links n (path_parent 0 c) b h"
  shows "rep h' header (plug c (Node Leaf n Leaf))" "ends h' header (before c @ n # behind c)"
    "n_color (h' a) = n_color (h a)" "n_value (h' a) = n_value (h a)"
proof -
  note r = rp [unfolded rep_plug, simplified]
  have hd: "header \<noteq> 0" by (simp add: header_def)
  have "rep h' header (plug c (Node Leaf n Leaf)) \<and> ends h' header (before c @ n # behind c)"
  proof (cases c)
    case Nil
    then show ?thesis using r n hd by (simp add: h'_def insert_links_def rep_def ends_def setleft_def setright_def)
  next
    case (Cons s c')
    show ?thesis
    proof (cases s)
      case (On_left q w)
      have q: "q \<noteq> 0" "q \<noteq> header" "q \<noteq> n" "q \<notin> set_tree w" "q \<notin> path_set c'" using r n by (auto simp: Cons On_left path_set_lists)
      have f: "n_parent (h header) = q \<longleftrightarrow> before c' = []"
        using e r by (cases "before c'") (auto simp: ends_def Cons On_left inorder_plug)
      have h': "h' = set_left q n (if before c' = [] then set_parent header n (set_parent n q h) else set_parent n q h)"
        using q b n f by (auto simp: h'_def insert_links_def Cons On_left setleft_def Let_def)
      have "ends h' header (before c @ n # behind c)"
        using e q n hd unfolding h' ends_def by (cases "before c'") (auto simp: Cons On_left inorder_plug)
      moreover have "rep h' header (plug c (Node Leaf n Leaf))"
        using r q n hd unfolding h' rep_plug by (auto simp: Cons On_left)
      ultimately show ?thesis by blast
    next
      case (On_right w q)
      have q: "q \<noteq> 0" "q \<noteq> header" "q \<noteq> n" "q \<notin> set_tree w" "q \<notin> path_set c'" using r n by (auto simp: Cons On_right path_set_lists)
      have f: "n_right (h header) = q \<longleftrightarrow> behind c' = []"
        using e r by (cases "behind c'" rule: rev_cases) (auto simp: ends_def Cons On_right inorder_plug)
      have h': "h' = set_right q n (if behind c' = [] then set_right header n (set_parent n q h) else set_parent n q h)"
        using q b n f by (auto simp: h'_def insert_links_def Cons On_right setright_def Let_def)
      have "ends h' header (before c @ n # behind c)"
        using e q n hd unfolding h' ends_def by (cases "before c'") (auto simp: Cons On_right inorder_plug hd_append)
      moreover have "rep h' header (plug c (Node Leaf n Leaf))"
        using r q n hd unfolding h' rep_plug by (auto simp: Cons On_right)
      ultimately show ?thesis by blast
    qed
  qed
  then show "rep h' header (plug c (Node Leaf n Leaf))" "ends h' header (before c @ n # behind c)" by blast+
  show "n_color (h' a) = n_color (h a)" "n_value (h' a) = n_value (h a)"
    by (auto simp: h'_def insert_links_def Let_def setleft_def setright_def)
qed

text \<open>What a tree stands for depends on its own nodes and on the header only.\<close>

lemma tree_part_cong:
  assumes "\<forall>a\<in>insert header (set_tree s). h' a = h a"
  shows "rep h' header s = rep h header s" "rb_tree h' s = rb_tree h s" "ends h' header ns = ends h header ns"
    "map (\<lambda>a. n_value (h' a)) (inorder s) = map (\<lambda>a. n_value (h a)) (inorder s)"
    "sorted_wrt (\<lambda>a b. node_key ext h' a < node_key ext h' b) (inorder s) = sorted_wrt (\<lambda>a b. node_key ext h a < node_key ext h b) (inorder s)"
proof -
  show "rep h' header s = rep h header s" using links_cong [of s h' h] assms by (simp add: rep_def)
  show "rb_tree h' s = rb_tree h s" by (rule rb_cong) (simp add: assms)
  show "ends h' header ns = ends h header ns" by (simp add: ends_def assms)
  show "map (\<lambda>a. n_value (h' a)) (inorder s) = map (\<lambda>a. n_value (h a)) (inorder s)" by (simp add: assms)
  show "sorted_wrt (\<lambda>a b. node_key ext h' a < node_key ext h' b) (inorder s) = sorted_wrt (\<lambda>a b. node_key ext h a < node_key ext h b) (inorder s)"
    by (intro iffI; rule sorted_wrt_mono_rel [rotated], assumption; simp add: assms)
qed

text \<open>A node that is not in the tree, ready to be linked.\<close>

definition fresh_node :: "addr \<Rightarrow> 'v \<Rightarrow> 'v rbtree \<Rightarrow> addr tree \<Rightarrow> bool" where
  "fresh_node n v t s \<longleftrightarrow> n \<noteq> 0 \<and> n \<noteq> header \<and> n \<notin> set_tree s \<and> n \<notin> set (t_tmp t) \<and> n < t_brk t
     \<and> n_left (t_heap t n) = 0 \<and> n_right (t_heap t n) = 0 \<and> n_color (t_heap t n) = Red \<and> n_value (t_heap t n) = v"

lemma constructNode_result:
  assumes t: "tree_of ext t s" and c: "constructNode v t = (n, t')"
  shows "tree_of ext t' s" "fresh_node n v t' s" "tree_values t' = tree_values t" "tree_root t' = tree_root t"
    "\<forall>a\<in>insert header (set_tree s). t_heap t' a = t_heap t a"
proof -
  have rp: "rep (t_heap t) header s" using t by (simp add: tree_of_def)
  have brk: "header < t_brk t" "\<forall>a\<in>set_tree s. a < t_brk t" "t_brk t \<noteq> 0" using t by (auto simp: tree_of_def)
  have n: "n \<noteq> 0" "n \<noteq> header" "n \<notin> set_tree s"
    using c t brk by (auto simp: constructNode_def allocateNode_def Let_def tree_of_def split: list.splits)
  show same: "\<forall>a\<in>insert header (set_tree s). t_heap t' a = t_heap t a"
  proof
    fix a assume "a \<in> insert header (set_tree s)"
    then have "a \<noteq> n" "a \<noteq> t_brk t" using n brk by auto
    then show "t_heap t' a = t_heap t a" using c by (auto simp: constructNode_def allocateNode_def Let_def split: list.splits)
  qed
  show "fresh_node n v t' s"
    using c t n brk by (auto simp: fresh_node_def constructNode_def allocateNode_def Let_def tree_of_def split: list.splits)
  have "t_size t' = t_size t" "distinct (t_tmp t')"
      "set (t_tmp t') \<inter> insert 0 (insert header (set_tree s)) = {}" "\<forall>a\<in>insert header (set_tree s \<union> set (t_tmp t')). a < t_brk t'"
    using c t by (auto simp: constructNode_def allocateNode_def Let_def tree_of_def split: list.splits)
  then show t': "tree_of ext t' s"
    using t unfolding tree_of_def tree_part_cong [OF same] by (elim conjE, intro conjI) simp_all
  show "tree_values t' = tree_values t"
    using visited_all(2) [OF t] visited_all(2) [OF t'] tree_part_cong(4) [OF same] by simp
  show "tree_root t' = tree_root t" by (simp add: same)
qed

lemma makeInsert_result:
  assumes t: "tree_of ext t s" and f: "fresh_node n v t s" and c: "plug c Leaf = s" "gap_at ext (t_heap t) (ext v) c"
    and b: "c \<noteq> [] \<longrightarrow> b = path_isLeft False c"
  shows "\<exists>t' s'. makeInsert n (path_parent 0 c) b t = Some t' \<and> tree_of ext t' s' \<and> inorder s' = before c @ n # behind c
    \<and> (\<forall>a. n_value (t_heap t' a) = n_value (t_heap t a)) \<and> t_tmp t' = t_tmp t"
proof -
  let ?h = "insert_links n (path_parent 0 c) b (t_heap t)"
  have rp: "rep (t_heap t) header (plug c Leaf)" and e: "ends (t_heap t) header (inorder (plug c Leaf))"
    and rb: "rb_tree (t_heap t) (plug c Leaf)" using t c(1) by (simp_all only: tree_of_def)
  have n: "n \<noteq> 0" "n \<noteq> header" "n \<notin> path_set c" "n_left (t_heap t n) = 0" "n_right (t_heap t n) = 0" "n_color (t_heap t n) = Red"
    "n_value (t_heap t n) = v" using f c(1) by (auto simp: fresh_node_def set_plug)
  note links = insert_links_result [OF rp e n(1-5) b]
  have col: "path_invh ?h c k = path_invh (t_heap t) c k" "path_invc ?h c x = path_invc (t_heap t) c x" for k x
    by (rule path_colour_cong(1), rule links(3)) (rule path_colour_cong(2), rule links(3))
  have "red ?h (plug c (Node Leaf n Leaf)) = red (t_heap t) (plug c Leaf)" if "c \<noteq> []"
    using root_red [OF that, of ?h "Node Leaf n Leaf" Leaf] colour_cong(3) [of "plug c Leaf" ?h "t_heap t", OF links(3)] by simp
  then have "insert_inv ?h header c (Node Leaf n Leaf)"
    using links(1) rb n(6) links(3) by (auto simp: insert_inv_def rb_tree_def invh_plug invc_plug col)
  then obtain h' where h': "rb_insert header n ?h = Some h'" "rebalanced ?h header (before c @ n # behind c) h'"
    using rb_insert_rebalances [of ?h header c "Node Leaf n Leaf"] by (auto simp: inorder_plug)
  then obtain s' where s': "rep h' header s'" "rb_tree h' s'" "inorder s' = before c @ n # behind c"
      "\<And>a. n_value (h' a) = n_value (t_heap t a)" "ends h' header (inorder s')"
    using links(2,4) by (auto simp: rebalanced_def ends_def)
  define t' where "t' = t\<lparr> t_heap := h', t_size := t_size t + 1 \<rparr>"
  have set: "set_tree s' = insert n (set_tree s)" using s'(3) c(1) by (metis Un_insert_right inorder_plug inorder.simps(1) append_Nil list.set(2) set_append set_inorder)
  have "sorted_wrt (\<lambda>a b. node_key ext (t_heap t) a < node_key ext (t_heap t) b) (before c @ behind c)"
    using tree_of_order [OF t] c(1) by (auto simp: inorder_plug)
  then have "sorted_wrt (\<lambda>a b. node_key ext h' a < node_key ext h' b) (inorder s')"
    unfolding s'(3) using c(2) n(7) by (simp add: s'(4) sorted_wrt_append gap_at_def)
  moreover have "length (inorder s') = length (inorder s) + 1"
    unfolding s'(3) c(1) [symmetric] inorder_plug by (simp del: length_inorder)
  ultimately have "tree_of ext t' s'"
    using t f s'(1,2,5) unfolding tree_of_def t'_def set by (auto simp: fresh_node_def)
  moreover have "makeInsert n (path_parent 0 c) b t = Some t'" by (simp add: makeInsert_def h'(1) t'_def)
  ultimately show ?thesis using s'(3,4) by (auto simp: t'_def)
qed

end
