(* ===== verification/OrderedMap.thy ===== *)
theory OrderedMap
  imports RbMap
begin

text \<open>
  What the operations of \<^verbatim>\<open>rbtree::Tree\<close> (\<^verbatim>\<open>common/memory/SPMemRbtree.h\<close>) do to the values of the tree, and the map
  (\<^verbatim>\<open>SPMemMap.h\<close>) and the set (\<^verbatim>\<open>SPMemSet.h\<close>) on top of it.
\<close>

section \<open>Insertion and removal\<close>

lemma tree_of_rep: "tree_of ext t s \<Longrightarrow> rep (t_heap t) header s"
  by (simp add: tree_of_def)

lemma values_sorted: "tree_of ext t s \<Longrightarrow> sorted_wrt (<) (map ext (tree_values t))"
  by (simp add: visited_all(2) sorted_wrt_map tree_of_order)

text \<open>A value with a new key is in its place among the values; one with a key that is there changes nothing.\<close>

definition with_value :: "('v \<Rightarrow> 'k :: linorder) \<Rightarrow> 'v \<Rightarrow> 'v list \<Rightarrow> 'v list" where
  "with_value ext v vs =
     (if ext v \<in> ext ` set vs then vs else filter (\<lambda>w. ext w < ext v) vs @ v # filter (\<lambda>w. ext v < ext w) vs)"

lemma gap_values:
  assumes t: "tree_of ext t s" and c: "plug c Leaf = s" "gap_at ext (t_heap t) k c"
  shows "map (\<lambda>a. n_value (t_heap t a)) (before c) = filter (\<lambda>w. ext w < k) (tree_values t)"
    "map (\<lambda>a. n_value (t_heap t a)) (behind c) = filter (\<lambda>w. k < ext w) (tree_values t)"
    "k \<notin> ext ` set (tree_values t)"
proof -
  have v: "tree_values t = map (\<lambda>a. n_value (t_heap t a)) (before c) @ map (\<lambda>a. n_value (t_heap t a)) (behind c)"
    using visited_all(2) [OF t] by (simp add: c(1) [symmetric] inorder_plug)
  show "map (\<lambda>a. n_value (t_heap t a)) (before c) = filter (\<lambda>w. ext w < k) (tree_values t)"
    using c(2) unfolding v by (auto simp: gap_at_def filter_map o_def filter_empty_conv intro!: filter_True [symmetric] dest: less_asym)
  show "map (\<lambda>a. n_value (t_heap t a)) (behind c) = filter (\<lambda>w. k < ext w) (tree_values t)"
    using c(2) unfolding v by (auto simp: gap_at_def filter_map o_def filter_empty_conv intro!: filter_True [symmetric] dest: less_asym)
  show "k \<notin> ext ` set (tree_values t)" using c(2) unfolding v by (auto simp: gap_at_def)
qed

text \<open>A position that the search found, and what linking a node there gives.\<close>

lemma position_cases:
  assumes t: "tree_of ext t s" and x: "position_ok ext (t_heap t) k s x"
  obtains (found) d where "x = (False, d)" "d_current d \<in> set_tree s" "node_key ext (t_heap t) (d_current d) = k"
      "k \<in> ext ` set (tree_values t)"
  | (gap) c d where "x = (True, d)" "plug c Leaf = s" "gap_at ext (t_heap t) k c" "d_parent d = path_parent 0 c"
      "c \<noteq> [] \<longrightarrow> d_isLeft d = path_isLeft False c" "d_current d = 0"
proof (cases "found ext (t_heap t) k s x")
  case True
  then show thesis using that(1) [of "snd x"] visited_all(2) [OF t] by (cases x) (auto simp: found_def)
next
  case False
  then obtain b c where c: "plug c Leaf = s" "gap_at ext (t_heap t) k c"
      "x = (True, \<lparr> d_current = 0, d_parent = path_parent 0 c, d_isLeft = path_isLeft b c \<rparr>)"
    using x by (auto simp: position_ok_def placed_at_def)
  have "c \<noteq> [] \<longrightarrow> path_isLeft b c = path_isLeft False c" by (cases c rule: path_set.cases) simp_all
  then show thesis using that(2) [of _ c] c by simp
qed

text \<open>What an insertion leaves: a tree with the value, and the address of the node with its key.\<close>

definition inserted :: "('v \<Rightarrow> 'k :: linorder) \<Rightarrow> 'v \<Rightarrow> 'v rbtree \<Rightarrow> 'v rbtree \<times> addr \<times> bool \<Rightarrow> bool" where
  "inserted ext v t x \<longleftrightarrow> (case x of (t', a, new) \<Rightarrow> \<exists>s'. tree_of ext t' s' \<and> a \<in> set_tree s' \<and> node_key ext (t_heap t') a = ext v
     \<and> (new \<longrightarrow> n_value (t_heap t' a) = v) \<and> tree_values t' = with_value ext v (tree_values t)
     \<and> (new \<longleftrightarrow> ext v \<notin> ext ` set (tree_values t)))"

lemma makeInsert_inserted:
  assumes t: "tree_of ext t s" and f: "fresh_node n v t s" and c: "plug c Leaf = s" "gap_at ext (t_heap t) (ext v) c"
    and b: "c \<noteq> [] \<longrightarrow> b = path_isLeft False c"
  shows "\<exists>t'. makeInsert n (path_parent 0 c) b t = Some t' \<and> inserted ext v t (t', n, True)"
proof -
  obtain t' s' where t': "makeInsert n (path_parent 0 c) b t = Some t'" "tree_of ext t' s'" "inorder s' = before c @ n # behind c"
      "\<forall>a. n_value (t_heap t' a) = n_value (t_heap t a)"
    using makeInsert_result [OF t f c b] by blast
  have v: "n_value (t_heap t n) = v" using f by (simp add: fresh_node_def)
  have "tree_values t' = with_value ext v (tree_values t)"
    using gap_values [OF t c] v by (simp add: visited_all(2) [OF t'(2)] t'(3,4) with_value_def)
  moreover have "n \<in> set_tree s'" using t'(3) by (simp flip: set_inorder)
  ultimately show ?thesis
    using t' v gap_values(3) [OF t c] by (auto simp: inserted_def)
qed

abbreviation hint_ok :: "addr \<Rightarrow> addr tree \<Rightarrow> bool" where
  "hint_ok hint s \<equiv> hint = 0 \<or> hint = header \<or> hint \<in> set_tree s"

lemma position_hinted:
  "tree_of ext t s \<Longrightarrow> hint_ok hint s \<Longrightarrow>
   \<exists>x. getInsertPositionUnique ext k t (no_hint\<lparr> d_current := hint \<rparr>) = Some x \<and> position_ok ext (t_heap t) k s x"
  by (rule position_result) simp_all

lemma tryInsert_result:
  assumes t: "tree_of ext t s" and h: "hint_ok hint s"
  shows "\<exists>x. tryInsertNodeUniqueHint ext hint v t = Some x \<and> inserted ext v t x"
proof -
  obtain x where x: "getInsertPositionUnique ext (ext v) t (no_hint\<lparr> d_current := hint \<rparr>) = Some x"
      "position_ok ext (t_heap t) (ext v) s x"
    using position_hinted [OF t h] by blast
  from t x(2) show ?thesis
  proof (cases rule: position_cases)
    case (found d)
    then show ?thesis using x(1) t by (auto simp: tryInsertNodeUniqueHint_def inserted_def with_value_def)
  next
    case (gap c d)
    obtain n t1 where t1: "constructNode v t = (n, t1)" by (cases "constructNode v t")
    note r = constructNode_result [OF t t1]
    have "gap_at ext (t_heap t1) (ext v) c"
      using gap(3) r(5) by (auto simp: gap_at_def gap(2) [symmetric] set_plug path_set_lists)
    then obtain t' where "makeInsert n (path_parent 0 c) (d_isLeft d) t1 = Some t'" "inserted ext v t1 (t', n, True)"
      using makeInsert_inserted [OF r(1,2) gap(2) _ gap(5)] by blast
    then show ?thesis using x(1) gap t1 r(3) by (simp add: tryInsertNodeUniqueHint_def inserted_def)
  qed
qed

text \<open>The node that was made in vain is saved or released.\<close>

lemma destroyNode_result:
  assumes t: "tree_of ext t s" and n: "n \<noteq> 0" "n \<noteq> header" "n \<notin> set_tree s" "n \<notin> set (t_tmp t)" "n < t_brk t"
  shows "tree_of ext (destroyNode n t) s" "t_heap (destroyNode n t) = t_heap t"
    "tree_values (destroyNode n t) = tree_values t"
proof -
  show 1: "tree_of ext (destroyNode n t) s" using t n by (auto simp: tree_of_def destroyNode_def)
  show 2: "t_heap (destroyNode n t) = t_heap t" by (simp add: destroyNode_def)
  show "tree_values (destroyNode n t) = tree_values t" by (simp add: visited_all(2) [OF 1] visited_all(2) [OF t] 2)
qed

lemma insert_node_result:
  assumes t: "tree_of ext t s" and h: "hint_ok hint s"
  shows "\<exists>x. insertNodeUniqueHint ext hint v t = Some x \<and> inserted ext v t x"
proof -
  obtain n t1 where t1: "constructNode v t = (n, t1)" by (cases "constructNode v t")
  note r = constructNode_result [OF t t1]
  have n: "n \<noteq> 0" "n \<noteq> header" "n \<notin> set_tree s" "n \<notin> set (t_tmp t1)" "n < t_brk t1" using r(2) by (auto simp: fresh_node_def)
  obtain x where x: "getInsertPositionUnique ext (ext v) t1 (no_hint\<lparr> d_current := hint \<rparr>) = Some x"
      "position_ok ext (t_heap t1) (ext v) s x"
    using position_hinted [OF r(1) h] by blast
  from r(1) x(2) show ?thesis
  proof (cases rule: position_cases)
    case (found d)
    then show ?thesis
      using x(1) t1 r(3) destroyNode_result [OF r(1) n] by (auto simp: insertNodeUniqueHint_def inserted_def with_value_def)
  next
    case (gap c d)
    then show ?thesis
      using makeInsert_inserted [OF r(1,2) gap(2,3,5)] x(1) t1 r(3) by (auto simp: insertNodeUniqueHint_def inserted_def)
  qed
qed

lemma nodes_nonzero: "tree_of ext t s \<Longrightarrow> a \<in> set_tree s \<Longrightarrow> a \<noteq> 0"
  by (metis links_nonzero tree_of_rep rep_def)

lemma destroyNode_size: "t_size (destroyNode n t) = t_size t"
  by (simp add: destroyNode_def)

text \<open>A removal.\<close>

lemma deleteNode_result:
  assumes t: "tree_of ext t s" and a: "a \<in> set_tree s"
  shows "\<exists>t' s'. deleteNode a t = Some t' \<and> tree_of ext t' s'
    \<and> tree_values t' = filter (\<lambda>w. ext w \<noteq> node_key ext (t_heap t) a) (tree_values t)"
proof -
  let ?h = "t_heap t" and ?k = "node_key ext (t_heap t)"
  have rp: "rep ?h header s" "rb_tree ?h s" "ends ?h header (inorder s)" using t by (auto simp: tree_of_def)
  obtain xs ys where ns: "inorder s = xs @ a # ys" using a by (metis set_inorder split_list)
  obtain h' s' where h': "delete_links header a ?h = Some h'" "rep h' header s'" "rb_tree h' s'" "inorder s' = xs @ ys"
      "ends h' header (xs @ ys)" "\<And>b. n_value (h' b) = n_value (?h b)"
    using delete_links_result [OF rp ns] by blast
  define t1 where "t1 = t\<lparr> t_heap := h' \<rparr>"
  define t' where "t' = (destroyNode a t1)\<lparr> t_size := t_size t - 1 \<rparr>"
  have s': "set_tree s' = set xs \<union> set ys" using h'(4) by (metis set_append set_inorder)
  have s_a: "set_tree s = insert a (set xs \<union> set ys)" unfolding set_inorder [symmetric] ns by simp
  have d: "set_tree s = insert a (set_tree s')" "a \<notin> set_tree s'" "a \<noteq> header" "a \<noteq> 0" "a < t_brk t" "a \<notin> set (t_tmp t)"
    using s_a rp(1) t nodes_nonzero [OF t a] by (auto simp: s' rep_def tree_of_def ns)
  have o: "sorted_wrt (\<lambda>a b. ?k a < ?k b) (xs @ a # ys)" using tree_of_order [OF t] by (simp add: ns)
  have tm: "set (t_tmp t') \<subseteq> insert a (set (t_tmp t))" "distinct (t_tmp t')" "t_brk t' = t_brk t" "t_heap t' = h'" "t_size t' = t_size t - 1"
    using t d(6) by (auto simp: t'_def t1_def destroyNode_def tree_of_def)
  have t': "tree_of ext t' s'"
    unfolding tree_of_def tm
  proof (intro conjI)
    show "sorted_wrt (\<lambda>a b. node_key ext h' a < node_key ext h' b) (inorder s')"
      using o by (simp add: h'(4,6) sorted_wrt_append)
    show "t_size t - 1 = length (inorder s')" using t unfolding h'(4) by (simp add: tree_of_def ns del: length_inorder)
    show "set (t_tmp t') \<inter> insert 0 (insert header (set_tree s')) = {}" "\<forall>b\<in>insert header (set_tree s' \<union> set (t_tmp t')). b < t_brk t"
      using t d tm(1) by (auto simp: tree_of_def)
  qed (use h' tm in auto)
  have "\<forall>b\<in>set xs \<union> set ys. ?k b \<noteq> ?k a" using o by (auto simp: sorted_wrt_append)
  then have "tree_values t' = filter (\<lambda>w. ext w \<noteq> ?k a) (tree_values t)"
    by (simp add: visited_all(2) [OF t'] visited_all(2) [OF t] tm(4) h'(4,6) ns filter_map o_def)
  moreover have "deleteNode a t = Some t'"
    using h'(1) d(4) by (simp add: deleteNode_def Let_def t'_def t1_def destroyNode_size)
  ultimately show ?thesis using t' by blast
qed

lemma find_impl_result:
  assumes t: "tree_of ext t s"
  shows "\<exists>a. find_impl ext x t = Some a
    \<and> (if x \<in> ext ` set (tree_values t) then a \<in> set_tree s \<and> node_key ext (t_heap t) a = x else a = 0)"
proof -
  have "ext ` set (tree_values t) = node_key ext (t_heap t) ` set_tree s" by (simp add: visited_all(2) [OF t] image_image)
  moreover have "find_impl ext x t = find_node_from ext (t_heap t) x (root_of s)"
    using tree_of_rep [OF t] by (simp add: find_impl_def rep_def)
  ultimately show ?thesis using find_node_from_tree [of "t_heap t" header s ext x] tree_of_rep [OF t] tree_of_order [OF t] by (simp add: rep_def)
qed

text \<open>Without a value that is not there nothing changes.\<close>

lemma erase_key_result:
  assumes t: "tree_of ext t s"
  shows "\<exists>t' s'. erase_unique ext k t = Some (t', if k \<in> ext ` set (tree_values t) then 1 else 0) \<and> tree_of ext t' s'
    \<and> tree_values t' = filter (\<lambda>w. ext w \<noteq> k) (tree_values t)"
proof -
  obtain a where a: "find_impl ext k t = Some a"
      "if k \<in> ext ` set (tree_values t) then a \<in> set_tree s \<and> node_key ext (t_heap t) a = k else a = 0"
    using find_impl_result [OF t] by blast
  show ?thesis
  proof (cases "k \<in> ext ` set (tree_values t)")
    case True
    then have "a \<noteq> 0" using a(2) nodes_nonzero [OF t] by metis
    then show ?thesis using True a deleteNode_result [OF t, of a] by (auto simp: erase_unique_def)
  next
    case False
    then have "filter (\<lambda>w. ext w \<noteq> k) (tree_values t) = tree_values t" by (auto simp: filter_id_conv)
    then show ?thesis using False a t by (auto simp: erase_unique_def)
  qed
qed

text \<open>Erasing at an iterator gives the iterator to the next value.\<close>

lemma erase_pos_result:
  assumes t: "tree_of ext t s" and ns: "inorder s = xs @ a # ys"
  shows "\<exists>t' s'. erase_pos a t = Some (t', if ys = [] then header else hd ys) \<and> tree_of ext t' s'
    \<and> tree_values t' = filter (\<lambda>w. ext w \<noteq> node_key ext (t_heap t) a) (tree_values t)"
proof -
  have "a \<in> set_tree s" unfolding set_inorder [symmetric] ns by simp
  then obtain t' s' where "deleteNode a t = Some t'" "tree_of ext t' s'"
      "tree_values t' = filter (\<lambda>w. ext w \<noteq> node_key ext (t_heap t) a) (tree_values t)"
    using deleteNode_result [OF t] by blast
  moreover have "ends (t_heap t) header (inorder s)" using t by (simp add: tree_of_def)
  ultimately show ?thesis using increment_at [OF tree_of_rep [OF t] _ ns] by (auto simp: erase_pos_def)
qed

section \<open>Bounds\<close>

text \<open>Both searches for a bound give the first node of the part of the tree where the test holds, or what was saved before.\<close>

lemma bound_search:
  assumes f: "\<And>current saved. f current saved =
      (if current \<noteq> 0 then (if P current then f (n_left (h current)) current else f (n_right (h current)) saved) else Some saved)"
    and P: "\<And>a b. R a b \<Longrightarrow> P a \<Longrightarrow> P b"
  shows "links h par s \<Longrightarrow> sorted_wrt R (inorder s) \<Longrightarrow>
    f (root_of s) saved = Some (case filter P (inorder s) of [] \<Rightarrow> saved | a # as \<Rightarrow> a)"
proof (induction s arbitrary: par saved)
  case Leaf
  then show ?case by (subst f) simp
next
  case (Node l b r)
  have s: "links h b l" "links h b r" "b \<noteq> 0" "n_left (h b) = root_of l" "n_right (h b) = root_of r"
      "sorted_wrt R (inorder l)" "sorted_wrt R (inorder r)" "\<forall>a\<in>set_tree l. R a b"
    using Node.prems by (simp_all add: sorted_wrt_append)
  show ?case
  proof (cases "P b")
    case True
    then have "f (root_of (Node l b r)) saved = f (root_of l) b" using s by (subst f) simp
    then show ?thesis using Node.IH(1) [OF s(1,6)] True by (simp split: list.splits)
  next
    case False
    then have "filter P (inorder l) = []" using s(8) P by (auto simp: filter_empty_conv)
    moreover have "f (root_of (Node l b r)) saved = f (root_of r) saved" using False s by (subst f) simp
    ultimately show ?thesis using Node.IH(2) [OF s(2,7)] False by simp
  qed
qed

text \<open>The iterator to the first value that satisfies a test.\<close>

definition first_node :: "('v \<Rightarrow> bool) \<Rightarrow> 'v rbtree \<Rightarrow> addr tree \<Rightarrow> addr \<Rightarrow> addr" where
  "first_node P t s other = (case filter (\<lambda>a. P (n_value (t_heap t a))) (inorder s) of [] \<Rightarrow> other | a # as \<Rightarrow> a)"

lemma first_node_value:
  assumes t: "tree_of ext t s"
  shows "case filter P (tree_values t) of [] \<Rightarrow> first_node P t s other = other
    | v # vs \<Rightarrow> first_node P t s other \<in> set_tree s \<and> n_value (t_heap t (first_node P t s other)) = v"
proof (cases "filter (\<lambda>a. P (n_value (t_heap t a))) (inorder s)")
  case (Cons a as)
  then have "a \<in> set_tree s" by (metis filter_is_subset list.set_intros(1) set_inorder subsetD)
  then show ?thesis using Cons by (simp add: visited_all(2) [OF t] filter_map o_def first_node_def)
qed (simp add: visited_all(2) [OF t] filter_map o_def first_node_def)

lemma bounds_result:
  assumes t: "tree_of ext t s"
  shows "lower_bound_ptr ext x t = Some (first_node (\<lambda>v. \<not> ext v < x) t s 0)"
    "upper_bound_ptr ext x t = Some (first_node (\<lambda>v. x < ext v) t s (tree_root t))"
proof -
  have rp: "links (t_heap t) header s" "tree_root t = root_of s" using tree_of_rep [OF t] by (auto simp: rep_def)
  show "lower_bound_ptr ext x t = Some (first_node (\<lambda>v. \<not> ext v < x) t s 0)"
    unfolding lower_bound_ptr_def first_node_def rp(2) by (rule bound_search [OF lower_from.simps _ rp(1) tree_of_order [OF t]]) (rule contrapos_nn, assumption, rule less_trans)
  show "upper_bound_ptr ext x t = Some (first_node (\<lambda>v. x < ext v) t s (tree_root t))"
    unfolding upper_bound_ptr_def first_node_def rp(2) by (rule bound_search [OF upper_from.simps _ rp(1) tree_of_order [OF t]]) (rule less_trans)
qed

section \<open>Reserved nodes and clearing\<close>

lemma filter_out: "filter P xs = [] \<or> (\<exists>x\<in>set xs. P x)"
  by (induction xs) auto

text \<open>Clearing destroys every node of the tree once.\<close>

definition gives_back :: "addr set \<Rightarrow> 'v rbtree \<Rightarrow> 'v rbtree \<Rightarrow> bool" where
  "gives_back ns t t' \<longleftrightarrow> (\<exists>as. set as \<subseteq> ns \<and> distinct as
     \<and> t' = t\<lparr> t_tmp := as @ t_tmp t, t_spare := t_spare t + word_of_nat (length as) \<rparr>)"

lemma gives_back_trans: "gives_back ns t t' \<Longrightarrow> gives_back ms t' t'' \<Longrightarrow> ns \<inter> ms = {} \<Longrightarrow> gives_back (ms \<union> ns) t t''"
proof -
  assume "gives_back ns t t'" "gives_back ms t' t''" and d: "ns \<inter> ms = {}"
  then obtain as bs where "set as \<subseteq> ns" "distinct as" "set bs \<subseteq> ms" "distinct bs"
      "t' = t\<lparr> t_tmp := as @ t_tmp t, t_spare := t_spare t + word_of_nat (length as) \<rparr>"
      "t'' = t'\<lparr> t_tmp := bs @ t_tmp t', t_spare := t_spare t' + word_of_nat (length bs) \<rparr>"
    unfolding gives_back_def by blast
  then show ?thesis using d unfolding gives_back_def by (intro exI [of _ "bs @ as"]) auto
qed

lemma gives_back_none: "gives_back {} t t"
  unfolding gives_back_def by (intro exI [of _ "[]"]) simp

lemma destroyNode_gives: "gives_back {n} t (destroyNode n t)"
proof (cases "t_tmp t = [] \<or> n_prealloc (t_heap t n) \<or> t_persistent t")
  case True
  then show ?thesis unfolding gives_back_def destroyNode_def by (intro exI [of _ "[n]"]) auto
next
  case False
  then show ?thesis unfolding gives_back_def destroyNode_def by (intro exI [of _ "[]"]) simp
qed

lemma gives_back_heap: "gives_back ns t t' \<Longrightarrow> t_heap t' = t_heap t"
  by (auto simp: gives_back_def)

lemma clear_visit_result:
  fixes t :: "'v rbtree"
  shows "links (t_heap t) par s \<Longrightarrow> distinct (inorder s) \<Longrightarrow> s \<noteq> Leaf \<Longrightarrow>
   \<exists>t'. clear_visit (root_of s) t = Some t' \<and> gives_back (set_tree s) t t'"
proof (induction s arbitrary: par t)
  case (Node l a r)
  have s: "links (t_heap t) a l" "links (t_heap t) a r" "n_left (t_heap t a) = root_of l" "n_right (t_heap t a) = root_of r"
      "distinct (inorder l)" "distinct (inorder r)" "a \<notin> set_tree l" "a \<notin> set_tree r" "set_tree l \<inter> set_tree r = {}" "0 \<notin> set_tree l" "0 \<notin> set_tree r"
    using Node.prems links_nonzero [of "t_heap t" a] by auto
  obtain t1 where t1: "(if root_of l \<noteq> 0 then clear_visit (root_of l) t else Some t) = Some t1" "gives_back (set_tree l) t t1"
    using Node.IH(1) [OF s(1,5)] s(10) gives_back_none by (cases l) auto
  note h1 = gives_back_heap [OF t1(2)]
  obtain t2 where t2: "(if root_of r \<noteq> 0 then clear_visit (root_of r) t1 else Some t1) = Some t2" "gives_back (set_tree r) t1 t2"
    using Node.IH(2) [of t1, unfolded h1, OF s(2,6)] s(11) gives_back_none by (cases r) auto
  have "gives_back (set_tree r \<union> set_tree l) t t2" using gives_back_trans [OF t1(2) t2(2)] s(9) by simp
  then have "gives_back ({a} \<union> (set_tree r \<union> set_tree l)) t (destroyNode a t2)"
    using s(7,8) by (intro gives_back_trans [OF _ destroyNode_gives]) auto
  moreover have "clear_visit (root_of (Node l a r)) t = Some (destroyNode a t2)"
    using t1(1) t2(1) s(3,4) h1 by (subst clear_visit.simps) simp
  ultimately show ?case by (auto simp: Un_commute)
qed simp

lemma clear_result:
  assumes t: "tree_of ext t s"
  shows "\<exists>t'. Tree_clear t = Some t' \<and> tree_of ext t' Leaf \<and> (spare_counted t \<longrightarrow> spare_counted t')"
proof -
  have rp: "links (t_heap t) header s" "distinct (inorder s)" "tree_root t = root_of s" using tree_of_rep [OF t] by (auto simp: rep_def)
  obtain t1 where t1: "(if tree_root t \<noteq> 0 then clear_visit (tree_root t) t else Some t) = Some t1" "gives_back (set_tree s) t t1"
    using clear_visit_result [OF rp(1,2)] nodes_nonzero [OF t] gives_back_none rp(3) by (cases s) auto
  define t' where "t' = t1\<lparr> t_heap := set_parent header 0 (set_right header 0 (set_left header 0 (t_heap t1))), t_size := 0 \<rparr>"
  obtain as where as: "set as \<subseteq> set_tree s" "distinct as" "t_tmp t1 = as @ t_tmp t" "t_brk t1 = t_brk t"
    using t1(2) by (auto simp: gives_back_def)
  have "0 \<notin> set as" "header \<notin> set as" "set as \<inter> set (t_tmp t) = {}" "\<forall>a\<in>set as. a < t_brk t"
    using as(1) t nodes_nonzero [OF t] unfolding tree_of_def rep_def by blast+
  then have "tree_of ext t' Leaf"
    using t as by (auto simp: tree_of_def t'_def rep_def rb_tree_def ends_def)
  moreover have "spare_counted t \<longrightarrow> spare_counted t'" using t1(2) by (auto simp: spare_counted_def t'_def gives_back_def)
  moreover have "Tree_clear t = Some t'" using t1(1) by (simp add: Tree_clear_def t'_def)
  ultimately show ?thesis by blast
qed

lemma clear_values: "tree_of ext t Leaf \<Longrightarrow> tree_values t = []"
  by (simp add: visited_all(2))

text \<open>Reserving adds saved nodes only.\<close>

lemma allocateTmp_result:
  assumes t: "tree_of ext t s"
  shows "tree_of ext (allocateTmp n t) s" "length (t_tmp (allocateTmp n t)) = n + length (t_tmp t)"
    "spare_counted t \<Longrightarrow> spare_counted (allocateTmp n t)" "tree_values (allocateTmp n t) = tree_values t"
    "t_size (allocateTmp n t) = t_size t"
proof -
  let ?ns = "map (\<lambda>i. t_brk t + i) [0..<n]"
  have brk: "\<forall>a\<in>insert header (set_tree s \<union> set (t_tmp t)). a < t_brk t" using t by (simp add: tree_of_def)
  have off: "a \<notin> set ?ns" if "a \<in> insert header (set_tree s \<union> set (t_tmp t))" for a
    using bspec [OF brk that] by auto
  have same: "\<forall>a\<in>insert header (set_tree s). t_heap (allocateTmp n t) a = t_heap t a"
    using off by (simp add: allocateTmp_def Let_def del: set_map)
  have "t_size (allocateTmp n t) = t_size t" "t_tmp (allocateTmp n t) = ?ns @ t_tmp t" "t_brk (allocateTmp n t) = t_brk t + n"
    by (simp_all add: allocateTmp_def Let_def)
  moreover have "set ?ns \<inter> set (t_tmp t) = {}" "set ?ns \<inter> insert header (set_tree s) = {}"
    using off by blast+
  moreover have "0 \<notin> set ?ns" "distinct ?ns" "\<forall>a\<in>set ?ns. a < t_brk t + n"
    using brk by (simp_all add: distinct_map inj_on_def)
  moreover have "\<forall>a\<in>insert header (set_tree s \<union> set (t_tmp t)). a < t_brk t + n"
    using brk trans_less_add1 by blast
  ultimately show t': "tree_of ext (allocateTmp n t) s"
    using t unfolding tree_of_def tree_part_cong [OF same]
    by (elim conjE, intro conjI) (simp_all add: Int_Un_distrib2 ball_Un del: set_map, blast?)
  show "length (t_tmp (allocateTmp n t)) = n + length (t_tmp t)" "t_size (allocateTmp n t) = t_size t"
    by (simp_all add: allocateTmp_def Let_def)
  show "spare_counted (allocateTmp n t)" if "spare_counted t"
    using that by (simp add: allocateTmp_def spare_counted_def Let_def)
  show "tree_values (allocateTmp n t) = tree_values t"
    using visited_all(2) [OF t] visited_all(2) [OF t'] tree_part_cong(4) [OF same] by simp
qed

lemma unat_counter: "unat (word_of_nat n :: 32 word) \<le> n"
  by (simp add: unat_of_nat)

lemma reserve_result:
  assumes t: "tree_of ext t s"
  shows "tree_of ext (Tree_reserve c t) s" "tree_values (Tree_reserve c t) = tree_values t"
    "spare_counted t \<Longrightarrow> spare_counted (Tree_reserve c t)" "t_size (Tree_reserve c t) = t_size t"
    "spare_counted t \<Longrightarrow> c \<le> t_size t + length (t_tmp (Tree_reserve c t))"
proof -
  note r = allocateTmp_result [OF t]
  show "tree_of ext (Tree_reserve c t) s" "tree_values (Tree_reserve c t) = tree_values t" "t_size (Tree_reserve c t) = t_size t"
    using t r by (simp_all add: Tree_reserve_def)
  show "spare_counted (Tree_reserve c t)" if "spare_counted t" using that r(3) by (simp add: Tree_reserve_def)
  show "c \<le> t_size t + length (t_tmp (Tree_reserve c t))" if "spare_counted t"
    using that unat_counter [of "length (t_tmp t)"] r(2) by (simp add: Tree_reserve_def spare_counted_def)
qed

text \<open>An insertion takes a saved node as long as there is one.\<close>

lemma tryInsert_memory:
  assumes "tryInsertNodeUniqueHint ext hint v t = Some (t', a, new)"
  shows "spare_counted t \<Longrightarrow> spare_counted t'" "t_size t' = t_size t + (if new then 1 else 0)"
    "t_tmp t' = (if new then tl (t_tmp t) else t_tmp t)" "t_tmp t \<noteq> [] \<or> \<not> new \<Longrightarrow> t_brk t' = t_brk t"
  using assms
  by (auto simp: tryInsertNodeUniqueHint_def constructNode_def allocateNode_def makeInsert_def spare_counted_def Let_def
      bind_eq_Some_conv split: prod.splits if_splits list.splits)

section \<open>The height\<close>

lemma black_height:
  "invh h s \<Longrightarrow> 2 ^ bh h s \<le> size1 s"
proof (induction s)
  case (Node l a r)
  then have "2 ^ bh h l + 2 ^ bh h l \<le> size1 l + size1 r" by (metis add_mono invh.simps(2))
  then show ?case by (auto simp: mult_2 power_add)
qed simp

lemma red_height:
  "invh h s \<Longrightarrow> invc h s \<Longrightarrow> height s \<le> 2 * bh h s + (if red h s then 1 else 0)"
proof (induction s)
  case (Node l a r)
  then have "height l \<le> 2 * bh h l + (if red h l then 1 else 0)" "height r \<le> 2 * bh h l + (if red h r then 1 else 0)" by auto
  then show ?case using Node.prems by (cases "n_color (h a)") (auto split: if_splits)
qed simp

lemma tree_height:
  assumes "tree_of ext t s"
  shows "2 ^ (height s div 2) \<le> t_size t + 1"
proof -
  have rb: "invh (t_heap t) s" "invc (t_heap t) s" "\<not> red (t_heap t) s" "t_size t = size s"
    using assms by (auto simp: tree_of_def rb_tree_def)
  then have "height s div 2 \<le> bh (t_heap t) s" using red_height [of "t_heap t" s] by simp
  then have "(2 :: nat) ^ (height s div 2) \<le> 2 ^ bh (t_heap t) s" by (intro power_increasing) simp_all
  also have "\<dots> \<le> t_size t + 1" using black_height [OF rb(1)] rb(4) by (simp add: size1_size)
  finally show ?thesis .
qed

section \<open>The validator\<close>

datatype Validation = Valid | RootIsNotBlack | RedChildIntoRedNode | DifferentBlackNodeCount

partial_function (option) count_black :: "'v heap \<Rightarrow> addr \<Rightarrow> nat \<Rightarrow> nat option" where
  "count_black h root counter =
     (if root \<noteq> 0 then count_black h (n_left (h root)) (if n_color (h root) = Black then counter + 1 else counter) else Some counter)"

partial_function (option) validate_node :: "'v heap \<Rightarrow> nat \<Rightarrow> addr \<Rightarrow> nat \<Rightarrow> Validation option" where
  "validate_node h counter a path =
     (if a = 0 then Some (if counter \<noteq> path then DifferentBlackNodeCount else Valid)
      else if n_color (h a) = Black then
        Option.bind (validate_node h counter (n_left (h a)) (path + 1)) (\<lambda>res.
          if res = Valid then validate_node h counter (n_right (h a)) (path + 1) else Some res)
      else if (n_left (h a) \<noteq> 0 \<and> n_color (h (n_left (h a))) = Red) \<or> (n_right (h a) \<noteq> 0 \<and> n_color (h (n_right (h a))) = Red)
        then Some RedChildIntoRedNode
      else
        Option.bind (validate_node h counter (n_left (h a)) path) (\<lambda>res.
          if res = Valid then validate_node h counter (n_right (h a)) path else Some res))"

definition Tree_validate :: "'v rbtree \<Rightarrow> Validation option" where
  "Tree_validate t =
     (let root = tree_root t in
      if root \<noteq> 0 \<and> n_color (t_heap t root) = Red then Some RootIsNotBlack
      else Option.bind (count_black (t_heap t) root 0) (\<lambda>counter. validate_node (t_heap t) counter root 0))"

lemma count_black_tree: "links h par s \<Longrightarrow> count_black h (root_of s) n = Some (n + bh h s)"
proof (induction s arbitrary: par n)
  case Leaf
  then show ?case by (subst count_black.simps) simp
next
  case (Node l a r)
  then show ?case by (subst count_black.simps) auto
qed

lemma root_of_red: "0 \<notin> set_tree s \<Longrightarrow> red h s \<longleftrightarrow> root_of s \<noteq> 0 \<and> n_color (h (root_of s)) = Red"
  by (cases s) auto

lemma validate_node_tree:
  "links h par s \<Longrightarrow> \<exists>r. validate_node h counter (root_of s) path = Some r
    \<and> (r = Valid \<longleftrightarrow> invh h s \<and> invc h s \<and> path + bh h s = counter)"
proof (induction s arbitrary: par path)
  case Leaf
  then show ?case by (subst validate_node.simps) auto
next
  case (Node l a r)
  have s: "a \<noteq> 0" "n_left (h a) = root_of l" "n_right (h a) = root_of r" "links h a l" "links h a r" using Node.prems by auto
  have z: "red h l \<longleftrightarrow> root_of l \<noteq> 0 \<and> n_color (h (root_of l)) = Red" "red h r \<longleftrightarrow> root_of r \<noteq> 0 \<and> n_color (h (root_of r)) = Red"
    by (rule root_of_red [OF links_nonzero [OF s(4)]] root_of_red [OF links_nonzero [OF s(5)]])+
  define p where "p = (if n_color (h a) = Black then path + 1 else path)"
  obtain v w where v: "validate_node h counter (root_of l) p = Some v" "v = Valid \<longleftrightarrow> invh h l \<and> invc h l \<and> p + bh h l = counter"
      and w: "validate_node h counter (root_of r) p = Some w" "w = Valid \<longleftrightarrow> invh h r \<and> invc h r \<and> p + bh h r = counter"
    using Node.IH(1) [OF s(4), of p] Node.IH(2) [OF s(5), of p] by blast
  have "validate_node h counter (root_of (Node l a r)) path =
      Some (if n_color (h a) = Red \<and> (red h l \<or> red h r) then RedChildIntoRedNode else if v = Valid then w else v)"
    using v(1) w(1) s(1-3) z by (subst validate_node.simps) (cases "n_color (h a)"; auto simp: p_def)
  then show ?case using v(2) w(2) by (cases "n_color (h a)") (auto simp: p_def)
qed

lemma validate_result:
  assumes "rep (t_heap t) header s"
  shows "\<exists>r. Tree_validate t = Some r \<and> (r = Valid \<longleftrightarrow> rb_tree (t_heap t) s)"
proof -
  have s: "links (t_heap t) header s" "tree_root t = root_of s" using assms by (auto simp: rep_def)
  have z: "red (t_heap t) s \<longleftrightarrow> root_of s \<noteq> 0 \<and> n_color (t_heap t (root_of s)) = Red"
    using links_nonzero [OF s(1)] by (rule root_of_red)
  show ?thesis
    using validate_node_tree [OF s(1), of "bh (t_heap t) s" 0] z
    by (auto simp: Tree_validate_def s(2) rb_tree_def count_black_tree [OF s(1)] Let_def)
qed

section \<open>The map and the set\<close>

definition Map_try_emplace :: "'k :: linorder \<Rightarrow> 'v \<Rightarrow> ('k \<times> 'v) rbtree \<Rightarrow> (('k \<times> 'v) rbtree \<times> addr \<times> bool) option" where
  "Map_try_emplace k v t = tryInsertNodeUnique fst (k, v) t"

definition Map_do_assign :: "addr \<Rightarrow> 'v \<Rightarrow> ('k \<times> 'v) rbtree \<Rightarrow> ('k \<times> 'v) rbtree" where
  "Map_do_assign it v t =
     t\<lparr> t_heap := (t_heap t)(it := (t_heap t it)\<lparr> n_value := (fst (n_value (t_heap t it)), v) \<rparr>) \<rparr>"

definition Map_emplace :: "'k :: linorder \<Rightarrow> 'v \<Rightarrow> ('k \<times> 'v) rbtree \<Rightarrow> (('k \<times> 'v) rbtree \<times> addr \<times> bool) option" where
  "Map_emplace k v t =
     map_option (\<lambda>(t, it, new). (if \<not> new then Map_do_assign it v t else t, it, new)) (Map_try_emplace k v t)"

definition Map_do_insert :: "'k :: linorder \<times> 'v \<Rightarrow> ('k \<times> 'v) rbtree \<Rightarrow> (('k \<times> 'v) rbtree \<times> addr \<times> bool) option" where
  "Map_do_insert v t = Map_emplace (fst v) (snd v) t"

fun Map_insert_range :: "('k :: linorder \<times> 'v) list \<Rightarrow> ('k \<times> 'v) rbtree \<Rightarrow> ('k \<times> 'v) rbtree option" where
  "Map_insert_range [] t = Some t"
| "Map_insert_range (v # vs) t = Option.bind (Map_do_insert v t) (\<lambda>(t, it, new). Map_insert_range vs t)"

text \<open>\<^verbatim>\<open>operator[]\<close> makes a missing value from nothing; the node of the key stands for the reference.\<close>

definition Map_index :: "'v \<Rightarrow> 'k :: linorder \<Rightarrow> ('k \<times> 'v) rbtree \<Rightarrow> (('k \<times> 'v) rbtree \<times> addr) option" where
  "Map_index nothing k t = map_option (\<lambda>(t, it, new). (t, it)) (Map_try_emplace k nothing t)"

definition Map_erase :: "'k :: linorder \<Rightarrow> ('k \<times> 'v) rbtree \<Rightarrow> (('k \<times> 'v) rbtree \<times> nat) option" where
  "Map_erase k t = erase_unique fst k t"

fun std_equal :: "'a list \<Rightarrow> 'a list \<Rightarrow> bool" where
  "std_equal [] ys = True"
| "std_equal (x # xs) [] = False"
| "std_equal (x # xs) (y # ys) = (x = y \<and> std_equal xs ys)"

definition Map_equal :: "('k \<times> 'v) rbtree \<Rightarrow> ('k \<times> 'v) rbtree \<Rightarrow> bool" where
  "Map_equal t u \<longleftrightarrow> t_size t = t_size u \<and> std_equal (tree_values t) (tree_values u)"

definition Set_emplace :: "'v :: linorder \<Rightarrow> 'v rbtree \<Rightarrow> ('v rbtree \<times> addr \<times> bool) option" where
  "Set_emplace v t = insertNodeUnique id v t"

definition Set_emplace_hint :: "addr \<Rightarrow> 'v :: linorder \<Rightarrow> 'v rbtree \<Rightarrow> ('v rbtree \<times> addr) option" where
  "Set_emplace_hint hint v t = map_option (\<lambda>(t, it, new). (t, it)) (insertNodeUniqueHint id hint v t)"

fun Set_insert_range :: "'v :: linorder list \<Rightarrow> 'v rbtree \<Rightarrow> 'v rbtree option" where
  "Set_insert_range [] t = Some t"
| "Set_insert_range (v # vs) t = Option.bind (Set_emplace v t) (\<lambda>(t, it, new). Set_insert_range vs t)"

definition Set_erase :: "'v :: linorder \<Rightarrow> 'v rbtree \<Rightarrow> ('v rbtree \<times> nat) option" where
  "Set_erase v t = erase_unique id v t"

text \<open>The tree as a finite map: what the code finds under a key.\<close>

definition tree_get :: "'k :: linorder \<Rightarrow> ('k \<times> 'v) rbtree \<Rightarrow> 'v option" where
  "tree_get k t =
     (case Tree_find fst k t of Some it \<Rightarrow> if it = header then None else Some (snd (n_value (t_heap t it))) | None \<Rightarrow> None)"

definition tree_put :: "'k :: linorder \<Rightarrow> 'v \<Rightarrow> ('k \<times> 'v) rbtree \<Rightarrow> ('k \<times> 'v) rbtree" where
  "tree_put k v t = (case Map_emplace k v t of Some (t', it, new) \<Rightarrow> t' | None \<Rightarrow> t)"

definition tree_remove :: "'k :: linorder \<Rightarrow> ('k \<times> 'v) rbtree \<Rightarrow> ('k \<times> 'v) rbtree" where
  "tree_remove k t = (case Map_erase k t of Some (t', n) \<Rightarrow> t' | None \<Rightarrow> t)"

lemma distinct_keys: "tree_of fst t s \<Longrightarrow> distinct (map fst (tree_values t))"
  using values_sorted strict_sorted_iff by blast

lemma tree_get_values:
  assumes t: "tree_of fst t s"
  shows "tree_get k t = map_of (tree_values t) k"
proof -
  obtain a where a: "find_impl fst k t = Some a"
      "if k \<in> fst ` set (tree_values t) then a \<in> set_tree s \<and> fst (n_value (t_heap t a)) = k else a = 0"
    using find_impl_result [OF t] by blast
  show ?thesis
  proof (cases "k \<in> fst ` set (tree_values t)")
    case True
    then have "a \<in> set_tree s" "fst (n_value (t_heap t a)) = k" using a(2) by simp_all
    moreover from this have "(k, snd (n_value (t_heap t a))) \<in> set (tree_values t)"
      by (auto simp: visited_all(2) [OF t])
    moreover have "a \<noteq> 0" "a \<noteq> header" using nodes_nonzero [OF t] tree_of_rep [OF t] \<open>a \<in> set_tree s\<close> by (auto simp: rep_def)
    ultimately show ?thesis using a(1) distinct_keys [OF t] by (simp add: tree_get_def Tree_find_def or_end_def)
  next
    case False
    then show ?thesis using a by (simp add: tree_get_def Tree_find_def or_end_def map_of_eq_None_iff [symmetric])
  qed
qed

lemma Map_do_assign_result:
  assumes t: "tree_of fst t s" and a: "it \<in> set_tree s"
  shows "tree_of fst (Map_do_assign it v t) s"
    "map_of (tree_values (Map_do_assign it v t)) = (map_of (tree_values t))(fst (n_value (t_heap t it)) \<mapsto> v)"
proof -
  let ?t = "Map_do_assign it v t"
  have f: "n_parent (t_heap ?t b) = n_parent (t_heap t b)" "n_left (t_heap ?t b) = n_left (t_heap t b)"
      "n_right (t_heap ?t b) = n_right (t_heap t b)" "n_color (t_heap ?t b) = n_color (t_heap t b)"
      "fst (n_value (t_heap ?t b)) = fst (n_value (t_heap t b))" for b by (simp_all add: Map_do_assign_def)
  have same: "t_size ?t = t_size t" "t_tmp ?t = t_tmp t" "t_brk ?t = t_brk t" by (simp_all add: Map_do_assign_def)
  show t': "tree_of fst ?t s"
    using t unfolding tree_of_def rep_def ends_def f same
    using links_cong [of s "t_heap ?t" "t_heap t" header] rb_cong [of s "t_heap ?t" "t_heap t"] f by simp
  show "map_of (tree_values ?t) = (map_of (tree_values t))(fst (n_value (t_heap t it)) \<mapsto> v)"
  proof
    fix k
    have v: "n_value (t_heap ?t b) = (if b = it then (fst (n_value (t_heap t it)), v) else n_value (t_heap t b))" for b
      by (simp add: Map_do_assign_def)
    obtain xs ys where ns: "inorder s = xs @ it # ys" using a by (metis set_inorder split_list)
    have d: "it \<notin> set xs \<union> set ys" using tree_of_rep [OF t] by (auto simp: rep_def ns)
    have o: "\<forall>b\<in>set xs \<union> set ys. fst (n_value (t_heap t b)) \<noteq> fst (n_value (t_heap t it))"
      using tree_of_order [OF t] by (auto simp: ns sorted_wrt_append)
    have e: "map (\<lambda>b. n_value (t_heap ?t b)) zs = map (\<lambda>b. n_value (t_heap t b)) zs" if "it \<notin> set zs" for zs
      using that by (auto simp: v)
    have "map_of (map (\<lambda>b. n_value (t_heap t b)) xs) (fst (n_value (t_heap t it))) = None"
      using o by (auto simp: map_of_eq_None_iff)
    moreover have "tree_values ?t = map (\<lambda>b. n_value (t_heap t b)) xs @ (fst (n_value (t_heap t it)), v) # map (\<lambda>b. n_value (t_heap t b)) ys"
      using d e [of xs] e [of ys] v [of it] by (simp add: visited_all(2) [OF t'] ns)
    moreover have "tree_values t = map (\<lambda>b. n_value (t_heap t b)) xs @ n_value (t_heap t it) # map (\<lambda>b. n_value (t_heap t b)) ys"
      by (simp add: visited_all(2) [OF t] ns)
    ultimately show "map_of (tree_values ?t) k = ((map_of (tree_values t))(fst (n_value (t_heap t it)) \<mapsto> v)) k"
      by (cases "n_value (t_heap t it)") (auto simp: map_add_def split: option.splits)
  qed
qed

lemma with_value_map:
  assumes "sorted_wrt (<) (map fst vs)" "k \<notin> fst ` set vs"
  shows "map_of (with_value fst (k, v) vs) = (map_of vs)(k \<mapsto> v)"
proof -
  have d: "distinct (map fst vs)" using assms(1) strict_sorted_iff by blast
  have "distinct (map fst (with_value fst (k, v) vs))"
    using assms(2) d by (auto simp: with_value_def distinct_map_filter)
  moreover have "set (with_value fst (k, v) vs) = set ((k, v) # vs)"
    using assms(2) by (auto simp: with_value_def image_iff)
  ultimately have "map_of (with_value fst (k, v) vs) = map_of ((k, v) # vs)"
    using assms(2) d by (subst map_of_inject_set) simp_all
  then show ?thesis by simp
qed

lemma Map_emplace_result:
  assumes t: "tree_of fst t s"
  shows "\<exists>t' it s'. Map_emplace k v t = Some (t', it, map_of (tree_values t) k = None) \<and> tree_of fst t' s' \<and> it \<in> set_tree s'
    \<and> map_of (tree_values t') = (map_of (tree_values t))(k \<mapsto> v)"
proof -
  obtain t1 it new where i: "tryInsertNodeUniqueHint fst 0 (k, v) t = Some (t1, it, new)" "inserted fst (k, v) t (t1, it, new)"
    using tryInsert_result [OF t, of 0 "(k, v)"] by auto
  obtain s1 where s1: "tree_of fst t1 s1" "it \<in> set_tree s1" "fst (n_value (t_heap t1 it)) = k"
      "tree_values t1 = with_value fst (k, v) (tree_values t)" "new \<longleftrightarrow> k \<notin> fst ` set (tree_values t)"
    using i(2) by (auto simp: inserted_def)
  have n: "new \<longleftrightarrow> map_of (tree_values t) k = None" by (simp add: s1(5) map_of_eq_None_iff)
  show ?thesis
  proof (cases new)
    case True
    then show ?thesis
      using i(1) s1 n with_value_map [OF values_sorted [OF t], of k v]
      by (auto simp: Map_emplace_def Map_try_emplace_def tryInsertNodeUnique_def)
  next
    case False
    then have "tree_values t1 = tree_values t" using s1(4,5) by (simp add: with_value_def)
    then show ?thesis
      using False i(1) s1(2,3) n Map_do_assign_result [OF s1(1,2), of v]
      by (auto simp: Map_emplace_def Map_try_emplace_def tryInsertNodeUnique_def)
  qed
qed

lemma map_of_remove: "map_of (filter (\<lambda>w. fst w \<noteq> k) vs) = (map_of vs)(k := None)"
  by (induction vs) auto

lemma tree_wf_ops:
  assumes "tree_wf fst t"
  shows "tree_wf fst (tree_put k v t)" "tree_get j (tree_put k v t) = (if j = k then Some v else tree_get j t)"
    "tree_wf fst (tree_remove k t)" "tree_get j (tree_remove k t) = (if j = k then None else tree_get j t)"
proof -
  obtain s where t: "tree_of fst t s" using assms by (auto simp: tree_wf_def)
  obtain t' it s' where p: "Map_emplace k v t = Some (t', it, map_of (tree_values t) k = None)" "tree_of fst t' s'"
      "map_of (tree_values t') = (map_of (tree_values t))(k \<mapsto> v)"
    using Map_emplace_result [OF t] by blast
  show "tree_wf fst (tree_put k v t)" "tree_get j (tree_put k v t) = (if j = k then Some v else tree_get j t)"
    using p tree_get_values [OF t] tree_get_values [OF p(2)] by (auto simp: tree_put_def tree_wf_def)
  obtain n t'' s'' where r: "erase_unique fst k t = Some (t'', n)" "tree_of fst t'' s''"
      "tree_values t'' = filter (\<lambda>w. fst w \<noteq> k) (tree_values t)"
    using erase_key_result [OF t] by blast
  show "tree_wf fst (tree_remove k t)" "tree_get j (tree_remove k t) = (if j = k then None else tree_get j t)"
    using r tree_get_values [OF t] tree_get_values [OF r(2)]
    by (auto simp: tree_remove_def tree_wf_def Map_erase_def map_of_remove)
qed

lemma tree_wf_make: "tree_wf ext (Tree_make v)"
  unfolding tree_wf_def by (rule exI, rule Tree_make_wf)

lemma tree_get_empty: "tree_get k (Tree_make v) = None"
  by (simp add: tree_get_values [OF Tree_make_wf] clear_values [OF Tree_make_wf])

interpretation tree: map_store "\<lambda>k. True" "tree_wf fst" "Tree_make v" tree_get tree_put tree_remove for v
  by unfold_locales (simp_all add: tree_wf_ops tree_get_empty tree_wf_make)

end
