(* ===== verification/OrderedClaims.thy ===== *)
theory OrderedClaims
  imports OrderedMap
begin

section \<open>What the containers promise\<close>

lemma run_tree: "\<exists>s. tree_of fst (run_ops tree_put tree_remove ops (Tree_make w)) s"
proof -
  have "tree_wf fst (run_ops tree_put tree_remove ops (Tree_make w))"
    using tree.run_refines [of "Tree_make w" ops, OF tree_wf_make] by simp
  then show ?thesis unfolding tree_wf_def .
qed

lemma run_values:
  "map_of (tree_values (run_ops tree_put tree_remove ops (Tree_make w))) = fold map_effect ops Map.empty"
proof
  fix k
  obtain s where t: "tree_of fst (run_ops tree_put tree_remove ops (Tree_make w)) s" using run_tree by blast
  have "tree_get k (run_ops tree_put tree_remove ops (Tree_make w)) = fold map_effect ops (\<lambda>i. tree_get i (Tree_make w)) k"
    using tree.run_refines [of "Tree_make w" ops, OF tree_wf_make] by simp
  then show "map_of (tree_values (run_ops tree_put tree_remove ops (Tree_make w))) k = fold map_effect ops Map.empty k"
    using tree_get_values [OF t] effects_cong [of "\<lambda>i. tree_get i (Tree_make w)" k Map.empty ops, OF tree_get_empty] by simp
qed

text \<open>Trees with sorted values are equal when they hold the same values.\<close>

lemma std_equal_iff: "length xs = length ys \<Longrightarrow> std_equal xs ys \<longleftrightarrow> xs = ys"
  by (induction xs ys rule: list_induct2) auto

lemma size_values: "tree_of ext t s \<Longrightarrow> t_size t = length (tree_values t)"
  using visited_all(2) [of ext t s] by (simp add: tree_of_def)

lemma tree_of_equal:
  assumes "tree_of fst t s" "tree_of fst u s'"
  shows "Map_equal t u \<longleftrightarrow> map_of (tree_values t) = map_of (tree_values u)"
proof -
  note d = distinct_keys [OF assms(1)] distinct_keys [OF assms(2)]
  have "Map_equal t u \<longleftrightarrow> tree_values t = tree_values u"
    using size_values [OF assms(1)] size_values [OF assms(2)] std_equal_iff by (auto simp: Map_equal_def)
  also have "\<dots> \<longleftrightarrow> set (tree_values t) = set (tree_values u)"
  proof
    assume e: "set (tree_values t) = set (tree_values u)"
    have "inj_on fst (set (tree_values t) \<union> set (tree_values u))" using d(1) e by (simp add: distinct_map)
    then show "tree_values t = tree_values u"
      using values_sorted [OF assms(1)] values_sorted [OF assms(2)] e
      by (intro map_sorted_distinct_set_unique [of fst]) (simp_all add: strict_sorted_iff)
  qed simp
  also have "\<dots> \<longleftrightarrow> map_of (tree_values t) = map_of (tree_values u)" using d by (metis map_of_inject_set)
  finally show ?thesis .
qed

lemma Set_insert_range_result:
  "tree_of id t s \<Longrightarrow> \<exists>t' s'. Set_insert_range vs t = Some t' \<and> tree_of id t' s' \<and> set (tree_values t') = set vs \<union> set (tree_values t)"
proof (induction vs arbitrary: t s)
  case (Cons v vs)
  obtain t1 a new where i: "insertNodeUniqueHint id 0 v t = Some (t1, a, new)" "inserted id v t (t1, a, new)"
    using insert_node_result [OF Cons.prems, of 0 v] by (metis prod_cases3)
  then obtain s1 where s1: "tree_of id t1 s1" "tree_values t1 = with_value id v (tree_values t)" by (auto simp: inserted_def)
  have "set (tree_values t1) = insert v (set (tree_values t))"
    unfolding s1(2) by (auto simp: with_value_def)
  then show ?case using Cons.IH [OF s1(1)] i(1) by (auto simp: Set_emplace_def insertNodeUnique_def)
qed auto

text \<open>
  C1: any run of emplace and erase by key on an empty map ends, and leaves a tree that a loop from begin() to end()
  walks through in strictly ascending order of the keys, visiting each pair of the finite map with the same updates
  once; find gives the mapped value of every key that the map has and the end for every other; the size is the number
  of keys; and the next emplace or erase ends too and tells whether the key was there.
\<close>

theorem tree_is_map:
  fixes ops :: "('k :: linorder, 'v) map_op list"
  shows "let t = run_ops tree_put tree_remove ops (Tree_make w); m = fold map_effect ops Map.empty in
    visited (t_heap t) (Tree_begin t) = Some (tree_values t) \<and> sorted_wrt (<) (map fst (tree_values t))
    \<and> map_of (tree_values t) = m \<and> tree_get k t = m k \<and> t_size t = card (dom m)
    \<and> (\<exists>t' it. Map_emplace k v t = Some (t', it, m k = None) \<and> tree_get k t' = Some v)
    \<and> (\<exists>t'. Map_erase k t = Some (t', if m k = None then 0 else 1) \<and> tree_get k t' = None)"
proof -
  define t where "t = run_ops tree_put tree_remove ops (Tree_make w)"
  define m where "m = fold map_effect ops Map.empty"
  obtain s where t: "tree_of fst t s" unfolding t_def using run_tree by blast
  have m: "map_of (tree_values t) = m" by (simp add: run_values t_def m_def)
  have "t_size t = length (tree_values t)" using t by (simp add: visited_all(2) [OF t] tree_of_def)
  also have "\<dots> = card (fst ` set (tree_values t))" using distinct_keys [OF t] by (metis distinct_card length_map list.set_map)
  finally have c: "t_size t = card (dom m)" by (simp add: m [symmetric] dom_map_of_conv_image_fst)
  obtain t1 it s1 where e: "Map_emplace k v t = Some (t1, it, m k = None)" "tree_of fst t1 s1" "map_of (tree_values t1) = m(k \<mapsto> v)"
    using Map_emplace_result [OF t] m by metis
  obtain t2 s2 where r: "erase_unique fst k t = Some (t2, if k \<in> fst ` set (tree_values t) then 1 else 0)" "tree_of fst t2 s2"
      "tree_values t2 = filter (\<lambda>w. fst w \<noteq> k) (tree_values t)"
    using erase_key_result [OF t] by blast
  have "k \<in> fst ` set (tree_values t) \<longleftrightarrow> m k \<noteq> None" using m map_of_eq_None_iff by metis
  then have "Map_erase k t = Some (t2, if m k = None then 0 else 1)" "tree_get k t2 = None"
    using r tree_get_values [OF r(2)] by (simp_all add: Map_erase_def map_of_remove)
  then show ?thesis
    using e tree_get_values [OF t] tree_get_values [OF e(2)] m c visited_all [OF t] values_sorted [OF t]
    unfolding t_def [symmetric] m_def [symmetric] Let_def by simp
qed

text \<open>
  C8: after any run of emplace and erase the tree is balanced: the longest path from the root has at most twice as many
  nodes as the binary logarithm of the size plus one, and the validator of the debug build accepts the tree.
\<close>

theorem tree_balanced:
  fixes ops :: "('k :: linorder, 'v) map_op list"
  shows "let t = run_ops tree_put tree_remove ops (Tree_make w) in
    Tree_validate t = Some Valid \<and> (\<exists>s. rep (t_heap t) header s \<and> 2 ^ (height s div 2) \<le> t_size t + 1)"
proof -
  obtain s where t: "tree_of fst (run_ops tree_put tree_remove ops (Tree_make w)) s" using run_tree by blast
  show ?thesis
    using tree_height [OF t] validate_result [OF tree_of_rep [OF t]] t tree_of_rep [OF t] unfolding Let_def tree_of_def by blast
qed

text \<open>
  C10: with any hint, no node, the end or a node of the tree, right or wrong, emplace and try_emplace end, give the same
  values in the same order, insert exactly when the key is new, and return the node with the key.
\<close>

theorem tree_any_hint:
  assumes t: "tree_of ext t s" and h: "hint = 0 \<or> hint = header \<or> hint \<in> set_tree s"
  shows "\<exists>t1 a1 t2 a2. insertNodeUniqueHint ext hint v t = Some (t1, a1, ext v \<notin> ext ` set (tree_values t))
    \<and> tryInsertNodeUniqueHint ext hint v t = Some (t2, a2, ext v \<notin> ext ` set (tree_values t))
    \<and> tree_wf ext t1 \<and> tree_wf ext t2 \<and> tree_values t1 = with_value ext v (tree_values t) \<and> tree_values t2 = tree_values t1
    \<and> ext (n_value (t_heap t1 a1)) = ext v \<and> ext (n_value (t_heap t2 a2)) = ext v"
proof -
  obtain t1 a1 n1 t2 a2 n2 where i: "insertNodeUniqueHint ext hint v t = Some (t1, a1, n1)" "inserted ext v t (t1, a1, n1)"
      "tryInsertNodeUniqueHint ext hint v t = Some (t2, a2, n2)" "inserted ext v t (t2, a2, n2)"
    using insert_node_result [OF t h, of v] tryInsert_result [OF t h, of v] by (metis prod_cases3)
  have "tree_wf ext t1" "tree_wf ext t2" using i(2,4) unfolding inserted_def tree_wf_def by blast+
  then show ?thesis using i unfolding inserted_def by auto
qed

text \<open>A set of one number, to see the operations at work.\<close>

definition one_node :: "nat rbtree" where
  "one_node = (Tree_make 0)\<lparr> t_size := 1, t_brk := 3,
     t_heap := (\<lambda>a. \<lparr> n_parent = if a = 2 then 1 else 2, n_left = if a = 2 then 0 else 2, n_right = if a = 2 then 0 else 2,
       n_color = Black, n_prealloc = False, n_value = 5 \<rparr>) \<rparr>"

lemma one_node_tree: "tree_of id one_node (Node Leaf 2 Leaf)"
  by (simp add: tree_of_def one_node_def Tree_make_def rep_def rb_tree_def ends_def header_def)

lemma one_node_values: "tree_values one_node = [5]"
  by (simp add: visited_all(2) [OF one_node_tree]) (simp add: one_node_def)

lemma tree_any_hint_witness:
  "\<exists>t1 a1 t2 a2. insertNodeUniqueHint id 2 7 one_node = Some (t1, a1, True) \<and> tryInsertNodeUniqueHint id 2 7 one_node = Some (t2, a2, True)
    \<and> tree_values t1 = [5, 7] \<and> tree_values t2 = [5, 7]"
  using tree_any_hint [of id one_node "Node Leaf 2 Leaf" 2 7, OF one_node_tree] by (auto simp: one_node_values with_value_def)

text \<open>
  C34: the lower bound of a key is the first value whose key is not less, the end when there is none; the upper bound is
  the first value whose key is greater, but when there is none it is the root of the tree, not the end.
\<close>

theorem tree_bounds_ends:
  assumes t: "tree_of ext t s"
  shows "Tree_lower_bound ext x t = Some (or_end (first_node (\<lambda>v. \<not> ext v < x) t s 0))
    \<and> Tree_upper_bound ext x t = Some (or_end (first_node (\<lambda>v. x < ext v) t s (root_of s)))
    \<and> ((\<forall>v\<in>set (tree_values t). ext v < x) \<longrightarrow> Tree_lower_bound ext x t = Some header)
    \<and> ((\<forall>v\<in>set (tree_values t). ext v \<le> x) \<and> s \<noteq> Leaf \<longrightarrow> Tree_upper_bound ext x t = Some (root_of s) \<and> root_of s \<noteq> header)"
proof -
  have r: "tree_root t = root_of s" "header \<notin> set_tree s" using tree_of_rep [OF t] by (auto simp: rep_def)
  have b: "Tree_lower_bound ext x t = Some (or_end (first_node (\<lambda>v. \<not> ext v < x) t s 0))"
      "Tree_upper_bound ext x t = Some (or_end (first_node (\<lambda>v. x < ext v) t s (root_of s)))"
    by (simp_all add: Tree_lower_bound_def Tree_upper_bound_def bounds_result [OF t] r(1))
  have "first_node (\<lambda>v. \<not> ext v < x) t s 0 = 0" if "\<forall>v\<in>set (tree_values t). ext v < x"
    using that by (simp add: first_node_def visited_all(2) [OF t] filter_False)
  moreover have "first_node (\<lambda>v. x < ext v) t s (root_of s) = root_of s" if "\<forall>v\<in>set (tree_values t). ext v \<le> x"
    using that by (simp add: first_node_def visited_all(2) [OF t] filter_False leD)
  moreover have "root_of s \<noteq> 0 \<and> root_of s \<noteq> header" if "s \<noteq> Leaf"
    using that r(2) nodes_nonzero [OF t] by (cases s) auto
  ultimately show ?thesis using b by (simp add: or_end_def)
qed

lemma tree_bounds_ends_witness:
  "Tree_lower_bound id 6 one_node = Some header \<and> Tree_upper_bound id 6 one_node = Some 2 \<and> Tree_upper_bound id 4 one_node = Some 2
    \<and> (2 :: addr) \<noteq> header"
  using tree_bounds_ends [OF one_node_tree, of 6] tree_bounds_ends [OF one_node_tree, of 4]
  by (simp add: one_node_values first_node_def or_end_def header_def) (simp add: one_node_def)

text \<open>
  C23: two maps, however they were built, compare equal exactly when they are the same finite map; the shapes of the trees
  play no role.
\<close>

theorem Map_equal_iff_same_map:
  fixes ops ops' :: "('k :: linorder, 'v) map_op list"
  shows "Map_equal (run_ops tree_put tree_remove ops (Tree_make w)) (run_ops tree_put tree_remove ops' (Tree_make w'))
    \<longleftrightarrow> fold map_effect ops Map.empty = fold map_effect ops' Map.empty"
proof -
  obtain s s' where t: "tree_of fst (run_ops tree_put tree_remove ops (Tree_make w)) s"
      "tree_of fst (run_ops tree_put tree_remove ops' (Tree_make w')) s'" using run_tree by blast
  show ?thesis
    using tree_of_equal [OF t] by (simp add: run_values)
qed

text \<open>
  A set made from a range of values ends up with each of them once, and a loop over it visits them in ascending order.
\<close>

theorem set_range_sorted:
  fixes vs :: "'v :: linorder list"
  shows "\<exists>t. Set_insert_range vs (Tree_make w) = Some t \<and> tree_values t = sorted_list_of_set (set vs) \<and> t_size t = card (set vs)"
proof -
  obtain t s where t: "Set_insert_range vs (Tree_make w) = Some t" "tree_of id t s" "set (tree_values t) = set vs"
    using Set_insert_range_result [OF Tree_make_wf, of vs w] clear_values [OF Tree_make_wf [of id w]] by (metis Un_empty_right list.set(1))
  have "sorted_wrt (<) (tree_values t)" using values_sorted [OF t(2)] by simp
  then have v: "tree_values t = sorted_list_of_set (set vs)"
    using t(3) by (metis sorted_list_of_set.idem_if_sorted_distinct strict_sorted_iff)
  then show ?thesis using t(1) size_values [OF t(2)] by simp
qed

lemma Map_emplace_memory:
  assumes "Map_emplace k v t = Some (t', it, new)"
  shows "t_tmp t' = (if new then tl (t_tmp t) else t_tmp t)" "t_tmp t \<noteq> [] \<Longrightarrow> t_brk t' = t_brk t"
  using assms tryInsert_memory [of fst 0 "(k, v)" t]
  by (auto simp: Map_emplace_def Map_try_emplace_def tryInsertNodeUnique_def Map_do_assign_def split: if_splits)

lemma Map_insert_range_saved:
  "tree_of fst t s \<Longrightarrow> length vs \<le> length (t_tmp t) \<Longrightarrow>
   \<exists>t'. Map_insert_range vs t = Some t' \<and> t_brk t' = t_brk t
     \<and> map_of (tree_values t') = fold (\<lambda>(k, v) m. m(k \<mapsto> v)) vs (map_of (tree_values t))"
proof (induction vs arbitrary: t s)
  case (Cons w vs)
  obtain k v where w: "w = (k, v)" by (cases w)
  obtain t1 it s1 where e: "Map_emplace k v t = Some (t1, it, map_of (tree_values t) k = None)" "tree_of fst t1 s1"
      "map_of (tree_values t1) = (map_of (tree_values t))(k \<mapsto> v)"
    using Map_emplace_result [OF Cons.prems(1)] by blast
  have m: "t_tmp t \<noteq> []" "length vs \<le> length (t_tmp t1)" using Cons.prems(2) Map_emplace_memory(1) [OF e(1)] by auto
  then show ?case
    using Cons.IH [OF e(2) m(2)] Map_emplace_memory(2) [OF e(1)] e by (auto simp: w Map_do_insert_def)
qed simp



end
