(* ===== verification/TreeCopy.thy ===== *)
theory TreeCopy
  imports OrderedClaims
begin

text \<open>
  Copies of a tree: \<^verbatim>\<open>clone\<close> and \<^verbatim>\<open>clone_visit\<close> of \<^verbatim>\<open>common/memory/SPMemRbtree.h\<close>, and the constructors that copy or
  move one. The two trees have heaps of their own; the pool hands out no address twice.
\<close>

section \<open>The copy\<close>

abbreviation on_heap :: "('v heap \<Rightarrow> 'v heap) \<Rightarrow> 'v rbtree \<Rightarrow> 'v rbtree" where
  "on_heap f t \<equiv> t\<lparr> t_heap := f (t_heap t) \<rparr>"

partial_function (option) clone_visit :: "'v heap \<Rightarrow> addr \<Rightarrow> addr \<Rightarrow> 'v rbtree \<Rightarrow> 'v rbtree option" where
  "clone_visit src a b t =
     (let t = on_heap (\<lambda>h. h(b := (h b)\<lparr> n_value := n_value (src a), n_color := n_color (src a) \<rparr>)) t in
      Option.bind
        (if n_left (src a) \<noteq> 0 then
           (let n = fst (allocateNode t); t = on_heap (\<lambda>h. set_parent n b (set_left b n h)) (snd (allocateNode t)) in
            Option.bind (clone_visit src (n_left (src a)) n t) (\<lambda>t.
              Some (if n_parent (t_heap t header) = n_left (src a)
                    then on_heap (\<lambda>h. set_parent header (n_left (h b)) h) t else t)))
         else Some (on_heap (set_left b 0) t))
        (\<lambda>t.
          if n_right (src a) \<noteq> 0 then
           (let n = fst (allocateNode t); t = on_heap (\<lambda>h. set_parent n b (set_right b n h)) (snd (allocateNode t)) in
            Option.bind (clone_visit src (n_right (src a)) n t) (\<lambda>t.
              Some (if n_right (t_heap t header) = n_right (src a)
                    then on_heap (\<lambda>h. set_right header (n_right (h b)) h) t else t)))
         else Some (on_heap (set_right b 0) t)))"

text \<open>The header is copied with its flags, after the nodes for the copy are saved.\<close>

definition clone_header :: "'v rbtree \<Rightarrow> 'v rbtree \<Rightarrow> 'v rbtree" where
  "clone_header other t =
     (let e = t_heap other header; h = t_heap t in
      t\<lparr> t_heap := h(header := (h header)\<lparr> n_parent := n_parent e, n_left := n_left e, n_right := n_right e, n_color := n_color e \<rparr>),
         t_spare := t_spare other, t_persistent := t_persistent other, t_index := t_index other \<rparr>)"

definition clone :: "'v rbtree \<Rightarrow> 'v rbtree \<Rightarrow> 'v rbtree option" where
  "clone other t =
     Option.bind (Tree_clear t) (\<lambda>t.
       let t = t\<lparr> t_size := t_size other \<rparr>;
           t = (if t_size t \<noteq> 0 then allocateTmp (t_size t) t else t);
           t = clone_header other t
       in if tree_root other \<noteq> 0 then
            let n = fst (allocateNode t); t = on_heap (\<lambda>h. set_parent n header (set_left header n h)) (snd (allocateNode t));
                t = (if tree_root other = tree_left other then on_heap (set_parent header n) t else t);
                t = (if tree_root other = tree_right other then on_heap (set_right header n) t else t)
            in clone_visit (t_heap other) (tree_root other) n t
          else Some t)"

text \<open>The copy constructor: an empty tree whose nodes come after those of the other.\<close>

definition Tree_copy :: "'v \<Rightarrow> 'v rbtree \<Rightarrow> 'v rbtree option" where
  "Tree_copy v other = clone other ((Tree_make v)\<lparr> t_brk := t_brk other \<rparr>)"

text \<open>The move constructor takes the header with its flags, but not the saved nodes. With the new tree comes what is left of the other.\<close>

definition Tree_move :: "'v rbtree \<Rightarrow> 'v rbtree \<times> 'v rbtree" where
  "Tree_move other =
     (let h = t_heap other; root = n_left (h header) in
      (other\<lparr> t_heap := (if root \<noteq> 0 then set_parent root header h else h), t_tmp := [] \<rparr>,
       other\<lparr> t_heap := set_parent header 0 (set_left header 0 (set_right header 0 (setColor header Black h))),
         t_size := 0, t_spare := 0, t_persistent := False, t_index := 0 \<rparr>))"

section \<open>What a copy is\<close>

fun copies :: "'v heap \<Rightarrow> 'v heap \<Rightarrow> addr tree \<Rightarrow> addr tree \<Rightarrow> bool" where
  "copies src h Leaf u \<longleftrightarrow> u = Leaf"
| "copies src h (Node l a r) u \<longleftrightarrow> (\<exists>l' b r'. u = Node l' b r' \<and> n_value (h b) = n_value (src a) \<and> n_color (h b) = n_color (src a)
     \<and> copies src h l l' \<and> copies src h r r')"

lemma copies_values: "copies src h s u \<Longrightarrow> map (\<lambda>a. n_value (h a)) (inorder u) = map (\<lambda>a. n_value (src a)) (inorder s)"
  by (induction s arbitrary: u) auto

lemma copies_colour:
  "copies src h s u \<Longrightarrow> bh h u = bh src s \<and> invh h u = invh src s \<and> red h u = red src s \<and> invc h u = invc src s \<and> (u = Leaf \<longleftrightarrow> s = Leaf)"
  by (induction s arbitrary: u) fastforce+

lemma copies_cong: "(\<And>a. a \<in> set_tree u \<Longrightarrow> h' a = h a) \<Longrightarrow> copies src h s u \<Longrightarrow> copies src h' s u"
  by (induction s arbitrary: u) auto

text \<open>An end of the tree, kept in the header, moves to the copy unless it is the root.\<close>

definition end_moved :: "(addr list \<Rightarrow> addr) \<Rightarrow> addr tree \<Rightarrow> addr tree \<Rightarrow> addr \<Rightarrow> addr \<Rightarrow> bool" where
  "end_moved e s u p p' \<longleftrightarrow> (p = e (inorder s) \<and> p \<noteq> root_of s \<longrightarrow> p' = e (inorder u)) \<and> (p \<notin> set_tree s \<or> p = root_of s \<longrightarrow> p' = p)"

definition cloned :: "'v heap \<Rightarrow> addr tree \<Rightarrow> addr \<Rightarrow> addr list \<Rightarrow> addr list \<Rightarrow> 'v rbtree \<Rightarrow> 'v rbtree \<Rightarrow> addr tree \<Rightarrow> bool" where
  "cloned src s b as rest t t' u \<longleftrightarrow>
     t' = t\<lparr> t_heap := t_heap t', t_tmp := rest, t_spare := t_spare t - word_of_nat (length as) \<rparr>
     \<and> root_of u = b \<and> links (t_heap t') (n_parent (t_heap t b)) u \<and> copies src (t_heap t') s u
     \<and> set_tree u = insert b (set as) \<and> distinct (inorder u)
     \<and> (\<forall>x. x \<notin> insert header (insert b (set as)) \<longrightarrow> t_heap t' x = t_heap t x)
     \<and> n_left (t_heap t' header) = n_left (t_heap t header)
     \<and> end_moved hd s u (n_parent (t_heap t header)) (n_parent (t_heap t' header))
     \<and> end_moved last s u (n_right (t_heap t header)) (n_right (t_heap t' header))"

lemma ends_in: "u \<noteq> Leaf \<Longrightarrow> hd (inorder u) \<in> set_tree u" "u \<noteq> Leaf \<Longrightarrow> last (inorder u) \<in> set_tree u"
proof -
  assume "u \<noteq> Leaf"
  then have "inorder u \<noteq> []" by (cases u) auto
  then show "hd (inorder u) \<in> set_tree u" "last (inorder u) \<in> set_tree u" using hd_in_set last_in_set set_inorder by metis+
qed

lemma end_root:
  "distinct (inorder (Node l a r)) \<Longrightarrow> hd (inorder (Node l a r)) = a \<longleftrightarrow> l = Leaf"
  "distinct (inorder (Node l a r)) \<Longrightarrow> last (inorder (Node l a r)) = a \<longleftrightarrow> r = Leaf"
proof -
  assume d: "distinct (inorder (Node l a r))"
  show "hd (inorder (Node l a r)) = a \<longleftrightarrow> l = Leaf"
    using d by (cases "inorder l") (auto simp flip: set_inorder)
  show "last (inorder (Node l a r)) = a \<longleftrightarrow> r = Leaf"
    using d by (cases "inorder r" rule: rev_cases) (auto simp flip: set_inorder)
qed

text \<open>One child of a node and its copy, with the rest of the visit as an argument.\<close>

definition left_child :: "(addr \<Rightarrow> 'v rbtree \<Rightarrow> 'v rbtree option) \<Rightarrow> addr \<Rightarrow> addr \<Rightarrow> 'v rbtree \<Rightarrow> 'v rbtree option" where
  "left_child f c b t =
     (if c \<noteq> 0 then
        (let n = fst (allocateNode t); t = on_heap (\<lambda>h. set_parent n b (set_left b n h)) (snd (allocateNode t)) in
         Option.bind (f n t) (\<lambda>t. Some (if n_parent (t_heap t header) = c then on_heap (\<lambda>h. set_parent header (n_left (h b)) h) t else t)))
      else Some (on_heap (set_left b 0) t))"

definition right_child :: "(addr \<Rightarrow> 'v rbtree \<Rightarrow> 'v rbtree option) \<Rightarrow> addr \<Rightarrow> addr \<Rightarrow> 'v rbtree \<Rightarrow> 'v rbtree option" where
  "right_child f c b t =
     (if c \<noteq> 0 then
        (let n = fst (allocateNode t); t = on_heap (\<lambda>h. set_parent n b (set_right b n h)) (snd (allocateNode t)) in
         Option.bind (f n t) (\<lambda>t. Some (if n_right (t_heap t header) = c then on_heap (\<lambda>h. set_right header (n_right (h b)) h) t else t)))
      else Some (on_heap (set_right b 0) t))"

lemma clone_visit_children:
  "clone_visit src a b t =
     Option.bind (left_child (clone_visit src (n_left (src a))) (n_left (src a)) b
         (on_heap (\<lambda>h. h(b := (h b)\<lparr> n_value := n_value (src a), n_color := n_color (src a) \<rparr>)) t))
       (right_child (clone_visit src (n_right (src a))) (n_right (src a)) b)"
  unfolding left_child_def right_child_def by (subst clone_visit.simps) (simp only: Let_def)

text \<open>What the copy of one child does: the nodes \<open>as\<close> become the copy \<open>u\<close> of the subtree \<open>s\<close>; \<open>p\<close> and \<open>q\<close> are the ends before.\<close>

definition child_cloned :: "'v heap \<Rightarrow> addr tree \<Rightarrow> addr \<Rightarrow> addr list \<Rightarrow> addr list \<Rightarrow> 'v rbtree \<Rightarrow> 'v rbtree \<Rightarrow> addr tree \<Rightarrow> bool" where
  "child_cloned src s b as rest t t' u \<longleftrightarrow>
     t' = t\<lparr> t_heap := t_heap t', t_tmp := rest, t_spare := t_spare t - word_of_nat (length as) \<rparr>
     \<and> links (t_heap t') b u \<and> copies src (t_heap t') s u \<and> set_tree u = set as \<and> distinct (inorder u)
     \<and> (\<forall>x. x \<notin> insert header (insert b (set as)) \<longrightarrow> t_heap t' x = t_heap t x)
     \<and> n_left (t_heap t' header) = n_left (t_heap t header)
     \<and> n_parent (t_heap t' b) = n_parent (t_heap t b) \<and> n_color (t_heap t' b) = n_color (t_heap t b) \<and> n_value (t_heap t' b) = n_value (t_heap t b)"

lemma left_child_result:
  assumes d: "distinct (inorder s)" and s: "0 \<notin> set_tree s" and tmp: "t_tmp t = as @ rest" "length as = size s" "distinct as"
    and off: "b \<noteq> header" "b \<notin> set as" "0 \<notin> set as" "header \<notin> set as" "set as \<inter> set_tree s = {}" "b \<notin> set_tree s"
    and f: "\<And>n as' t. as = n # as' \<Longrightarrow> t_tmp t = as' @ rest \<Longrightarrow> \<exists>t' u. f n t = Some t' \<and> cloned src s n as' rest t t' u"
  shows "\<exists>t' u. left_child f (root_of s) b t = Some t' \<and> child_cloned src s b as rest t t' u
    \<and> n_left (t_heap t' b) = root_of u \<and> n_right (t_heap t' b) = n_right (t_heap t b)
    \<and> (n_parent (t_heap t header) = hd (inorder s) \<and> s \<noteq> Leaf \<longrightarrow> n_parent (t_heap t' header) = hd (inorder u))
    \<and> (n_parent (t_heap t header) \<notin> set_tree s \<longrightarrow> n_parent (t_heap t' header) = n_parent (t_heap t header))
    \<and> (n_right (t_heap t header) \<notin> set_tree s \<longrightarrow> n_right (t_heap t' header) = n_right (t_heap t header))"
proof (cases s)
  case Leaf
  then have "as = []" using tmp by simp
  then show ?thesis
    using Leaf off(1) tmp(1)
    by (intro exI [of _ "on_heap (set_left b 0) t"] exI [of _ Leaf]) (simp add: left_child_def child_cloned_def)
next
  case (Node l a r)
  then obtain n as' where as: "as = n # as'" using tmp(2) by (cases as) auto
  define t1 where "t1 = on_heap (\<lambda>h. set_parent n b (set_left b n h)) (snd (allocateNode t))"
  have a: "fst (allocateNode t) = n" "t_tmp t1 = as' @ rest" using tmp(1) as by (simp_all add: allocateNode_def t1_def)
  have n: "n \<noteq> b" "n \<noteq> header" "n \<noteq> 0" using off as by auto
  obtain t2 u where t2: "f n t1 = Some t2" "cloned src s n as' rest t1 t2 u" using f [OF as a(2)] by blast
  have h1: "t_heap t1 = set_parent n b (set_left b n (t_heap t))" "t1 = t\<lparr> t_heap := t_heap t1, t_tmp := as' @ rest, t_spare := t_spare t - 1 \<rparr>"
    using tmp(1) as by (simp_all add: t1_def allocateNode_def)
  have c: "t2 = t1\<lparr> t_heap := t_heap t2, t_tmp := rest, t_spare := t_spare t1 - word_of_nat (length as') \<rparr>" "root_of u = n"
      "links (t_heap t2) b u" "copies src (t_heap t2) s u" "set_tree u = set as" "distinct (inorder u)"
      "\<And>x. x \<notin> insert header (set as) \<Longrightarrow> t_heap t2 x = t_heap t1 x" "n_left (t_heap t2 header) = n_left (t_heap t header)"
      "end_moved hd s u (n_parent (t_heap t header)) (n_parent (t_heap t2 header))"
      "end_moved last s u (n_right (t_heap t header)) (n_right (t_heap t2 header))"
    using t2(2) n off(1) unfolding cloned_def as by (simp_all add: h1(1))
  have b: "t_heap t2 b = t_heap t1 b" using c(7) off by simp
  define t' where "t' = (if n_parent (t_heap t2 header) = root_of s then on_heap (\<lambda>h. set_parent header (n_left (h b)) h) t2 else t2)"
  have lb: "n_left (t_heap t2 b) = n" using b n h1(1) by simp
  have u: "u \<noteq> Leaf" "0 \<notin> set_tree u" "header \<notin> set_tree u" "set_tree u \<inter> set_tree s = {}" using c(5) off as by auto
  have L: "left_child f (root_of s) b t = Some t'"
    using a(1) t2(1) s Node unfolding left_child_def t'_def by (simp add: t1_def [symmetric])
  have off_t': "t_heap t' x = t_heap t2 x" if "x \<noteq> header" for x using that by (simp add: t'_def)
  have hp: "n_parent (t_heap t' header) = (if n_parent (t_heap t2 header) = root_of s then n else n_parent (t_heap t2 header))"
      "n_right (t_heap t' header) = n_right (t_heap t2 header)" "n_left (t_heap t' header) = n_left (t_heap t2 header)"
    using off(1) lb by (simp_all add: t'_def)
  have e2: "t2 = t\<lparr> t_heap := t_heap t2, t_tmp := rest, t_spare := t_spare t - word_of_nat (length as) \<rparr>"
    by (subst c(1), subst h1(2)) (simp add: as diff_diff_eq h1(2) [THEN arg_cong, of t_spare])
  have t'_t2: "t' = t2\<lparr> t_heap := t_heap t' \<rparr>" by (simp add: t'_def)
  have "child_cloned src s b as rest t t' u"
    unfolding child_cloned_def
  proof (intro conjI)
    show "t' = t\<lparr> t_heap := t_heap t', t_tmp := rest, t_spare := t_spare t - word_of_nat (length as) \<rparr>"
      by (subst t'_t2, subst e2) simp
    show "links (t_heap t') b u" using c(3) links_cong [of u "t_heap t'" "t_heap t2" b] off_t' u(3) by metis
    show "copies src (t_heap t') s u" by (rule copies_cong [OF _ c(4)]) (use u(3) off_t' in metis)
    show "\<forall>x. x \<notin> insert header (insert b (set as)) \<longrightarrow> t_heap t' x = t_heap t x"
      using off_t' c(7) as by (simp add: h1(1))
  qed (use c(5,6,8) hp(3) off_t' [OF off(1)] b n h1(1) in simp_all)
  moreover have "n_parent (t_heap t' header) = hd (inorder u)" if p: "n_parent (t_heap t header) = hd (inorder s)"
  proof (cases "hd (inorder s) = root_of s")
    case True
    then have "l = Leaf" using end_root(1) [of l a r] d Node by simp
    then have "hd (inorder u) = n" using c(2,4) Node by auto
    moreover have "n_parent (t_heap t2 header) = root_of s" using c(9) p True by (simp add: end_moved_def)
    ultimately show ?thesis using hp(1) by simp
  next
    case False
    then have "n_parent (t_heap t2 header) = hd (inorder u)" using c(9) p by (simp add: end_moved_def)
    moreover have "hd (inorder u) \<in> set_tree u" "root_of s \<in> set_tree s" using ends_in(1) [OF u(1)] Node by simp_all
    ultimately show ?thesis using hp(1) u(4) by auto
  qed
  moreover have "n_parent (t_heap t' header) = n_parent (t_heap t header)" if "n_parent (t_heap t header) \<notin> set_tree s"
    using that c(9) hp(1) Node by (auto simp: end_moved_def)
  moreover have "n_right (t_heap t' header) = n_right (t_heap t header)" if "n_right (t_heap t header) \<notin> set_tree s"
    using that c(10) hp(2) by (auto simp: end_moved_def)
  moreover have "n_left (t_heap t' b) = root_of u" "n_right (t_heap t' b) = n_right (t_heap t b)"
    using off_t' [OF off(1)] lb c(2) b n h1(1) by simp_all
  ultimately show ?thesis using L by blast
qed

lemma right_child_result:
  assumes d: "distinct (inorder s)" and s: "0 \<notin> set_tree s" and tmp: "t_tmp t = as @ rest" "length as = size s" "distinct as"
    and off: "b \<noteq> header" "b \<notin> set as" "0 \<notin> set as" "header \<notin> set as" "set as \<inter> set_tree s = {}" "b \<notin> set_tree s"
    and f: "\<And>n as' t. as = n # as' \<Longrightarrow> t_tmp t = as' @ rest \<Longrightarrow> \<exists>t' u. f n t = Some t' \<and> cloned src s n as' rest t t' u"
  shows "\<exists>t' u. right_child f (root_of s) b t = Some t' \<and> child_cloned src s b as rest t t' u
    \<and> n_right (t_heap t' b) = root_of u \<and> n_left (t_heap t' b) = n_left (t_heap t b)
    \<and> (n_right (t_heap t header) = last (inorder s) \<and> s \<noteq> Leaf \<longrightarrow> n_right (t_heap t' header) = last (inorder u))
    \<and> (n_right (t_heap t header) \<notin> set_tree s \<longrightarrow> n_right (t_heap t' header) = n_right (t_heap t header))
    \<and> (n_parent (t_heap t header) \<notin> set_tree s \<longrightarrow> n_parent (t_heap t' header) = n_parent (t_heap t header))"
proof (cases s)
  case Leaf
  then have "as = []" using tmp by simp
  then show ?thesis
    using Leaf off(1) tmp(1)
    by (intro exI [of _ "on_heap (set_right b 0) t"] exI [of _ Leaf]) (simp add: right_child_def child_cloned_def)
next
  case (Node l a r)
  then obtain n as' where as: "as = n # as'" using tmp(2) by (cases as) auto
  define t1 where "t1 = on_heap (\<lambda>h. set_parent n b (set_right b n h)) (snd (allocateNode t))"
  have a: "fst (allocateNode t) = n" "t_tmp t1 = as' @ rest" using tmp(1) as by (simp_all add: allocateNode_def t1_def)
  have n: "n \<noteq> b" "n \<noteq> header" "n \<noteq> 0" using off as by auto
  obtain t2 u where t2: "f n t1 = Some t2" "cloned src s n as' rest t1 t2 u" using f [OF as a(2)] by blast
  have h1: "t_heap t1 = set_parent n b (set_right b n (t_heap t))" "t1 = t\<lparr> t_heap := t_heap t1, t_tmp := as' @ rest, t_spare := t_spare t - 1 \<rparr>"
    using tmp(1) as by (simp_all add: t1_def allocateNode_def)
  have c: "t2 = t1\<lparr> t_heap := t_heap t2, t_tmp := rest, t_spare := t_spare t1 - word_of_nat (length as') \<rparr>" "root_of u = n"
      "links (t_heap t2) b u" "copies src (t_heap t2) s u" "set_tree u = set as" "distinct (inorder u)"
      "\<And>x. x \<notin> insert header (set as) \<Longrightarrow> t_heap t2 x = t_heap t1 x" "n_left (t_heap t2 header) = n_left (t_heap t header)"
      "end_moved last s u (n_right (t_heap t header)) (n_right (t_heap t2 header))"
      "end_moved hd s u (n_parent (t_heap t header)) (n_parent (t_heap t2 header))"
    using t2(2) n off(1) unfolding cloned_def as by (simp_all add: h1(1))
  have b: "t_heap t2 b = t_heap t1 b" using c(7) off by simp
  define t' where "t' = (if n_right (t_heap t2 header) = root_of s then on_heap (\<lambda>h. set_right header (n_right (h b)) h) t2 else t2)"
  have lb: "n_right (t_heap t2 b) = n" using b n h1(1) by simp
  have u: "u \<noteq> Leaf" "0 \<notin> set_tree u" "header \<notin> set_tree u" "set_tree u \<inter> set_tree s = {}" using c(5) off as by auto
  have L: "right_child f (root_of s) b t = Some t'"
    using a(1) t2(1) s Node unfolding right_child_def t'_def by (simp add: t1_def [symmetric])
  have off_t': "t_heap t' x = t_heap t2 x" if "x \<noteq> header" for x using that by (simp add: t'_def)
  have hp: "n_right (t_heap t' header) = (if n_right (t_heap t2 header) = root_of s then n else n_right (t_heap t2 header))"
      "n_parent (t_heap t' header) = n_parent (t_heap t2 header)" "n_left (t_heap t' header) = n_left (t_heap t2 header)"
    using off(1) lb by (simp_all add: t'_def)
  have e2: "t2 = t\<lparr> t_heap := t_heap t2, t_tmp := rest, t_spare := t_spare t - word_of_nat (length as) \<rparr>"
    by (subst c(1), subst h1(2)) (simp add: as diff_diff_eq h1(2) [THEN arg_cong, of t_spare])
  have t'_t2: "t' = t2\<lparr> t_heap := t_heap t' \<rparr>" by (simp add: t'_def)
  have "child_cloned src s b as rest t t' u"
    unfolding child_cloned_def
  proof (intro conjI)
    show "t' = t\<lparr> t_heap := t_heap t', t_tmp := rest, t_spare := t_spare t - word_of_nat (length as) \<rparr>"
      by (subst t'_t2, subst e2) simp
    show "links (t_heap t') b u" using c(3) links_cong [of u "t_heap t'" "t_heap t2" b] off_t' u(3) by metis
    show "copies src (t_heap t') s u" by (rule copies_cong [OF _ c(4)]) (use u(3) off_t' in metis)
    show "\<forall>x. x \<notin> insert header (insert b (set as)) \<longrightarrow> t_heap t' x = t_heap t x"
      using off_t' c(7) as by (simp add: h1(1))
  qed (use c(5,6,8) hp(3) off_t' [OF off(1)] b n h1(1) in simp_all)
  moreover have "n_right (t_heap t' header) = last (inorder u)" if p: "n_right (t_heap t header) = last (inorder s)"
  proof (cases "last (inorder s) = root_of s")
    case True
    then have "r = Leaf" using end_root(2) [of l a r] d Node by simp
    then have "last (inorder u) = n" using c(2,4) Node by auto
    moreover have "n_right (t_heap t2 header) = root_of s" using c(9) p True by (simp add: end_moved_def)
    ultimately show ?thesis using hp(1) by simp
  next
    case False
    then have "n_right (t_heap t2 header) = last (inorder u)" using c(9) p by (simp add: end_moved_def)
    moreover have "last (inorder u) \<in> set_tree u" "root_of s \<in> set_tree s" using ends_in(2) [OF u(1)] Node by simp_all
    ultimately show ?thesis using hp(1) u(4) by auto
  qed
  moreover have "n_right (t_heap t' header) = n_right (t_heap t header)" if "n_right (t_heap t header) \<notin> set_tree s"
    using that c(9) hp(1) Node by (auto simp: end_moved_def)
  moreover have "n_parent (t_heap t' header) = n_parent (t_heap t header)" if "n_parent (t_heap t header) \<notin> set_tree s"
    using that c(10) hp(2) by (auto simp: end_moved_def)
  moreover have "n_right (t_heap t' b) = root_of u" "n_left (t_heap t' b) = n_left (t_heap t b)"
    using off_t' [OF off(1)] lb c(2) b n h1(1) by simp_all
  ultimately show ?thesis using L by blast
qed

section \<open>The whole tree\<close>

lemma record_steps:
  fixes t :: "'v rbtree"
  assumes "t0 = t\<lparr> t_heap := t_heap t0 \<rparr>" "t1 = t0\<lparr> t_heap := t_heap t1, t_tmp := xs, t_spare := t_spare t0 - c \<rparr>"
    "t2 = t1\<lparr> t_heap := t_heap t2, t_tmp := rest, t_spare := t_spare t1 - d \<rparr>" "c + d = e"
  shows "t2 = t\<lparr> t_heap := t_heap t2, t_tmp := rest, t_spare := t_spare t - e \<rparr>"
proof -
  obtain h0 where h0: "t0 = t\<lparr> t_heap := h0 \<rparr>" using assms(1) by blast
  obtain h1 where h1: "t1 = t0\<lparr> t_heap := h1, t_tmp := xs, t_spare := t_spare t0 - c \<rparr>" using assms(2) by blast
  obtain h2 where h2: "t2 = t1\<lparr> t_heap := h2, t_tmp := rest, t_spare := t_spare t1 - d \<rparr>" using assms(3) by blast
  show ?thesis by (simp add: h2 h1 h0 assms(4) [symmetric] diff_diff_eq)
qed

lemma clone_visit_result:
  fixes t :: "'v rbtree"
  shows "links src par s \<Longrightarrow> distinct (inorder s) \<Longrightarrow> s \<noteq> Leaf \<Longrightarrow> t_tmp t = as @ rest \<Longrightarrow> size s = Suc (length as) \<Longrightarrow>
    distinct (b # as) \<Longrightarrow> 0 \<notin> set (b # as) \<Longrightarrow> header \<notin> set (b # as) \<Longrightarrow> set (b # as) \<inter> set_tree s = {} \<Longrightarrow>
    \<exists>t' u. clone_visit src (root_of s) b t = Some t' \<and> cloned src s b as rest t t' u"
proof (induction s arbitrary: par b as rest t)
  case (Node l a r)
  have src: "links src a l" "links src a r" "n_left (src a) = root_of l" "n_right (src a) = root_of r" "distinct (inorder l)"
      "distinct (inorder r)" "0 \<notin> set_tree l" "0 \<notin> set_tree r" "a \<notin> set_tree l" "a \<notin> set_tree r" "set_tree l \<inter> set_tree r = {}"
    using Node.prems(1,2) links_nonzero [of src a] by auto
  obtain as1 as2 where as: "as = as1 @ as2" "length as1 = size l" "length as2 = size r"
    using Node.prems(5) by (metis append_take_drop_id add_diff_cancel_left' length_drop length_take min.absorb2 le_add1
        add_Suc_right nat.inject tree.size(4) add.right_neutral)
  have b: "b \<noteq> header" "b \<notin> set as1" "b \<notin> set as2" "b \<notin> set_tree l" "b \<notin> set_tree r" "b \<noteq> a" "b \<noteq> 0"
    and z1: "0 \<notin> set as1" "header \<notin> set as1" "set as1 \<inter> set_tree l = {}" "distinct as1" "a \<notin> set as1"
    and z2: "0 \<notin> set as2" "header \<notin> set as2" "set as2 \<inter> set_tree r = {}" "distinct as2" "a \<notin> set as2"
    and z: "set as1 \<inter> set as2 = {}" "set as1 \<inter> set_tree r = {}" "set as2 \<inter> set_tree l = {}"
    using Node.prems(6-9) as(1) by auto
  define t0 where "t0 = on_heap (\<lambda>h. h(b := (h b)\<lparr> n_value := n_value (src a), n_color := n_color (src a) \<rparr>)) t"
  have tmp0: "t_tmp t0 = as1 @ as2 @ rest" using Node.prems(4) as(1) by (simp add: t0_def)
  have f1: "\<exists>t' u. clone_visit src (root_of l) n t = Some t' \<and> cloned src l n as' (as2 @ rest) t t' u"
    if "as1 = n # as'" "t_tmp t = as' @ as2 @ rest" for n as' and t :: "'v rbtree"
    by (rule Node.IH(1) [OF src(1,5) _ that(2)]) (use that z1 as(2) in auto)
  obtain t1 l' where L: "left_child (clone_visit src (root_of l)) (root_of l) b t0 = Some t1" "child_cloned src l b as1 (as2 @ rest) t0 t1 l'"
      "n_left (t_heap t1 b) = root_of l'" "n_right (t_heap t1 b) = n_right (t_heap t0 b)"
      "n_parent (t_heap t0 header) = hd (inorder l) \<and> l \<noteq> Leaf \<longrightarrow> n_parent (t_heap t1 header) = hd (inorder l')"
      "n_parent (t_heap t0 header) \<notin> set_tree l \<longrightarrow> n_parent (t_heap t1 header) = n_parent (t_heap t0 header)"
      "n_right (t_heap t0 header) \<notin> set_tree l \<longrightarrow> n_right (t_heap t1 header) = n_right (t_heap t0 header)"
    using left_child_result [OF src(5,7) tmp0 as(2) z1(4) b(1,2) z1(1,2,3) b(4) f1] by blast
  note e1 = L(2) [unfolded child_cloned_def, THEN conjunct1] and c1 = L(2) [unfolded child_cloned_def, THEN conjunct2]
  have tmp1: "t_tmp t1 = as2 @ rest" using e1 by (metis rbtree.select_convs(3) rbtree.surjective rbtree.update_convs(1,3,4))
  have f2: "\<exists>t' u. clone_visit src (root_of r) n t = Some t' \<and> cloned src r n as' rest t t' u"
    if "as2 = n # as'" "t_tmp t = as' @ rest" for n as' and t :: "'v rbtree"
    by (rule Node.IH(2) [OF src(2,6) _ that(2)]) (use that z2 as(3) in auto)
  obtain t2 r' where R: "right_child (clone_visit src (root_of r)) (root_of r) b t1 = Some t2" "child_cloned src r b as2 rest t1 t2 r'"
      "n_right (t_heap t2 b) = root_of r'" "n_left (t_heap t2 b) = n_left (t_heap t1 b)"
      "n_right (t_heap t1 header) = last (inorder r) \<and> r \<noteq> Leaf \<longrightarrow> n_right (t_heap t2 header) = last (inorder r')"
      "n_right (t_heap t1 header) \<notin> set_tree r \<longrightarrow> n_right (t_heap t2 header) = n_right (t_heap t1 header)"
      "n_parent (t_heap t1 header) \<notin> set_tree r \<longrightarrow> n_parent (t_heap t2 header) = n_parent (t_heap t1 header)"
    using right_child_result [OF src(6,8) tmp1 as(3) z2(4) b(1,3) z2(1,2,3) b(5) f2] by blast
  note e2 = R(2) [unfolded child_cloned_def, THEN conjunct1] and c2 = R(2) [unfolded child_cloned_def, THEN conjunct2]
  have t0: "t0 = t\<lparr> t_heap := t_heap t0 \<rparr>" "\<And>x. x \<noteq> b \<Longrightarrow> t_heap t0 x = t_heap t x" "n_parent (t_heap t0 b) = n_parent (t_heap t b)"
      "n_value (t_heap t0 b) = n_value (src a)" "n_color (t_heap t0 b) = n_color (src a)" "t_heap t0 header = t_heap t header"
    using b(1) by (simp_all add: t0_def)
  define u where "u = Node l' b r'"
  have set': "set_tree l' = set as1" "set_tree r' = set as2" using c1 c2 by blast+
  have keep: "t_heap t2 x = t_heap t1 x" if "x \<in> set_tree l'" for x
  proof -
    have "x \<notin> insert header (insert b (set as2))" using that z(1) z1(2) b(2) unfolding set' by blast
    then show ?thesis using c2 by simp
  qed
  have shape: "l' = Leaf \<longleftrightarrow> l = Leaf" "r' = Leaf \<longleftrightarrow> r = Leaf" using c1 c2 copies_colour by blast+
  have "cloned src (Node l a r) b as rest t t2 u"
    unfolding cloned_def
  proof (intro conjI)
    show "t2 = t\<lparr> t_heap := t_heap t2, t_tmp := rest, t_spare := t_spare t - word_of_nat (length as) \<rparr>"
      by (rule record_steps [OF t0(1) e1 e2]) (simp add: as(1))
    show "root_of u = b" by (simp add: u_def)
    have "links (t_heap t2) b l'" using c1 links_cong [of l' "t_heap t2" "t_heap t1" b] keep by metis
    then show "links (t_heap t2) (n_parent (t_heap t b)) u"
      using c1 c2 b(7) R(3,4) L(3) t0(3) unfolding u_def by simp
    have "copies src (t_heap t2) l l'" by (rule copies_cong [OF keep]) (use c1 in simp_all)
    then show "copies src (t_heap t2) (Node l a r) u" using c1 c2 t0(4,5) unfolding u_def by simp
    show "set_tree u = insert b (set as)" using set' by (simp add: u_def as(1))
    show "distinct (inorder u)" using c1 c2 z(1) b(2,3) by (simp add: u_def)
    show "\<forall>x. x \<notin> insert header (insert b (set as)) \<longrightarrow> t_heap t2 x = t_heap t x"
      using c1 c2 t0(2) by (simp add: as(1))
    show "n_left (t_heap t2 header) = n_left (t_heap t header)" using c1 c2 t0(6) by simp
    show "end_moved hd (Node l a r) u (n_parent (t_heap t header)) (n_parent (t_heap t2 header))"
      unfolding end_moved_def
    proof (intro conjI impI, elim conjE)
      assume p: "n_parent (t_heap t header) = hd (inorder (Node l a r))" "n_parent (t_heap t header) \<noteq> root_of (Node l a r)"
      then have l: "l \<noteq> Leaf" using end_root(1) [OF Node.prems(2)] by simp
      then have p1: "n_parent (t_heap t1 header) = hd (inorder l')" using L(5) p(1) t0(6) by simp
      moreover have "hd (inorder l') \<notin> set_tree r" using ends_in(1) [of l'] l shape(1) set'(1) z(2) by blast
      ultimately show "n_parent (t_heap t2 header) = hd (inorder u)" using R(7) l shape(1) by (simp add: u_def)
    next
      assume "n_parent (t_heap t header) \<notin> set_tree (Node l a r) \<or> n_parent (t_heap t header) = root_of (Node l a r)"
      then have "n_parent (t_heap t header) \<notin> set_tree l" "n_parent (t_heap t header) \<notin> set_tree r" using src(9,10) by auto
      then show "n_parent (t_heap t2 header) = n_parent (t_heap t header)" using L(6) R(7) t0(6) by simp
    qed
    show "end_moved last (Node l a r) u (n_right (t_heap t header)) (n_right (t_heap t2 header))"
      unfolding end_moved_def
    proof (intro conjI impI, elim conjE)
      assume p: "n_right (t_heap t header) = last (inorder (Node l a r))" "n_right (t_heap t header) \<noteq> root_of (Node l a r)"
      then have r: "r \<noteq> Leaf" using end_root(2) [OF Node.prems(2)] by simp
      then have p0: "n_right (t_heap t header) = last (inorder r)" using p(1) by simp
      then have "n_right (t_heap t0 header) \<notin> set_tree l" using ends_in(2) [OF r] src(11) t0(6) by auto
      then have "n_right (t_heap t1 header) = last (inorder r)" using L(7) p0 t0(6) by simp
      then show "n_right (t_heap t2 header) = last (inorder u)" using R(5) r shape(2) by (simp add: u_def)
    next
      assume "n_right (t_heap t header) \<notin> set_tree (Node l a r) \<or> n_right (t_heap t header) = root_of (Node l a r)"
      then have "n_right (t_heap t header) \<notin> set_tree l" "n_right (t_heap t header) \<notin> set_tree r" using src(9,10) by auto
      then show "n_right (t_heap t2 header) = n_right (t_heap t header)" using L(7) R(6) t0(6) by simp
    qed
  qed
  moreover have "clone_visit src (root_of (Node l a r)) b t = Some t2"
    by (simp add: clone_visit_children [of src a b t] src(3,4) t0_def [symmetric] L(1) R(1))
  ultimately show ?case by blast
qed simp

text \<open>The copy of a tree that is not empty, from its root on.\<close>

lemma clone_root:
  fixes t :: "'v rbtree"
  assumes x: "tree_of ext x s" "s \<noteq> Leaf" and tmp: "t_tmp t = b # as @ rest" "size s = Suc (length as)" "distinct (b # as @ rest)"
    and size: "t_size t = t_size x"
    and brk: "\<forall>a\<in>set (b # as @ rest). a < t_brk t" "header < t_brk t"
    and off: "0 \<notin> set (b # as @ rest)" "header \<notin> set (b # as @ rest)" "set (b # as) \<inter> set_tree s = {}"
    and ends: "n_parent (t_heap t header) = tree_left x" "n_right (t_heap t header) = tree_right x"
    and t1: "t1 = on_heap (\<lambda>h. set_parent b header (set_left header b h)) (snd (allocateNode t))"
    and t2: "t2 = (if tree_root x = tree_left x then on_heap (set_parent header b) t1 else t1)"
    and t3: "t3 = (if tree_root x = tree_right x then on_heap (set_right header b) t2 else t2)"
  shows "\<exists>t' u. clone_visit (t_heap x) (tree_root x) b t3 = Some t' \<and> tree_of ext t' u \<and> tree_values t' = tree_values x
    \<and> t_tmp t' = rest \<and> t_spare t' = t_spare t - word_of_nat (t_size x)"
proof -
  have sx: "links (t_heap x) header s" "distinct (inorder s)" "tree_root x = root_of s" "t_size x = size s"
      "tree_left x = hd (inorder s)" "tree_right x = last (inorder s)"
    using x by (cases s; auto simp: tree_of_def rep_def ends_def)+
  have bh: "b \<noteq> header" using off(2) by auto
  have f3: "t_tmp t3 = as @ rest" "t_spare t3 = t_spare t - 1" "t_size t3 = t_size t" "t_brk t3 = t_brk t"
    using tmp(1) by (simp_all add: t3 t2 t1 allocateNode_def)
  have h3: "n_left (t_heap t3 header) = b" "n_parent (t_heap t3 b) = header"
      "n_parent (t_heap t3 header) = (if root_of s = hd (inorder s) then b else hd (inorder s))"
      "n_right (t_heap t3 header) = (if root_of s = last (inorder s) then b else last (inorder s))"
    using tmp(1) bh ends sx(3,5,6) by (auto simp: t3 t2 t1 allocateNode_def)
  obtain t' u where c: "clone_visit (t_heap x) (root_of s) b t3 = Some t'" "cloned (t_heap x) s b as rest t3 t' u"
    using clone_visit_result [OF sx(1,2) x(2) f3(1) tmp(2), of b] tmp(3) off by auto
  note e = c(2) [unfolded cloned_def, THEN conjunct1] and d = c(2) [unfolded cloned_def, THEN conjunct2]
  have cp: "copies (t_heap x) (t_heap t') s u" and u: "root_of u = b" "set_tree u = insert b (set as)" "distinct (inorder u)"
    and lk: "links (t_heap t') header u" and hl: "n_left (t_heap t' header) = b"
    using d h3(1,2) by simp_all
  have em: "end_moved hd s u (n_parent (t_heap t3 header)) (n_parent (t_heap t' header))"
      "end_moved last s u (n_right (t_heap t3 header)) (n_right (t_heap t' header))" using d by blast+
  have e': "t_tmp t' = rest" "t_spare t' = t_spare t - word_of_nat (t_size x)" "t_size t' = t_size x" "t_brk t' = t_brk t"
    by (subst e, simp add: f3 sx(4) tmp(2) size diff_diff_eq)+
  have vals: "map (\<lambda>a. n_value (t_heap t' a)) (inorder u) = map (\<lambda>a. n_value (t_heap x a)) (inorder s)"
    by (rule copies_values [OF cp])
  have ne: "u \<noteq> Leaf" using copies_colour [OF cp] x(2) by simp
  obtain l a r where s: "s = Node l a r" using x(2) by (cases s) simp_all
  obtain l' r' where sh: "u = Node l' b r'" "copies (t_heap x) (t_heap t') l l'" "copies (t_heap x) (t_heap t') r r'"
    using cp u(1) unfolding s copies.simps by auto
  have leaf: "l' = Leaf \<longleftrightarrow> l = Leaf" "r' = Leaf \<longleftrightarrow> r = Leaf" using copies_colour [OF sh(2)] copies_colour [OF sh(3)] by blast+
  have bs: "b \<notin> set_tree s" using off(3) by simp
  have "n_parent (t_heap t' header) = hd (inorder u)"
  proof (cases "l = Leaf")
    case True
    then show ?thesis using em(1) h3(3) bs leaf(1) by (simp add: end_moved_def s sh(1))
  next
    case False
    then have "hd (inorder s) \<noteq> root_of s" using end_root(1) [of l a r] sx(2) by (simp add: s)
    then show ?thesis using em(1) h3(3) by (simp add: end_moved_def)
  qed
  moreover have "n_right (t_heap t' header) = last (inorder u)"
  proof (cases "r = Leaf")
    case True
    then show ?thesis using em(2) h3(4) bs leaf(2) by (simp add: end_moved_def s sh(1))
  next
    case False
    then have "last (inorder s) \<noteq> root_of s" using end_root(2) [of l a r] sx(2) by (simp add: s)
    then show ?thesis using em(2) h3(4) by (simp add: end_moved_def)
  qed
  ultimately have "ends (t_heap t') header (inorder u)" by (simp add: ends_def sh(1))
  moreover have "rep (t_heap t') header u" using lk hl u off(2) by (simp add: rep_def header_def)
  moreover have "rb_tree (t_heap t') u" using x(1) copies_colour [OF cp] by (simp add: rb_tree_def tree_of_def)
  moreover have "sorted_wrt (\<lambda>a b. node_key ext (t_heap t') a < node_key ext (t_heap t') b) (inorder u)"
    using tree_of_order [OF x(1)] arg_cong [OF vals, of "\<lambda>vs. sorted_wrt (\<lambda>v w. ext v < ext w) vs"] by (simp add: sorted_wrt_map)
  moreover have "t_size t' = length (inorder u)" using arg_cong [OF vals, of length] e'(3) sx(4) by simp
  moreover have "distinct rest" "set rest \<inter> insert 0 (insert header (set_tree u)) = {}"
      "\<forall>a\<in>insert header (set_tree u \<union> set rest). a < t_brk t'"
    using tmp(3) off brk unfolding u(2) e'(4) by auto
  ultimately have t': "tree_of ext t' u" unfolding tree_of_def e'(1) by blast
  then show ?thesis
    using c(1) e' vals sx(3) by (intro exI [of _ t'] exI [of _ u]) (simp add: visited_all(2) [OF t'] visited_all(2) [OF x(1)])
qed

lemma clone_result:
  assumes x: "tree_of ext x s" and t: "Tree_clear t = Some t0" "tree_of ext t0 Leaf" and apart: "\<forall>a\<in>set_tree s. a < t_brk t0"
  shows "\<exists>t' u. clone x t = Some t' \<and> tree_of ext t' u \<and> tree_values t' = tree_values x \<and> t_tmp t' = t_tmp t0
    \<and> t_spare t' = t_spare x - word_of_nat (t_size x)"
proof (cases s)
  case Leaf
  define t' where "t' = clone_header x (t0\<lparr> t_size := 0 \<rparr>)"
  have e: "tree_root x = 0" "tree_left x = 0" "tree_right x = 0" "t_size x = 0"
    using x Leaf by (auto simp: tree_of_def rep_def ends_def)
  have "tree_of ext t' Leaf"
    using t(2) by (simp add: tree_of_def rep_def ends_def rb_tree_def t'_def clone_header_def e Let_def)
  moreover have "clone x t = Some t'" by (simp add: clone_def t(1) e t'_def Let_def)
  moreover have "t_tmp t' = t_tmp t0" "t_spare t' = t_spare x" by (simp_all add: t'_def clone_header_def Let_def)
  ultimately show ?thesis using clear_values [of ext x] clear_values [of ext t'] x Leaf e(4) by (intro exI [of _ t'] exI [of _ Leaf]) simp
next
  case (Node l a r)
  define n where "n = size l + size r"
  have n: "t_size x = Suc n" "size s = Suc n" "tree_root x \<noteq> 0"
    using x nodes_nonzero [OF x, of a] unfolding Node by (auto simp: tree_of_def rep_def n_def)
  define t1 where "t1 = clone_header x (allocateTmp (t_size x) (t0\<lparr> t_size := t_size x \<rparr>))"
  let ?b = "t_brk t0" and ?as = "map (\<lambda>i. t_brk t0 + i) [1..<Suc n]"
  have ns: "map (\<lambda>i. t_brk t0 + i) [0..<Suc n] = ?b # ?as" by (simp add: upt_conv_Cons del: upt_Suc)
  have f: "t_tmp t1 = ?b # ?as @ t_tmp t0" "t_size t1 = t_size x" "t_brk t1 = t_brk t0 + Suc n" "t_spare t1 = t_spare x"
      "n_parent (t_heap t1 header) = tree_left x" "n_right (t_heap t1 header) = tree_right x"
    using ns by (simp_all add: t1_def clone_header_def allocateTmp_def Let_def n(1) del: upt_Suc)
  have brk: "header < t_brk t0" "\<forall>a\<in>set (t_tmp t0). a < t_brk t0" "0 \<notin> set (t_tmp t0)" "header \<notin> set (t_tmp t0)" "distinct (t_tmp t0)"
    using t(2) by (auto simp: tree_of_def)
  have new: "\<forall>a\<in>set (?b # ?as). t_brk t0 \<le> a \<and> a < t_brk t0 + Suc n" by auto
  have "set (?b # ?as) \<inter> set (t_tmp t0) = {}" "set (?b # ?as) \<inter> set_tree s = {}" using new brk(2) apart by (meson disjoint_iff not_le)+
  moreover have "0 \<notin> set (?b # ?as)" "header \<notin> set (?b # ?as)" using new brk(1) by (meson not_le le_less_trans not_less0)+
  moreover have "distinct (?b # ?as)" by (auto simp: distinct_map inj_on_def)
  moreover have "\<forall>a\<in>set (t_tmp t0). a < t_brk t1" using brk(2) f(3) by auto
  ultimately have g: "distinct (?b # ?as @ t_tmp t0)" "\<forall>a\<in>set (?b # ?as @ t_tmp t0). a < t_brk t1" "header < t_brk t1"
      "0 \<notin> set (?b # ?as @ t_tmp t0)" "header \<notin> set (?b # ?as @ t_tmp t0)" "set (?b # ?as) \<inter> set_tree s = {}"
    using new brk f(3) by auto
  have len: "size s = Suc (length ?as)" "s \<noteq> Leaf" using n(2) Node by simp_all
  have al: "fst (allocateNode t1) = ?b" using f(1) by (simp add: allocateNode_def)
  have pos: "t_size x \<noteq> 0" using n(1) by simp
  define t2 where "t2 = on_heap (\<lambda>h. set_parent ?b header (set_left header ?b h)) (snd (allocateNode t1))"
  define t3 where "t3 = (if tree_root x = tree_left x then on_heap (set_parent header ?b) t2 else t2)"
  define t4 where "t4 = (if tree_root x = tree_right x then on_heap (set_right header ?b) t3 else t3)"
  have "clone x t = clone_visit (t_heap x) (tree_root x) ?b t4"
    unfolding clone_def t(1) bind.simps Let_def t4_def t3_def t2_def al [symmetric] t1_def
    using pos n(3) by simp
  then show ?thesis
    using clone_root [OF x len(2) f(1) len(1) g(1) f(2) g(2-6) f(5,6) t2_def t3_def t4_def] f(4) by simp
qed

text \<open>
  C9: the copy constructor ends and gives a balanced tree of its own nodes with the same values in the same order. But
  it overwrites the counter of the nodes that it has saved for the copy with the counter of the other tree and then
  takes them: after a copy of a tree that is not empty and has no saved nodes, \<^verbatim>\<open>capacity\<close> is two to the power of 32
  and \<^verbatim>\<open>reserve\<close> does nothing.
\<close>

theorem tree_copy_values_and_capacity:
  assumes x: "tree_of ext x s"
  shows "\<exists>t u. Tree_copy v x = Some t \<and> tree_of ext t u \<and> tree_values t = tree_values x \<and> t_tmp t = []
    \<and> (t_spare x = 0 \<and> 0 < t_size x \<and> t_size x < 2 ^ 32 \<longrightarrow> Tree_capacity t = 2 ^ 32 \<and> (c \<le> 2 ^ 32 \<longrightarrow> Tree_reserve c t = t))"
proof -
  define t0 where "t0 = (Tree_make v)\<lparr> t_brk := t_brk x \<rparr>"
  have brk: "\<forall>a\<in>set_tree s. a < t_brk t0" "header < t_brk x" using x by (auto simp: tree_of_def t0_def)
  have e: "tree_of ext t0 Leaf" using brk(2) by (simp add: tree_of_def t0_def Tree_make_def rep_def rb_tree_def ends_def header_def)
  have "on_heap (\<lambda>h. set_parent header 0 (set_right header 0 (set_left header 0 h))) t0 = t0"
    by (simp add: t0_def Tree_make_def set_parent_def set_left_def set_right_def fun_eq_iff)
  then have cl: "Tree_clear t0 = Some t0"
    by (simp add: Tree_clear_def) (simp add: t0_def Tree_make_def)
  obtain t u where t: "clone x t0 = Some t" "tree_of ext t u" "tree_values t = tree_values x" "t_tmp t = t_tmp t0"
      "t_spare t = t_spare x - word_of_nat (t_size x)"
    using clone_result [OF x cl e brk(1)] by blast
  have sz: "t_size t = t_size x" using size_values [OF t(2)] size_values [OF x] t(3) by simp
  have cap: "Tree_capacity t = 2 ^ 32" if c: "t_spare x = 0" "0 < t_size x" "t_size x < 2 ^ 32"
  proof -
    have "(word_of_nat (2 ^ 32 - t_size x) :: 32 word) = - word_of_nat (t_size x)" using c(3) by (simp add: of_nat_diff)
    moreover have "unat (word_of_nat (2 ^ 32 - t_size x) :: 32 word) = 2 ^ 32 - t_size x" using c(2) by (simp add: unat_of_nat)
    ultimately have "unat (- word_of_nat (t_size x) :: 32 word) = 2 ^ 32 - t_size x" by simp
    then show ?thesis using c sz t(5) by (simp add: Tree_capacity_def)
  qed
  moreover have "Tree_reserve c t = t" if "Tree_capacity t = 2 ^ 32" "c \<le> 2 ^ 32"
    using that by (simp add: Tree_reserve_def Tree_capacity_def)
  ultimately show ?thesis
    using t by (intro exI [of _ t] exI [of _ u]) (simp add: Tree_copy_def t0_def [symmetric], simp add: t0_def Tree_make_def)
qed

lemma tree_copy_values_and_capacity_witness:
  "\<exists>t. Tree_copy 0 one_node = Some t \<and> tree_values t = [5] \<and> Tree_capacity t = 2 ^ 32 \<and> Tree_reserve 1000 t = t"
  using tree_copy_values_and_capacity [OF one_node_tree, of 0 1000] one_node_values
  by (auto simp: one_node_def Tree_make_def)

end
