(* ===== verification/PriorityQueue.thy ===== *)
theory PriorityQueue
  imports Prelude
begin

text \<open>
  Models \<^verbatim>\<open>common/memory/SPMemPriorityQueue.h\<close>: the queue of the task threads.

  A pointer to a node is its address, null is 0. The preallocated nodes have the addresses from 1 on, the nodes of
  the \<open>k\<close>-th block that was ever made follow them; an address is not used again when its block is deleted. A write through a pointer
  into a deleted block is recorded in \<open>q_fault\<close>. An operation that takes a lock is one step.
\<close>

section \<open>The queue\<close>

record 'v qnode =
  q_next :: nat
  q_block :: nat
  q_priority :: int
  q_value :: 'v

record 'v pqueue =
  q_nodes :: "nat \<Rightarrow> 'v qnode"
  q_first :: nat
  q_last :: nat
  f_first :: nat
  f_last :: nat
  q_used :: "nat \<Rightarrow> nat"
  q_made :: nat
  q_live :: "nat list"
  q_capacity :: nat
  q_fault :: bool

definition PreallocatedNodes :: nat where
  "PreallocatedNodes = 8"

definition StorageNodes :: nat where
  "StorageNodes = 64"

text \<open>The first node of the block \<open>k\<close>, counted from 1, and the block of a node.\<close>

definition block_start :: "nat \<Rightarrow> nat" where
  "block_start k = PreallocatedNodes + StorageNodes * (k - 1) + 1"

definition block_of :: "nat \<Rightarrow> nat" where
  "block_of a = (if a \<le> PreallocatedNodes then 0 else (a - PreallocatedNodes - 1) div StorageNodes + 1)"

definition set_next :: "nat \<Rightarrow> nat \<Rightarrow> 'v pqueue \<Rightarrow> 'v pqueue" where
  "set_next a n q = q\<lparr> q_nodes := (q_nodes q)(a := (q_nodes q a)\<lparr> q_next := n \<rparr>),
     q_fault := q_fault q \<or> (block_of a \<noteq> 0 \<and> block_of a \<notin> set (q_live q)) \<rparr>"

abbreviation next_of :: "'v pqueue \<Rightarrow> nat \<Rightarrow> nat" where
  "next_of q a \<equiv> q_next (q_nodes q a)"

abbreviation node_block :: "'v pqueue \<Rightarrow> nat \<Rightarrow> nat" where
  "node_block q a \<equiv> q_block (q_nodes q a)"

abbreviation priority_of :: "'v pqueue \<Rightarrow> nat \<Rightarrow> int" where
  "priority_of q a \<equiv> q_priority (q_nodes q a)"

function initNodes :: "nat \<Rightarrow> nat \<Rightarrow> nat \<Rightarrow> (nat \<Rightarrow> 'v qnode) \<Rightarrow> nat \<Rightarrow> 'v qnode" where
  "initNodes first final block h =
     (if first < final then initNodes (first + 1) final block (h(first := (h first)\<lparr> q_next := first + 1, q_block := block \<rparr>))
      else h(final := (h final)\<lparr> q_next := 0, q_block := block \<rparr>))"
  by auto
termination by (relation "measure (\<lambda>(first, final, block, h). final - first)") auto

declare initNodes.simps [simp del]

definition PriorityQueue_make :: "'v \<Rightarrow> 'v pqueue" where
  "PriorityQueue_make v =
     \<lparr> q_nodes = initNodes 1 PreallocatedNodes 0 (\<lambda>a. \<lparr> q_next = 0, q_block = 0, q_priority = 0, q_value = v \<rparr>),
       q_first = 0, q_last = 0, f_first = 1, f_last = PreallocatedNodes, q_used = (\<lambda>k. 0), q_made = 0, q_live = [],
       q_capacity = PreallocatedNodes, q_fault = False \<rparr>"

subsection \<open>Nodes\<close>

definition allocateBlock :: "'v pqueue \<Rightarrow> nat \<times> 'v pqueue" where
  "allocateBlock q =
     (let k = q_made q + 1; a = block_start k in
      (k, q\<lparr> q_nodes := initNodes a (a + StorageNodes - 1) k (q_nodes q), q_made := k, q_live := k # q_live q,
             q_used := (q_used q)(k := 0), q_capacity := q_capacity q + StorageNodes \<rparr>))"

definition deallocateBlock :: "nat \<Rightarrow> 'v pqueue \<Rightarrow> 'v pqueue" where
  "deallocateBlock k q = q\<lparr> q_live := removeAll k (q_live q), q_capacity := q_capacity q - StorageNodes \<rparr>"

definition count_used :: "nat \<Rightarrow> 'v pqueue \<Rightarrow> 'v pqueue" where
  "count_used a q = (let k = node_block q a in if k \<noteq> 0 then q\<lparr> q_used := (q_used q)(k := q_used q k + 1) \<rparr> else q)"

definition append_block :: "nat \<Rightarrow> 'v pqueue \<Rightarrow> 'v pqueue" where
  "append_block k q =
     (let a = block_start k;
          q = (if f_last q \<noteq> 0 then set_next (f_last q) (a + 1) q else q\<lparr> f_first := a + 1 \<rparr>)
      in q\<lparr> f_last := a + StorageNodes - 1 \<rparr>)"

definition Queue_allocateNode :: "'v pqueue \<Rightarrow> nat \<times> 'v pqueue" where
  "Queue_allocateNode q =
     (let (ret, q) =
        (if f_first q \<noteq> 0 then
           (f_first q, if f_first q = f_last q then q\<lparr> f_first := 0, f_last := 0 \<rparr> else q\<lparr> f_first := next_of q (f_first q) \<rparr>)
         else let (k, q) = allocateBlock q in (block_start k, append_block k q))
      in (ret, count_used ret (set_next ret 0 q)))"

text \<open>
  Taking the nodes of a block off the free list: the place that is written, null for the head of the list, moves
  behind the nodes that stay.
\<close>

definition write_target :: "nat \<Rightarrow> nat \<Rightarrow> 'v pqueue \<Rightarrow> 'v pqueue" where
  "write_target target n q = (if target = 0 then q\<lparr> f_first := n \<rparr> else set_next target n q)"

partial_function (option) skip_preallocated :: "'v pqueue \<Rightarrow> nat \<Rightarrow> nat \<Rightarrow> (nat \<times> nat) option" where
  "skip_preallocated q target n =
     (if n \<noteq> 0 \<and> node_block q n = 0 then skip_preallocated q n (next_of q n) else Some (target, n))"

partial_function (option) skip_block :: "'v pqueue \<Rightarrow> nat \<Rightarrow> nat \<Rightarrow> nat option" where
  "skip_block q k n = (if n \<noteq> 0 \<and> node_block q n = k then skip_block q k (next_of q n) else Some n)"

partial_function (option) unlink_block :: "nat \<Rightarrow> nat \<Rightarrow> nat \<Rightarrow> 'v pqueue \<Rightarrow> 'v pqueue option" where
  "unlink_block k target n q =
     Option.bind (skip_block q k n) (\<lambda>n.
       let q = write_target target n q in
       if n \<noteq> 0 then unlink_block k n (next_of q n) q else Some q)"

definition remove_block :: "nat \<Rightarrow> 'v pqueue \<Rightarrow> 'v pqueue option" where
  "remove_block k q =
     Option.bind (skip_preallocated q 0 (f_first q)) (\<lambda>(target, n). map_option (deallocateBlock k) (unlink_block k target n q))"

definition free_at_end :: "nat \<Rightarrow> 'v pqueue \<Rightarrow> 'v pqueue" where
  "free_at_end a q =
     (let q = set_next a 0 q in
      if f_last q \<noteq> 0 then (set_next (f_last q) a q)\<lparr> f_last := a \<rparr> else q\<lparr> f_first := a, f_last := a \<rparr>)"

definition freeNode :: "nat \<Rightarrow> 'v pqueue \<Rightarrow> 'v pqueue option" where
  "freeNode a q =
     (if node_block q a \<noteq> 0 then
        (let k = node_block q a; q = free_at_end a q; q = q\<lparr> q_used := (q_used q)(k := if q_used q k = 0 then 0xFFFFFFFF else q_used q k - 1) \<rparr>
         in if q_used q k = 0 then remove_block k q else Some q)
      else
        (let q = set_next a (f_first q) q; q = q\<lparr> f_first := a \<rparr>
         in Some (if f_last q = 0 then q\<lparr> f_last := f_first q \<rparr> else q)))"

subsection \<open>The operations\<close>

partial_function (option) find_place :: "'v pqueue \<Rightarrow> (int \<Rightarrow> bool) \<Rightarrow> nat \<Rightarrow> nat option" where
  "find_place q test n =
     (if next_of q n \<noteq> 0 \<and> test (priority_of q (next_of q n)) then find_place q test (next_of q n) else Some n)"

definition link_after :: "nat \<Rightarrow> nat \<Rightarrow> 'v pqueue \<Rightarrow> 'v pqueue" where
  "link_after n a q = set_next n a (set_next a (next_of q n) q)"

definition pushNode :: "nat \<Rightarrow> bool \<Rightarrow> 'v pqueue \<Rightarrow> 'v pqueue option" where
  "pushNode a insertFirst q =
     (let q = set_next a 0 q; p = priority_of q a in
      if q_first q = 0 then Some (q\<lparr> q_first := a, q_last := a \<rparr>)
      else if insertFirst then
        (if p \<le> priority_of q (q_first q) then Some ((set_next a (q_first q) q)\<lparr> q_first := a \<rparr>)
         else if priority_of q (q_last q) < p then Some ((set_next (q_last q) a q)\<lparr> q_last := a \<rparr>)
         else map_option (\<lambda>n. link_after n a q) (find_place q (\<lambda>x. x < p) (q_first q)))
      else
        (if p < priority_of q (q_first q) then Some ((set_next a (q_first q) q)\<lparr> q_first := a \<rparr>)
         else if priority_of q (q_last q) \<le> p then Some ((set_next (q_last q) a q)\<lparr> q_last := a \<rparr>)
         else map_option (\<lambda>n. link_after n a q) (find_place q (\<lambda>x. x \<le> p) (q_first q))))"

definition popNode :: "'v pqueue \<Rightarrow> nat \<times> 'v pqueue" where
  "popNode q =
     (if q_first q \<noteq> 0 then
        (let ret = q_first q;
             q = (if q_first q = q_last q then q\<lparr> q_first := 0, q_last := 0 \<rparr> else q\<lparr> q_first := next_of q ret \<rparr>)
         in (ret, set_next ret 0 q))
      else (0, q))"

definition Queue_push :: "int \<Rightarrow> bool \<Rightarrow> 'v \<Rightarrow> 'v pqueue \<Rightarrow> 'v pqueue option" where
  "Queue_push p insertFirst v q =
     (let (a, q) = Queue_allocateNode q;
          q = q\<lparr> q_nodes := (q_nodes q)(a := (q_nodes q a)\<lparr> q_priority := p, q_value := v \<rparr>) \<rparr>
      in pushNode a insertFirst q)"

text \<open>
  \<^verbatim>\<open>pop_prefix\<close> and \<^verbatim>\<open>pop_direct\<close> differ in when the callback runs; what it gets is the result. With no value there is no call.
\<close>

definition Queue_pop :: "'v pqueue \<Rightarrow> ((int \<times> 'v) option \<times> 'v pqueue) option" where
  "Queue_pop q =
     (let (a, q) = popNode q in
      if a \<noteq> 0 then map_option (\<lambda>q'. (Some (priority_of q a, q_value (q_nodes q a)), q')) (freeNode a q) else Some (None, q))"

partial_function (option) Queue_clear :: "'v pqueue \<Rightarrow> 'v pqueue option" where
  "Queue_clear q =
     (let (a, q) = popNode q in if a \<noteq> 0 then Option.bind (freeNode a q) Queue_clear else Some q)"

text \<open>The two forms of \<^verbatim>\<open>empty\<close>: the one that takes the lock, and the one for which it is taken.\<close>

definition Queue_empty :: "'v pqueue \<Rightarrow> bool" where
  "Queue_empty q \<longleftrightarrow> q_first q \<noteq> 0"

definition Queue_empty_locked :: "'v pqueue \<Rightarrow> bool" where
  "Queue_empty_locked q \<longleftrightarrow> q_first q = 0"

partial_function (option) foreach_from :: "'v pqueue \<Rightarrow> nat \<Rightarrow> (int \<times> 'v) list option" where
  "foreach_from q a =
     (if a \<noteq> 0 then Option.bind (foreach_from q (next_of q a)) (\<lambda>xs. Some ((priority_of q a, q_value (q_nodes q a)) # xs))
      else Some [])"

definition Queue_foreach :: "'v pqueue \<Rightarrow> (int \<times> 'v) list option" where
  "Queue_foreach q = foreach_from q (q_first q)"

partial_function (option) count_from :: "'v pqueue \<Rightarrow> nat \<Rightarrow> nat \<Rightarrow> nat option" where
  "count_from q ret a = (if a \<noteq> 0 then count_from q (ret + 1) (next_of q a) else Some ret)"

definition Queue_free_capacity :: "'v pqueue \<Rightarrow> nat option" where
  "Queue_free_capacity q = count_from q 0 (f_first q)"

text \<open>The destructor, with the nodes whose values it destroys.\<close>

partial_function (option) destroy_from :: "nat \<Rightarrow> 'v pqueue \<Rightarrow> nat list \<Rightarrow> nat list option" where
  "destroy_from n q visited =
     (if n \<noteq> 0 then Option.bind (freeNode n q) (\<lambda>q. destroy_from (next_of q n) q (visited @ [n])) else Some visited)"

definition Queue_destroy :: "'v pqueue \<Rightarrow> nat list option" where
  "Queue_destroy q = destroy_from (q_first q) q []"

declare skip_preallocated.simps [code] skip_block.simps [code] unlink_block.simps [code] find_place.simps [code]
  Queue_clear.simps [code] foreach_from.simps [code] count_from.simps [code] destroy_from.simps [code]

section \<open>What the links stand for\<close>

fun chain :: "(nat \<Rightarrow> nat) \<Rightarrow> nat \<Rightarrow> nat list \<Rightarrow> bool" where
  "chain nx a [] \<longleftrightarrow> a = 0"
| "chain nx a (x # xs) \<longleftrightarrow> a = x \<and> x \<noteq> 0 \<and> chain nx (nx x) xs"

lemma chain_cong: "(\<And>x. x \<in> set xs \<Longrightarrow> nx' x = nx x) \<Longrightarrow> chain nx' a xs = chain nx a xs"
  by (induction xs arbitrary: a) auto

lemma chain_other [simp]: "x \<notin> set xs \<Longrightarrow> chain (nx(x := y)) a xs = chain nx a xs"
  by (rule chain_cong) auto

lemma chain_nonzero: "chain nx a xs \<Longrightarrow> 0 \<notin> set xs"
  by (induction xs arbitrary: a) auto

lemma chain_start: "chain nx a xs \<Longrightarrow> a = 0 \<longleftrightarrow> xs = []" "chain nx a xs \<Longrightarrow> xs \<noteq> [] \<Longrightarrow> a = hd xs"
  by (cases xs; auto)+

text \<open>The chain up to a node, and from it on.\<close>

lemma chain_split:
  "chain nx a (xs @ y # ys) \<Longrightarrow> distinct (xs @ y # ys) \<Longrightarrow> chain nx y (y # ys) \<and> (\<forall>z. z \<noteq> 0 \<longrightarrow> chain (nx(y := z)) z zs \<longrightarrow> y \<notin> set zs
     \<longrightarrow> chain (nx(y := z)) a (xs @ y # zs))"
proof (induction xs arbitrary: a)
  case (Cons x xs)
  then show ?case by auto
qed auto

lemma chain_append: "chain nx a (xs @ [y]) \<Longrightarrow> distinct (xs @ [y]) \<Longrightarrow> z \<noteq> 0 \<Longrightarrow> nx z = 0 \<Longrightarrow> z \<noteq> y \<Longrightarrow> chain (nx(y := z)) a (xs @ [y, z])"
  using chain_split [of nx a xs y "[]" "[z]"] by simp

text \<open>
  The queue is the nodes \<open>qs\<close> in order of priority, \<open>fs\<close> are the free nodes that can be reached, \<open>hs\<close> nodes in the hands of
  an operation. The end of the free list is the last of \<open>fs\<close> or none of these nodes.
\<close>

abbreviation links_of :: "'v pqueue \<Rightarrow> nat \<Rightarrow> nat" where
  "links_of q \<equiv> \<lambda>a. q_next (q_nodes q a)"

definition queue_of :: "'v pqueue \<Rightarrow> nat list \<Rightarrow> nat list \<Rightarrow> nat list \<Rightarrow> bool" where
  "queue_of q qs fs hs \<longleftrightarrow>
     chain (links_of q) (q_first q) qs \<and> q_last q = (if qs = [] then 0 else last qs) \<and> chain (links_of q) (f_first q) fs
     \<and> (f_last q \<in> set (qs @ fs @ hs) \<longrightarrow> fs \<noteq> [] \<and> f_last q = last fs) \<and> distinct (qs @ fs @ hs)
     \<and> (\<forall>a\<in>set (qs @ fs @ hs). a \<noteq> 0 \<and> a < block_start (q_made q + 1) \<and> node_block q a = block_of a
          \<and> (block_of a = 0 \<or> block_of a \<in> set (q_live q)))
     \<and> f_last q < block_start (q_made q + 1) \<and> (f_last q = 0 \<longrightarrow> fs = []) \<and> sorted (map (priority_of q) qs)
     \<and> (\<forall>k. q_used q k = (if k = 0 then 0 else length (filter (\<lambda>a. block_of a = k) (qs @ hs))))"

definition same_values :: "'v pqueue \<Rightarrow> 'v pqueue \<Rightarrow> bool" where
  "same_values q q' \<longleftrightarrow> (\<forall>a. q_priority (q_nodes q' a) = q_priority (q_nodes q a) \<and> q_value (q_nodes q' a) = q_value (q_nodes q a))"

lemma set_next_fields [simp]:
  "q_first (set_next a n q) = q_first q" "q_last (set_next a n q) = q_last q" "f_first (set_next a n q) = f_first q"
  "f_last (set_next a n q) = f_last q" "q_used (set_next a n q) = q_used q" "q_made (set_next a n q) = q_made q"
  "q_live (set_next a n q) = q_live q" "q_capacity (set_next a n q) = q_capacity q"
  "node_block (set_next a n q) b = node_block q b" "priority_of (set_next a n q) b = priority_of q b"
  "q_value (q_nodes (set_next a n q) b) = q_value (q_nodes q b)" "links_of (set_next a n q) = (links_of q)(a := n)"
  by (auto simp: set_next_def)

lemma next_set: "next_of (set_next a n q) b = (if b = a then n else next_of q b)"
  by (simp add: set_next_def)

lemma initNodes_result:
  "initNodes a b k h = (\<lambda>x. if a \<le> x \<and> x < b then (h x)\<lparr> q_next := x + 1, q_block := k \<rparr>
     else if x = b then (h x)\<lparr> q_next := 0, q_block := k \<rparr> else h x)"
proof (induction a b k h rule: initNodes.induct)
  case (1 a b k h)
  show ?case
  proof (cases "a < b")
    case True
    have "initNodes a b k h = initNodes (a + 1) b k (h(a := (h a)\<lparr> q_next := a + 1, q_block := k \<rparr>))"
      using True by (subst initNodes.simps) simp
    also note 1 [OF True]
    finally show ?thesis using True by (auto simp: fun_eq_iff)
  next
    case False
    then show ?thesis by (subst initNodes.simps) (auto simp: fun_eq_iff)
  qed
qed

lemma chain_upt: "(\<And>x. a \<le> x \<Longrightarrow> x < b \<Longrightarrow> nx x = x + 1) \<Longrightarrow> nx b = 0 \<Longrightarrow> 0 < a \<Longrightarrow> a \<le> b \<Longrightarrow> chain nx a [a..<Suc b]"
proof (induction "b - a" arbitrary: a)
  case 0
  then show ?case by simp
next
  case (Suc n)
  then have "chain nx (Suc a) [Suc a..<Suc b]" by simp
  moreover have "[a..<Suc b] = a # [Suc a..<Suc b]" using Suc.prems(4) by (simp add: upt_conv_Cons)
  ultimately show ?case using Suc by simp
qed

lemma PriorityQueue_make_of: "queue_of (PriorityQueue_make v) [] [1..<9] []"
proof -
  have "chain (links_of (PriorityQueue_make v)) 1 [1..<Suc 8]"
    by (rule chain_upt) (simp_all add: PriorityQueue_make_def initNodes_result PreallocatedNodes_def)
  then show ?thesis
    by (auto simp: queue_of_def PriorityQueue_make_def initNodes_result PreallocatedNodes_def block_start_def block_of_def)
qed

lemma queue_node:
  assumes "queue_of q qs fs hs" "a \<in> set (qs @ fs @ hs)"
  shows "a \<noteq> 0" "a < block_start (q_made q + 1)" "node_block q a = block_of a" "block_of a = 0 \<or> block_of a \<in> set (q_live q)"
  using assms unfolding queue_of_def by blast+

lemma queue_parts:
  assumes "queue_of q qs fs hs"
  shows "chain (links_of q) (q_first q) qs" "q_last q = (if qs = [] then 0 else last qs)" "chain (links_of q) (f_first q) fs"
    "f_last q \<in> set (qs @ fs @ hs) \<longrightarrow> fs \<noteq> [] \<and> f_last q = last fs" "distinct (qs @ fs @ hs)"
    "f_last q < block_start (q_made q + 1)" "sorted (map (priority_of q) qs)"
    "q_used q k = (if k = 0 then 0 else length (filter (\<lambda>a. block_of a = k) (qs @ hs)))" "f_last q = 0 \<longrightarrow> fs = []"
  using assms unfolding queue_of_def by blast+

section \<open>Taking a node\<close>

lemma block_of_start: "i < StorageNodes \<Longrightarrow> block_of (block_start (Suc k) + i) = Suc k"
  by (simp add: block_of_def block_start_def StorageNodes_def PreallocatedNodes_def)

lemma block_start_Suc: "block_start (Suc (Suc k)) = block_start (Suc k) + StorageNodes"
  by (simp add: block_start_def)

lemma block_start_pos: "0 < block_start k"
  by (simp add: block_start_def)

lemma count_used_fields [simp]:
  "q_nodes (count_used a q) = q_nodes q" "q_first (count_used a q) = q_first q" "q_last (count_used a q) = q_last q"
  "f_first (count_used a q) = f_first q" "f_last (count_used a q) = f_last q" "q_made (count_used a q) = q_made q"
  "q_live (count_used a q) = q_live q" "q_fault (count_used a q) = q_fault q"
  "q_used (count_used a q) k = (if k = node_block q a \<and> k \<noteq> 0 then q_used q k + 1 else q_used q k)"
  by (simp_all add: count_used_def Let_def)

text \<open>The first free node.\<close>

lemma Queue_allocateNode_free:
  assumes Q: "queue_of q qs (x # fs) hs" and a: "Queue_allocateNode q = (a, q')"
  shows "a = x" "queue_of q' qs fs (x # hs)" "same_values q q'" "q_made q' = q_made q" "q_live q' = q_live q" "q_fault q' = q_fault q"
    "f_last q = last (x # fs) \<Longrightarrow> f_last q' = (if fs = [] then 0 else last fs)" "f_last q \<noteq> x \<Longrightarrow> f_last q' = f_last q"
proof -
  note Q' = Q [unfolded queue_of_def]
  have x: "f_first q = x" "x \<noteq> 0" "chain (links_of q) (links_of q x) fs" using Q' by auto
  define q1 where "q1 = (if f_first q = f_last q then q\<lparr> f_first := 0, f_last := 0 \<rparr> else q\<lparr> f_first := next_of q (f_first q) \<rparr>)"
  have r: "a = x" "q' = count_used x (set_next x 0 q1)" using a x(1,2) by (auto simp: Queue_allocateNode_def q1_def)
  show "a = x" by (rule r(1))
  have one: "fs = []" if "f_last q = x"
  proof (rule ccontr)
    assume "fs \<noteq> []"
    moreover have "x = last (x # fs)" using Q' that by auto
    ultimately show False using Q' by (auto dest: last_in_set)
  qed
  have c: "chain (links_of q) (f_first q1) fs" using x one by (simp add: q1_def)
  have q1: "q_nodes q1 = q_nodes q" "q_first q1 = q_first q" "q_last q1 = q_last q" "q_used q1 = q_used q" "q_made q1 = q_made q"
      "q_live q1 = q_live q" "q_fault q1 = q_fault q" by (simp_all add: q1_def)
  have l: "f_last q1 = (if f_last q = x then 0 else f_last q)" using x(1) by (simp add: q1_def)
  have "f_last q1 \<in> set (qs @ fs @ x # hs) \<longrightarrow> fs \<noteq> [] \<and> f_last q1 = last fs"
    using Q' l by (auto split: if_splits)
  moreover have "f_last q1 = 0 \<longrightarrow> fs = []" using queue_parts(9) [OF Q] one l by simp
  moreover have "f_last q1 < block_start (q_made q + 1)" using queue_parts(6) [OF Q] l block_start_pos by simp
  moreover have "q_used (count_used x (set_next x 0 q1)) k = (if k = 0 then 0 else length (filter (\<lambda>a. block_of a = k) (qs @ x # hs)))" for k
    using queue_parts(8) [OF Q, of k] queue_node(3) [OF Q, of x] by (cases "k = 0"; cases "k = block_of x") (simp_all add: q1)
  moreover have "\<forall>y\<in>set (qs @ fs @ x # hs). y \<noteq> 0 \<and> y < block_start (q_made q + 1) \<and> node_block q y = block_of y
      \<and> (block_of y = 0 \<or> block_of y \<in> set (q_live q))" using queue_node [OF Q] by simp
  moreover have "distinct (qs @ fs @ x # hs)" using queue_parts(5) [OF Q] by auto
  moreover have "x \<notin> set qs" "x \<notin> set fs" using queue_parts(5) [OF Q] by auto
  ultimately show "queue_of q' qs fs (x # hs)"
    using queue_parts(1,2,7) [OF Q] c unfolding queue_of_def r(2) by (simp add: q1)
  show "same_values q q'" by (simp add: same_values_def r(2) q1)
  show "q_made q' = q_made q" "q_live q' = q_live q" by (simp_all add: r(2) q1)
  have "block_of x = 0 \<or> block_of x \<in> set (q_live q)" using Q' by simp
  then show "q_fault q' = q_fault q" by (auto simp: r(2) set_next_def q1)
  show "f_last q' = (if fs = [] then 0 else last fs)" if "f_last q = last (x # fs)"
  proof (cases "fs = []")
    case True
    then show ?thesis using that l by (simp add: r(2))
  next
    case False
    then have "last fs \<in> set fs" "x \<notin> set fs" using Q' by simp_all
    then show ?thesis using that l False by (auto simp: r(2))
  qed
  show "f_last q' = f_last q" if "f_last q \<noteq> x" using that l by (simp add: r(2))
qed

text \<open>A node of a new block; the others are free, unless the end of the free list is astray.\<close>

lemma Queue_allocateNode_new:
  assumes Q: "queue_of q qs [] hs" and a: "Queue_allocateNode q = (a, q')"
  shows "\<exists>fs. queue_of q' qs fs (a # hs) \<and> (\<forall>x\<in>set fs. block_of x \<noteq> 0)" "same_values q q'" "q_live q' = Suc (q_made q) # q_live q" "block_of a = Suc (q_made q)"
    "f_last q \<noteq> 0 \<Longrightarrow> block_of (f_last q) \<noteq> 0 \<Longrightarrow> block_of (f_last q) \<notin> set (q_live q) \<Longrightarrow> q_fault q'"
proof -
  note Q' = Q [unfolded queue_of_def]
  define k where "k = Suc (q_made q)"
  define b where "b = block_start k"
  define q1 where "q1 = snd (allocateBlock q)"
  define q2 where "q2 = append_block k q1"
  have r: "a = b" "q' = count_used b (set_next b 0 q2)"
    using a Q' by (auto simp: Queue_allocateNode_def allocateBlock_def q1_def q2_def k_def b_def Let_def)
  have q1: "q_first q1 = q_first q" "q_last q1 = q_last q" "f_first q1 = 0" "f_last q1 = f_last q" "q_made q1 = k" "q_live q1 = k # q_live q"
      "q_used q1 = (q_used q)(k := 0)" "\<And>x. priority_of q1 x = priority_of q x" "\<And>x. q_value (q_nodes q1 x) = q_value (q_nodes q x)"
    using Q' by (auto simp: q1_def allocateBlock_def k_def Let_def initNodes_result)
  have n1: "links_of q1 x = (if b \<le> x \<and> x < b + 63 then x + 1 else if x = b + 63 then 0 else links_of q x)"
      "node_block q1 x = (if b \<le> x \<and> x < b + 64 then k else node_block q x)" for x
    by (auto simp: q1_def allocateBlock_def k_def b_def Let_def initNodes_result StorageNodes_def)
  have old: "x < b" if "x \<in> set (qs @ hs)" for x using Q' that by (auto simp: b_def k_def)
  have bl: "block_of x = k" if "b \<le> x" "x < b + 64" for x
    using block_of_start [of "x - b" "q_made q"] that by (simp add: b_def k_def StorageNodes_def)
  have nb: "block_of x \<noteq> k" if "x < b" for x
    using that by (auto simp: block_of_def b_def block_start_def k_def StorageNodes_def PreallocatedNodes_def split: if_splits)
  have b0: "0 < b" "f_last q < b" using Q' block_start_pos by (simp_all add: b_def k_def)
  have fol: "block_start (Suc k) = b + 64" using block_start_Suc [of "q_made q"] by (simp add: b_def k_def StorageNodes_def)
  define fs where "fs = (if f_last q = 0 then [b + 1..<Suc (b + 63)] else [])"
  define q3 where "q3 = set_next b 0 q2"
  have q3: "q_first q3 = q_first q" "q_last q3 = q_last q" "f_last q3 = b + 63" "f_first q3 = (if f_last q = 0 then b + 1 else 0)"
      "q_made q3 = k" "q_live q3 = k # q_live q" "q_used q3 = (q_used q)(k := 0)" "\<And>x. priority_of q3 x = priority_of q x"
      "\<And>x. q_value (q_nodes q3 x) = q_value (q_nodes q x)" "\<And>x. node_block q3 x = node_block q1 x"
    by (simp_all add: q3_def q2_def append_block_def Let_def q1 b_def [symmetric] StorageNodes_def)
  have n3: "links_of q3 x = (if x = b then 0 else if f_last q \<noteq> 0 \<and> x = f_last q then b + 1 else links_of q1 x)" for x
    by (simp add: q3_def q2_def append_block_def Let_def q1(4) b_def [symmetric] next_set)
  have off: "f_last q \<notin> set (qs @ hs)" using Q' by auto
  have "chain (links_of q3) (f_first q3) fs"
  proof (cases "f_last q = 0")
    case True
    have "chain (links_of q3) (b + 1) [b + 1..<Suc (b + 63)]"
      by (rule chain_upt) (use b0 True in \<open>auto simp: n3 n1\<close>)
    then show ?thesis using True by (simp add: fs_def q3 del: upt_Suc)
  qed (simp add: fs_def q3)
  moreover have "chain (links_of q3) (q_first q3) qs"
  proof -
    have "links_of q3 x = links_of q x" if "x \<in> set qs" for x
      using that old [of x] off by (auto simp: n3 n1)
    then show ?thesis using Q' chain_cong [of qs "links_of q3" "links_of q"] by (simp add: q3)
  qed
  moreover have "b + 63 \<in> set (qs @ fs @ b # hs) \<longrightarrow> fs \<noteq> [] \<and> b + 63 = last fs"
    using old by (auto simp: fs_def)
  moreover have "distinct (qs @ fs @ b # hs)"
  proof -
    have "set fs \<subseteq> {x. b < x}" "distinct fs" by (auto simp: fs_def)
    moreover have "set (qs @ hs) \<subseteq> {x. x < b}" using old by blast
    ultimately have "set fs \<inter> set (qs @ hs) = {}" "b \<notin> set (qs @ hs)" "b \<notin> set fs" "distinct fs"
      by (blast dest: less_asym)+
    then show ?thesis using Q' by auto
  qed
  moreover have "\<forall>x\<in>set (qs @ fs @ b # hs). x \<noteq> 0 \<and> x < block_start (q_made q3 + 1) \<and> node_block q3 x = block_of x
      \<and> (block_of x = 0 \<or> block_of x \<in> set (q_live q3))"
  proof
    fix x assume "x \<in> set (qs @ fs @ b # hs)"
    then consider "x \<in> set (qs @ hs)" | "b \<le> x" "x < b + 64" by (auto simp: fs_def split: if_splits)
    then show "x \<noteq> 0 \<and> x < block_start (q_made q3 + 1) \<and> node_block q3 x = block_of x \<and> (block_of x = 0 \<or> block_of x \<in> set (q_live q3))"
    proof cases
      case 1
      then have "x \<in> set (qs @ [] @ hs)" by simp
      from queue_node [OF Q this] show ?thesis using old [OF 1] by (auto simp: q3 fol n1)
    next
      case 2
      then show ?thesis using b0 bl [OF 2] by (simp add: q3 fol n1)
    qed
  qed
  moreover have "\<forall>j. q_used (count_used b q3) j = (if j = 0 then 0 else length (filter (\<lambda>a. block_of a = j) (qs @ b # hs)))"
  proof
    fix j
    have "filter (\<lambda>a. block_of a = k) (qs @ hs) = []" using old nb by (auto simp: filter_empty_conv)
    then show "q_used (count_used b q3) j = (if j = 0 then 0 else length (filter (\<lambda>a. block_of a = j) (qs @ b # hs)))"
      using Q' bl [of b] by (auto simp: q3 n1 k_def)
  qed
  ultimately have "queue_of q' qs fs (a # hs)"
    using Q' unfolding queue_of_def r q3_def [symmetric] by (simp add: q3 fol)
  moreover have "\<forall>x\<in>set fs. block_of x \<noteq> 0" using bl by (auto simp: fs_def k_def)
  ultimately show "\<exists>fs. queue_of q' qs fs (a # hs) \<and> (\<forall>x\<in>set fs. block_of x \<noteq> 0)" by blast
  show "q_live q' = Suc (q_made q) # q_live q" by (simp add: r q3_def [symmetric] q3 k_def)
  show "block_of a = Suc (q_made q)" using bl [of b] by (simp add: r k_def)
  show "q_fault q'" if "f_last q \<noteq> 0" "block_of (f_last q) \<noteq> 0" "block_of (f_last q) \<notin> set (q_live q)"
  proof -
    have "q_fault q2" using that nb [OF b0(2)] q1(4,6) by (simp add: q2_def append_block_def Let_def set_next_def)
    then show ?thesis by (simp add: r set_next_def)
  qed
  show "same_values q q'" by (simp add: same_values_def r q3_def [symmetric] q3)
qed

lemma Queue_allocateNode_result:
  assumes "queue_of q qs fs hs"
  obtains a q' fs' where "Queue_allocateNode q = (a, q')" "queue_of q' qs fs' (a # hs)" "same_values q q'"
proof -
  obtain a q' where a: "Queue_allocateNode q = (a, q')" by (cases "Queue_allocateNode q")
  show thesis
  proof (cases fs)
    case Nil
    then show thesis using Queue_allocateNode_new [OF _ a] assms that [OF a] by blast
  next
    case (Cons x fs')
    then show thesis using Queue_allocateNode_free [OF assms [unfolded Cons] a] that [OF a] by simp
  qed
qed

section \<open>Putting a node into the queue and taking the first one\<close>

lemma popNode_empty: "queue_of q [] fs hs \<Longrightarrow> popNode q = (0, q)"
  by (simp add: queue_of_def popNode_def)

lemma popNode_result:
  assumes Q: "queue_of q (x # qs) fs hs"
  obtains q' where "popNode q = (x, q')" "queue_of q' qs fs (x # hs)" "same_values q q'" "q_made q' = q_made q" "q_live q' = q_live q"
    "q_fault q' = q_fault q" "f_last q' = f_last q"
proof -
  note Q' = Q [unfolded queue_of_def]
  have x: "q_first q = x" "x \<noteq> 0" "chain (links_of q) (links_of q x) qs" using Q' by auto
  define q1 where "q1 = (if q_first q = q_last q then q\<lparr> q_first := 0, q_last := 0 \<rparr> else q\<lparr> q_first := next_of q x \<rparr>)"
  have one: "qs = [] \<longleftrightarrow> q_last q = x"
  proof (cases "qs = []")
    case False
    then have "last qs \<in> set qs" "x \<notin> set qs" using queue_parts(5) [OF Q] by simp_all
    then show ?thesis using queue_parts(2) [OF Q] False by auto
  qed (use queue_parts(2) [OF Q] in simp)
  have q1: "q_nodes q1 = q_nodes q" "f_first q1 = f_first q" "f_last q1 = f_last q" "q_used q1 = q_used q" "q_made q1 = q_made q"
      "q_live q1 = q_live q" "q_fault q1 = q_fault q" "q_last q1 = (if qs = [] then 0 else last qs)"
    using queue_parts(2) [OF Q] x(1) one by (auto simp: q1_def)
  have c: "chain (links_of q) (q_first q1) qs" using x one by (cases "qs = []") (auto simp: q1_def)
  have "queue_of (set_next x 0 q1) qs fs (x # hs)"
    using Q c unfolding queue_of_def by (auto simp: q1)
  moreover have "popNode q = (x, set_next x 0 q1)" using x(1,2) by (simp add: popNode_def q1_def Let_def)
  moreover have "same_values q (set_next x 0 q1)" by (simp add: same_values_def q1)
  moreover have "q_fault (set_next x 0 q1) = q_fault q" using queue_node(4) [OF Q, of x] by (auto simp: set_next_def q1)
  ultimately show thesis using that by (simp add: q1)
qed

lemma find_place_result:
  "chain (links_of q) n (n # ys) \<Longrightarrow> find_place q P n = Some (last (n # takeWhile (\<lambda>x. P (priority_of q x)) ys))"
proof (induction ys arbitrary: n)
  case Nil
  then show ?case by (subst find_place.simps) simp
next
  case (Cons y ys)
  then show ?case by (subst find_place.simps) auto
qed

lemma chain_insert:
  "chain nx f (us @ n # vs) \<Longrightarrow> distinct (us @ n # vs) \<Longrightarrow> a \<noteq> 0 \<Longrightarrow> a \<notin> set (us @ n # vs) \<Longrightarrow>
   chain (nx(a := nx n, n := a)) f (us @ n # a # vs)"
  by (induction us arbitrary: f) auto

lemma takeWhile_front: "\<not> P x \<Longrightarrow> takeWhile P (x # xs) = [] \<and> dropWhile P (x # xs) = x # xs"
  by simp

text \<open>The place behind the elements that satisfy a test that the lower ones satisfy too.\<close>

lemma place_sorted:
  assumes s: "sorted (map f qs)" and P: "\<And>x. P x \<Longrightarrow> f x \<le> f a" "\<And>x. \<not> P x \<Longrightarrow> f a \<le> (f x :: int)"
  shows "sorted (map f (takeWhile P qs @ a # dropWhile P qs))"
  using s
proof (induction qs)
  case (Cons x qs)
  show ?case
  proof (cases "P x")
    case True
    have "f x \<le> f y" if "y \<in> set (takeWhile P qs @ a # dropWhile P qs)" for y
      using that Cons.prems P(1) [OF True] by (auto dest: set_takeWhileD set_dropWhileD)
    then have "\<forall>y\<in>set (map f (takeWhile P qs @ a # dropWhile P qs)). f x \<le> y" by (simp only: set_map ball_simps)  blast
    then show ?thesis using True Cons by simp
  next
    case False
    then show ?thesis using Cons.prems P(2) [OF False] by (auto intro: order_trans)
  qed
qed simp

lemma place_last:
  assumes s: "sorted (map f qs)" and P: "\<forall>x y. P y \<longrightarrow> f x \<le> (f y :: int) \<longrightarrow> P x" and l: "qs \<noteq> []" "P (last qs)"
  shows "takeWhile P qs = qs" "dropWhile P qs = []"
proof -
  obtain xs where xs: "qs = xs @ [last qs]" using l(1) by (metis append_butlast_last_id)
  have "\<forall>x\<in>set qs. f x \<le> f (last qs)" using s by (subst (asm) xs, subst xs) (auto simp: sorted_append)
  then have "\<forall>x\<in>set qs. P x" using P l(2) by blast
  then show "takeWhile P qs = qs" "dropWhile P qs = []" by simp_all
qed

lemma place_set: "set (takeWhile P qs @ a # dropWhile P qs) = insert a (set qs)"
proof -
  have s: "set qs = set (takeWhile P qs) \<union> set (dropWhile P qs)" by (metis set_append takeWhile_dropWhile_id)
  show ?thesis by (simp only: set_append list.set(2) Un_insert_right s [symmetric])
qed

lemma place_filter: "length (filter R (takeWhile P qs @ a # dropWhile P qs)) = length (filter R qs) + (if R a then 1 else 0)"
proof -
  have "filter R qs = filter R (takeWhile P qs) @ filter R (dropWhile P qs)" by (metis filter_append takeWhile_dropWhile_id)
  then show ?thesis by simp
qed

lemma place_distinct: "distinct qs \<Longrightarrow> a \<notin> set qs \<Longrightarrow> distinct (takeWhile P qs @ a # dropWhile P qs)"
  by (induction qs) (auto dest: set_takeWhileD set_dropWhileD)

text \<open>A node in hand is in the queue once the links are right.\<close>

lemma placed:
  assumes Q: "queue_of q qs fs (a # hs)" and s: "sorted (map (priority_of q) (takeWhile P qs @ a # dropWhile P qs))"
    and c: "chain (links_of q') (q_first q') (takeWhile P qs @ a # dropWhile P qs)" "q_last q' = last (takeWhile P qs @ a # dropWhile P qs)"
      "chain (links_of q') (f_first q') fs"
    and same: "f_last q' = f_last q" "q_made q' = q_made q" "q_live q' = q_live q" "q_used q' = q_used q"
      "\<And>x. node_block q' x = node_block q x" "\<And>x. priority_of q' x = priority_of q x"
  shows "queue_of q' (takeWhile P qs @ a # dropWhile P qs) fs hs"
proof -
  define ns where "ns = takeWhile P qs @ a # dropWhile P qs"
  have set: "set ns = insert a (set qs)" by (simp only: ns_def place_set)
  have "distinct ns" using queue_parts(5) [OF Q] place_distinct [of qs a P] by (simp add: ns_def)
  then have "distinct (ns @ fs @ hs)" using queue_parts(5) [OF Q] by (auto simp: set)
  moreover have "length (filter R (ns @ hs)) = length (filter R (qs @ a # hs))" for R :: "nat \<Rightarrow> bool"
    using place_filter [of R P qs a] by (cases "R a") (simp_all add: ns_def)
  moreover have "ns \<noteq> []" by (simp add: ns_def)
  ultimately show ?thesis
    using Q s c unfolding queue_of_def same ns_def [symmetric] by (simp add: set)
qed

lemma pushNode_tests:
  fixes insertFirst :: bool
  defines "T \<equiv> \<lambda>p x. if insertFirst then x < p else x \<le> (p :: int)"
  shows "pushNode a insertFirst q =
     (let q1 = set_next a 0 q; p = priority_of q a in
      if q_first q = 0 then Some (q1\<lparr> q_first := a, q_last := a \<rparr>)
      else if \<not> T p (priority_of q (q_first q)) then Some ((set_next a (q_first q) q1)\<lparr> q_first := a \<rparr>)
      else if T p (priority_of q (q_last q)) then Some ((set_next (q_last q) a q1)\<lparr> q_last := a \<rparr>)
      else map_option (\<lambda>n. link_after n a q1) (find_place q1 (T p) (q_first q)))"
  by (cases insertFirst) (simp_all add: pushNode_def T_def Let_def not_less not_le)

text \<open>What the queue's own links leave alone.\<close>

definition kept :: "'v pqueue \<Rightarrow> 'v pqueue \<Rightarrow> bool" where
  "kept q q' \<longleftrightarrow> same_values q q' \<and> q_made q' = q_made q \<and> q_live q' = q_live q \<and> q_fault q' = q_fault q \<and> f_last q' = f_last q
     \<and> f_first q' = f_first q \<and> q_used q' = q_used q \<and> (\<forall>x. node_block q' x = node_block q x)"

lemma kept_set_next: "block_of a = 0 \<or> block_of a \<in> set (q_live q) \<Longrightarrow> kept q (set_next a n q)"
  by (auto simp: kept_def same_values_def set_next_def)

lemma kept_trans: "kept q q' \<Longrightarrow> kept q' q'' \<Longrightarrow> kept q q''"
  by (simp add: kept_def same_values_def)

lemma kept_ends: "kept q q' \<Longrightarrow> kept q (q'\<lparr> q_first := x \<rparr>)" "kept q q' \<Longrightarrow> kept q (q'\<lparr> q_last := y \<rparr>)"
  by (simp_all add: kept_def same_values_def)

lemma pushNode_result:
  fixes insertFirst :: bool
  assumes Q: "queue_of q qs fs (a # hs)"
  defines "P \<equiv> \<lambda>x. if insertFirst then priority_of q x < priority_of q a else priority_of q x \<le> priority_of q a"
  shows "\<exists>q'. pushNode a insertFirst q = Some q' \<and> queue_of q' (takeWhile P qs @ a # dropWhile P qs) fs hs \<and> kept q q'"
proof -
  define T where "T = (\<lambda>p x. if insertFirst then x < p else x \<le> (p :: int))"
  define q1 where "q1 = set_next a 0 q"
  have a: "a \<noteq> 0" "a \<notin> set qs" "a \<notin> set fs" "block_of a = 0 \<or> block_of a \<in> set (q_live q)"
    using queue_parts(5) [OF Q] queue_node [OF Q, of a] by auto
  have c: "chain (links_of q1) (q_first q) qs" "chain (links_of q1) (f_first q) fs" "next_of q1 a = 0"
    using queue_parts(1,3) [OF Q] a by (simp_all add: q1_def) (simp add: next_set)
  have k1: "kept q q1" using kept_set_next [OF a(4)] by (simp add: q1_def)
  have PT: "T (priority_of q a) (priority_of q x) = P x" for x by (simp add: P_def T_def)
  have P: "P x \<Longrightarrow> priority_of q x \<le> priority_of q a" "\<not> P x \<Longrightarrow> priority_of q a \<le> priority_of q x"
      "P y \<Longrightarrow> priority_of q x \<le> priority_of q y \<Longrightarrow> P x" for x y by (auto simp: P_def split: if_splits)
  note s = place_sorted [OF queue_parts(7) [OF Q], where P = P and a = a, OF P(1,2)]
  have push: "pushNode a insertFirst q =
     (if q_first q = 0 then Some (q1\<lparr> q_first := a, q_last := a \<rparr>)
      else if \<not> P (q_first q) then Some ((set_next a (q_first q) q1)\<lparr> q_first := a \<rparr>)
      else if P (q_last q) then Some ((set_next (q_last q) a q1)\<lparr> q_last := a \<rparr>)
      else map_option (\<lambda>n. link_after n a q1) (find_place q1 (T (priority_of q a)) (q_first q)))"
    unfolding PT [symmetric] unfolding T_def q1_def pushNode_tests Let_def ..
  have ok: "block_of x = 0 \<or> block_of x \<in> set (q_live q1)" if "x \<in> set qs" for x using queue_node(4) [OF Q, of x] that by (simp add: q1_def)
  have fin: ?thesis
    if "pushNode a insertFirst q = Some q'" "kept q1 q'" "chain (links_of q') (q_first q') (takeWhile P qs @ a # dropWhile P qs)"
      "q_last q' = last (takeWhile P qs @ a # dropWhile P qs)" "chain (links_of q') (f_first q) fs" for q'
  proof -
    have "kept q q'" by (rule kept_trans [OF k1 that(2)])
    then show ?thesis using that(1) placed [OF Q s that(3,4)] that(5) by (auto simp: kept_def same_values_def)
  qed
  show ?thesis
  proof (cases "qs = []")
    case True
    then show ?thesis using fin [of "q1\<lparr> q_first := a, q_last := a \<rparr>"] push c a by (auto simp: kept_def same_values_def)
  next
    case ne: False
    then have f: "q_first q \<noteq> 0" "q_first q = hd qs" "q_last q = last qs" using c(1) chain_start queue_parts(2) [OF Q] by auto
    consider "\<not> P (hd qs)" | "P (hd qs)" "P (last qs)" | "P (hd qs)" "\<not> P (last qs)" by blast
    then show ?thesis
    proof cases
      case 1
      then have w: "takeWhile P qs = []" "dropWhile P qs = qs" using ne by (cases qs; simp)+
      define q' where "q' = (set_next a (q_first q) q1)\<lparr> q_first := a \<rparr>"
      have "kept q1 q'" unfolding q'_def by (intro kept_ends kept_set_next) (use a(4) in \<open>simp add: q1_def\<close>)
      moreover have "chain (links_of q') (q_first q') (a # qs)" "chain (links_of q') (f_first q) fs"
        using c a by (simp_all add: q'_def)
      ultimately show ?thesis using fin [of q'] push 1 f w ne by (simp add: q'_def q1_def)
    next
      case 2
      then have w: "takeWhile P qs = qs" "dropWhile P qs = []" using place_last [where P = P and f = "priority_of q", OF queue_parts(7) [OF Q] _ ne 2(2)] P(3) by blast+
      define q' where "q' = (set_next (q_last q) a q1)\<lparr> q_last := a \<rparr>"
      obtain xs where xs: "qs = xs @ [last qs]" using ne by (metis append_butlast_last_id)
      have l: "last qs \<in> set qs" using ne by simp
      then have lf: "last qs \<notin> set fs" using queue_parts(5) [OF Q] by auto
      have "distinct (xs @ [last qs])" "chain (links_of q1) (q_first q) (xs @ [last qs])" using c(1) queue_parts(5) [OF Q] xs by auto
      moreover have "a \<noteq> last qs" using a(2) l by auto
      ultimately have "chain ((links_of q1)(last qs := a)) (q_first q) (xs @ [last qs, a])"
        using chain_append [of "links_of q1" "q_first q" xs "last qs" a] a(1) c(3) by blast
      moreover have eq: "qs @ [a] = xs @ [last qs, a]" using xs by (metis append.assoc append_Cons append_Nil)
      ultimately have "chain (links_of q') (q_first q') (qs @ [a])" unfolding eq by (simp add: q'_def q1_def f(3))
      moreover have "chain (links_of q') (f_first q) fs" using c(2) lf f(3) by (simp add: q'_def)
      moreover have "kept q1 q'" unfolding q'_def by (intro kept_ends kept_set_next ok) (use l f in simp)
      ultimately show ?thesis using fin [of q', unfolded w] push 2 f unfolding w by (simp add: q'_def)
    next
      case 3
      obtain ys where ys: "qs = hd qs # ys" using ne by (cases qs) auto
      define n where "n = last (hd qs # takeWhile P ys)"
      have find: "find_place q1 (T (priority_of q a)) (q_first q) = Some n"
        using find_place_result [of q1 "hd qs" ys "T (priority_of q a)"] c(1) ys f(2) PT by (simp add: n_def q1_def)
      define q' where "q' = link_after n a q1"
      have tw: "takeWhile P qs = hd qs # takeWhile P ys" using ys 3(1) by (metis takeWhile.simps(2))
      then obtain us where us: "takeWhile P qs = us @ [n]" unfolding n_def by (metis append_butlast_last_id list.distinct(1))
      have split: "qs = us @ n # dropWhile P qs" using us by (metis append.assoc append_Cons append_Nil takeWhile_dropWhile_id)
      have nq: "n \<in> set qs" by (subst split) simp
      then have n: "n \<notin> set fs" "n \<noteq> a" using queue_parts(5) [OF Q] by auto
      have at: "chain (links_of q1) (q_first q) (us @ n # dropWhile P qs)" "distinct (us @ n # dropWhile P qs)" "a \<notin> set (us @ n # dropWhile P qs)"
        using c(1) queue_parts(5) [OF Q] a(2) unfolding split [symmetric] by simp_all
      have dw: "dropWhile P qs \<noteq> []" using 3(2) ne by (metis dropWhile_eq_Nil_conv last_in_set)
      show ?thesis
      proof (rule fin [of q'])
        show "pushNode a insertFirst q = Some q'" using push f 3 find by (simp add: q'_def)
        show "kept q1 q'" unfolding q'_def link_after_def
          by (rule kept_trans [OF kept_set_next kept_set_next]) (use a(4) ok [OF nq] in \<open>simp_all add: q1_def\<close>)
        have "chain ((links_of q1)(a := next_of q1 n, n := a)) (q_first q) (us @ n # a # dropWhile P qs)"
          by (rule chain_insert [OF at(1,2) a(1) at(3)])
        then show "chain (links_of q') (q_first q') (takeWhile P qs @ a # dropWhile P qs)"
          unfolding us by (simp add: q'_def link_after_def q1_def)
        show "q_last q' = last (takeWhile P qs @ a # dropWhile P qs)"
          using f(3) dw last_appendR [OF dw, of "takeWhile P qs"] unfolding takeWhile_dropWhile_id by (auto simp: q'_def link_after_def q1_def)
        show "chain (links_of q') (f_first q) fs" using c(2) n(1) a(3) by (simp add: q'_def link_after_def)
      qed
    qed
  qed
qed

section \<open>Giving a node back\<close>

lemma freeNode_preallocated:
  assumes Q: "queue_of q qs fs (a # hs)" and b: "block_of a = 0"
  obtains q' where "freeNode a q = Some q'" "queue_of q' qs (a # fs) hs" "same_values q q'" "q_made q' = q_made q" "q_live q' = q_live q"
    "q_fault q' = q_fault q" "f_last q' = (if f_last q = 0 then a else f_last q)"
proof -
  have a: "a \<noteq> 0" "a \<notin> set qs" "a \<notin> set fs" "node_block q a = 0"
    using queue_parts(5) [OF Q] queue_node [OF Q, of a] b by auto
  define q1 where "q1 = (set_next a (f_first q) q)\<lparr> f_first := a \<rparr>"
  define q' where "q' = (if f_last q1 = 0 then q1\<lparr> f_last := f_first q1 \<rparr> else q1)"
  have fl: "f_last q' = (if f_last q = 0 then a else f_last q)" by (simp add: q'_def q1_def)
  have same: "q_nodes q' = q_nodes (set_next a (f_first q) q)" "q_first q' = q_first q" "q_last q' = q_last q" "f_first q' = a"
      "q_made q' = q_made q" "q_live q' = q_live q" "q_used q' = q_used q" by (simp_all add: q'_def q1_def)
  have "chain (links_of q') (f_first q') (a # fs)"
    using queue_parts(3) [OF Q] a unfolding same by simp
  moreover have "f_last q' \<in> set (qs @ (a # fs) @ hs) \<longrightarrow> f_last q' = last (a # fs)"
    using queue_parts(4,9) [OF Q] fl by auto
  ultimately have "queue_of q' qs (a # fs) hs"
    using Q a unfolding queue_of_def same by (auto simp: fl)
  moreover have "freeNode a q = Some q'" using a(4) by (simp add: freeNode_def q'_def q1_def Let_def)
  moreover have "q_fault q' = q_fault q" by (auto simp: q'_def q1_def set_next_def b)
  moreover have "same_values q q'" by (simp add: same_values_def same)
  ultimately show thesis using that fl same by blast
qed

lemma chain_glue:
  "chain nx a (xs @ y # ys) \<Longrightarrow> \<forall>x\<in>set xs. nx' x = nx x \<Longrightarrow> chain nx' (nx' y) zs \<Longrightarrow> chain nx' a (xs @ y # zs)"
  by (induction xs arbitrary: a) auto

lemma skip_preallocated_result:
  "chain (links_of q) n ns \<Longrightarrow> \<exists>m. skip_preallocated q t n = Some (last (t # takeWhile (\<lambda>x. node_block q x = 0) ns), m)
    \<and> chain (links_of q) m (dropWhile (\<lambda>x. node_block q x = 0) ns)"
proof (induction ns arbitrary: n t)
  case Nil
  then show ?case by (subst skip_preallocated.simps) simp
next
  case (Cons x ns)
  then show ?case
  proof (cases "node_block q x = 0")
    case True
    then have "skip_preallocated q t n = skip_preallocated q x (next_of q x)" using Cons.prems by (subst skip_preallocated.simps) simp
    then show ?thesis using Cons.IH [of "next_of q x" x] Cons.prems True by simp
  next
    case False
    then show ?thesis using Cons.prems by (subst skip_preallocated.simps) simp
  qed
qed

lemma skip_block_result:
  "chain (links_of q) n ns \<Longrightarrow> \<exists>m. skip_block q k n = Some m \<and> chain (links_of q) m (dropWhile (\<lambda>x. node_block q x = k) ns)"
proof (induction ns arbitrary: n)
  case Nil
  then show ?case by (subst skip_block.simps) simp
next
  case (Cons x ns)
  then show ?case
  proof (cases "node_block q x = k")
    case True
    then have "skip_block q k n = skip_block q k (next_of q x)" using Cons.prems by (subst skip_block.simps) simp
    then show ?thesis using Cons.IH [of "next_of q x"] Cons.prems True by simp
  next
    case False
    then show ?thesis using Cons.prems by (subst skip_block.simps) simp
  qed
qed

text \<open>What the free list's own links leave alone.\<close>

definition unmoved :: "'v pqueue \<Rightarrow> 'v pqueue \<Rightarrow> bool" where
  "unmoved q q' \<longleftrightarrow> same_values q q' \<and> (\<forall>x. node_block q' x = node_block q x) \<and> q_first q' = q_first q \<and> q_last q' = q_last q
     \<and> f_last q' = f_last q \<and> q_used q' = q_used q \<and> q_made q' = q_made q \<and> q_live q' = q_live q"

lemma unmoved_trans: "unmoved q q' \<Longrightarrow> unmoved q' q'' \<Longrightarrow> unmoved q q''"
  by (simp add: unmoved_def same_values_def)

lemma write_target_unmoved: "unmoved q (write_target t n q)"
  by (simp add: unmoved_def same_values_def write_target_def)

lemma unlink_block_result:
  fixes q :: "'v pqueue"
  shows "chain (links_of q) n ns \<Longrightarrow> distinct ns \<Longrightarrow> t \<notin> set ns \<Longrightarrow>
    \<exists>q'. unlink_block k t n q = Some q' \<and> unmoved q q'
      \<and> chain (links_of q') (if t = 0 then f_first q' else next_of q' t) (filter (\<lambda>x. node_block q x \<noteq> k) ns)
      \<and> (\<forall>x. x \<notin> insert t (set ns) \<longrightarrow> next_of q' x = next_of q x) \<and> (t \<noteq> 0 \<longrightarrow> f_first q' = f_first q)"
proof (induction "length ns" arbitrary: n ns t q rule: less_induct)
  case less
  let ?ns = "dropWhile (\<lambda>x. node_block q x = k) ns"
  obtain m where m: "skip_block q k n = Some m" "chain (links_of q) m ?ns" using skip_block_result [OF less.prems(1)] by blast
  have f: "filter (\<lambda>x. node_block q x \<noteq> k) ns = filter (\<lambda>x. node_block q x \<noteq> k) ?ns" by (induction ns) auto
  define q1 where "q1 = write_target t m q"
  have u1: "unmoved q q1" by (simp add: q1_def write_target_unmoved)
  have l1: "next_of q1 x = (if x = t \<and> t \<noteq> 0 then m else next_of q x)" for x by (simp add: q1_def write_target_def next_set)
  have f1: "f_first q1 = (if t = 0 then m else f_first q)" by (simp add: q1_def write_target_def)
  have step: "unlink_block k t n q = (if m \<noteq> 0 then unlink_block k m (next_of q1 m) q1 else Some q1)"
    using m(1) by (subst unlink_block.simps) (simp add: q1_def Let_def)
  show ?case
  proof (cases ?ns)
    case Nil
    have m0: "m = 0" using m(2) unfolding Nil by simp
    have fn: "filter (\<lambda>x. node_block q x \<noteq> k) ns = []" using f unfolding Nil by simp
    show ?thesis unfolding fn using step u1 l1 f1 m0 by (intro exI [of _ q1]) auto
  next
    case (Cons y ys)
    then have y: "m = y" "y \<noteq> 0" "chain (links_of q) (next_of q y) ys" "node_block q y \<noteq> k"
      using m(2) iffD1 [OF dropWhile_eq_Cons_conv Cons] unfolding Cons by simp_all
    have sub: "set ?ns \<subseteq> set ns" "distinct ?ns" "length ?ns \<le> length ns" using less.prems(2) by (auto dest: set_dropWhileD simp: length_dropWhile_le)
    then have ys: "set ys \<subseteq> set ns" "y \<in> set ns" "y \<notin> set ys" "distinct ys" "length ys < length ns" unfolding Cons by auto
    have ty: "links_of q1 x = links_of q x" if "x \<in> set ys \<or> x = y" for x using that less.prems(3) ys l1 by auto
    have "chain (links_of q1) (next_of q1 y) ys = chain (links_of q) (next_of q1 y) ys" by (rule chain_cong) (simp add: ty)
    then have cy: "chain (links_of q1) (next_of q1 y) ys" using y(3) ty [of y] by simp
    obtain q' where q': "unlink_block k y (next_of q1 y) q1 = Some q'" "unmoved q1 q'"
        "chain (links_of q') (next_of q' y) (filter (\<lambda>x. node_block q1 x \<noteq> k) ys)"
        "\<forall>x. x \<notin> insert y (set ys) \<longrightarrow> next_of q' x = next_of q1 x" "f_first q' = f_first q1"
      using less.hyps [OF ys(5) cy ys(4,3)] y(2) by (simp only: if_False simp_thms) blast
    have b: "node_block q1 x = node_block q x" for x using u1 by (simp add: unmoved_def)
    have t: "t \<noteq> 0 \<Longrightarrow> next_of q' t = y" using q'(4) [rule_format, of t] less.prems(3) ys(1,2) l1 y(1) by auto
    have "chain (links_of q') y (y # filter (\<lambda>x. node_block q x \<noteq> k) ys)" using q'(3) y(2) by (simp add: b)
    moreover have "filter (\<lambda>x. node_block q x \<noteq> k) ns = y # filter (\<lambda>x. node_block q x \<noteq> k) ys" unfolding f Cons using y(4) by simp
    moreover have "\<forall>x. x \<notin> insert t (set ns) \<longrightarrow> next_of q' x = next_of q x"
    proof (intro allI impI)
      fix x assume "x \<notin> insert t (set ns)"
      then show "next_of q' x = next_of q x" using q'(4) [rule_format, of x] ys(1,2) l1 [of x] by auto
    qed
    ultimately show ?thesis
      using step q'(1,5) unmoved_trans [OF u1 q'(2)] y(1,2) t f1 by (intro exI [of _ q']) auto
  qed
qed

text \<open>When the last node of a block comes back, the free list keeps its other nodes.\<close>

lemma remove_block_result:
  assumes c: "chain (links_of q) (f_first q) fs" and d: "distinct fs" and k: "k \<noteq> 0"
  obtains q' where "remove_block k q = Some q'" "chain (links_of q') (f_first q') (filter (\<lambda>x. node_block q x \<noteq> k) fs)"
    "same_values q q'" "\<forall>x. node_block q' x = node_block q x" "\<forall>x. x \<noteq> 0 \<longrightarrow> x \<notin> set fs \<longrightarrow> next_of q' x = next_of q x"
    "q_first q' = q_first q" "q_last q' = q_last q" "f_last q' = f_last q" "q_used q' = q_used q" "q_made q' = q_made q"
    "q_live q' = removeAll k (q_live q)"
proof -
  let ?P = "\<lambda>x. node_block q x = 0"
  have z: "0 \<notin> set fs" by (rule chain_nonzero [OF c])
  obtain m where m: "skip_preallocated q 0 (f_first q) = Some (last (0 # takeWhile ?P fs), m)" "chain (links_of q) m (dropWhile ?P fs)"
    using skip_preallocated_result [OF c] by blast
  define t where "t = last (0 # takeWhile ?P fs)"
  have dd: "distinct (takeWhile ?P fs @ dropWhile ?P fs)" using d by simp
  have t: "t \<notin> set (dropWhile ?P fs)"
  proof (cases "takeWhile ?P fs = []")
    case True
    then show ?thesis using z by (auto simp: t_def dest: set_dropWhileD)
  next
    case False
    then have "t \<in> set (takeWhile ?P fs)" by (simp add: t_def)
    then show ?thesis using dd unfolding distinct_append by blast
  qed
  have tfs: "t \<noteq> 0 \<longrightarrow> t \<in> set fs"
  proof (cases "takeWhile ?P fs = []")
    case False
    then have "t \<in> set (takeWhile ?P fs)" by (simp add: t_def)
    then show ?thesis by (blast dest: set_takeWhileD)
  qed (simp add: t_def)
  have "distinct (dropWhile ?P fs)" using d by simp
  from unlink_block_result [OF m(2) this t, of k] obtain q1 where q1: "unlink_block k t m q = Some q1" "unmoved q q1"
    "chain (links_of q1) (if t = 0 then f_first q1 else next_of q1 t) (filter (\<lambda>x. node_block q x \<noteq> k) (dropWhile ?P fs))"
    "\<forall>x. x \<notin> insert t (set (dropWhile ?P fs)) \<longrightarrow> next_of q1 x = next_of q x" "t \<noteq> 0 \<longrightarrow> f_first q1 = f_first q" by blast
  define fs' where "fs' = filter (\<lambda>x. node_block q x \<noteq> k) (dropWhile ?P fs)"
  have keep: "filter (\<lambda>x. node_block q x \<noteq> k) (takeWhile ?P fs) = takeWhile ?P fs" using k by (auto intro!: filter_True dest: set_takeWhileD)
  have fs': "filter (\<lambda>x. node_block q x \<noteq> k) fs = takeWhile ?P fs @ fs'"
    using keep unfolding fs'_def by (metis filter_append takeWhile_dropWhile_id)
  have ch: "chain (links_of q1) (f_first q1) (takeWhile ?P fs @ fs')"
  proof (cases "takeWhile ?P fs = []")
    case True
    then show ?thesis using q1(3) unfolding fs'_def [symmetric] True by (simp add: t_def True)
  next
    case False
    then obtain us where us: "takeWhile ?P fs = us @ [t]" unfolding t_def by (metis append_butlast_last_id last.simps)
    have split: "fs = us @ t # dropWhile ?P fs" using us by (metis append.assoc append_Cons append_Nil takeWhile_dropWhile_id)
    have "t \<in> set fs" by (subst split) simp
    then have t0: "t \<noteq> 0" using z by metis
    have dus: "distinct (us @ t # dropWhile ?P fs)" using d unfolding split [symmetric] .
    have c': "chain (links_of q) (f_first q1) (us @ t # dropWhile ?P fs)" using c q1(5) t0 unfolding split [symmetric] by simp
    have "\<forall>x\<in>set us. links_of q1 x = links_of q x" using q1(4) dus by auto
    from chain_glue [OF c' this] have "chain (links_of q1) (f_first q1) (us @ t # fs')" using q1(3) t0 by (simp add: fs'_def)
    then show ?thesis unfolding us by simp
  qed
  define q' where "q' = deallocateBlock k q1"
  have "remove_block k q = Some q'" using m(1) q1(1) by (simp add: remove_block_def q'_def t_def)
  moreover have "\<forall>x. x \<noteq> 0 \<longrightarrow> x \<notin> set fs \<longrightarrow> next_of q1 x = next_of q x"
  proof (intro allI impI)
    fix x assume x0: "x \<noteq> 0" and x: "x \<notin> set fs"
    have "x \<notin> set (dropWhile ?P fs)" using x by (auto dest: set_dropWhileD)
    moreover have "x \<noteq> t" using x x0 tfs by metis
    ultimately show "next_of q1 x = next_of q x" using q1(4) x0 by blast
  qed
  moreover have "q_nodes q' = q_nodes q1" "f_first q' = f_first q1" "q_live q' = removeAll k (q_live q1)" "q_first q' = q_first q1"
      "q_last q' = q_last q1" "f_last q' = f_last q1" "q_used q' = q_used q1" "q_made q' = q_made q1" by (simp_all add: q'_def deallocateBlock_def)
  moreover have "same_values q q1" "\<forall>x. node_block q1 x = node_block q x" "q_first q1 = q_first q" "q_last q1 = q_last q" "f_last q1 = f_last q"
      "q_used q1 = q_used q" "q_made q1 = q_made q" "q_live q1 = q_live q" using q1(2) unfolding unmoved_def by blast+
  ultimately show thesis using ch by (intro that [of q']) (simp_all only: fs' same_values_def, simp_all)
qed

text \<open>A node of a block; when no other node of the block is in use, the block goes.\<close>

lemma free_at_end_result:
  assumes Q: "queue_of q qs fs (a # hs)"
  obtains q1 fs' where "free_at_end a q = q1" "chain (links_of q1) (f_first q1) fs'" "chain (links_of q1) (q_first q1) qs" "fs' = fs \<or> fs' = fs @ [a]"
    "distinct (qs @ fs' @ hs)" "f_last q1 = a" "a \<in> set fs' \<longrightarrow> last fs' = a" "same_values q q1" "\<forall>x. node_block q1 x = node_block q x"
    "q_first q1 = q_first q" "q_last q1 = q_last q" "q_used q1 = q_used q" "q_made q1 = q_made q" "q_live q1 = q_live q"
proof -
  have a: "a \<noteq> 0" "a \<notin> set qs" "a \<notin> set fs" "a \<notin> set hs" using queue_parts(5) [OF Q] queue_node [OF Q, of a] by auto
  define q0 where "q0 = set_next a 0 q"
  have c0: "chain (links_of q0) (q_first q) qs" "chain (links_of q0) (f_first q) fs" "links_of q0 a = 0"
    using queue_parts(1,3) [OF Q] a by (simp_all add: q0_def) (simp add: next_set)
  define q1 where "q1 = free_at_end a q"
  have e: "q1 = (if f_last q \<noteq> 0 then (set_next (f_last q) a q0)\<lparr> f_last := a \<rparr> else q0\<lparr> f_first := a, f_last := a \<rparr>)"
    by (simp add: q1_def free_at_end_def q0_def Let_def)
  have fl: "f_last q1 = a" and same: "same_values q q1" "\<forall>x. node_block q1 x = node_block q x"
    "q_first q1 = q_first q" "q_last q1 = q_last q" "q_used q1 = q_used q" "q_made q1 = q_made q" "q_live q1 = q_live q"
    unfolding e by (simp_all add: q0_def same_values_def)
  have nl: "f_last q \<notin> set qs" "f_last q \<noteq> a"
    using queue_parts(4,5) [OF Q] a last_in_set [of fs] by auto
  have cq: "chain (links_of q1) (q_first q1) qs" unfolding e using c0(1) nl(1) by (simp add: q0_def)
  define fs' where "fs' = (if f_last q = 0 then [a] else if f_last q \<in> set fs then fs @ [a] else fs)"
  have cf: "chain (links_of q1) (f_first q1) fs'"
  proof (cases "f_last q = 0")
    case True
    then show ?thesis using a c0(3) by (simp add: e fs'_def)
  next
    case z: False
    show ?thesis
    proof (cases "f_last q \<in> set fs")
      case True
      then have fs: "fs = butlast fs @ [f_last q]" using queue_parts(4) [OF Q] by simp
      have "distinct (butlast fs @ [f_last q])" "chain (links_of q0) (f_first q) (butlast fs @ [f_last q])"
        unfolding fs [symmetric] using c0(2) queue_parts(5) [OF Q] by simp_all
      from chain_append [OF this(2,1) a(1) c0(3) nl(2) [symmetric]]
      have ch: "chain (links_of q1) (f_first q1) (butlast fs @ [f_last q, a])" using z by (simp add: e q0_def)
      have "fs @ [a] = butlast fs @ [f_last q, a]" by (subst fs) simp
      then have "fs' = butlast fs @ [f_last q, a]" unfolding fs'_def using True z by (simp only: if_True if_False simp_thms)
      then show ?thesis using ch by simp
    next
      case False
      then show ?thesis using c0(2) z by (simp add: e fs'_def q0_def)
    qed
  qed
  have "a \<in> set fs' \<longrightarrow> last fs' = a" "fs' = fs \<or> fs' = fs @ [a]" using a(3) queue_parts(9) [OF Q] by (auto simp: fs'_def)
  moreover have "distinct (qs @ fs' @ hs)" using queue_parts(5,9) [OF Q] by (auto simp: fs'_def)
  ultimately show thesis using that [OF q1_def [symmetric] cf cq] fl same by blast
qed

lemma freeNode_block:
  assumes Q: "queue_of q qs fs (a # hs)" and b: "block_of a \<noteq> 0"
  shows "\<exists>q' fs'. freeNode a q = Some q' \<and> queue_of q' qs fs' hs \<and> same_values q q' \<and> f_last q' = a
    \<and> filter (\<lambda>x. block_of x = 0) fs' = filter (\<lambda>x. block_of x = 0) fs
    \<and> q_live q' = (if block_of a \<in> block_of ` set (qs @ hs) then q_live q else removeAll (block_of a) (q_live q))"
proof -
  note node = queue_node [OF Q]
  define k where "k = block_of a"
  have a: "a \<notin> set qs" "a \<notin> set hs" "node_block q a = k" "k \<noteq> 0" "a < block_start (q_made q + 1)" "a \<noteq> 0" "k \<in> set (q_live q)"
    using queue_parts(5) [OF Q] node [of a] b by (auto simp: k_def)
  obtain q1 fs' where q1: "free_at_end a q = q1" "chain (links_of q1) (f_first q1) fs'" "chain (links_of q1) (q_first q1) qs"
      "fs' = fs \<or> fs' = fs @ [a]" "distinct (qs @ fs' @ hs)" "f_last q1 = a" "a \<in> set fs' \<longrightarrow> last fs' = a" "same_values q q1"
      "\<forall>x. node_block q1 x = node_block q x" "q_first q1 = q_first q" "q_last q1 = q_last q" "q_used q1 = q_used q" "q_made q1 = q_made q"
      "q_live q1 = q_live q" by (rule free_at_end_result [OF Q])
  have pos: "q_used q1 k \<noteq> 0" using queue_parts(8) [OF Q, of k] a(4) by (simp add: q1(12) k_def)
  define q2 where "q2 = q1\<lparr> q_used := (q_used q1)(k := q_used q1 k - 1) \<rparr>"
  have free: "freeNode a q = (if q_used q2 k = 0 then remove_block k q2 else Some q2)"
    using a(3,4) pos by (simp add: freeNode_def q1(1) q2_def Let_def)
  have u2: "q_used q2 j = (if j = 0 then 0 else length (filter (\<lambda>a. block_of a = j) (qs @ hs)))" for j
    using queue_parts(8) [OF Q, of j] a(4) by (cases "j = 0"; cases "j = k") (auto simp: q2_def q1(12) k_def)
  have ns: "x \<noteq> 0 \<and> x < block_start (q_made q + 1) \<and> node_block q x = block_of x \<and> (block_of x = 0 \<or> block_of x \<in> set (q_live q))"
    if "x \<in> set (qs @ fs' @ hs)" for x
    using that disjE [OF q1(4), of "x \<in> set (qs @ fs @ a # hs)"] node [of x] by fastforce
  have pre: "filter (\<lambda>x. block_of x = 0) fs' = filter (\<lambda>x. block_of x = 0) fs" using q1(4) b by auto
  have al: "a \<in> set (qs @ fs' @ hs) \<longrightarrow> fs' \<noteq> [] \<and> a = last fs'" using a q1(7) by auto
  have srt: "sorted (map (priority_of q) qs)" by (rule queue_parts(7) [OF Q])
  have pr: "priority_of q1 x = priority_of q x" for x using q1(8) by (simp add: same_values_def)
  have q2: "q_nodes q2 = q_nodes q1" "q_first q2 = q_first q1" "q_last q2 = q_last q1" "f_first q2 = f_first q1" "f_last q2 = f_last q1"
      "q_made q2 = q_made q1" "q_live q2 = q_live q1" by (simp_all add: q2_def)
  show ?thesis
  proof (cases "q_used q2 k = 0")
    case False
    have "queue_of q2 qs fs' hs"
      unfolding queue_of_def using q1(2,3,5,6,9-14) q2 u2 al a(5,6) srt pr ns queue_parts(2) [OF Q] by simp
    moreover have "k \<in> block_of ` set (qs @ hs)"
    proof -
      have "filter (\<lambda>x. block_of x = k) (qs @ hs) \<noteq> []" using False u2 [of k] a(4) by auto
      then show ?thesis by (auto simp: filter_empty_conv)
    qed
    ultimately show ?thesis using free False q1(6,8,14) pre unfolding k_def [symmetric]
      by (intro exI [of _ q2] exI [of _ fs']) (simp add: same_values_def q2)
  next
    case True
    have none: "filter (\<lambda>x. block_of x = k) (qs @ hs) = []" using True u2 [of k] a(4) by simp
    have c2: "chain (links_of q2) (f_first q2) fs'" using q1(2) q2 by simp
    have d: "distinct fs'" using q1(5) by simp
    obtain q3 where q3: "remove_block k q2 = Some q3" "chain (links_of q3) (f_first q3) (filter (\<lambda>x. node_block q2 x \<noteq> k) fs')"
      "same_values q2 q3" "\<forall>x. node_block q3 x = node_block q2 x" "\<forall>x. x \<noteq> 0 \<longrightarrow> x \<notin> set fs' \<longrightarrow> next_of q3 x = next_of q2 x"
      "q_first q3 = q_first q2" "q_last q3 = q_last q2" "f_last q3 = f_last q2" "q_used q3 = q_used q2" "q_made q3 = q_made q2"
      "q_live q3 = removeAll k (q_live q2)" by (rule remove_block_result [OF c2 d a(4)])
    define fs2 where "fs2 = filter (\<lambda>x. node_block q2 x \<noteq> k) fs'"
    have sub: "set fs2 \<subseteq> set fs'" "a \<notin> set fs2" using a(3) q1(9) by (auto simp: fs2_def q2)
    have cq: "chain (links_of q3) (q_first q3) qs"
    proof -
      have "links_of q3 x = links_of q1 x" if "x \<in> set qs" for x using that q3(5) ns [of x] q1(5) q2 by auto
      then show ?thesis using q1(3) q3(6) q2 chain_cong [of qs "links_of q3" "links_of q1"] by simp
    qed
    have "\<forall>x\<in>set (qs @ fs2 @ hs). x \<noteq> 0 \<and> x < block_start (q_made q3 + 1) \<and> node_block q3 x = block_of x
        \<and> (block_of x = 0 \<or> block_of x \<in> set (q_live q3))"
    proof
      fix x assume x: "x \<in> set (qs @ fs2 @ hs)"
      have "x \<in> set (qs @ fs' @ hs)" using x sub(1) by auto
      note n = ns [OF this]
      have "block_of x \<noteq> k"
      proof (cases "x \<in> set fs2")
        case True
        then have "node_block q x \<noteq> k" using q1(9) by (simp add: fs2_def q2)
        then show ?thesis using n by simp
      next
        case False
        then show ?thesis using x none by (auto simp: filter_empty_conv)
      qed
      moreover have "q_made q3 = q_made q" "node_block q3 x = node_block q x" "q_live q3 = removeAll k (q_live q)"
        using q3(4,10,11) q1(9,13,14) q2 by simp_all
      ultimately show "x \<noteq> 0 \<and> x < block_start (q_made q3 + 1) \<and> node_block q3 x = block_of x \<and> (block_of x = 0 \<or> block_of x \<in> set (q_live q3))"
        using n by simp
    qed
    moreover have "distinct (qs @ fs2 @ hs)" using q1(5) by (auto simp: fs2_def)
    moreover have f3: "f_last q3 = a" "q_made q3 = q_made q" "q_last q3 = q_last q" "q_used q3 = q_used q2" "priority_of q3 = priority_of q"
      using q3(3,7-10) q1(6,11,13) pr q2 by (auto simp: same_values_def fun_eq_iff)
    moreover have "f_last q3 \<in> set (qs @ fs2 @ hs) \<longrightarrow> fs2 \<noteq> [] \<and> f_last q3 = last fs2" using a(1,2) sub(2) f3(1) by simp
    moreover have "f_last q3 < block_start (q_made q3 + 1)" "f_last q3 = 0 \<longrightarrow> fs2 = []" using a(5,6) f3(1,2) by simp_all
    moreover have "\<forall>j. q_used q3 j = (if j = 0 then 0 else length (filter (\<lambda>a. block_of a = j) (qs @ hs)))" unfolding f3 using u2 by blast
    moreover have "sorted (map (priority_of q3) qs)" unfolding f3 by (rule srt)
    moreover have "q_last q3 = (if qs = [] then 0 else last qs)" unfolding f3 by (rule queue_parts(2) [OF Q])
    ultimately have "queue_of q3 qs fs2 hs"
      unfolding queue_of_def using q3(2) [folded fs2_def] cq by (intro conjI) assumption+
    moreover have "k \<notin> block_of ` set (qs @ hs)" using none by (auto simp: filter_empty_conv)
    moreover have "filter (\<lambda>x. block_of x = 0) fs2 = filter (\<lambda>x. block_of x = 0) fs"
    proof -
      have "node_block q2 x \<noteq> k \<and> block_of x = 0 \<longleftrightarrow> block_of x = 0" if "x \<in> set fs'" for x
        using ns [of x] that a(4) q1(9) q2 by auto
      then have "filter (\<lambda>x. block_of x = 0) fs2 = filter (\<lambda>x. block_of x = 0) fs'" by (auto simp: fs2_def intro: filter_cong)
      then show ?thesis using pre by simp
    qed
    moreover have "q_live q3 = removeAll k (q_live q)" using q3(11) q1(14) q2 by simp
    ultimately show ?thesis using free True q3(1,3) q1(8) f3(1) unfolding k_def [symmetric]
      by (intro exI [of _ q3] exI [of _ fs2]) (simp add: same_values_def q2)
  qed
qed

lemma freeNode_result:
  assumes Q: "queue_of q qs fs (a # hs)"
  obtains q' fs' where "freeNode a q = Some q'" "queue_of q' qs fs' hs" "same_values q q'"
  using freeNode_preallocated [OF Q] freeNode_block [OF Q] by blast

end
