(* ===== verification/QueueClaims.thy ===== *)
theory QueueClaims
  imports PriorityQueue "HOL-Library.Multiset"
begin

text \<open>
  What the queue of \<^verbatim>\<open>common/memory/SPMemPriorityQueue.h\<close> does over any sequence of operations, and where it fails.
\<close>

section \<open>The queue is a stable priority queue\<close>

text \<open>What is pending, in the order it is served.\<close>

definition item :: "'v pqueue \<Rightarrow> nat \<Rightarrow> int \<times> 'v" where
  "item q a = (priority_of q a, q_value (q_nodes q a))"

abbreviation items :: "'v pqueue \<Rightarrow> nat list \<Rightarrow> (int \<times> 'v) list" where
  "items q qs \<equiv> map (item q) qs"

lemma item_same: "same_values q q' \<Longrightarrow> item q' = item q"
  by (simp add: item_def same_values_def fun_eq_iff)

lemma fst_item [simp]: "fst (item q a) = priority_of q a"
  by (simp add: item_def)

definition place :: "int \<Rightarrow> bool \<Rightarrow> 'v \<Rightarrow> (int \<times> 'v) list \<Rightarrow> (int \<times> 'v) list" where
  "place p insertFirst v xs =
     (let P = (\<lambda>x. if insertFirst then fst x < p else fst x \<le> p) in takeWhile P xs @ (p, v) # dropWhile P xs)"

text \<open>The value of a node in hand is nobody's yet.\<close>

lemma set_value_queue:
  fixes p :: int and v :: 'v
  assumes Q: "queue_of q qs fs (a # hs)"
  defines "q' \<equiv> q\<lparr> q_nodes := (q_nodes q)(a := (q_nodes q a)\<lparr> q_priority := p, q_value := v \<rparr>) \<rparr>"
  shows "queue_of q' qs fs (a # hs)" "items q' qs = items q qs" "item q' a = (p, v)"
proof -
  have a: "a \<notin> set qs" using queue_parts(5) [OF Q] by auto
  have l: "links_of q' = links_of q" "\<And>x. node_block q' x = node_block q x" by (auto simp: q'_def)
  have m: "map (priority_of q') qs = map (priority_of q) qs" using a by (auto simp: q'_def)
  have f: "q_first q' = q_first q" "q_last q' = q_last q" "f_first q' = f_first q" "f_last q' = f_last q" "q_made q' = q_made q"
    "q_live q' = q_live q" "q_used q' = q_used q" by (simp_all add: q'_def)
  show "queue_of q' qs fs (a # hs)" using Q unfolding queue_of_def l m f .
  show "items q' qs = items q qs" using a by (auto simp: q'_def item_def)
  show "item q' a = (p, v)" by (simp add: q'_def item_def)
qed

lemma Queue_push_with:
  assumes a: "Queue_allocateNode q = (a, q1)" "queue_of q1 qs fs [a]" "same_values q q1"
  obtains q' qs' where "Queue_push p insertFirst v q = Some q'" "queue_of q' qs' fs []" "items q' qs' = place p insertFirst v (items q qs)"
    "length qs' = Suc (length qs)" "f_last q' = f_last q1" "q_made q' = q_made q1" "q_live q' = q_live q1" "q_fault q' = q_fault q1"
    "\<forall>R. length (filter R qs') = length (filter R qs) + (if R a then 1 else 0)"
proof -
  define q2 where "q2 = q1\<lparr> q_nodes := (q_nodes q1)(a := (q_nodes q1 a)\<lparr> q_priority := p, q_value := v \<rparr>) \<rparr>"
  note v2 = set_value_queue [OF a(2), where p = p and v = v, folded q2_def]
  have pa: "priority_of q2 a = p" by (simp add: q2_def)
  define P where "P = (\<lambda>x. if insertFirst then priority_of q2 x < p else priority_of q2 x \<le> p)"
  define qs' where "qs' = takeWhile P qs @ a # dropWhile P qs"
  obtain q3 where q3: "pushNode a insertFirst q2 = Some q3" "queue_of q3 qs' fs []" "kept q2 q3"
    using pushNode_result [OF v2(1), of insertFirst] unfolding pa P_def qs'_def by blast
  have i3: "item q3 = item q2" using q3(3) by (intro item_same) (simp add: kept_def)
  have "items q2 qs = items q qs" using v2(2) item_same [OF a(3)] by simp
  moreover have "items q3 qs' = place p insertFirst v (items q2 qs)"
    unfolding i3 place_def Let_def qs'_def by (simp add: v2(3) takeWhile_map dropWhile_map comp_def P_def)
  ultimately have "items q3 qs' = place p insertFirst v (items q qs)" by metis
  moreover have "length qs' = Suc (length qs)"
    unfolding qs'_def by (metis add_Suc_right length_Cons length_append takeWhile_dropWhile_id)
  moreover have "\<forall>R. length (filter R qs') = length (filter R qs) + (if R a then 1 else 0)" unfolding qs'_def by (intro allI) (rule place_filter)
  moreover have "Queue_push p insertFirst v q = Some q3" using a(1) q3(1) by (simp add: Queue_push_def q2_def)
  ultimately show thesis using that [of q3 qs'] q3(2,3) by (simp add: kept_def q2_def)
qed

lemma Queue_push_result:
  assumes Q: "queue_of q qs fs []"
  obtains q' qs' fs' where "Queue_push p insertFirst v q = Some q'" "queue_of q' qs' fs' []" "items q' qs' = place p insertFirst v (items q qs)"
proof -
  obtain a q1 fs1 where a: "Queue_allocateNode q = (a, q1)" "queue_of q1 qs fs1 [a]" "same_values q q1" by (rule Queue_allocateNode_result [OF Q])
  show thesis by (rule Queue_push_with [OF a]) (rule that)
qed

lemma Queue_pop_empty: "queue_of q [] fs [] \<Longrightarrow> Queue_pop q = Some (None, q)"
  by (simp add: Queue_pop_def popNode_empty)

lemma Queue_pop_result:
  assumes Q: "queue_of q (x # qs) fs []"
  obtains q' fs' where "Queue_pop q = Some (Some (item q x), q')" "queue_of q' qs fs' []" "items q' qs = items q qs"
proof -
  obtain q1 where q1: "popNode q = (x, q1)" "queue_of q1 qs fs [x]" "same_values q q1" by (rule popNode_result [OF Q])
  obtain q2 fs2 where q2: "freeNode x q1 = Some q2" "queue_of q2 qs fs2 []" "same_values q1 q2" by (rule freeNode_result [OF q1(2)])
  have "x \<noteq> 0" using queue_node(1) [OF Q, of x] by simp
  then have "Queue_pop q = Some (Some (item q1 x), q2)" by (simp add: Queue_pop_def item_def q1(1) q2(1))
  then show thesis using that [of q2 fs2] q2(2) item_same [OF q1(3)] item_same [OF q2(3)] by simp
qed

lemma Queue_clear_result: "queue_of q qs fs [] \<Longrightarrow> \<exists>q' fs'. Queue_clear q = Some q' \<and> queue_of q' [] fs' []"
proof (induction qs arbitrary: q fs)
  case Nil
  then show ?case by (subst Queue_clear.simps) (auto simp: popNode_empty)
next
  case (Cons x qs)
  obtain q1 where q1: "popNode q = (x, q1)" "queue_of q1 qs fs [x]" "same_values q q1" by (rule popNode_result [OF Cons.prems])
  obtain q2 fs2 where q2: "freeNode x q1 = Some q2" "queue_of q2 qs fs2 []" "same_values q1 q2" by (rule freeNode_result [OF q1(2)])
  have "x \<noteq> 0" using queue_node(1) [OF Cons.prems, of x] by simp
  then show ?case using Cons.IH [OF q2(2)] q1(1) q2(1) by (subst Queue_clear.simps) simp
qed

lemma foreach_from_result: "chain (links_of q) a qs \<Longrightarrow> foreach_from q a = Some (items q qs)"
proof (induction qs arbitrary: a)
  case Nil
  then show ?case by (subst foreach_from.simps) simp
next
  case (Cons x qs)
  then have "foreach_from q (next_of q x) = Some (items q qs)" by simp
  then show ?case using Cons.prems by (subst foreach_from.simps) (simp add: item_def)
qed

lemma Queue_foreach_result: "queue_of q qs fs [] \<Longrightarrow> Queue_foreach q = Some (items q qs)"
  unfolding Queue_foreach_def by (rule foreach_from_result [OF queue_parts(1)])

lemma Queue_empty_result: "queue_of q qs fs [] \<Longrightarrow> Queue_empty q \<longleftrightarrow> qs \<noteq> []" "queue_of q qs fs [] \<Longrightarrow> Queue_empty_locked q \<longleftrightarrow> qs = []"
  using queue_parts(1) chain_start by (fastforce simp: Queue_empty_def Queue_empty_locked_def)+

subsection \<open>Runs\<close>

datatype 'v queue_op = Op_push int bool 'v | Op_pop | Op_clear | Op_empty | Op_foreach

datatype 'v queue_out = Done | Popped "(int \<times> 'v) option" | Answer bool | Listed "(int \<times> 'v) list"

fun queue_step :: "'v queue_op \<Rightarrow> 'v pqueue \<Rightarrow> ('v queue_out \<times> 'v pqueue) option" where
  "queue_step (Op_push p insertFirst v) q = map_option (\<lambda>q. (Done, q)) (Queue_push p insertFirst v q)"
| "queue_step Op_pop q = map_option (\<lambda>(x, q). (Popped x, q)) (Queue_pop q)"
| "queue_step Op_clear q = map_option (\<lambda>q. (Done, q)) (Queue_clear q)"
| "queue_step Op_empty q = Some (Answer (Queue_empty q), q)"
| "queue_step Op_foreach q = map_option (\<lambda>xs. (Listed xs, q)) (Queue_foreach q)"

fun queue_run :: "'v queue_op list \<Rightarrow> 'v pqueue \<Rightarrow> ('v queue_out list \<times> 'v pqueue) option" where
  "queue_run [] q = Some ([], q)"
| "queue_run (x # xs) q =
     Option.bind (queue_step x q) (\<lambda>(y, q). map_option (\<lambda>(ys, q). (y # ys, q)) (queue_run xs q))"

text \<open>
  The promise: what is pending is kept in the order of arrival, a value put first arrives before all others; the one
  taken is the first of those with the least priority.
\<close>

fun arrival_step :: "'v queue_op \<Rightarrow> (int \<times> 'v) list \<Rightarrow> 'v queue_out \<times> (int \<times> 'v) list" where
  "arrival_step (Op_push p insertFirst v) xs = (Done, if insertFirst then (p, v) # xs else xs @ [(p, v)])"
| "arrival_step Op_pop xs = (case sort_key fst xs of [] \<Rightarrow> (Popped None, xs) | y # ys \<Rightarrow> (Popped (Some y), remove1 y xs))"
| "arrival_step Op_clear xs = (Done, [])"
| "arrival_step Op_empty xs = (Answer (xs \<noteq> []), xs)"
| "arrival_step Op_foreach xs = (Listed (sort_key fst xs), xs)"

fun arrival_run :: "'v queue_op list \<Rightarrow> (int \<times> 'v) list \<Rightarrow> 'v queue_out list" where
  "arrival_run [] xs = []"
| "arrival_run (x # xs) ys = fst (arrival_step x ys) # arrival_run xs (snd (arrival_step x ys))"

lemma place_front: "sorted (map fst xs) \<Longrightarrow> place p True v xs = insort_key fst (p, v) xs"
proof (induction xs)
  case (Cons x xs)
  then show ?case
  proof (cases "fst x < p")
    case True
    then show ?thesis using Cons by (simp add: place_def Let_def)
  next
    case False
    then show ?thesis by (simp add: place_def Let_def)
  qed
qed (simp add: place_def)

lemma place_back_facts:
  "sorted (map fst xs) \<Longrightarrow> mset (place p False v xs) = add_mset (p, v) (mset xs) \<and> sorted (map fst (place p False v xs))
     \<and> filter (\<lambda>x. k = fst x) (place p False v xs) = filter (\<lambda>x. k = fst x) (xs @ [(p, v)])"
proof (induction xs)
  case (Cons x xs)
  have set_place: "set (place p False v xs) = insert (p, v) (set xs)" by (simp only: place_def Let_def if_False place_set)
  show ?case
  proof (cases "fst x \<le> p")
    case True
    then have "place p False v (x # xs) = x # place p False v xs" by (simp add: place_def Let_def)
    then show ?thesis using Cons True set_place by auto
  next
    case False
    then have "filter (\<lambda>y. k = fst y) (x # xs) = []" if "k = p" using Cons.prems that by (auto simp: filter_empty_conv)
    then show ?thesis using Cons.prems False by (auto simp: place_def Let_def)
  qed
qed (auto simp: place_def Let_def)

lemma place_back:
  fixes xs :: "(int \<times> 'v) list"
  shows "place p False v (sort_key fst xs) = sort_key fst (xs @ [(p, v)])"
proof (rule properties_for_sort_key [symmetric])
  note f = place_back_facts [of "sort_key fst xs", where p = p and v = v, simplified]
  show "mset (place p False v (sort_key fst xs)) = mset (xs @ [(p, v)])" using f by simp
  show "sorted (map fst (place p False v (sort_key fst xs)))" using f by blast
  show "filter (\<lambda>x. fst k = fst x) (place p False v (sort_key fst xs)) = filter (\<lambda>x. fst k = fst x) (xs @ [(p, v)])" for k :: "int \<times> 'v"
    using f [of "fst k"] sort_key_stable [of fst "fst k" xs] by (simp add: eq_commute)
qed

lemma sort_key_pop:
  fixes xs :: "(int \<times> 'v) list"
  assumes s: "sort_key fst xs = y # ys"
  shows "sort_key fst (remove1 y xs) = ys"
proof (rule properties_for_sort_key)
  have m: "mset xs = add_mset y (mset ys)" using s by (metis mset.simps(2) mset_sort)
  then show "mset ys = mset (remove1 y xs)" by simp
  show "sorted (map fst ys)" using sorted_sort_key [of fst xs] unfolding s by simp
  show "filter (\<lambda>x. fst k = fst x) ys = filter (\<lambda>x. fst k = fst x) (remove1 y xs)" for k :: "int \<times> 'v"
  proof -
    have f: "filter (\<lambda>x. fst k = fst x) (y # ys) = filter (\<lambda>x. fst k = fst x) xs"
      using sort_key_stable [of fst "fst k" xs] unfolding s by (simp only: eq_commute)
    have "remove1 y (filter (\<lambda>x. fst k = fst x) (y # ys)) = filter (\<lambda>x. fst k = fst x) ys"
      by (cases "fst k = fst y") (auto simp: remove1_idem)
    then show ?thesis unfolding f filter_remove1 [symmetric] by (rule sym)
  qed
qed

lemma queue_step_arrival:
  assumes Q: "queue_of q qs fs []" and i: "items q qs = sort_key fst xs"
  shows "\<exists>q' qs' fs'. queue_step x q = Some (fst (arrival_step x xs), q') \<and> queue_of q' qs' fs' []
    \<and> items q' qs' = sort_key fst (snd (arrival_step x xs))"
proof (cases x)
  case (Op_push p insertFirst v)
  obtain q' qs' fs' where r: "Queue_push p insertFirst v q = Some q'" "queue_of q' qs' fs' []" "items q' qs' = place p insertFirst v (sort_key fst xs)"
    using Queue_push_result [OF Q] unfolding i by blast
  have "place p insertFirst v (sort_key fst xs) = sort_key fst (snd (arrival_step x xs))"
    by (cases insertFirst) (simp_all add: Op_push place_back place_front)
  then show ?thesis using r Op_push by auto
next
  case Op_pop
  show ?thesis
  proof (cases qs)
    case Nil
    then have "sort_key fst xs = []" using i by simp
    then show ?thesis using Q Queue_pop_empty Nil Op_pop by fastforce
  next
    case (Cons y ys)
    obtain q' fs' where r: "Queue_pop q = Some (Some (item q y), q')" "queue_of q' ys fs' []" "items q' ys = items q ys"
      by (rule Queue_pop_result [OF Q [unfolded Cons]])
    have s: "sort_key fst xs = item q y # items q ys" using i Cons by simp
    have "items q' ys = sort_key fst (remove1 (item q y) xs)" using r(3) sort_key_pop [OF s] by simp
    then show ?thesis using r(1,2) s Op_pop by auto
  qed
next
  case Op_clear
  then show ?thesis using Queue_clear_result [OF Q] by auto
next
  case Op_empty
  have "qs = [] \<longleftrightarrow> xs = []" using arg_cong [OF i, of length] by (simp del: map_eq_conv) (metis length_0_conv)
  then show ?thesis using Op_empty Queue_empty_result(1) [OF Q] Q i by auto
next
  case Op_foreach
  then show ?thesis using Queue_foreach_result [OF Q] Q i by auto
qed

lemma queue_run_arrival:
  "queue_of q qs fs [] \<Longrightarrow> items q qs = sort_key fst xs \<Longrightarrow> map_option fst (queue_run ops q) = Some (arrival_run ops xs)"
proof (induction ops arbitrary: q qs fs xs)
  case (Cons x ops)
  obtain q' qs' fs' where r: "queue_step x q = Some (fst (arrival_step x xs), q')" "queue_of q' qs' fs' []"
      "items q' qs' = sort_key fst (snd (arrival_step x xs))" using queue_step_arrival [OF Cons.prems] by blast
  then show ?case using Cons.IH [OF r(2,3)] by (auto simp: option.map_comp comp_def split_def)
qed simp


subsection \<open>Up to eight values\<close>

fun arrival_state :: "'v queue_op list \<Rightarrow> (int \<times> 'v) list \<Rightarrow> (int \<times> 'v) list" where
  "arrival_state [] xs = xs"
| "arrival_state (x # ops) xs = arrival_state ops (snd (arrival_step x xs))"

fun most_pending :: "'v queue_op list \<Rightarrow> (int \<times> 'v) list \<Rightarrow> nat" where
  "most_pending [] xs = length xs"
| "most_pending (x # ops) xs = max (length xs) (most_pending ops (snd (arrival_step x xs)))"

text \<open>No block was made, and the free list ends where \<^verbatim>\<open>_free.last\<close> says.\<close>

definition small :: "'v pqueue \<Rightarrow> nat list \<Rightarrow> nat list \<Rightarrow> nat list \<Rightarrow> bool" where
  "small q qs fs hs \<longleftrightarrow> queue_of q qs fs hs \<and> q_made q = 0 \<and> q_live q = [] \<and> \<not> q_fault q \<and> f_last q = (if fs = [] then 0 else last fs)
     \<and> length qs + length fs + length hs = PreallocatedNodes"

lemma small_block: "small q qs fs hs \<Longrightarrow> a \<in> set (qs @ fs @ hs) \<Longrightarrow> block_of a = 0 \<and> node_block q a = 0 \<and> a \<noteq> 0"
  using queue_node [of q qs fs hs a] by (simp add: small_def)

lemma small_push:
  assumes S: "small q qs fs []" and l: "length qs < PreallocatedNodes"
  obtains q' qs' fs' where "Queue_push p insertFirst v q = Some q'" "small q' qs' fs' []" "items q' qs' = place p insertFirst v (items q qs)"
proof -
  obtain x fs' where fs: "fs = x # fs'" using S l by (cases fs) (auto simp: small_def)
  have Q: "queue_of q qs (x # fs') []" using S fs by (simp add: small_def)
  obtain a q1 where a: "Queue_allocateNode q = (a, q1)" by (cases "Queue_allocateNode q")
  note f = Queue_allocateNode_free [OF Q a]
  have l1: "f_last q1 = (if fs' = [] then 0 else last fs')" using f(7) S fs by (simp add: small_def)
  have "Queue_allocateNode q = (x, q1)" using a f(1) by simp
  from this f(2,3) obtain q' qs' where q': "Queue_push p insertFirst v q = Some q'" "queue_of q' qs' fs' []"
    "items q' qs' = place p insertFirst v (items q qs)" "length qs' = Suc (length qs)" "f_last q' = f_last q1" "q_made q' = q_made q1"
    "q_live q' = q_live q1" "q_fault q' = q_fault q1" by (rule Queue_push_with [where p = p and insertFirst = insertFirst and v = v])
  have "small q' qs' fs' []" using q' S fs f(4-6) l1 by (simp add: small_def)
  then show thesis by (rule that [OF q'(1) _ q'(3)])
qed

lemma small_pop:
  assumes S: "small q (x # qs) fs []"
  obtains q' where "popNode q = (x, q')" "small q' qs fs [x]" "same_values q q'"
proof -
  have Q: "queue_of q (x # qs) fs []" using S by (simp add: small_def)
  show thesis by (rule popNode_result [OF Q]) (use S that in \<open>auto simp: small_def\<close>)
qed

lemma small_free:
  assumes S: "small q qs fs (x # hs)"
  obtains q' where "freeNode x q = Some q'" "small q' qs (x # fs) hs" "same_values q q'"
proof -
  have Q: "queue_of q qs fs (x # hs)" "block_of x = 0" "x \<noteq> 0" using S small_block [OF S, of x] by (simp_all add: small_def)
  obtain q' where q': "freeNode x q = Some q'" "queue_of q' qs (x # fs) hs" "same_values q q'" "q_made q' = q_made q" "q_live q' = q_live q"
    "q_fault q' = q_fault q" "f_last q' = (if f_last q = 0 then x else f_last q)" by (rule freeNode_preallocated [OF Q(1,2)])
  have "f_last q' = last (x # fs)" using q'(7) queue_parts(9) [OF Q(1)] S by (cases "fs = []") (auto simp: small_def)
  then show thesis using that q' S by (simp add: small_def)
qed

lemma small_clear: "small q qs fs [] \<Longrightarrow> \<exists>q' fs'. Queue_clear q = Some q' \<and> small q' [] fs' []"
proof (induction qs arbitrary: q fs)
  case Nil
  then have "queue_of q [] fs []" by (simp add: small_def)
  then show ?case using Nil by (subst Queue_clear.simps) (auto simp: popNode_empty)
next
  case (Cons x qs)
  obtain q1 where q1: "popNode q = (x, q1)" "small q1 qs fs [x]" "same_values q q1" by (rule small_pop [OF Cons.prems])
  obtain q2 where q2: "freeNode x q1 = Some q2" "small q2 qs (x # fs) []" "same_values q1 q2" by (rule small_free [OF q1(2)])
  have "x \<noteq> 0" using small_block [OF Cons.prems, of x] by simp
  then show ?case using Cons.IH [OF q2(2)] q1(1) q2(1) by (subst Queue_clear.simps) simp
qed

lemma queue_step_small:
  assumes S: "small q qs fs []" and i: "items q qs = sort_key fst xs" and l: "length (snd (arrival_step x xs)) \<le> PreallocatedNodes"
  shows "\<exists>y q' qs' fs'. queue_step x q = Some (y, q') \<and> small q' qs' fs' [] \<and> items q' qs' = sort_key fst (snd (arrival_step x xs))"
proof -
  have Q: "queue_of q qs fs []" using S by (simp add: small_def)
  have len: "length qs = length xs" using arg_cong [OF i, of length] by simp
  obtain q0 qs0 fs0 where r: "queue_step x q = Some (fst (arrival_step x xs), q0)" "queue_of q0 qs0 fs0 []"
      "items q0 qs0 = sort_key fst (snd (arrival_step x xs))" using queue_step_arrival [OF Q i] by blast
  show ?thesis
  proof (cases x)
    case (Op_push p insertFirst v)
    have "length qs < PreallocatedNodes" using l len Op_push by (cases insertFirst) simp_all
    then obtain q' qs' fs' where "Queue_push p insertFirst v q = Some q'" "small q' qs' fs' []" "items q' qs' = place p insertFirst v (items q qs)"
      by (rule small_push [OF S])
    moreover have "place p insertFirst v (items q qs) = sort_key fst (snd (arrival_step x xs))"
      by (cases insertFirst) (simp_all add: Op_push place_back place_front i)
    ultimately show ?thesis using Op_push by auto
  next
    case Op_pop
    show ?thesis
    proof (cases qs)
      case Nil
      then show ?thesis using Queue_pop_empty [of q fs] Q S i Op_pop by (auto split: list.splits)
    next
      case (Cons y ys)
      obtain q1 where q1: "popNode q = (y, q1)" "small q1 ys fs [y]" "same_values q q1" by (rule small_pop [OF S [unfolded Cons]])
      obtain q2 where q2: "freeNode y q1 = Some q2" "small q2 ys (y # fs) []" "same_values q1 q2" by (rule small_free [OF q1(2)])
      have "y \<noteq> 0" using small_block [OF S, of y] Cons by simp
      then have "queue_step x q = Some (Popped (Some (item q1 y)), q2)" by (simp add: Op_pop Queue_pop_def item_def q1(1) q2(1))
      moreover have "items q2 ys = sort_key fst (snd (arrival_step x xs))"
      proof -
        have s: "sort_key fst xs = item q y # items q ys" using i Cons by simp
        then show ?thesis using sort_key_pop [OF s] item_same [OF q1(3)] item_same [OF q2(3)] by (simp add: Op_pop)
      qed
      ultimately show ?thesis using q2(2) by blast
    qed
  next
    case Op_clear
    then show ?thesis using small_clear [OF S] by auto
  qed (use S i Queue_foreach_result [OF Q] in auto)
qed

lemma queue_run_small:
  "small q qs fs [] \<Longrightarrow> items q qs = sort_key fst xs \<Longrightarrow> most_pending ops xs \<le> PreallocatedNodes \<Longrightarrow>
   \<exists>ys q' qs' fs'. queue_run ops q = Some (ys, q') \<and> small q' qs' fs' [] \<and> items q' qs' = sort_key fst (arrival_state ops xs)"
proof (induction ops arbitrary: q qs fs xs)
  case (Cons x ops)
  define zs where "zs = snd (arrival_step x xs)"
  have m: "most_pending ops zs \<le> PreallocatedNodes" using Cons.prems(3) by (simp add: zs_def)
  have "length zs \<le> most_pending ops zs" by (cases ops) simp_all
  then obtain y q' qs' fs' where r: "queue_step x q = Some (y, q')" "small q' qs' fs' []" "items q' qs' = sort_key fst zs"
    using queue_step_small [OF Cons.prems(1,2), of x] m by (auto simp: zs_def)
  then show ?case using Cons.IH [OF r(2,3) m] by (auto simp: zs_def)
qed auto

lemma count_from_result: "chain (links_of q) a fs \<Longrightarrow> count_from q n a = Some (n + length fs)"
proof (induction fs arbitrary: a n)
  case Nil
  then show ?case by (subst count_from.simps) simp
next
  case (Cons x fs)
  then have "count_from q (n + 1) (next_of q x) = Some (n + 1 + length fs)" by simp
  then show ?case using Cons.prems by (subst count_from.simps) simp
qed

lemma small_make: "small (PriorityQueue_make v) [] [1..<9] []"
  using PriorityQueue_make_of [of v] by (simp add: small_def) (simp add: PriorityQueue_make_def PreallocatedNodes_def)

text \<open>
  C11: while no more than eight values are pending the queue never makes a block nor writes through a dangling
  pointer, and each of its eight nodes holds a value or is found on the free list.
\<close>

theorem queue_of_eight_is_safe:
  assumes "most_pending ops [] \<le> PreallocatedNodes"
  shows "\<exists>ys q. queue_run ops (PriorityQueue_make v) = Some (ys, q) \<and> \<not> q_fault q \<and> q_made q = 0
    \<and> Queue_free_capacity q = Some (PreallocatedNodes - length (arrival_state ops []))"
proof -
  obtain ys q qs fs where r: "queue_run ops (PriorityQueue_make v) = Some (ys, q)" "small q qs fs []" "items q qs = sort_key fst (arrival_state ops [])"
    using queue_run_small [OF small_make _ assms] by (metis list.map_disc_iff sort_key_simps(1))
  have "chain (links_of q) (f_first q) fs" using r(2) queue_parts(3) [of q qs fs "[]"] by (simp add: small_def)
  then have "Queue_free_capacity q = Some (length fs)" using count_from_result [of q "f_first q" fs 0] by (simp add: Queue_free_capacity_def)
  moreover have "length qs = length (arrival_state ops [])" using arg_cong [OF r(3), of length] by simp
  ultimately show ?thesis using r(1,2) by (auto simp: small_def)
qed

theorem queue_of_eight_is_safe_witness:
  "\<exists>ys q. queue_run [Op_push 3 False ''a'', Op_push 1 True ''b'', Op_pop] (PriorityQueue_make []) = Some (ys, q) \<and> \<not> q_fault q \<and> q_made q = 0
    \<and> Queue_free_capacity q = Some (PreallocatedNodes - length (arrival_state [Op_push 3 False ''a'', Op_push 1 True ''b'', Op_pop] []))"
  by (rule queue_of_eight_is_safe) (simp add: PreallocatedNodes_def)

subsection \<open>The destructor\<close>

text \<open>A node is put in front of the free list before its link is read: the next one visited is a free node, then the first again.\<close>

lemma destroy_from_turns:
  assumes "destroy_from n q visited = Some r"
  shows "\<not> (n \<noteq> 0 \<and> f_first q \<noteq> 0 \<and> f_first q \<noteq> n \<and> node_block q n = 0 \<and> node_block q (f_first q) = 0)"
proof -
  let ?P = "\<lambda>n q visited r. \<not> (n \<noteq> 0 \<and> f_first q \<noteq> 0 \<and> f_first q \<noteq> n \<and> node_block q n = 0 \<and> node_block q (f_first q) = 0)"
  show ?thesis
  proof (rule destroy_from.raw_induct [where P = ?P, OF _ assms], rule notI)
    fix rec :: "nat \<Rightarrow> 'a pqueue \<Rightarrow> nat list \<Rightarrow> nat list option" and n q visited r
    assume IH: "\<And>n q visited r. rec n q visited = Some r \<Longrightarrow> ?P n q visited r"
      and r: "(if n \<noteq> 0 then Option.bind (freeNode n q) (\<lambda>q. rec (next_of q n) q (visited @ [n])) else Some visited) = Some r"
      and n: "n \<noteq> 0 \<and> f_first q \<noteq> 0 \<and> f_first q \<noteq> n \<and> node_block q n = 0 \<and> node_block q (f_first q) = 0"
    define q1 where "q1 = (set_next n (f_first q) q)\<lparr> f_first := n \<rparr>"
    define q2 where "q2 = (if f_last q1 = 0 then q1\<lparr> f_last := f_first q1 \<rparr> else q1)"
    have f: "freeNode n q = Some q2" using n by (simp add: freeNode_def q2_def q1_def Let_def)
    have q2: "f_first q2 = n" "next_of q2 n = f_first q" "node_block q2 x = node_block q x" for x by (simp_all add: q2_def q1_def next_set)
    have "rec (f_first q) q2 (visited @ [n]) = Some r" using r n f q2(2) by simp
    then show False using IH n q2 by metis
  qed
qed



subsection \<open>Every value is served\<close>

lemma arrival_run_append: "arrival_run (xs @ ys) zs = arrival_run xs zs @ arrival_run ys (arrival_state xs zs)"
  by (induction xs arbitrary: zs) simp_all

lemma arrival_pops: "sort_key fst xs = ys \<Longrightarrow> arrival_run (replicate (length ys) Op_pop @ zs) xs = map (\<lambda>y. Popped (Some y)) ys @ arrival_run zs []"
proof (induction ys arbitrary: xs)
  case Nil
  then have "xs = []" by (metis length_0_conv length_sort)
  then show ?case by simp
next
  case (Cons y ys)
  then show ?case using sort_key_pop [OF Cons.prems] by simp
qed


section \<open>A block that comes and goes\<close>

text \<open>One block is in use through one of its nodes; then there is none and the end of the free list is in it.\<close>

definition preallocated :: "nat list \<Rightarrow> nat" where
  "preallocated xs = length (filter (\<lambda>a. block_of a = 0) xs)"

lemma preallocated_simps [simp]:
  "preallocated [] = 0" "preallocated (x # xs) = (if block_of x = 0 then 1 else 0) + preallocated xs"
  "preallocated (xs @ ys) = preallocated xs + preallocated ys"
  by (simp_all add: preallocated_def)

definition one_block :: "'v pqueue \<Rightarrow> nat list \<Rightarrow> nat list \<Rightarrow> bool" where
  "one_block q qs fs \<longleftrightarrow> queue_of q qs fs [] \<and> q_live q = [1] \<and> length (filter (\<lambda>a. block_of a \<noteq> 0) qs) = 1
     \<and> preallocated qs + preallocated fs = PreallocatedNodes"

definition astray :: "'v pqueue \<Rightarrow> nat list \<Rightarrow> nat list \<Rightarrow> bool" where
  "astray q qs fs \<longleftrightarrow> queue_of q qs fs [] \<and> q_live q = [] \<and> f_last q \<noteq> 0 \<and> block_of (f_last q) \<noteq> 0
     \<and> length qs + length fs = PreallocatedNodes"

lemma ninth_push:
  assumes S: "small q qs [] []"
  obtains q' qs' fs' where "Queue_push p insertFirst v q = Some q'" "one_block q' qs' fs'" "length qs' = Suc (length qs)"
proof -
  obtain a q1 where a: "Queue_allocateNode q = (a, q1)" by (cases "Queue_allocateNode q")
  have Q: "queue_of q qs [] []" using S by (simp add: small_def)
  note n = Queue_allocateNode_new [OF Q a]
  obtain fs where fs: "queue_of q1 qs fs [a]" "\<forall>x\<in>set fs. block_of x \<noteq> 0" using n(1) by blast
  obtain q' qs' where q': "Queue_push p insertFirst v q = Some q'" "queue_of q' qs' fs []"
    "items q' qs' = place p insertFirst v (items q qs)" "length qs' = Suc (length qs)" "f_last q' = f_last q1" "q_made q' = q_made q1"
    "q_live q' = q_live q1" "q_fault q' = q_fault q1" "\<forall>R. length (filter R qs') = length (filter R qs) + (if R a then 1 else 0)"
    by (rule Queue_push_with [OF a fs(1) n(2), where p = p and insertFirst = insertFirst and v = v])
  have z: "\<forall>x\<in>set qs. block_of x = 0" using small_block [OF S] by simp
  then have "filter (\<lambda>a. block_of a \<noteq> 0) qs = []" "filter (\<lambda>a. block_of a = 0) qs = qs" by simp_all
  moreover have "filter (\<lambda>a. block_of a = 0) fs = []" using fs(2) by simp
  ultimately have "one_block q' qs' fs"
    using q'(2,7,9) n(3,4) S by (simp add: one_block_def small_def preallocated_def)
  then show thesis by (rule that [OF q'(1) _ q'(4)])
qed

lemma one_block_pop:
  assumes O: "one_block q (x # qs) fs"
  obtains q' fs' where "queue_step Op_pop q = Some (Popped (Some (item q x)), q')" "one_block q' qs fs' \<or> astray q' qs fs'"
proof -
  have Q: "queue_of q (x # qs) fs []" using O by (simp add: one_block_def)
  obtain q1 where q1: "popNode q = (x, q1)" "queue_of q1 qs fs [x]" "same_values q q1" "q_made q1 = q_made q" "q_live q1 = q_live q"
    "q_fault q1 = q_fault q" "f_last q1 = f_last q" by (rule popNode_result [OF Q])
  have x0: "x \<noteq> 0" using queue_node(1) [OF Q, of x] by simp
  have step: "queue_step Op_pop q = Some (Popped (Some (item q x)), q')" if "freeNode x q1 = Some q'" for q'
    using that q1(1) x0 item_same [OF q1(3)] by (simp add: Queue_pop_def item_def fun_eq_iff)
  show thesis
  proof (cases "block_of x = 0")
    case True
    obtain q' where q': "freeNode x q1 = Some q'" "queue_of q' qs (x # fs) []" "same_values q1 q'" "q_made q' = q_made q1" "q_live q' = q_live q1"
      "q_fault q' = q_fault q1" "f_last q' = (if f_last q1 = 0 then x else f_last q1)" by (rule freeNode_preallocated [OF q1(2) True])
    have "one_block q' qs (x # fs)" using O q'(2,5) q1(5) True by (simp add: one_block_def)
    then show thesis using that step [OF q'(1)] by blast
  next
    case False
    obtain q' fs' where q': "freeNode x q1 = Some q'" "queue_of q' qs fs' []" "f_last q' = x"
      "filter (\<lambda>x. block_of x = 0) fs' = filter (\<lambda>x. block_of x = 0) fs"
      "q_live q' = (if block_of x \<in> block_of ` set (qs @ []) then q_live q1 else removeAll (block_of x) (q_live q1))"
      using freeNode_block [OF q1(2) False] by blast
    have none: "filter (\<lambda>a. block_of a \<noteq> 0) qs = []" using O False by (simp add: one_block_def)
    then have qs0: "\<forall>a\<in>set qs. block_of a = 0" by (simp add: filter_empty_conv)
    have "block_of x = 1" using queue_node(4) [OF Q, of x] O False by (simp add: one_block_def)
    then have live: "q_live q' = []" using q'(5) qs0 q1(5) O by (auto simp: one_block_def)
    have fs0: "\<forall>a\<in>set fs'. block_of a = 0" using queue_node(4) [OF q'(2)] live by simp
    have "filter (\<lambda>x. block_of x = 0) fs' = fs'" "filter (\<lambda>x. block_of x = 0) qs = qs" using fs0 qs0 by simp_all
    then have "length qs + length fs' = PreallocatedNodes" using O False q'(4) by (simp add: one_block_def preallocated_def)
    then have "astray q' qs fs'" using q'(2,3) live x0 False by (simp add: astray_def)
    then show thesis using that step [OF q'(1)] by blast
  qed
qed

lemma astray_pop:
  assumes A: "astray q (x # qs) fs"
  obtains q' fs' where "queue_step Op_pop q = Some (Popped (Some (item q x)), q')" "astray q' qs fs'"
proof -
  have Q: "queue_of q (x # qs) fs []" using A by (simp add: astray_def)
  obtain q1 where q1: "popNode q = (x, q1)" "queue_of q1 qs fs [x]" "same_values q q1" "q_made q1 = q_made q" "q_live q1 = q_live q"
    "q_fault q1 = q_fault q" "f_last q1 = f_last q" by (rule popNode_result [OF Q])
  have x: "x \<noteq> 0" "block_of x = 0" using queue_node [OF Q, of x] A by (simp_all add: astray_def)
  obtain q' where q': "freeNode x q1 = Some q'" "queue_of q' qs (x # fs) []" "same_values q1 q'" "q_made q' = q_made q1" "q_live q' = q_live q1"
    "q_fault q' = q_fault q1" "f_last q' = (if f_last q1 = 0 then x else f_last q1)" by (rule freeNode_preallocated [OF q1(2) x(2)])
  have "queue_step Op_pop q = Some (Popped (Some (item q x)), q')"
    using q'(1) q1(1) x(1) item_same [OF q1(3)] by (simp add: Queue_pop_def item_def fun_eq_iff)
  moreover have "astray q' qs (x # fs)" using A q' q1 by (simp add: astray_def)
  ultimately show thesis by (rule that)
qed

lemma astray_push:
  assumes A: "astray q qs (x # fs)"
  obtains q' qs' where "Queue_push p insertFirst v q = Some q'" "astray q' qs' fs"
proof -
  obtain a q1 where a: "Queue_allocateNode q = (a, q1)" by (cases "Queue_allocateNode q")
  have Q: "queue_of q qs (x # fs) []" using A by (simp add: astray_def)
  note f = Queue_allocateNode_free [OF Q a]
  have "block_of x = 0" using queue_node(4) [OF Q, of x] A by (simp add: astray_def)
  then have l: "f_last q1 = f_last q" using A by (intro f(8)) (auto simp: astray_def)
  have "Queue_allocateNode q = (x, q1)" using a f(1) by simp
  from this f(2,3) obtain q' qs' where q': "Queue_push p insertFirst v q = Some q'" "queue_of q' qs' fs []"
    "items q' qs' = place p insertFirst v (items q qs)" "length qs' = Suc (length qs)" "f_last q' = f_last q1" "q_made q' = q_made q1"
    "q_live q' = q_live q1" by (rule Queue_push_with [where p = p and insertFirst = insertFirst and v = v])
  have "astray q' qs' fs" using A q' l f(5) by (simp add: astray_def)
  then show thesis by (rule that [OF q'(1)])
qed

lemma astray_fault:
  assumes A: "astray q qs []"
  obtains q' where "Queue_push p insertFirst v q = Some q'" "q_fault q'"
proof -
  obtain a q1 where a: "Queue_allocateNode q = (a, q1)" by (cases "Queue_allocateNode q")
  have Q: "queue_of q qs [] []" using A by (simp add: astray_def)
  note n = Queue_allocateNode_new [OF Q a]
  have "q_fault q1" using A by (intro n(5)) (simp_all add: astray_def)
  moreover obtain fs where fs: "queue_of q1 qs fs [a]" using n(1) by blast
  moreover obtain q' where "Queue_push p insertFirst v q = Some q'" "q_fault q' = q_fault q1"
    by (rule Queue_push_with [OF a fs n(2), where p = p and insertFirst = insertFirst and v = v])
  ultimately show thesis using that by blast
qed

abbreviation pushes :: "(int \<times> bool \<times> 'v) list \<Rightarrow> 'v queue_op list" where
  "pushes xs \<equiv> map (\<lambda>(p, insertFirst, v). Op_push p insertFirst v) xs"

lemma queue_run_append:
  "queue_run xs q = Some (as, q1) \<Longrightarrow> queue_run ys q1 = Some (bs, q2) \<Longrightarrow> queue_run (xs @ ys) q = Some (as @ bs, q2)"
proof (induction xs arbitrary: q as)
  case (Cons x xs)
  obtain y q' cs where x: "queue_step x q = Some (y, q')" "queue_run xs q' = Some (cs, q1)" "as = y # cs"
    using Cons.prems(1) by (auto simp: Option.bind_eq_Some_conv)
  show ?case using Cons.IH [OF x(2) Cons.prems(2)] x(1,3) by simp
qed simp

lemma small_pushes:
  "small q qs fs [] \<Longrightarrow> length qs + length xs \<le> PreallocatedNodes \<Longrightarrow>
   \<exists>ys q' qs' fs'. queue_run (pushes xs) q = Some (ys, q') \<and> small q' qs' fs' [] \<and> length qs' = length qs + length xs"
proof (induction xs arbitrary: q qs fs)
  case (Cons x xs)
  obtain p f v where x: "x = (p, f, v)" by (cases x)
  have "length qs < PreallocatedNodes" using Cons.prems(2) by simp
  then obtain q' qs' fs' where r: "Queue_push p f v q = Some q'" "small q' qs' fs' []" "items q' qs' = place p f v (items q qs)"
    by (rule small_push [OF Cons.prems(1)])
  have "length (place p f v (items q qs)) = Suc (length (items q qs))"
    unfolding place_def Let_def using place_filter [where R = "\<lambda>x. True" and qs = "items q qs"] by simp
  then have l: "length qs' = Suc (length qs)" using arg_cong [OF r(3), of length] by simp
  have "length qs' + length xs \<le> PreallocatedNodes" using Cons.prems(2) l by simp
  from Cons.IH [OF r(2) this] obtain ys q'' qs'' fs'' where
    "queue_run (pushes xs) q' = Some (ys, q'')" "small q'' qs'' fs'' []" "length qs'' = length qs' + length xs" by blast
  then show ?case using r(1) l by (intro exI [of _ "Done # ys"] exI [of _ q''] exI [of _ qs''] exI [of _ fs'']) (simp add: x)
qed auto

lemma block_pops:
  "one_block q qs fs \<or> astray q qs fs \<Longrightarrow> \<exists>ys q' fs'. queue_run (replicate (length qs) Op_pop) q = Some (ys, q') \<and> astray q' [] fs'"
proof (induction qs arbitrary: q fs)
  case Nil
  then show ?case by (auto simp: one_block_def)
next
  case (Cons x qs)
  obtain q' fs' where r: "queue_step Op_pop q = Some (Popped (Some (item q x)), q')" "one_block q' qs fs' \<or> astray q' qs fs'"
    using Cons.prems by (elim disjE one_block_pop astray_pop) blast+
  obtain ys q'' fs'' where "queue_run (replicate (length qs) Op_pop) q' = Some (ys, q'')" "astray q'' [] fs''" using Cons.IH [OF r(2)] by blast
  then show ?case using r(1) by (auto simp del: queue_step.simps)
qed

lemma astray_pushes:
  "astray q qs fs \<Longrightarrow> length xs = length fs \<Longrightarrow> \<exists>ys q' qs'. queue_run (pushes xs) q = Some (ys, q') \<and> astray q' qs' []"
proof (induction xs arbitrary: q qs fs)
  case (Cons x xs)
  obtain p f v where x: "x = (p, f, v)" by (cases x)
  obtain y fs' where fs: "fs = y # fs'" using Cons.prems(2) by (cases fs) auto
  obtain q' qs' where r: "Queue_push p f v q = Some q'" "astray q' qs' fs'" by (rule astray_push [OF Cons.prems(1) [unfolded fs]])
  have "length xs = length fs'" using Cons.prems(2) fs by simp
  from Cons.IH [OF r(2) this] obtain ys q'' qs'' where "queue_run (pushes xs) q' = Some (ys, q'')" "astray q'' qs'' []" by blast
  then show ?case using r(1) by (intro exI [of _ "Done # ys"] exI [of _ q''] exI [of _ qs'']) (simp add: x)
qed auto

text \<open>
  C12: when nine values were pending and are all taken, the block made for the ninth is deleted while \<^verbatim>\<open>_free.last\<close> still points
  into it; pushing nine values again writes through that pointer.
\<close>

theorem queue_writes_to_deleted_block:
  assumes "length xs = PreallocatedNodes + 1" "length ys = PreallocatedNodes + 1"
  shows "\<exists>out q. queue_run (pushes xs @ replicate (PreallocatedNodes + 1) Op_pop @ pushes ys) (PriorityQueue_make v) = Some (out, q) \<and> q_fault q"
proof -
  have last9: "\<exists>us p f w. zs = us @ [(p, f, w)] \<and> length us = PreallocatedNodes" if "length zs = PreallocatedNodes + 1" for zs :: "(int \<times> bool \<times> 'a) list"
    using that by (cases zs rule: rev_cases) auto
  obtain us p f w where xs: "xs = us @ [(p, f, w)]" "length us = PreallocatedNodes" using last9 [OF assms(1)] by blast
  obtain us' p' f' w' where ys: "ys = us' @ [(p', f', w')]" "length us' = PreallocatedNodes" using last9 [OF assms(2)] by blast
  obtain o1 q1 qs1 fs1 where r1: "queue_run (pushes us) (PriorityQueue_make v) = Some (o1, q1)" "small q1 qs1 fs1 []" "length qs1 = PreallocatedNodes"
    using small_pushes [OF small_make, of us v] xs(2) by auto
  have "fs1 = []" using r1(2,3) by (simp add: small_def)
  then obtain q2 qs2 fs2 where r2: "Queue_push p f w q1 = Some q2" "one_block q2 qs2 fs2" "length qs2 = Suc (length qs1)"
    using ninth_push [of q1 qs1 p f w] r1(2) by blast
  obtain o3 q3 fs3 where r3: "queue_run (replicate (length qs2) Op_pop) q2 = Some (o3, q3)" "astray q3 [] fs3" using block_pops r2(2) by blast
  have "length us' = length fs3" using r3(2) ys(2) by (simp add: astray_def)
  then obtain o4 q4 qs4 where r4: "queue_run (pushes us') q3 = Some (o4, q4)" "astray q4 qs4 []" using astray_pushes [OF r3(2)] by blast
  obtain q5 where r5: "Queue_push p' f' w' q4 = Some q5" "q_fault q5" by (rule astray_fault [OF r4(2)])
  have px: "queue_run (pushes xs) (PriorityQueue_make v) = Some (o1 @ [Done], q2)"
    unfolding xs(1) map_append by (rule queue_run_append [OF r1(1)]) (simp add: r2(1))
  have py: "queue_run (pushes ys) q3 = Some (o4 @ [Done], q5)"
    unfolding ys(1) map_append by (rule queue_run_append [OF r4(1)]) (simp add: r5(1))
  have "queue_run (replicate (PreallocatedNodes + 1) Op_pop) q2 = Some (o3, q3)" using r3(1) r2(3) r1(3) by simp
  from queue_run_append [OF px queue_run_append [OF this py]] show ?thesis using r5(2) by blast
qed

theorem queue_writes_to_deleted_block_witness:
  "\<exists>out q. queue_run (pushes (replicate 9 (0, False, ''a'')) @ replicate (PreallocatedNodes + 1) Op_pop @ pushes (replicate 9 (0, False, ''b'')))
     (PriorityQueue_make []) = Some (out, q) \<and> q_fault q"
  by (rule queue_writes_to_deleted_block) (simp_all add: PreallocatedNodes_def)

end
